(* ===== verification/CF_Prelude.thy ===== *)
theory CF_Prelude
  imports Main "HOL-Library.Word" "HOL-Library.Monad_Syntax" "HOL-Library.Multiset"
begin

unbundle bit_operations_syntax

text \<open>
  Shared vocabulary of the development: pointers and CoreFoundation's scalar types, raw C memory
  with checked reads and writes, the C library's \<^verbatim>\<open>flsl\<close>, the comparator interface, and the
  generic lemmas on lists and options that the component theories use.

  A C computation that can go wrong returns an \<open>option\<close>: \<open>None\<close> stands for undefined behaviour
  (a read outside an allocation or of memory never written, a signed overflow) or for a deliberate
  abort (\<^verbatim>\<open>HALT\<close>, \<^verbatim>\<open>CRASH\<close>). A theorem that an operation returns \<open>Some\<close> is therefore also a
  memory-safety theorem.
\<close>

named_theorems mem_simps \<open>reads and writes of raw memory\<close>

section \<open>Scalar types\<close>

text \<open>Opaque pointers; C compares them as unsigned addresses.\<close>

type_synonym ptr = "64 word"

abbreviation NULL :: ptr where
  "NULL \<equiv> 0"

text \<open>CFBase.h, \<^verbatim>\<open>CFComparisonResult\<close> (the C values are -1, 0 and 1).\<close>

datatype CFComparisonResult = kCFCompareLessThan | kCFCompareEqualTo | kCFCompareGreaterThan

text \<open>The truth value C gives to a comparison result: only \<^verbatim>\<open>kCFCompareEqualTo\<close> is zero.\<close>

definition cmp_true :: "CFComparisonResult \<Rightarrow> bool" where
  "cmp_true r \<longleftrightarrow> r \<noteq> kCFCompareEqualTo"

text \<open>CFBase.h, \<^verbatim>\<open>CFRange\<close>.\<close>

record CFRange =
  range_location :: nat
  range_length :: nat

definition CFRangeMake :: "nat \<Rightarrow> nat \<Rightarrow> CFRange" where
  "CFRangeMake loc len = \<lparr>range_location = loc, range_length = len\<rparr>"

section \<open>Raw memory\<close>

text \<open>
  A heap block of cells; \<open>None\<close> is a cell that has been allocated but never written. Reading it,
  or touching a cell outside the block, is undefined.
\<close>

type_synonym 'a mem = "'a option list"

definition mem_alloc :: "nat \<Rightarrow> 'a mem" where
  "mem_alloc n = replicate n None"

definition mem_realloc :: "'a mem \<Rightarrow> nat \<Rightarrow> 'a mem" where
  "mem_realloc m n = take n m @ replicate (n - length m) None"

definition rd :: "'a mem \<Rightarrow> nat \<Rightarrow> 'a option" where
  "rd m i = (if i < length m then m ! i else None)"

definition wr :: "'a mem \<Rightarrow> nat \<Rightarrow> 'a \<Rightarrow> 'a mem option" where
  "wr m i v = (if i < length m then Some (m[i := Some v]) else None)"

text \<open>Checked access to an array all of whose elements have a value.\<close>

definition aget :: "'a list \<Rightarrow> nat \<Rightarrow> 'a option" where
  "aget xs i = (if i < length xs then Some (xs ! i) else None)"

definition aset :: "'a list \<Rightarrow> nat \<Rightarrow> 'a \<Rightarrow> 'a list option" where
  "aset xs i v = (if i < length xs then Some (xs[i := v]) else None)"

section \<open>The C library's flsl\<close>

text \<open>\<^verbatim>\<open>flsl\<close>: the position of the most significant set bit, counted from 1; 0 for 0.\<close>

fun flsl :: "nat \<Rightarrow> nat" where
  "flsl n = (if n = 0 then 0 else Suc (flsl (n div 2)))"

declare flsl.simps [simp del]

section \<open>Lemmas on memory\<close>

lemma length_mem_alloc [simp]: "length (mem_alloc n) = n"
  by (simp add: mem_alloc_def)

lemma length_mem_realloc [simp]: "length (mem_realloc m n) = n"
  by (auto simp: mem_realloc_def)

lemma nth_mem_realloc [simp]:
  "i < n \<Longrightarrow> i < length m \<Longrightarrow> mem_realloc m n ! i = m ! i"
  by (simp add: mem_realloc_def nth_append)

lemma take_mem_realloc [simp]: "k \<le> n \<Longrightarrow> k \<le> length m \<Longrightarrow> take k (mem_realloc m n) = take k m"
  by (simp add: mem_realloc_def min_def)

lemma rd_in [mem_simps]: "i < length m \<Longrightarrow> rd m i = m ! i"
  by (simp add: rd_def)

lemma wr_in [mem_simps]: "i < length m \<Longrightarrow> wr m i v = Some (m[i := Some v])"
  by (simp add: wr_def)

lemma aget_in [mem_simps]: "i < length xs \<Longrightarrow> aget xs i = Some (xs ! i)"
  by (simp add: aget_def)

lemma aset_in [mem_simps]: "i < length xs \<Longrightarrow> aset xs i v = Some (xs[i := v])"
  by (simp add: aset_def)

lemma rd_SomeD: "rd m i = Some v \<Longrightarrow> i < length m \<and> m ! i = Some v"
  by (auto simp: rd_def split: if_splits)

lemma wr_SomeD: "wr m i v = Some m' \<Longrightarrow> i < length m \<and> m' = m[i := Some v]"
  by (auto simp: wr_def split: if_splits)

lemma list_update_overwrite_swap:
  "i \<noteq> j \<Longrightarrow> xs[i := x, j := y] = xs[j := y, i := x]"
  by (rule list_update_swap)

lemma mset_update_move:
  assumes "i < length xs" "j < length xs" "i \<noteq> j"
  shows "mset (xs[i := xs ! j, j := v]) = mset (xs[i := v])"
proof -
  let ?ys = "xs[i := v]"
  have "mset (?ys[j := ?ys ! i, i := ?ys ! j]) = mset ?ys"
    by (rule mset_swap) (use assms in auto)
  moreover have "?ys[j := ?ys ! i, i := ?ys ! j] = xs[i := xs ! j, j := v]"
    using assms by (simp add: list_update_swap[of j i])
  ultimately show ?thesis by simp
qed

section \<open>Lemmas on flsl\<close>

lemma flsl_0 [simp]: "flsl 0 = 0"
  by (simp add: flsl.simps)

lemma flsl_pos: "0 < n \<Longrightarrow> flsl n = Suc (flsl (n div 2))"
  by (simp add: flsl.simps[of n])

lemma flsl_upper: "n < 2 ^ flsl n"
proof (induction n rule: flsl.induct)
  case (1 n)
  show ?case
  proof (cases "n = 0")
    case True
    then show ?thesis by simp
  next
    case False
    with 1 have "n div 2 < 2 ^ flsl (n div 2)" by simp
    with False show ?thesis by (simp add: flsl_pos)
  qed
qed

lemma flsl_lower: "0 < n \<Longrightarrow> 2 ^ (flsl n - 1) \<le> n"
proof (induction n rule: flsl.induct)
  case (1 n)
  show ?case
  proof (cases "n div 2 = 0")
    case True
    with 1 show ?thesis by (simp add: flsl_pos)
  next
    case False
    with 1 have IH: "2 ^ (flsl (n div 2) - 1) \<le> n div 2" by simp
    have "flsl (n div 2) = Suc (flsl (n div 2) - 1)"
      using False by (simp add: flsl_pos)
    with 1(2) have "(2::nat) ^ (flsl n - 1) = 2 * 2 ^ (flsl (n div 2) - 1)"
      by (metis diff_Suc_1 flsl_pos power_Suc)
    with IH show ?thesis by linarith
  qed
qed

lemma flsl_le_iff: "flsl n \<le> k \<longleftrightarrow> n < 2 ^ k"
proof
  assume "flsl n \<le> k"
  then have "(2::nat) ^ flsl n \<le> 2 ^ k" by (rule power_increasing) simp
  then show "n < 2 ^ k" using flsl_upper[of n] by linarith
next
  assume n: "n < 2 ^ k"
  show "flsl n \<le> k"
  proof (cases "n = 0")
    case False
    then have "(2::nat) ^ (flsl n - 1) < 2 ^ k" using flsl_lower[of n] n by linarith
    then have "flsl n - 1 < k" by simp
    then show ?thesis by linarith
  qed simp
qed

section \<open>The comparator interface\<close>

text \<open>
  Ordered collections take their order from a client callback. What they rely on is that "is
  greater than" is a strict weak order: the complement is a total preorder.
\<close>

locale cf_comparator =
  fixes gt :: "'a \<Rightarrow> 'a \<Rightarrow> bool"
  assumes gt_asym: "gt a b \<Longrightarrow> \<not> gt b a"
    and le_trans: "\<not> gt a b \<Longrightarrow> \<not> gt b c \<Longrightarrow> \<not> gt a c"
begin

lemma gt_irrefl [simp]: "\<not> gt a a"
  using gt_asym by blast

lemma le_total: "\<not> gt a b \<or> \<not> gt b a"
  using gt_asym by blast

lemma gt_le_trans: "gt a b \<Longrightarrow> \<not> gt a c \<Longrightarrow> gt c b"
  using le_trans by blast

lemma le_gt_trans: "\<not> gt a b \<Longrightarrow> gt c b \<Longrightarrow> gt c a"
  using le_trans by blast

end

end
