(* ===== verification/CF_Binary_Heap.thy ===== *)
theory CF_Binary_Heap
  imports CF_Prelude
begin

text \<open>
  \<^verbatim>\<open>CFBinaryHeap.c\<close>: a priority queue in an array. The record \<open>CFBinaryHeap\<close> is
  \<^verbatim>\<open>struct __CFBinaryHeap\<close>; every operation of the file that changes it is a definition here.
  The lemmas show that the order of the array is kept, that the operations act on the multiset of
  stored values as a priority queue does, that no operation reads outside the bucket array, and
  what \<^verbatim>\<open>__CFBinaryHeapEqual\<close> really computes.

  Client callbacks are parameters: \<^verbatim>\<open>retain\<close> maps the pointer it is given to the pointer it
  returns, \<^verbatim>\<open>compare\<close> is a function of two values and the context's info pointer. The calls of
  \<^verbatim>\<open>retain\<close> and \<^verbatim>\<open>release\<close> are recorded in order in \<open>bh_calls\<close>. Memory allocation is the
  parameter \<open>alloc\<close>, which says whether a request for that many bytes is served.
\<close>

section \<open>State\<close>

record CFBinaryHeapCallBacks =
  cb_retain :: "(ptr \<Rightarrow> ptr) option"
  cb_release :: bool
  cb_compare :: "(ptr \<Rightarrow> ptr \<Rightarrow> ptr \<Rightarrow> CFComparisonResult) option"

datatype cb_call = Retained ptr | Released ptr

record CFBinaryHeap =
  bh_count :: nat
  bh_capacity :: int
  bh_callbacks :: CFBinaryHeapCallBacks
  bh_info :: ptr
  bh_buckets :: "ptr mem"
  bh_mutable :: bool
  bh_calls :: "cb_call list"

text \<open>\<^verbatim>\<open>1 << flsl(capacity)\<close> is a shift of a 32-bit \<^verbatim>\<open>int\<close>: undefined from bit 31 on.\<close>

definition CFBinaryHeapRoundUpCapacity :: "nat \<Rightarrow> int option" where
  "CFBinaryHeapRoundUpCapacity capacity =
     (if capacity < 4 then Some 4
      else if flsl capacity < 31 then Some (2 ^ flsl capacity) else None)"

definition CFBinaryHeapNumBucketsForCapacity :: "int \<Rightarrow> int" where
  "CFBinaryHeapNumBucketsForCapacity capacity = capacity"

text \<open>The two ways the code compares values, with and without a \<^verbatim>\<open>compare\<close> callback.\<close>

definition bh_greater :: "CFBinaryHeap \<Rightarrow> ptr \<Rightarrow> ptr \<Rightarrow> bool" where
  "bh_greater h item item2 =
     (case cb_compare (bh_callbacks h) of
        None \<Rightarrow> item > item2
      | Some compare \<Rightarrow> compare item item2 (bh_info h) = kCFCompareGreaterThan)"

definition bh_not_greater :: "CFBinaryHeap \<Rightarrow> ptr \<Rightarrow> ptr \<Rightarrow> bool" where
  "bh_not_greater h item value =
     (case cb_compare (bh_callbacks h) of
        None \<Rightarrow> item \<le> value
      | Some compare \<Rightarrow> compare item value (bh_info h) \<noteq> kCFCompareGreaterThan)"

section \<open>Operations\<close>

definition CFBinaryHeapGrow ::
    "(int \<Rightarrow> bool) \<Rightarrow> CFBinaryHeap \<Rightarrow> nat \<Rightarrow> CFBinaryHeap option" where
  "CFBinaryHeapGrow alloc h numNewValues = do {
     capacity \<leftarrow> CFBinaryHeapRoundUpCapacity (bh_count h + numNewValues);
     let numBuckets = CFBinaryHeapNumBucketsForCapacity capacity;
     if alloc (numBuckets * 8)
     then Some (h\<lparr>bh_capacity := numBuckets,
                  bh_buckets := mem_realloc (bh_buckets h) (nat numBuckets)\<rparr>)
     else None
   }"

text \<open>The two loops. \<open>idx\<close> is the hole that is moved up (down) until the value fits into it.\<close>

fun CFBinaryHeapSiftUp ::
    "('v \<Rightarrow> 'v \<Rightarrow> bool) \<Rightarrow> 'v mem \<Rightarrow> 'v \<Rightarrow> nat \<Rightarrow> ('v mem \<times> nat) option" where
  "CFBinaryHeapSiftUp not_greater b v idx =
     (if 0 < idx
      then do {
        item \<leftarrow> rd b ((idx - 1) div 2);
        if not_greater item v then Some (b, idx)
        else do {
          b' \<leftarrow> wr b idx item;
          CFBinaryHeapSiftUp not_greater b' v ((idx - 1) div 2)
        }
      }
      else Some (b, idx))"

declare CFBinaryHeapSiftUp.simps [simp del]

definition CFBinaryHeapAddValue ::
    "(int \<Rightarrow> bool) \<Rightarrow> CFBinaryHeap \<Rightarrow> ptr \<Rightarrow> CFBinaryHeap option" where
  "CFBinaryHeapAddValue alloc h value = do {
     h1 \<leftarrow> (if bh_mutable h \<and> int (bh_count h) = bh_capacity h
            then CFBinaryHeapGrow alloc h 1 else Some h);
     let cnt = bh_count h1;
     let h2 = h1\<lparr>bh_count := cnt + 1\<rparr>;
     (b, idx) \<leftarrow> CFBinaryHeapSiftUp (bh_not_greater h2) (bh_buckets h2) value cnt;
     (case cb_retain (bh_callbacks h2) of
        Some retain \<Rightarrow> do {
          b' \<leftarrow> wr b idx (retain value);
          Some (h2\<lparr>bh_buckets := b', bh_calls := bh_calls h2 @ [Retained value]\<rparr>)
        }
      | None \<Rightarrow> do {
          b' \<leftarrow> wr b idx value;
          Some (h2\<lparr>bh_buckets := b'\<rparr>)
        })
   }"

definition CFBinaryHeapMinChild ::
    "('v \<Rightarrow> 'v \<Rightarrow> bool) \<Rightarrow> 'v mem \<Rightarrow> nat \<Rightarrow> nat \<Rightarrow> (nat \<times> 'v) option" where
  "CFBinaryHeapMinChild gt b cnt cidx = do {
     item \<leftarrow> rd b cidx;
     if cidx + 1 < cnt
     then do {
       item2 \<leftarrow> rd b (cidx + 1);
       Some (if gt item item2 then (cidx + 1, item2) else (cidx, item))
     }
     else Some (cidx, item)
   }"

function CFBinaryHeapSiftDown ::
    "('v \<Rightarrow> 'v \<Rightarrow> bool) \<Rightarrow> 'v mem \<Rightarrow> nat \<Rightarrow> 'v \<Rightarrow> nat \<Rightarrow> ('v mem \<times> nat) option" where
  "CFBinaryHeapSiftDown gt b cnt val idx =
     (if idx * 2 + 1 < cnt
      then (case CFBinaryHeapMinChild gt b cnt (idx * 2 + 1) of
              None \<Rightarrow> None
            | Some (cidx, item) \<Rightarrow>
                if gt item val then Some (b, idx)
                else do {
                  b' \<leftarrow> wr b idx item;
                  CFBinaryHeapSiftDown gt b' cnt val cidx
                })
      else Some (b, idx))"
  by pat_completeness auto
termination
  by (relation "measure (\<lambda>(g, b, cnt, val, idx). cnt - idx)")
     (auto simp: CFBinaryHeapMinChild_def bind_eq_Some_conv split: if_splits)

declare CFBinaryHeapSiftDown.simps [simp del]

definition CFBinaryHeapRemoveMinimumValue :: "CFBinaryHeap \<Rightarrow> CFBinaryHeap option" where
  "CFBinaryHeapRemoveMinimumValue h =
     (let cnt = bh_count h in
      if cnt = 0 then Some h
      else do {
        let h1 = h\<lparr>bh_count := cnt - 1\<rparr>;
        h2 \<leftarrow> (if cb_release (bh_callbacks h1)
               then do {
                 first \<leftarrow> rd (bh_buckets h1) 0;
                 Some (h1\<lparr>bh_calls := bh_calls h1 @ [Released first]\<rparr>)
               }
               else Some h1);
        val \<leftarrow> rd (bh_buckets h2) (cnt - 1);
        (b, idx) \<leftarrow> CFBinaryHeapSiftDown (bh_greater h2) (bh_buckets h2) (bh_count h2) val 0;
        b' \<leftarrow> wr b idx val;
        Some (h2\<lparr>bh_buckets := b'\<rparr>)
      })"

text \<open>\<^verbatim>\<open>CFBinaryHeapGetMinimum\<close> answers \<^verbatim>\<open>NULL\<close> on an empty heap.\<close>

definition CFBinaryHeapGetMinimum :: "CFBinaryHeap \<Rightarrow> ptr option" where
  "CFBinaryHeapGetMinimum h = (if 0 < bh_count h then rd (bh_buckets h) 0 else Some NULL)"

text \<open>The boolean result and the value written through a non-\<^verbatim>\<open>NULL\<close> out pointer.\<close>

definition CFBinaryHeapGetMinimumIfPresent :: "CFBinaryHeap \<Rightarrow> (bool \<times> ptr option) option" where
  "CFBinaryHeapGetMinimumIfPresent h =
     (if bh_count h = 0 then Some (False, None)
      else do { v \<leftarrow> rd (bh_buckets h) 0; Some (True, Some v) })"

definition CFBinaryHeapGetCount :: "CFBinaryHeap \<Rightarrow> nat" where
  "CFBinaryHeapGetCount h = bh_count h"

definition bh_matches :: "CFBinaryHeap \<Rightarrow> ptr \<Rightarrow> ptr \<Rightarrow> bool" where
  "bh_matches h value item \<longleftrightarrow> value = item \<or>
     (case cb_compare (bh_callbacks h) of
        None \<Rightarrow> False
      | Some compare \<Rightarrow> compare value item (bh_info h) = kCFCompareEqualTo)"

fun CFBinaryHeapCountLoop :: "CFBinaryHeap \<Rightarrow> ptr \<Rightarrow> nat \<Rightarrow> nat option" where
  "CFBinaryHeapCountLoop h value 0 = Some 0"
| "CFBinaryHeapCountLoop h value (Suc n) = do {
     cnt \<leftarrow> CFBinaryHeapCountLoop h value n;
     item \<leftarrow> rd (bh_buckets h) n;
     Some (if bh_matches h value item then cnt + 1 else cnt)
   }"

definition CFBinaryHeapGetCountOfValue :: "CFBinaryHeap \<Rightarrow> ptr \<Rightarrow> nat option" where
  "CFBinaryHeapGetCountOfValue h value = CFBinaryHeapCountLoop h value (bh_count h)"

function CFBinaryHeapContainsLoop :: "CFBinaryHeap \<Rightarrow> ptr \<Rightarrow> nat \<Rightarrow> bool option" where
  "CFBinaryHeapContainsLoop h value idx =
     (if idx < bh_count h
      then do {
        item \<leftarrow> rd (bh_buckets h) idx;
        if bh_matches h value item then Some True
        else CFBinaryHeapContainsLoop h value (idx + 1)
      }
      else Some False)"
  by pat_completeness auto
termination
  by (relation "measure (\<lambda>(h, v, idx). bh_count h - idx)") auto

declare CFBinaryHeapContainsLoop.simps [simp del]

definition CFBinaryHeapContainsValue :: "CFBinaryHeap \<Rightarrow> ptr \<Rightarrow> bool option" where
  "CFBinaryHeapContainsValue h value = CFBinaryHeapContainsLoop h value 0"

fun CFBinaryHeapAddAll ::
    "(int \<Rightarrow> bool) \<Rightarrow> CFBinaryHeap \<Rightarrow> ptr list \<Rightarrow> CFBinaryHeap option" where
  "CFBinaryHeapAddAll alloc h [] = Some h"
| "CFBinaryHeapAddAll alloc h (v # vs) = do {
     h' \<leftarrow> CFBinaryHeapAddValue alloc h v;
     CFBinaryHeapAddAll alloc h' vs
   }"

text \<open>
  \<^verbatim>\<open>__CFBinaryHeapInit\<close>; the outer \<open>option\<close> is undefined behaviour or an abort as everywhere, the
  inner one the \<^verbatim>\<open>NULL\<close> the function answers when memory is short. \<open>created\<close> says whether
  \<^verbatim>\<open>_CFRuntimeCreateInstance\<close> gives an instance. The requested capacity is ignored by the code. A
  \<^verbatim>\<open>NULL\<close> callbacks pointer leaves every callback empty.
\<close>

definition CFBinaryHeapInit ::
    "bool \<Rightarrow> (int \<Rightarrow> bool) \<Rightarrow> bool \<Rightarrow> ptr list \<Rightarrow> CFBinaryHeapCallBacks option \<Rightarrow> ptr option
      \<Rightarrow> CFBinaryHeap option option" where
  "CFBinaryHeapInit created alloc flags values callBacks compareContext =
     (if \<not> created then Some None else do {
        capacity \<leftarrow> CFBinaryHeapRoundUpCapacity 1;
        let numBuckets = CFBinaryHeapNumBucketsForCapacity capacity;
        if \<not> alloc (numBuckets * 8) then Some None else do {
          let memory = \<lparr>bh_count = 0, bh_capacity = numBuckets,
              bh_callbacks = (case callBacks of
                  Some cb \<Rightarrow> cb
                | None \<Rightarrow> \<lparr>cb_retain = None, cb_release = False, cb_compare = None\<rparr>),
              bh_info = (case compareContext of Some i \<Rightarrow> i | None \<Rightarrow> NULL),
              bh_buckets = mem_alloc (nat numBuckets), bh_mutable = True, bh_calls = []\<rparr>;
          memory' \<leftarrow> CFBinaryHeapAddAll alloc memory values;
          Some (Some (memory'\<lparr>bh_mutable := flags\<rparr>))
        }
      })"

definition CFBinaryHeapCreate ::
    "bool \<Rightarrow> (int \<Rightarrow> bool) \<Rightarrow> CFBinaryHeapCallBacks option \<Rightarrow> ptr option
      \<Rightarrow> CFBinaryHeap option option" where
  "CFBinaryHeapCreate created alloc callBacks compareContext =
     CFBinaryHeapInit created alloc True [] callBacks compareContext"

text \<open>The values of a copy are read from the bucket array of the original, front to back.\<close>

definition CFBinaryHeapCreateCopy ::
    "bool \<Rightarrow> (int \<Rightarrow> bool) \<Rightarrow> CFBinaryHeap \<Rightarrow> CFBinaryHeap option option" where
  "CFBinaryHeapCreateCopy created alloc h = do {
     values \<leftarrow> those (map (rd (bh_buckets h)) [0..<bh_count h]);
     CFBinaryHeapInit created alloc True values (Some (bh_callbacks h)) (Some (bh_info h))
   }"

text \<open>
  The drain loop of \<^verbatim>\<open>CFBinaryHeapGetValues\<close> and \<^verbatim>\<open>CFBinaryHeapApplyFunction\<close>: the values in the
  order the loop stores them (hands them to the applier). The copy is used unchecked, so a failed
  copy is undefined. The loop runs once per stored value; \<open>n\<close> bounds it and running out of it is
  \<open>None\<close>.
\<close>

fun CFBinaryHeapDrain :: "nat \<Rightarrow> CFBinaryHeap \<Rightarrow> ptr list option" where
  "CFBinaryHeapDrain n h =
     (if 0 < bh_count h
      then (case n of
              0 \<Rightarrow> None
            | Suc n' \<Rightarrow> do {
                value \<leftarrow> CFBinaryHeapGetMinimum h;
                h' \<leftarrow> CFBinaryHeapRemoveMinimumValue h;
                vs \<leftarrow> CFBinaryHeapDrain n' h';
                Some (value # vs)
              })
      else Some [])"

declare CFBinaryHeapDrain.simps [simp del]

definition CFBinaryHeapGetValues ::
    "bool \<Rightarrow> (int \<Rightarrow> bool) \<Rightarrow> CFBinaryHeap \<Rightarrow> ptr list option" where
  "CFBinaryHeapGetValues created alloc h =
     (if bh_count h = 0 then Some []
      else do {
        copy \<leftarrow> CFBinaryHeapCreateCopy created alloc h;
        heapCopy \<leftarrow> copy;
        CFBinaryHeapDrain (bh_count h) heapCopy
      })"

text \<open>The applier is called on each value in turn; \<open>s\<close> is the state it works on.\<close>

definition CFBinaryHeapApplyFunction ::
    "bool \<Rightarrow> (int \<Rightarrow> bool) \<Rightarrow> CFBinaryHeap \<Rightarrow> (ptr \<Rightarrow> 's \<Rightarrow> 's) \<Rightarrow> 's \<Rightarrow> 's option" where
  "CFBinaryHeapApplyFunction created alloc h applier s =
     (if bh_count h = 0 then Some s
      else do {
        copy \<leftarrow> CFBinaryHeapCreateCopy created alloc h;
        heapCopy \<leftarrow> copy;
        vs \<leftarrow> CFBinaryHeapDrain (bh_count h) heapCopy;
        Some (fold applier vs s)
      })"

definition CFBinaryHeapRemoveAllValues :: "CFBinaryHeap \<Rightarrow> CFBinaryHeap option" where
  "CFBinaryHeapRemoveAllValues h = do {
     h1 \<leftarrow> (if cb_release (bh_callbacks h)
            then do {
              vs \<leftarrow> those (map (rd (bh_buckets h)) [0..<bh_count h]);
              Some (h\<lparr>bh_calls := bh_calls h @ map Released vs\<rparr>)
            }
            else Some h);
     Some (h1\<lparr>bh_count := 0\<rparr>)
   }"

text \<open>\<^verbatim>\<open>__CFBinaryHeapEqual\<close>; \<open>same_compare\<close> says whether the two heaps' callback pointers agree.\<close>

fun CFBinaryHeapEqualLoop ::
    "CFBinaryHeap \<Rightarrow> ptr list \<Rightarrow> ptr list \<Rightarrow> bool" where
  "CFBinaryHeapEqualLoop h1 (val1 # vs1) (val2 # vs2) =
     (if val1 \<noteq> val2
      then (case cb_compare (bh_callbacks h1) of
              None \<Rightarrow> False
            | Some compare \<Rightarrow>
                if \<not> cmp_true (compare val1 val2 (bh_info h1)) then False
                else CFBinaryHeapEqualLoop h1 vs1 vs2)
      else CFBinaryHeapEqualLoop h1 vs1 vs2)"
| "CFBinaryHeapEqualLoop h1 _ _ = True"

definition CFBinaryHeapEqual ::
    "bool \<Rightarrow> (int \<Rightarrow> bool) \<Rightarrow> bool \<Rightarrow> CFBinaryHeap \<Rightarrow> CFBinaryHeap \<Rightarrow> bool option" where
  "CFBinaryHeapEqual created alloc same_compare h1 h2 =
     (if bh_count h1 \<noteq> bh_count h2 then Some False
      else if \<not> same_compare then Some False
      else if bh_count h1 = 0 then Some True
      else do {
        list1 \<leftarrow> CFBinaryHeapGetValues created alloc h1;
        list2 \<leftarrow> CFBinaryHeapGetValues created alloc h2;
        Some (CFBinaryHeapEqualLoop h1 list1 list2)
      })"

definition CFBinaryHeapHash :: "CFBinaryHeap \<Rightarrow> nat" where
  "CFBinaryHeapHash h = bh_count h"

text \<open>Deallocation, without a garbage collector: the bucket array is freed with its owner.\<close>

definition CFBinaryHeapDeallocate :: "CFBinaryHeap \<Rightarrow> CFBinaryHeap option" where
  "CFBinaryHeapDeallocate h = do {
     h' \<leftarrow> CFBinaryHeapRemoveAllValues h;
     Some (if bh_mutable h' then h'\<lparr>bh_buckets := []\<rparr> else h')
   }"

section \<open>Sequences of operations\<close>

text \<open>A client of a mutable heap, and the values its \<^verbatim>\<open>retain\<close> and \<^verbatim>\<open>release\<close> calls were made on.\<close>

datatype bh_op = OpAdd ptr | OpRemoveMinimum | OpRemoveAll

fun bh_apply :: "(int \<Rightarrow> bool) \<Rightarrow> bh_op \<Rightarrow> CFBinaryHeap \<Rightarrow> CFBinaryHeap option" where
  "bh_apply alloc (OpAdd v) h = CFBinaryHeapAddValue alloc h v"
| "bh_apply alloc OpRemoveMinimum h = CFBinaryHeapRemoveMinimumValue h"
| "bh_apply alloc OpRemoveAll h = CFBinaryHeapRemoveAllValues h"

fun bh_run :: "(int \<Rightarrow> bool) \<Rightarrow> bh_op list \<Rightarrow> CFBinaryHeap \<Rightarrow> CFBinaryHeap option" where
  "bh_run alloc [] h = Some h"
| "bh_run alloc (op # ops) h = do { h' \<leftarrow> bh_apply alloc op h; bh_run alloc ops h' }"

fun retained :: "cb_call list \<Rightarrow> ptr list" where
  "retained [] = []"
| "retained (Retained v # cs) = v # retained cs"
| "retained (Released v # cs) = retained cs"

fun released :: "cb_call list \<Rightarrow> ptr list" where
  "released [] = []"
| "released (Retained v # cs) = released cs"
| "released (Released v # cs) = v # released cs"

section \<open>The order of the array\<close>

definition mem_live :: "'a mem \<Rightarrow> nat \<Rightarrow> bool" where
  "mem_live b n \<longleftrightarrow> n \<le> length b \<and> (\<forall>i<n. b ! i \<noteq> None)"

definition heap_ordered :: "('v \<Rightarrow> 'v \<Rightarrow> bool) \<Rightarrow> 'v mem \<Rightarrow> nat \<Rightarrow> bool" where
  "heap_ordered gt b n \<longleftrightarrow> (\<forall>i<n. 0 < i \<longrightarrow> \<not> gt (the (b ! ((i - 1) div 2))) (the (b ! i)))"

text \<open>
  A hole at \<open>k\<close> into which \<open>v\<close> is to be put: the rest of the array is in order, also across the
  hole, and every child of the hole is at least \<open>v\<close> (moving up) or the parent of the hole is at
  most \<open>v\<close> (moving down).
\<close>

definition hole_rest :: "('v \<Rightarrow> 'v \<Rightarrow> bool) \<Rightarrow> 'v mem \<Rightarrow> nat \<Rightarrow> nat \<Rightarrow> bool" where
  "hole_rest gt b n k \<longleftrightarrow>
     (\<forall>i<n. 0 < i \<longrightarrow> i \<noteq> k \<longrightarrow> (i - 1) div 2 \<noteq> k \<longrightarrow>
        \<not> gt (the (b ! ((i - 1) div 2))) (the (b ! i))) \<and>
     (\<forall>i<n. 0 < i \<longrightarrow> (i - 1) div 2 = k \<longrightarrow> 0 < k \<longrightarrow>
        \<not> gt (the (b ! ((k - 1) div 2))) (the (b ! i)))"

definition hole_up :: "('v \<Rightarrow> 'v \<Rightarrow> bool) \<Rightarrow> 'v mem \<Rightarrow> nat \<Rightarrow> nat \<Rightarrow> 'v \<Rightarrow> bool" where
  "hole_up gt b n k v \<longleftrightarrow> hole_rest gt b n k \<and>
     (\<forall>i<n. 0 < i \<longrightarrow> (i - 1) div 2 = k \<longrightarrow> \<not> gt v (the (b ! i)))"

definition hole_down :: "('v \<Rightarrow> 'v \<Rightarrow> bool) \<Rightarrow> 'v mem \<Rightarrow> nat \<Rightarrow> nat \<Rightarrow> 'v \<Rightarrow> bool" where
  "hole_down gt b n k v \<longleftrightarrow> hole_rest gt b n k \<and>
     (0 < k \<longrightarrow> \<not> gt (the (b ! ((k - 1) div 2))) v)"

lemma parent_less: "0 < (i::nat) \<Longrightarrow> (i - 1) div 2 < i"
  by linarith

lemma heap_ordered_update:
  assumes "hole_rest gt b n k" "k < n" "n \<le> length b"
    and "0 < k \<Longrightarrow> \<not> gt (the (b ! ((k - 1) div 2))) v"
    and "\<And>i. i < n \<Longrightarrow> 0 < i \<Longrightarrow> (i - 1) div 2 = k \<Longrightarrow> \<not> gt v (the (b ! i))"
  shows "heap_ordered gt (b[k := Some v]) n"
  unfolding heap_ordered_def
proof (intro allI impI)
  fix i assume i: "i < n" "0 < i"
  then have p: "(i - 1) div 2 < i" by (simp add: parent_less)
  consider "i = k" | "(i - 1) div 2 = k" | "i \<noteq> k" "(i - 1) div 2 \<noteq> k" by blast
  then show "\<not> gt (the (b[k := Some v] ! ((i - 1) div 2))) (the (b[k := Some v] ! i))"
  proof cases
    case 1
    then show ?thesis using assms(2,3,4) i p by simp
  next
    case 2
    then show ?thesis using assms(2,3,5) i p by auto
  next
    case 3
    then show ?thesis using assms(1) i p unfolding hole_rest_def by auto
  qed
qed

context cf_comparator
begin

lemma hole_up_step:
  assumes h: "hole_up gt b n k v" and k: "0 < k" "k < n" "n \<le> length b"
    and p: "p = (k - 1) div 2" and g: "gt (the (b ! p)) v"
  shows "hole_up gt (b[k := b ! p]) n p v"
proof -
  let ?b = "b[k := b ! p]"
  have pk: "p < k" using k p by (simp add: parent_less)
  have rest: "\<And>i. i < n \<Longrightarrow> 0 < i \<Longrightarrow> i \<noteq> k \<Longrightarrow> (i - 1) div 2 \<noteq> k \<Longrightarrow>
        \<not> gt (the (b ! ((i - 1) div 2))) (the (b ! i))"
    and across: "\<And>i. i < n \<Longrightarrow> 0 < i \<Longrightarrow> (i - 1) div 2 = k \<Longrightarrow> \<not> gt (the (b ! p)) (the (b ! i))"
    using h k unfolding hole_up_def hole_rest_def p by auto
  have vp: "\<not> gt v (the (b ! p))" using g gt_asym by blast
  have nth: "\<And>i. ?b ! i = (if i = k then b ! p else b ! i)"
    using k by (simp add: nth_list_update)
  have sib: "\<not> gt (the (b ! p)) (the (?b ! i))"
    if "i < n" "0 < i" "(i - 1) div 2 = p" for i
    using rest[of i] that pk by (cases "i = k") (auto simp: nth)
  show ?thesis
    unfolding hole_up_def hole_rest_def
  proof (intro conjI allI impI)
    fix i assume i: "i < n" "0 < i" "i \<noteq> p" "(i - 1) div 2 \<noteq> p"
    then have "i \<noteq> k" using p by auto
    then show "\<not> gt (the (?b ! ((i - 1) div 2))) (the (?b ! i))"
      using rest[of i] across[of i] i unfolding nth by auto
  next
    fix i assume i: "i < n" "0 < i" "(i - 1) div 2 = p" "0 < p"
    have "\<not> gt (the (b ! ((p - 1) div 2))) (the (b ! p))"
      using rest[of p] i k pk by auto
    moreover have "?b ! ((p - 1) div 2) = b ! ((p - 1) div 2)"
      using pk unfolding nth by auto
    ultimately show "\<not> gt (the (?b ! ((p - 1) div 2))) (the (?b ! i))"
      using le_trans[OF _ sib[OF i(1,2,3)]] by presburger
  next
    fix i assume i: "i < n" "0 < i" "(i - 1) div 2 = p"
    show "\<not> gt v (the (?b ! i))" using sib[OF i] vp le_trans by blast
  qed
qed

text \<open>The upward loop: it returns, keeps the rest of the array, and the result is in order.\<close>

lemma SiftUp_correct:
  assumes "n \<le> length b" "k < n" "\<forall>i<n. i \<noteq> k \<longrightarrow> b ! i \<noteq> None" "hole_up gt b n k v"
  shows "\<exists>b' k'. CFBinaryHeapSiftUp (\<lambda>a c. \<not> gt a c) b v k = Some (b', k') \<and> k' < n \<and>
     length b' = length b \<and> (\<forall>i<n. i \<noteq> k' \<longrightarrow> b' ! i \<noteq> None) \<and>
     heap_ordered gt (b'[k' := Some v]) n \<and>
     mset (take n (b'[k' := Some v])) = mset (take n (b[k := Some v]))"
  using assms
proof (induction k arbitrary: b rule: less_induct)
  case (less k)
  let ?p = "(k - 1) div 2"
  have ord: "heap_ordered gt (b[k := Some v]) n"
    if "k = 0 \<or> \<not> gt (the (b ! ?p)) v"
    by (rule heap_ordered_update) (use less.prems that in \<open>auto simp: hole_up_def\<close>)
  show ?case
  proof (cases "0 < k")
    case False
    then show ?thesis
      using less.prems ord by (subst CFBinaryHeapSiftUp.simps) auto
  next
    case True
    then have pk: "?p < k" by (simp add: parent_less)
    then obtain item where item: "b ! ?p = Some item"
      using less.prems by (metis less_trans nat_neq_iff not_Some_eq)
    have unf: "CFBinaryHeapSiftUp (\<lambda>a c. \<not> gt a c) b v k =
        (if gt item v then CFBinaryHeapSiftUp (\<lambda>a c. \<not> gt a c) (b[k := Some item]) v ?p
         else Some (b, k))"
      using True less.prems pk item
      by (subst CFBinaryHeapSiftUp.simps) (simp add: mem_simps)
    show ?thesis
    proof (cases "gt item v")
      case False
      then show ?thesis using unf less.prems ord item by auto
    next
      case g: True
      let ?b = "b[k := Some item]"
      have hu: "hole_up gt ?b n ?p v"
        using hole_up_step[OF less.prems(4) True less.prems(2,1) refl] g item by simp
      have "\<forall>i<n. i \<noteq> ?p \<longrightarrow> ?b ! i \<noteq> None"
        using less.prems(3) less.prems(1,2) by (auto simp: nth_list_update)
      with less.IH[OF pk, of ?b] hu less.prems(1,2) pk obtain b' k' where
        r: "CFBinaryHeapSiftUp (\<lambda>a c. \<not> gt a c) ?b v ?p = Some (b', k')" "k' < n"
          "length b' = length b" "\<forall>i<n. i \<noteq> k' \<longrightarrow> b' ! i \<noteq> None"
          "heap_ordered gt (b'[k' := Some v]) n"
          "mset (take n (b'[k' := Some v])) = mset (take n (?b[?p := Some v]))"
        by auto
      have "mset (take n (?b[?p := Some v])) = mset (take n (b[k := Some v]))"
        using mset_update_move[of k "take n b" ?p "Some v"] less.prems(1,2) pk item
        by (simp add: take_update_swap)
      with r g unf show ?thesis by auto
    qed
  qed
qed

lemma MinChild_correct:
  assumes "mem_live b n" "2 * k + 1 < n"
  shows "\<exists>c item. CFBinaryHeapMinChild gt b n (k * 2 + 1) = Some (c, item) \<and> c < n \<and> 0 < c \<and>
     (c - 1) div 2 = k \<and> k < c \<and> b ! c = Some item \<and>
     (\<forall>i<n. 0 < i \<longrightarrow> (i - 1) div 2 = k \<longrightarrow> \<not> gt item (the (b ! i)))"
proof -
  have kids: "i = k * 2 + 1 \<or> i = k * 2 + 2" if "0 < i" "(i - 1) div 2 = k" for i :: nat
    using that by linarith
  from assms obtain x where x: "b ! (k * 2 + 1) = Some x"
    unfolding mem_live_def by (metis mult.commute not_None_eq)
  have len: "k * 2 + 1 < length b" using assms unfolding mem_live_def by auto
  consider (one) "\<not> k * 2 + 2 < n" | (two) y where "k * 2 + 2 < n" "b ! (k * 2 + 2) = Some y"
    using assms unfolding mem_live_def by (metis not_None_eq)
  then show ?thesis
  proof cases
    case one
    then have "CFBinaryHeapMinChild gt b n (k * 2 + 1) = Some (k * 2 + 1, x)"
      using len x by (simp add: CFBinaryHeapMinChild_def mem_simps)
    moreover have "\<not> gt x (the (b ! i))" if "i < n" "0 < i" "(i - 1) div 2 = k" for i
    proof -
      have "i = k * 2 + 1" using kids[OF that(2,3)] that(1) one by blast
      then show ?thesis by (simp only: x option.sel gt_irrefl not_False_eq_True)
    qed
    ultimately show ?thesis using assms(2) x by (intro exI[of _ "k * 2 + 1"] exI[of _ x]) simp
  next
    case two
    have "k * 2 + 2 < length b" using two assms unfolding mem_live_def by auto
    then have run: "CFBinaryHeapMinChild gt b n (k * 2 + 1) =
        Some (if gt x y then (k * 2 + 2, y) else (k * 2 + 1, x))"
      using two len x by (simp add: CFBinaryHeapMinChild_def mem_simps)
    have least: "\<not> gt (if gt x y then y else x) (the (b ! i))"
      if "0 < i" "(i - 1) div 2 = k" for i
    proof -
      have "the (b ! i) = x \<or> the (b ! i) = y" using kids[OF that] x two(2) by (metis option.sel)
      moreover have "\<not> gt y x" if "gt x y" using that gt_asym by blast
      ultimately show ?thesis by (auto split: if_splits)
    qed
    show ?thesis
    proof (cases "gt x y")
      case True
      with run two least show ?thesis by (intro exI[of _ "k * 2 + 2"] exI[of _ y]) simp
    next
      case False
      with run x two(1) least show ?thesis by (intro exI[of _ "k * 2 + 1"] exI[of _ x]) simp
    qed
  qed
qed

lemma hole_down_step:
  assumes h: "hole_down gt b n k v" and k: "k < n" "n \<le> length b"
    and c: "c < n" "0 < c" "(c - 1) div 2 = k" "k < c"
    and least: "\<forall>i<n. 0 < i \<longrightarrow> (i - 1) div 2 = k \<longrightarrow> \<not> gt (the (b ! c)) (the (b ! i))"
    and g: "\<not> gt (the (b ! c)) v"
  shows "hole_down gt (b[k := b ! c]) n c v"
proof -
  let ?b = "b[k := b ! c]"
  have rest: "\<And>i. i < n \<Longrightarrow> 0 < i \<Longrightarrow> i \<noteq> k \<Longrightarrow> (i - 1) div 2 \<noteq> k \<Longrightarrow>
        \<not> gt (the (b ! ((i - 1) div 2))) (the (b ! i))"
    and across: "0 < k \<Longrightarrow> \<not> gt (the (b ! ((k - 1) div 2))) (the (b ! c))"
    using h k c unfolding hole_down_def hole_rest_def by auto
  have nth: "\<And>i. ?b ! i = (if i = k then b ! c else b ! i)"
    using k by (simp add: nth_list_update)
  show ?thesis
    unfolding hole_down_def hole_rest_def
  proof (intro conjI allI impI)
    fix i assume i: "i < n" "0 < i" "i \<noteq> c" "(i - 1) div 2 \<noteq> c"
    have "(i - 1) div 2 < i" using i by (simp add: parent_less)
    then show "\<not> gt (the (?b ! ((i - 1) div 2))) (the (?b ! i))"
      using rest[of i] across least i unfolding nth by auto
  next
    fix i assume i: "i < n" "0 < i" "(i - 1) div 2 = c" "0 < c"
    then have "i \<noteq> k" using c(4) parent_less[of i] by auto
    then show "\<not> gt (the (?b ! ((c - 1) div 2))) (the (?b ! i))"
      using rest[of i] i c unfolding nth by auto
  next
    assume "0 < c"
    show "\<not> gt (the (?b ! ((c - 1) div 2))) v" using g c unfolding nth by simp
  qed
qed

text \<open>The downward loop.\<close>

lemma SiftDown_correct:
  assumes "mem_live b n" "k < n" "hole_down gt b n k v"
  shows "\<exists>b' k'. CFBinaryHeapSiftDown gt b n v k = Some (b', k') \<and> k' < n \<and>
     length b' = length b \<and> mem_live b' n \<and> heap_ordered gt (b'[k' := Some v]) n \<and>
     mset (take n (b'[k' := Some v])) = mset (take n (b[k := Some v]))"
  using assms
proof (induction "n - k" arbitrary: b k rule: less_induct)
  case less
  have len: "n \<le> length b" using less.prems(1) by (simp add: mem_live_def)
  have ord: "heap_ordered gt (b[k := Some v]) n"
    if "\<And>i. i < n \<Longrightarrow> 0 < i \<Longrightarrow> (i - 1) div 2 = k \<Longrightarrow> \<not> gt v (the (b ! i))"
    by (rule heap_ordered_update) (use less.prems len that in \<open>auto simp: hole_down_def\<close>)
  show ?case
  proof (cases "2 * k + 1 < n")
    case False
    have "\<not> (0 < i \<and> (i - 1) div 2 = k)" if "i < n" for i :: nat
      using that False by linarith
    then have "heap_ordered gt (b[k := Some v]) n" using ord by blast
    then show ?thesis
      using False less.prems by (subst CFBinaryHeapSiftDown.simps) (simp add: mult.commute)
  next
    case True
    from MinChild_correct[OF less.prems(1) True] obtain c item where
      c: "CFBinaryHeapMinChild gt b n (k * 2 + 1) = Some (c, item)" "c < n" "0 < c"
        "(c - 1) div 2 = k" "k < c" "b ! c = Some item"
      and least: "\<forall>i<n. 0 < i \<longrightarrow> (i - 1) div 2 = k \<longrightarrow> \<not> gt item (the (b ! i))"
      by blast
    have unf: "CFBinaryHeapSiftDown gt b n v k =
        (if gt item v then Some (b, k) else CFBinaryHeapSiftDown gt (b[k := Some item]) n v c)"
      using True c(1) less.prems(2) len
      by (subst CFBinaryHeapSiftDown.simps) (simp add: mem_simps mult.commute)
    show ?thesis
    proof (cases "gt item v")
      case g: True
      then have "\<not> gt v item" using gt_asym by blast
      then have "heap_ordered gt (b[k := Some v]) n" using ord least le_trans by blast
      with g unf less.prems show ?thesis by simp
    next
      case g: False
      let ?b = "b[k := Some item]"
      have hd: "hole_down gt ?b n c v"
        using hole_down_step[OF less.prems(3,2) len c(2-5)] least g c(6) by simp
      have live: "mem_live ?b n"
        using less.prems(1,2) by (auto simp: mem_live_def nth_list_update)
      have "n - c < n - k" using c(2,5) by linarith
      from less.hyps[OF this live c(2) hd] obtain b' k' where
        r: "CFBinaryHeapSiftDown gt ?b n v c = Some (b', k')" "k' < n"
          "length b' = length b" "mem_live b' n" "heap_ordered gt (b'[k' := Some v]) n"
          "mset (take n (b'[k' := Some v])) = mset (take n (?b[c := Some v]))"
        by auto
      have "mset (take n (?b[c := Some v])) = mset (take n (b[k := Some v]))"
        using mset_update_move[of k "take n b" c "Some v"] less.prems(2) len c(2,5,6)
        by (simp add: take_update_swap)
      with r g unf show ?thesis by simp
    qed
  qed
qed

text \<open>The root of an array in order is least.\<close>

lemma heap_root_least:
  assumes "heap_ordered gt b n" "i < n"
  shows "\<not> gt (the (b ! 0)) (the (b ! i))"
  using assms(2)
proof (induction i rule: less_induct)
  case (less i)
  show ?case
  proof (cases "i = 0")
    case True
    then show ?thesis by simp
  next
    case False
    then have "\<not> gt (the (b ! 0)) (the (b ! ((i - 1) div 2)))"
      using less parent_less[of i] by auto
    moreover have "\<not> gt (the (b ! ((i - 1) div 2))) (the (b ! i))"
      using assms(1) False less.prems unfolding heap_ordered_def by auto
    ultimately show ?thesis by (rule le_trans)
  qed
qed

end

interpretation ptr_order: cf_comparator "\<lambda>a b :: ptr. a > b"
  by unfold_locales auto

section \<open>The representation invariant and the priority queue it implements\<close>

definition bh_values :: "CFBinaryHeap \<Rightarrow> ptr list" where
  "bh_values h = map the (take (bh_count h) (bh_buckets h))"

definition bh_inv :: "CFBinaryHeap \<Rightarrow> bool" where
  "bh_inv h \<longleftrightarrow> mem_live (bh_buckets h) (bh_count h) \<and>
     bh_capacity h = int (length (bh_buckets h)) \<and>
     heap_ordered (bh_greater h) (bh_buckets h) (bh_count h)"

text \<open>
  The callbacks the theorems are about: an order, and a \<^verbatim>\<open>retain\<close> that answers its argument. \<^verbatim>\<open>CFBinaryHeap.h\<close> lets
  \<^verbatim>\<open>retain\<close> answer another value to be stored. \<^verbatim>\<open>CFBinaryHeapAddValue\<close> finds the place with the argument and then stores
  the answer there, so that the heap order would depend on how the two compare; such callbacks are left out.
\<close>

definition bh_callbacks_ok :: "CFBinaryHeap \<Rightarrow> bool" where
  "bh_callbacks_ok h \<longleftrightarrow> cf_comparator (bh_greater h) \<and>
     (\<forall>retain v. cb_retain (bh_callbacks h) = Some retain \<longrightarrow> retain v = v)"

text \<open>There is a free bucket, or the array can be grown.\<close>

definition bh_room :: "(int \<Rightarrow> bool) \<Rightarrow> CFBinaryHeap \<Rightarrow> bool" where
  "bh_room alloc h \<longleftrightarrow> bh_mutable h \<and> (int (bh_count h) < bh_capacity h \<or>
     (\<exists>cap. CFBinaryHeapRoundUpCapacity (bh_count h + 1) = Some cap \<and> alloc (cap * 8)))"

lemma bh_greater_cong:
  "bh_callbacks h' = bh_callbacks h \<Longrightarrow> bh_info h' = bh_info h \<Longrightarrow> bh_greater h' = bh_greater h"
  by (simp add: bh_greater_def fun_eq_iff split: option.split)

lemma bh_greater_upd [simp]:
  "bh_greater (h\<lparr>bh_count := c\<rparr>) = bh_greater h"
  "bh_greater (h\<lparr>bh_capacity := cap\<rparr>) = bh_greater h"
  "bh_greater (h\<lparr>bh_buckets := b\<rparr>) = bh_greater h"
  "bh_greater (h\<lparr>bh_calls := cs\<rparr>) = bh_greater h"
  "bh_greater (h\<lparr>bh_mutable := m\<rparr>) = bh_greater h"
  by (simp_all cong: bh_greater_cong)

lemma bh_not_greater_eq: "bh_not_greater h = (\<lambda>a b. \<not> bh_greater h a b)"
  by (auto simp: bh_not_greater_def bh_greater_def fun_eq_iff split: option.splits)

lemma bh_callbacks_ok_cong:
  "bh_callbacks h' = bh_callbacks h \<Longrightarrow> bh_info h' = bh_info h \<Longrightarrow>
   bh_callbacks_ok h' = bh_callbacks_ok h"
  using bh_greater_cong[of h' h] by (simp add: bh_callbacks_ok_def)

lemma bh_pointer_heap_ok:
  assumes "cb_compare (bh_callbacks h) = None" "cb_retain (bh_callbacks h) = None"
  shows "bh_callbacks_ok h"
proof -
  have "bh_greater h = (\<lambda>a b. a > b)" using assms by (simp add: bh_greater_def fun_eq_iff)
  then show ?thesis using assms ptr_order.cf_comparator_axioms by (simp add: bh_callbacks_ok_def)
qed

lemma length_bh_values [simp]: "bh_inv h \<Longrightarrow> length (bh_values h) = bh_count h"
  by (simp add: bh_inv_def bh_values_def mem_live_def)

lemma RoundUpCapacity_bound:
  assumes "CFBinaryHeapRoundUpCapacity c = Some cap"
  shows "int c < cap"
proof (cases "c < 4")
  case True
  then show ?thesis using assms by (simp add: CFBinaryHeapRoundUpCapacity_def)
next
  case False
  then have "cap = 2 ^ flsl c"
    using assms by (simp add: CFBinaryHeapRoundUpCapacity_def split: if_splits)
  then show ?thesis using flsl_upper[of c] by (metis of_nat_less_iff of_nat_numeral of_nat_power)
qed

lemma Grow_correct:
  assumes "bh_inv h" "CFBinaryHeapRoundUpCapacity (bh_count h + 1) = Some cap" "alloc (cap * 8)"
  shows "CFBinaryHeapGrow alloc h 1 = Some (h\<lparr>bh_capacity := cap,
           bh_buckets := mem_realloc (bh_buckets h) (nat cap)\<rparr>) \<and>
         bh_inv (h\<lparr>bh_capacity := cap, bh_buckets := mem_realloc (bh_buckets h) (nat cap)\<rparr>) \<and>
         bh_count h < nat cap"
proof -
  have cap: "int (bh_count h) + 1 < cap" using RoundUpCapacity_bound[OF assms(2)] by simp
  let ?h = "h\<lparr>bh_capacity := cap, bh_buckets := mem_realloc (bh_buckets h) (nat cap)\<rparr>"
  have nth: "mem_realloc (bh_buckets h) (nat cap) ! i = bh_buckets h ! i" if "i < bh_count h" for i
    using that cap assms(1) by (auto simp: bh_inv_def mem_live_def)
  have g: "bh_greater ?h = bh_greater h" by (rule bh_greater_cong) auto
  have "heap_ordered (bh_greater h) (mem_realloc (bh_buckets h) (nat cap)) (bh_count h)"
    unfolding heap_ordered_def
  proof (intro allI impI)
    fix i assume i: "i < bh_count h" "0 < i"
    then have "(i - 1) div 2 < bh_count h" using parent_less[of i] by linarith
    with i show "\<not> bh_greater h (the (mem_realloc (bh_buckets h) (nat cap) ! ((i - 1) div 2)))
        (the (mem_realloc (bh_buckets h) (nat cap) ! i))"
      using assms(1) unfolding bh_inv_def heap_ordered_def by (simp add: nth)
  qed
  then have "bh_inv ?h"
    using cap assms(1) by (simp add: bh_inv_def g mem_live_def nth)
  then show ?thesis
    using assms cap by (simp add: CFBinaryHeapGrow_def CFBinaryHeapNumBucketsForCapacity_def)
qed

text \<open>Adding to a heap with a free bucket.\<close>

lemma SiftUp_heap:
  assumes "bh_inv h" "bh_callbacks_ok h" "bh_count h < length (bh_buckets h)"
  shows "\<exists>b k. CFBinaryHeapSiftUp (bh_not_greater h) (bh_buckets h) v (bh_count h) = Some (b, k) \<and>
     k \<le> bh_count h \<and> length b = length (bh_buckets h) \<and>
     mem_live (b[k := Some v]) (Suc (bh_count h)) \<and>
     heap_ordered (bh_greater h) (b[k := Some v]) (Suc (bh_count h)) \<and>
     mset (map the (take (Suc (bh_count h)) (b[k := Some v]))) = add_mset v (mset (bh_values h))"
proof -
  let ?n = "bh_count h" and ?b = "bh_buckets h"
  have cmp: "cf_comparator (bh_greater h)" using assms(2) by (simp add: bh_callbacks_ok_def)
  have hole: "hole_up (bh_greater h) ?b (Suc ?n) ?n v"
    using assms(1) parent_less
    unfolding hole_up_def hole_rest_def bh_inv_def heap_ordered_def
    by (auto simp: less_Suc_eq)
  have "\<forall>i<Suc ?n. i \<noteq> ?n \<longrightarrow> ?b ! i \<noteq> None"
    using assms(1) by (auto simp: bh_inv_def mem_live_def)
  from cf_comparator.SiftUp_correct[OF cmp _ _ this hole] assms(3)
  obtain b k where r: "CFBinaryHeapSiftUp (bh_not_greater h) ?b v ?n = Some (b, k)" "k < Suc ?n"
      "length b = length ?b" "\<forall>i<Suc ?n. i \<noteq> k \<longrightarrow> b ! i \<noteq> None"
      "heap_ordered (bh_greater h) (b[k := Some v]) (Suc ?n)"
      "mset (take (Suc ?n) (b[k := Some v])) = mset (take (Suc ?n) (?b[?n := Some v]))"
    by (auto simp: bh_not_greater_eq)
  have "mem_live (b[k := Some v]) (Suc ?n)"
    using r(2-4) assms(3) by (auto simp: mem_live_def nth_list_update)
  moreover have "mset (map the (take (Suc ?n) (b[k := Some v]))) = add_mset v (mset (bh_values h))"
    using r(6) assms(3) by (simp add: mset_map take_Suc_conv_app_nth bh_values_def)
  ultimately show ?thesis using r by auto
qed

lemma AddValue_correct:
  assumes "bh_inv h" "bh_callbacks_ok h" "bh_room alloc h"
  shows "\<exists>h'. CFBinaryHeapAddValue alloc h v = Some h' \<and> bh_inv h' \<and>
     mset (bh_values h') = add_mset v (mset (bh_values h)) \<and> bh_count h' = bh_count h + 1 \<and>
     bh_callbacks h' = bh_callbacks h \<and> bh_info h' = bh_info h \<and> bh_mutable h' = bh_mutable h \<and>
     bh_calls h' = bh_calls h @ (if cb_retain (bh_callbacks h) = None then [] else [Retained v])"
proof -
  obtain h1 where h1: "(if bh_mutable h \<and> int (bh_count h) = bh_capacity h
        then CFBinaryHeapGrow alloc h 1 else Some h) = Some h1" "bh_inv h1"
      "bh_count h1 = bh_count h" "bh_values h1 = bh_values h" "bh_callbacks h1 = bh_callbacks h"
      "bh_info h1 = bh_info h" "bh_mutable h1 = bh_mutable h" "bh_calls h1 = bh_calls h"
      "bh_count h1 < length (bh_buckets h1)"
  proof (cases "int (bh_count h) = bh_capacity h")
    case True
    with assms(3) obtain cap where "CFBinaryHeapRoundUpCapacity (bh_count h + 1) = Some cap"
        "alloc (cap * 8)" "bh_mutable h"
      unfolding bh_room_def by auto
    with Grow_correct[OF assms(1), of cap alloc] True assms(1) that show ?thesis
      by (auto simp: bh_values_def bh_inv_def mem_live_def)
  next
    case False
    then show ?thesis
      using that[of h] assms(1) by (auto simp: bh_inv_def mem_live_def)
  qed
  have ok: "bh_callbacks_ok h1" using assms(2) h1 bh_callbacks_ok_cong by blast
  from SiftUp_heap[OF h1(2) ok h1(9), of v] obtain b k where
    r: "CFBinaryHeapSiftUp (bh_not_greater h1) (bh_buckets h1) v (bh_count h1) = Some (b, k)"
      "k \<le> bh_count h1" "length b = length (bh_buckets h1)"
      "mem_live (b[k := Some v]) (Suc (bh_count h1))"
      "heap_ordered (bh_greater h1) (b[k := Some v]) (Suc (bh_count h1))"
      "mset (map the (take (Suc (bh_count h1)) (b[k := Some v]))) = add_mset v (mset (bh_values h1))"
    by blast
  have id: "retain v = v" if "cb_retain (bh_callbacks h1) = Some retain" for retain
    using ok that by (simp add: bh_callbacks_ok_def)
  let ?h' = "h1\<lparr>bh_count := bh_count h1 + 1, bh_buckets := b[k := Some v],
     bh_calls := bh_calls h1 @ (if cb_retain (bh_callbacks h) = None then [] else [Retained v])\<rparr>"
  have "k < length b" using r(2,3) h1(9) by simp
  then have "CFBinaryHeapAddValue alloc h v = Some ?h'"
    using r(1) h1(1,5) id
    by (auto simp: CFBinaryHeapAddValue_def bh_not_greater_eq mem_simps split: option.split)
  moreover have "bh_inv ?h'" using r h1(2) by (simp add: bh_inv_def)
  moreover have "mset (bh_values ?h') = add_mset v (mset (bh_values h1))"
    using r(6) by (simp add: bh_values_def)
  ultimately show ?thesis using h1 by auto
qed

lemma RemoveMinimum_correct:
  assumes "bh_inv h" "bh_callbacks_ok h" "0 < bh_count h"
  shows "\<exists>h' m. CFBinaryHeapGetMinimum h = Some m \<and> CFBinaryHeapRemoveMinimumValue h = Some h' \<and>
     bh_inv h' \<and> m \<in> set (bh_values h) \<and> (\<forall>x \<in> set (bh_values h). \<not> bh_greater h m x) \<and>
     mset (bh_values h) = add_mset m (mset (bh_values h')) \<and> bh_count h = bh_count h' + 1 \<and>
     bh_callbacks h' = bh_callbacks h \<and> bh_info h' = bh_info h \<and> bh_mutable h' = bh_mutable h \<and>
     bh_calls h' = bh_calls h @ (if cb_release (bh_callbacks h) then [Released m] else [])"
proof -
  let ?n = "bh_count h - 1" and ?b = "bh_buckets h"
  have n: "bh_count h = Suc ?n" using assms(3) by simp
  have cmp: "cf_comparator (bh_greater h)" using assms(2) by (simp add: bh_callbacks_ok_def)
  have live: "mem_live ?b (Suc ?n)" and ord: "heap_ordered (bh_greater h) ?b (Suc ?n)"
    using assms(1) n by (simp_all add: bh_inv_def)
  obtain m where m: "?b ! 0 = Some m" using live by (auto simp: mem_live_def)
  obtain val where val: "?b ! ?n = Some val" using live by (auto simp: mem_live_def)
  have len: "?n < length ?b" using live by (simp add: mem_live_def)
  have vals: "bh_values h = map the (take (Suc ?n) ?b)" using n by (simp add: bh_values_def)
  have min_le: "\<forall>x \<in> set (bh_values h). \<not> bh_greater h m x"
    using cf_comparator.heap_root_least[OF cmp ord] m len
    by (auto simp: vals in_set_conv_nth)
  have mem: "m \<in> set (bh_values h)"
    using nth_mem[of 0 "bh_values h"] m len by (simp add: vals)
  obtain b' k' where sd: "CFBinaryHeapSiftDown (bh_greater h) ?b ?n val 0 = Some (b', k')"
      "k' < length ?b" "length b' = length ?b" "mem_live b' ?n"
      "heap_ordered (bh_greater h) (b'[k' := Some val]) ?n"
      "mset (map the (take (Suc ?n) ?b)) = add_mset m (mset (map the (take ?n (b'[k' := Some val]))))"
  proof (cases "?n = 0")
    case True
    then show ?thesis
      using that[of ?b 0] len m by (simp add: CFBinaryHeapSiftDown.simps mem_live_def
          heap_ordered_def take_Suc_conv_app_nth)
  next
    case False
    have "hole_down (bh_greater h) ?b ?n 0 val"
      using ord unfolding hole_down_def hole_rest_def heap_ordered_def by auto
    moreover have "mem_live ?b ?n" using live by (simp add: mem_live_def)
    ultimately obtain b' k' where r: "CFBinaryHeapSiftDown (bh_greater h) ?b ?n val 0 = Some (b', k')"
        "k' < ?n" "length b' = length ?b" "mem_live b' ?n"
        "heap_ordered (bh_greater h) (b'[k' := Some val]) ?n"
        "mset (take ?n (b'[k' := Some val])) = mset (take ?n (?b[0 := Some val]))"
      using cf_comparator.SiftDown_correct[OF cmp, of ?b ?n 0 val] False by auto
    have "mset (take (Suc ?n) ?b) = mset ((take (Suc ?n) ?b)[0 := Some val, ?n := Some m])"
      using mset_swap[of 0 "take (Suc ?n) ?b" ?n] m val len False
      by (simp add: list_update_swap)
    also have "(take (Suc ?n) ?b)[0 := Some val, ?n := Some m] = take ?n (?b[0 := Some val]) @ [Some m]"
      using len by (simp add: take_Suc_conv_app_nth list_update_append take_update_swap)
    finally have "mset (map the (take (Suc ?n) ?b)) = add_mset m (mset (map the (take ?n (b'[k' := Some val]))))"
      using r(6) by (simp add: mset_map)
    then show ?thesis using that[of b' k'] r len by auto
  qed
  let ?h' = "h\<lparr>bh_count := ?n, bh_buckets := b'[k' := Some val],
     bh_calls := bh_calls h @ (if cb_release (bh_callbacks h) then [Released m] else [])\<rparr>"
  have "0 < length ?b" using len by linarith
  then have rd0: "rd ?b 0 = Some m" using m by (simp add: rd_def)
  have "CFBinaryHeapRemoveMinimumValue h = Some ?h'"
    using sd(1-3) assms(3) rd0 val len
    by (simp add: CFBinaryHeapRemoveMinimumValue_def mem_simps Let_def)
  moreover have "CFBinaryHeapGetMinimum h = Some m"
    using assms(3) rd0 by (simp add: CFBinaryHeapGetMinimum_def)
  moreover have "bh_inv ?h'"
    using sd assms(1) by (auto simp: bh_inv_def mem_live_def nth_list_update)
  ultimately show ?thesis
    using sd(6) mem min_le n by (auto simp: vals bh_values_def)
qed

lemma Drain_correct:
  assumes "bh_inv h" "bh_callbacks_ok h" "bh_count h \<le> n"
  shows "\<exists>vs. CFBinaryHeapDrain n h = Some vs \<and> mset vs = mset (bh_values h) \<and>
     sorted_wrt (\<lambda>a b. \<not> bh_greater h a b) vs"
  using assms
proof (induction n arbitrary: h)
  case 0
  then show ?case by (simp add: CFBinaryHeapDrain.simps bh_values_def)
next
  case (Suc n)
  show ?case
  proof (cases "bh_count h = 0")
    case True
    then show ?thesis by (simp add: CFBinaryHeapDrain.simps bh_values_def)
  next
    case False
    with RemoveMinimum_correct[of h] Suc.prems obtain m h' where
      r: "CFBinaryHeapGetMinimum h = Some m" "CFBinaryHeapRemoveMinimumValue h = Some h'"
        "bh_inv h'" "\<forall>x \<in> set (bh_values h). \<not> bh_greater h m x"
        "mset (bh_values h) = add_mset m (mset (bh_values h'))" "bh_count h = bh_count h' + 1"
        "bh_callbacks h' = bh_callbacks h" "bh_info h' = bh_info h"
      by auto
    have g: "bh_greater h' = bh_greater h" and ok: "bh_callbacks_ok h'"
      using r(7,8) Suc.prems(2) bh_greater_cong bh_callbacks_ok_cong by blast+
    from Suc.IH[OF r(3) ok] r(6) Suc.prems(3) g obtain vs where
      vs: "CFBinaryHeapDrain n h' = Some vs" "mset vs = mset (bh_values h')"
        "sorted_wrt (\<lambda>a b. \<not> bh_greater h a b) vs"
      by auto
    have "set vs \<subseteq> set (bh_values h)"
      using vs(2) r(5) by (metis set_mset_mset set_mset_add_mset_insert subset_insertI)
    then have "sorted_wrt (\<lambda>a b. \<not> bh_greater h a b) (m # vs)" using vs(3) r(4) by auto
    moreover have "CFBinaryHeapDrain (Suc n) h = Some (m # vs)"
      using False r(1,2) vs(1) by (subst CFBinaryHeapDrain.simps) simp
    ultimately show ?thesis using vs(2) r(5) by simp
  qed
qed

lemma bh_roomI:
  assumes "bh_inv h" "bh_mutable h" "\<forall>bytes. alloc bytes" "bh_count h + 1 < 2 ^ 30"
  shows "bh_room alloc h"
proof -
  have "flsl (bh_count h + 1) \<le> 30" using assms(4) flsl_le_iff by blast
  then show ?thesis
    using assms by (simp add: bh_room_def CFBinaryHeapRoundUpCapacity_def)
qed

lemma AddAll_correct:
  assumes "bh_inv h" "bh_callbacks_ok h" "bh_mutable h" "\<forall>bytes. alloc bytes"
    "bh_count h + length vs < 2 ^ 30"
  shows "\<exists>h'. CFBinaryHeapAddAll alloc h vs = Some h' \<and> bh_inv h' \<and>
     mset (bh_values h') = mset (bh_values h) + mset vs \<and>
     bh_callbacks h' = bh_callbacks h \<and> bh_info h' = bh_info h"
  using assms
proof (induction vs arbitrary: h)
  case Nil
  then show ?case by simp
next
  case (Cons v vs)
  have "bh_room alloc h" by (rule bh_roomI) (use Cons.prems in auto)
  from AddValue_correct[OF Cons.prems(1,2) this, of v] obtain h1 where
    h1: "CFBinaryHeapAddValue alloc h v = Some h1" "bh_inv h1"
      "mset (bh_values h1) = add_mset v (mset (bh_values h))" "bh_count h1 = bh_count h + 1"
      "bh_callbacks h1 = bh_callbacks h" "bh_info h1 = bh_info h" "bh_mutable h1 = bh_mutable h"
    by blast
  have "bh_callbacks_ok h1" using Cons.prems(2) h1(5,6) bh_callbacks_ok_cong by blast
  moreover have "bh_mutable h1" "bh_count h1 + length vs < 2 ^ 30"
    using Cons.prems(3,5) h1(4,7) by auto
  ultimately obtain h2 where
    h2: "CFBinaryHeapAddAll alloc h1 vs = Some h2" "bh_inv h2"
      "mset (bh_values h2) = mset (bh_values h1) + mset vs"
      "bh_callbacks h2 = bh_callbacks h1" "bh_info h2 = bh_info h1"
    using Cons.IH[OF h1(2) _ _ Cons.prems(4)] by blast
  show ?case by (rule exI[of _ h2]) (use h1 h2 in simp)
qed

lemma rd_values:
  assumes "bh_inv h"
  shows "those (map (rd (bh_buckets h)) [0..<bh_count h]) = Some (bh_values h)"
proof -
  have all: "\<forall>i<n. rd b i = Some (f i) \<Longrightarrow> those (map (rd b) [0..<n]) = Some (map f [0..<n])"
    for n and b :: "ptr mem" and f
  proof -
    assume a: "\<forall>i<n. rd b i = Some (f i)"
    have "\<forall>i \<in> set is. rd b i = Some (f i) \<Longrightarrow> those (map (rd b) is) = Some (map f is)" for "is"
      by (induction "is") auto
    with a show ?thesis by simp
  qed
  have "\<forall>i<bh_count h. rd (bh_buckets h) i = Some (the (bh_buckets h ! i))"
    using assms by (auto simp: bh_inv_def mem_live_def rd_def)
  from all[OF this] show ?thesis
    using assms by (auto simp: bh_values_def bh_inv_def mem_live_def intro!: nth_equalityI)
qed

lemma Init_correct:
  assumes "created" "\<forall>bytes. alloc bytes" "length vs < 2 ^ 30"
    and h0: "h0 = \<lparr>bh_count = 0, bh_capacity = 4, bh_callbacks = cb, bh_info = i,
      bh_buckets = mem_alloc 4, bh_mutable = True, bh_calls = []\<rparr>" and ok: "bh_callbacks_ok h0"
  shows "\<exists>h'. CFBinaryHeapInit created alloc flags vs (Some cb) (Some i) = Some (Some h') \<and>
     bh_inv h' \<and> mset (bh_values h') = mset vs \<and> bh_callbacks h' = cb \<and> bh_info h' = i"
proof -
  have "bh_inv h0" by (simp add: h0 bh_inv_def mem_live_def heap_ordered_def)
  from AddAll_correct[OF this ok _ assms(2)] assms(3) obtain h' where
    r: "CFBinaryHeapAddAll alloc h0 vs = Some h'" "bh_inv h'" "mset (bh_values h') = mset vs"
      "bh_callbacks h' = cb" "bh_info h' = i"
    by (auto simp: h0 bh_values_def)
  have "CFBinaryHeapInit created alloc flags vs (Some cb) (Some i) =
      Some (Some (h'\<lparr>bh_mutable := flags\<rparr>))"
    using r(1) assms(1,2)
    by (simp add: CFBinaryHeapInit_def CFBinaryHeapRoundUpCapacity_def h0
        CFBinaryHeapNumBucketsForCapacity_def)
  with r show ?thesis by (auto simp: bh_inv_def bh_values_def)
qed

lemma GetValues_correct:
  assumes "bh_inv h" "bh_callbacks_ok h" "created" "\<forall>bytes. alloc bytes" "bh_count h < 2 ^ 30"
  shows "\<exists>vs. CFBinaryHeapGetValues created alloc h = Some vs \<and> mset vs = mset (bh_values h) \<and>
     sorted_wrt (\<lambda>a b. \<not> bh_greater h a b) vs"
proof (cases "bh_count h = 0")
  case True
  then show ?thesis by (simp add: CFBinaryHeapGetValues_def bh_values_def)
next
  case False
  let ?h0 = "\<lparr>bh_count = 0, bh_capacity = 4, bh_callbacks = bh_callbacks h, bh_info = bh_info h,
      bh_buckets = mem_alloc 4, bh_mutable = True, bh_calls = []\<rparr>"
  have "bh_callbacks_ok ?h0" using bh_callbacks_ok_cong[of ?h0 h] assms(2) by simp
  moreover have "length (bh_values h) < 2 ^ 30" using assms(1,5) by (simp add: length_bh_values)
  ultimately obtain c where
    c: "CFBinaryHeapInit created alloc True (bh_values h) (Some (bh_callbacks h)) (Some (bh_info h))
          = Some (Some c)" "bh_inv c" "mset (bh_values c) = mset (bh_values h)"
      "bh_callbacks c = bh_callbacks h" "bh_info c = bh_info h"
    using Init_correct[OF assms(3,4) _ refl] by blast
  have ok: "bh_callbacks_ok c" using bh_callbacks_ok_cong[of c h] c(4,5) assms(2) by simp
  have "bh_count c = bh_count h"
    using c(2,3) assms(1) by (metis length_bh_values size_mset)
  with Drain_correct[OF c(2) ok, of "bh_count h"] obtain vs where
    vs: "CFBinaryHeapDrain (bh_count h) c = Some vs" "mset vs = mset (bh_values c)"
      "sorted_wrt (\<lambda>a b. \<not> bh_greater c a b) vs"
    by auto
  then show ?thesis
    using False c rd_values[OF assms(1)] bh_greater_cong[OF c(4,5)]
    by (simp add: CFBinaryHeapGetValues_def CFBinaryHeapCreateCopy_def)
qed

section \<open>Retain and release counts\<close>

lemma retained_append [simp]: "retained (cs @ ds) = retained cs @ retained ds"
  by (induction cs rule: retained.induct) auto

lemma released_append [simp]: "released (cs @ ds) = released cs @ released ds"
  by (induction cs rule: released.induct) auto

lemma retained_map_Released [simp]: "retained (map Released vs) = []"
  by (induction vs) auto

lemma released_map_Released [simp]: "released (map Released vs) = vs"
  by (induction vs) auto

text \<open>The heap owns one reference for each value it stores.\<close>

definition bh_balanced :: "CFBinaryHeap \<Rightarrow> bool" where
  "bh_balanced h \<longleftrightarrow>
     mset (retained (bh_calls h)) = mset (released (bh_calls h)) + mset (bh_values h)"

definition bh_counting :: "CFBinaryHeap \<Rightarrow> bool" where
  "bh_counting h \<longleftrightarrow> cb_retain (bh_callbacks h) \<noteq> None \<and> cb_release (bh_callbacks h)"

lemma RemoveAllValues_correct:
  assumes "bh_inv h"
  shows "CFBinaryHeapRemoveAllValues h = Some (h\<lparr>bh_count := 0, bh_calls := bh_calls h @
     (if cb_release (bh_callbacks h) then map Released (bh_values h) else [])\<rparr>)"
  using rd_values[OF assms] by (simp add: CFBinaryHeapRemoveAllValues_def)

lemma bh_apply_correct:
  assumes "bh_inv h" "bh_callbacks_ok h" "bh_mutable h" "\<forall>bytes. alloc bytes"
    "bh_count h + 1 < 2 ^ 30" "bh_counting h" "bh_balanced h"
  shows "\<exists>h'. bh_apply alloc op h = Some h' \<and> bh_inv h' \<and> bh_balanced h' \<and> bh_mutable h' \<and>
     bh_count h' \<le> bh_count h + 1 \<and> bh_callbacks h' = bh_callbacks h \<and> bh_info h' = bh_info h"
proof (cases op)
  case (OpAdd v)
  have "bh_room alloc h" by (rule bh_roomI) (use assms in auto)
  from AddValue_correct[OF assms(1,2) this, of v] obtain h' where
    h': "CFBinaryHeapAddValue alloc h v = Some h'" "bh_inv h'" "bh_mutable h' = bh_mutable h"
      "mset (bh_values h') = add_mset v (mset (bh_values h))" "bh_count h' = bh_count h + 1"
      "bh_callbacks h' = bh_callbacks h" "bh_info h' = bh_info h"
      "bh_calls h' = bh_calls h @ (if cb_retain (bh_callbacks h) = None then [] else [Retained v])"
    by blast
  then show ?thesis
    using assms(3,6,7) by (simp add: OpAdd bh_balanced_def bh_counting_def)
next
  case OpRemoveMinimum
  show ?thesis
  proof (cases "bh_count h = 0")
    case True
    then show ?thesis using assms by (simp add: OpRemoveMinimum CFBinaryHeapRemoveMinimumValue_def)
  next
    case False
    then obtain m h' where h': "CFBinaryHeapRemoveMinimumValue h = Some h'" "bh_inv h'"
        "mset (bh_values h) = add_mset m (mset (bh_values h'))" "bh_count h = bh_count h' + 1"
        "bh_callbacks h' = bh_callbacks h" "bh_info h' = bh_info h" "bh_mutable h' = bh_mutable h"
        "bh_calls h' = bh_calls h @ (if cb_release (bh_callbacks h) then [Released m] else [])"
      using RemoveMinimum_correct[OF assms(1,2)] by blast
    then show ?thesis
      using assms(3,6,7) by (simp add: OpRemoveMinimum bh_balanced_def bh_counting_def)
  qed
next
  case OpRemoveAll
  let ?h' = "h\<lparr>bh_count := 0, bh_calls := bh_calls h @ map Released (bh_values h)\<rparr>"
  have "bh_apply alloc op h = Some ?h'"
    using RemoveAllValues_correct[OF assms(1)] assms(6) by (simp add: OpRemoveAll bh_counting_def)
  moreover have "bh_values ?h' = []" by (simp add: bh_values_def)
  moreover have "bh_inv ?h'"
    using assms(1) by (simp add: bh_inv_def mem_live_def heap_ordered_def)
  ultimately show ?thesis using assms(3,7) by (simp add: bh_balanced_def)
qed

lemma bh_run_correct:
  assumes "bh_inv h" "bh_callbacks_ok h" "bh_mutable h" "\<forall>bytes. alloc bytes"
    "bh_count h + length ops < 2 ^ 30" "bh_counting h" "bh_balanced h"
  shows "\<exists>h'. bh_run alloc ops h = Some h' \<and> bh_inv h' \<and> bh_balanced h' \<and> bh_counting h'"
  using assms
proof (induction ops arbitrary: h)
  case Nil
  then show ?case by simp
next
  case (Cons op ops)
  have "bh_count h + 1 < 2 ^ 30" using Cons.prems(5) by simp
  from bh_apply_correct[OF Cons.prems(1-4) this Cons.prems(6,7), of op]
  obtain h1 where h1: "bh_apply alloc op h = Some h1" "bh_inv h1" "bh_balanced h1"
      "bh_mutable h1" "bh_count h1 \<le> bh_count h + 1" "bh_callbacks h1 = bh_callbacks h"
      "bh_info h1 = bh_info h"
    by blast
  have "bh_callbacks_ok h1" using Cons.prems(2) h1(6,7) bh_callbacks_ok_cong by blast
  moreover have "bh_counting h1" using Cons.prems(6) h1(6) by (simp add: bh_counting_def)
  moreover have "bh_count h1 + length ops < 2 ^ 30" using Cons.prems(5) h1(5) by simp
  ultimately have "\<exists>h'. bh_run alloc ops h1 = Some h' \<and> bh_inv h' \<and> bh_balanced h' \<and> bh_counting h'"
    using Cons.IH[OF h1(2) _ h1(4) Cons.prems(4) _ _ h1(3)] by blast
  then show ?case using h1(1) by simp
qed

lemma Create_fresh:
  assumes "CFBinaryHeapCreate created alloc cb ctx = Some (Some h)"
  shows "bh_inv h \<and> bh_mutable h \<and> bh_count h = 0 \<and> bh_balanced h"
proof -
  have "\<exists>c i. h = \<lparr>bh_count = 0, bh_capacity = 4, bh_callbacks = c, bh_info = i,
      bh_buckets = mem_alloc 4, bh_mutable = True, bh_calls = []\<rparr>"
    using assms by (simp add: CFBinaryHeapCreate_def CFBinaryHeapInit_def
        CFBinaryHeapRoundUpCapacity_def CFBinaryHeapNumBucketsForCapacity_def split: if_splits) blast
  then obtain c i where "h = \<lparr>bh_count = 0, bh_capacity = 4, bh_callbacks = c, bh_info = i,
      bh_buckets = mem_alloc 4, bh_mutable = True, bh_calls = []\<rparr>"
    by blast
  then show ?thesis
    by (simp add: bh_inv_def mem_live_def heap_ordered_def bh_balanced_def bh_values_def)
qed

lemma Deallocate_releases:
  assumes "bh_inv h" "bh_balanced h" "bh_counting h"
  shows "\<exists>h'. CFBinaryHeapDeallocate h = Some h' \<and>
     mset (retained (bh_calls h')) = mset (released (bh_calls h'))"
proof -
  let ?h1 = "h\<lparr>bh_count := 0, bh_calls := bh_calls h @ map Released (bh_values h)\<rparr>"
  have "CFBinaryHeapDeallocate h = Some (if bh_mutable h then ?h1\<lparr>bh_buckets := []\<rparr> else ?h1)"
    using RemoveAllValues_correct[OF assms(1)] assms(3)
    by (simp add: CFBinaryHeapDeallocate_def bh_counting_def)
  then show ?thesis using assms(2) by (simp add: bh_balanced_def)
qed

section \<open>Sample heaps\<close>

text \<open>Concrete heaps on which the properties below are exercised.\<close>

definition sample_callbacks :: CFBinaryHeapCallBacks where
  "sample_callbacks = \<lparr>cb_retain = Some (\<lambda>v. v), cb_release = True,
     cb_compare = Some (\<lambda>a b _. if a < b then kCFCompareLessThan
       else if a = b then kCFCompareEqualTo else kCFCompareGreaterThan)\<rparr>"

definition sample_heap :: "ptr list \<Rightarrow> CFBinaryHeap" where
  "sample_heap vs = \<lparr>bh_count = length vs, bh_capacity = int (length vs), bh_callbacks = sample_callbacks,
     bh_info = NULL, bh_buckets = map Some vs, bh_mutable = True, bh_calls = []\<rparr>"

lemma sample_heap_sel [simp]:
  "bh_count (sample_heap vs) = length vs" "bh_callbacks (sample_heap vs) = sample_callbacks"
  "bh_info (sample_heap vs) = NULL" "bh_calls (sample_heap vs) = []"
  by (simp_all add: sample_heap_def)

lemma sample_greater:
  assumes "cb_compare (bh_callbacks h) = cb_compare sample_callbacks"
  shows "bh_greater h = (\<lambda>a b. a > b)"
  using assms by (auto simp: bh_greater_def sample_callbacks_def fun_eq_iff)

lemma sample_ok: "bh_callbacks h = sample_callbacks \<Longrightarrow> bh_callbacks_ok h"
  using sample_greater[of h] ptr_order.cf_comparator_axioms
  by (simp add: bh_callbacks_ok_def) (simp add: sample_callbacks_def)

lemma sample_heap_ok [simp]: "bh_callbacks_ok (sample_heap vs)"
  by (rule sample_ok) (simp add: sample_heap_def)

lemma sample_heap_inv: "bh_inv (sample_heap vs) \<longleftrightarrow> heap_ordered (\<lambda>a b. a > b) (map Some vs) (length vs)"
  using sample_greater[of "sample_heap vs"]
  by (simp add: bh_inv_def mem_live_def sample_heap_def)

lemma sample_heap_values [simp]: "bh_values (sample_heap vs) = vs"
  by (simp add: bh_values_def sample_heap_def comp_def)

lemma sample_heap_inv3 [simp]: "bh_inv (sample_heap [a, b, c]) \<longleftrightarrow> a \<le> b \<and> a \<le> c"
  by (auto simp: sample_heap_inv heap_ordered_def less_Suc_eq numeral_3_eq_3 not_less)

lemma sample_heap_inv1 [simp]: "bh_inv (sample_heap [a])"
  by (simp add: sample_heap_inv heap_ordered_def)

section \<open>Properties\<close>

text \<open>
  C22. \<^verbatim>\<open>CFBinaryHeapAddValue\<close> on a well-formed heap with room: the call returns (no access outside
  the bucket array, no read of an unwritten bucket), the array is again in heap order with respect
  to the client's comparison, the stored multiset grows by exactly the value, and \<^verbatim>\<open>retain\<close> is
  called once on it if there is such a callback. The \<^verbatim>\<open>retain\<close> callback is one that answers its argument.
\<close>

theorem heap_add_value:
  assumes "bh_inv h" "bh_callbacks_ok h" "bh_room alloc h"
  shows "\<exists>h'. CFBinaryHeapAddValue alloc h v = Some h' \<and> bh_inv h' \<and>
     mset (bh_values h') = add_mset v (mset (bh_values h)) \<and>
     bh_calls h' = bh_calls h @ (if cb_retain (bh_callbacks h) = None then [] else [Retained v])"
  using AddValue_correct[OF assms, of v] by blast

theorem heap_add_value_witness:
  "bh_inv (sample_heap [2, 7, 5]) \<and> bh_callbacks_ok (sample_heap [2, 7, 5]) \<and>
   bh_room (\<lambda>_. True) (sample_heap [2, 7, 5]) \<and>
   (\<exists>h'. CFBinaryHeapAddValue (\<lambda>_. True) (sample_heap [2, 7, 5]) 1 = Some h' \<and> bh_inv h' \<and>
      mset (bh_values h') = {#1, 2, 7, 5#} \<and> bh_calls h' = [Retained 1])"
proof -
  have room: "bh_room (\<lambda>_. True) (sample_heap [2, 7, 5])"
    by (simp add: bh_room_def sample_heap_def CFBinaryHeapRoundUpCapacity_def flsl_pos)
  have inv: "bh_inv (sample_heap [2, 7, 5])" by simp
  from heap_add_value[OF inv sample_heap_ok room, of 1] inv room show ?thesis
    by (simp add: sample_callbacks_def)
qed

text \<open>
  C23. On a well-formed non-empty heap \<^verbatim>\<open>CFBinaryHeapGetMinimum\<close> answers a stored value that no
  stored value is smaller than, and \<^verbatim>\<open>CFBinaryHeapRemoveMinimumValue\<close> returns, keeps the heap order,
  removes exactly one occurrence of that value and releases it once if there is a \<^verbatim>\<open>release\<close>
  callback.
\<close>

theorem heap_remove_minimum:
  assumes "bh_inv h" "bh_callbacks_ok h" "0 < bh_count h"
  shows "\<exists>h' m. CFBinaryHeapGetMinimum h = Some m \<and> CFBinaryHeapRemoveMinimumValue h = Some h' \<and>
     m \<in> set (bh_values h) \<and> (\<forall>x \<in> set (bh_values h). \<not> bh_greater h m x) \<and> bh_inv h' \<and>
     mset (bh_values h) = add_mset m (mset (bh_values h')) \<and>
     bh_calls h' = bh_calls h @ (if cb_release (bh_callbacks h) then [Released m] else [])"
  using RemoveMinimum_correct[OF assms] by blast

theorem heap_remove_minimum_witness:
  "bh_inv (sample_heap [2, 7, 5]) \<and> bh_callbacks_ok (sample_heap [2, 7, 5]) \<and>
   0 < bh_count (sample_heap [2, 7, 5]) \<and>
   (\<exists>h' m. CFBinaryHeapGetMinimum (sample_heap [2, 7, 5]) = Some m \<and>
      CFBinaryHeapRemoveMinimumValue (sample_heap [2, 7, 5]) = Some h' \<and> bh_inv h' \<and>
      {#2, 7, 5#} = add_mset m (mset (bh_values h')))"
  using heap_remove_minimum[of "sample_heap [2, 7, 5]"] by auto

text \<open>
  \<^verbatim>\<open>CFBinaryHeapGetValues\<close>, which drains a copy of the heap, stores exactly the heap's values in
  non-decreasing order of the client's comparison; the drain loop ends.
\<close>

theorem heap_get_values_sorted:
  assumes "bh_inv h" "bh_callbacks_ok h" "\<forall>bytes. alloc bytes" "bh_count h < 2 ^ 30"
  shows "\<exists>vs. CFBinaryHeapGetValues True alloc h = Some vs \<and> mset vs = mset (bh_values h) \<and>
     sorted_wrt (\<lambda>a b. \<not> bh_greater h a b) vs"
  by (rule GetValues_correct[OF assms(1,2) TrueI assms(3,4)])

theorem heap_get_values_sorted_witness:
  "bh_inv (sample_heap [2, 7, 5]) \<and> bh_callbacks_ok (sample_heap [2, 7, 5]) \<and>
   bh_count (sample_heap [2, 7, 5]) < 2 ^ 30 \<and>
   (\<exists>vs. CFBinaryHeapGetValues True (\<lambda>_. True) (sample_heap [2, 7, 5]) = Some vs \<and>
      mset vs = {#2, 7, 5#} \<and> sorted_wrt (\<lambda>a b. a \<le> b) vs)"
proof -
  have g: "bh_greater (sample_heap [2, 7, 5]) = (\<lambda>a b. a > b)"
    by (rule sample_greater) (simp add: sample_heap_def)
  have "bh_count (sample_heap [2, 7, 5]) < 2 ^ 30" by (simp add: sample_heap_def)
  then show ?thesis
    using heap_get_values_sorted[of "sample_heap [2, 7, 5]" "\<lambda>_. True"] g by (simp add: not_less)
qed

text \<open>
  C25. The references a heap with a \<^verbatim>\<open>release\<close> callback and a \<^verbatim>\<open>retain\<close> callback that answers its argument takes are balanced: after
  \<^verbatim>\<open>CFBinaryHeapCreate\<close> and any sequence of fewer than 2^30 operations, none of which goes wrong,
  the values retained are those released and those still stored; deallocating the heap releases
  the rest, so that every retained value has been released as often as it was retained.
\<close>

theorem heap_references_balanced:
  assumes "CFBinaryHeapCreate True alloc cb ctx = Some (Some h0)" "bh_callbacks_ok h0"
    "bh_counting h0" "\<forall>bytes. alloc bytes" "length ops < 2 ^ 30"
  shows "\<exists>h h'. bh_run alloc ops h0 = Some h \<and>
     mset (retained (bh_calls h)) = mset (released (bh_calls h)) + mset (bh_values h) \<and>
     CFBinaryHeapDeallocate h = Some h' \<and>
     mset (retained (bh_calls h')) = mset (released (bh_calls h'))"
proof -
  have h0: "bh_inv h0" "bh_mutable h0" "bh_count h0 = 0" "bh_balanced h0"
    using Create_fresh[OF assms(1)] by simp_all
  from h0(3) assms(5) have "bh_count h0 + length ops < 2 ^ 30" by simp
  from bh_run_correct[OF h0(1) assms(2) h0(2) assms(4) this assms(3) h0(4)]
  obtain h where h: "bh_run alloc ops h0 = Some h" "bh_inv h" "bh_balanced h" "bh_counting h"
    by blast
  from Deallocate_releases[OF h(2-4)] obtain h' where
    "CFBinaryHeapDeallocate h = Some h'" "mset (retained (bh_calls h')) = mset (released (bh_calls h'))"
    by blast
  with h(1,3) show ?thesis unfolding bh_balanced_def by blast
qed

theorem heap_references_balanced_witness:
  "\<exists>h0 h h'. CFBinaryHeapCreate True (\<lambda>_. True) (Some sample_callbacks) None = Some (Some h0) \<and>
     bh_run (\<lambda>_. True) [OpAdd 7, OpAdd 3, OpRemoveMinimum, OpAdd 9] h0 = Some h \<and>
     mset (retained (bh_calls h)) = mset (released (bh_calls h)) + mset (bh_values h) \<and>
     CFBinaryHeapDeallocate h = Some h' \<and>
     mset (retained (bh_calls h')) = mset (released (bh_calls h'))"
proof -
  let ?h0 = "(sample_heap [])\<lparr>bh_capacity := 4, bh_buckets := mem_alloc 4\<rparr>"
  have c: "CFBinaryHeapCreate True (\<lambda>_. True) (Some sample_callbacks) None = Some (Some ?h0)"
    by (simp add: CFBinaryHeapCreate_def CFBinaryHeapInit_def CFBinaryHeapRoundUpCapacity_def
        CFBinaryHeapNumBucketsForCapacity_def sample_heap_def)
  moreover have "bh_callbacks_ok ?h0" by (rule sample_ok) (simp add: sample_heap_def)
  moreover have "bh_counting ?h0"
    by (simp add: bh_counting_def sample_heap_def sample_callbacks_def)
  ultimately show ?thesis
    using heap_references_balanced[of "\<lambda>_. True" "Some sample_callbacks" None ?h0
        "[OpAdd 7, OpAdd 3, OpRemoveMinimum, OpAdd 9]"] by simp
qed

text \<open>
  C34. \<^verbatim>\<open>__CFBinaryHeapEqual\<close> has the sense of the comparison inverted: two heaps that each hold one
  value, the two values being distinct pointers, are reported equal exactly when the client's
  comparison says that the values are \<^emph>\<open>not\<close> equal.
\<close>

theorem heap_equal_inverted:
  assumes "bh_inv h1" "bh_callbacks_ok h1" "bh_values h1 = [a]"
    "bh_inv h2" "bh_callbacks_ok h2" "bh_values h2 = [b]"
    "cb_compare (bh_callbacks h1) = Some compare" "a \<noteq> b" "\<forall>bytes. alloc bytes"
  shows "CFBinaryHeapEqual True alloc True h1 h2 =
     Some (compare a b (bh_info h1) \<noteq> kCFCompareEqualTo)"
proof -
  have c: "bh_count h1 = 1" "bh_count h2 = 1"
    using assms(1,3,4,6) length_bh_values by fastforce+
  have "CFBinaryHeapGetValues True alloc h1 = Some [a]" "CFBinaryHeapGetValues True alloc h2 = Some [b]"
    using GetValues_correct[OF assms(1,2) TrueI assms(9)] GetValues_correct[OF assms(4,5) TrueI assms(9)]
      c assms(3,6) by auto
  then show ?thesis using c assms(7,8) by (simp add: CFBinaryHeapEqual_def cmp_true_def)
qed

theorem heap_equal_inverted_witness:
  "CFBinaryHeapEqual True (\<lambda>_. True) True (sample_heap [3]) (sample_heap [4]) = Some True"
  using heap_equal_inverted[of "sample_heap [3]" 3 "sample_heap [4]" 4
      "the (cb_compare sample_callbacks)" "\<lambda>_. True"]
  by (simp add: sample_callbacks_def)

end
