(* ===== verification/CF_Bit_Vector.thy ===== *)
theory CF_Bit_Vector
  imports CF_Prelude
begin

text \<open>
  \<^verbatim>\<open>CFBitVector.c\<close>: vectors of bits packed into bytes, bit 0 being the most significant bit of the
  first byte. Buckets are \<^typ>\<open>8 word\<close> values and all masks and shifts are those of the code. The
  lemmas relate every operation to the list of bits the vector stands for, and show what the
  code does where it falls short of that: in the comparison of two vectors and in
  \<^verbatim>\<open>CFBitVectorGetBits\<close> for ranges that do not start on a byte boundary.

  Fresh memory from the allocator holds arbitrary bytes, given by the parameter \<open>junk\<close>; \<open>alloc\<close>
  says whether a request for that many bytes is served. An access outside the bucket array gives
  \<open>None\<close>.
\<close>

section \<open>State\<close>

type_synonym bucket = "8 word"

type_synonym CFBit = "32 word"

record CFBitVector =
  bv_count :: nat
  bv_capacity :: nat
  bv_buckets :: "bucket list"
  bv_mutable :: bool

abbreviation (input) BITS_PER_BUCKET :: nat where
  "BITS_PER_BUCKET \<equiv> 8"

definition CFBitVectorRoundUpCapacity :: "nat \<Rightarrow> nat" where
  "CFBitVectorRoundUpCapacity capacity =
     (let capacity = (if 0 = capacity then 1 else capacity) in ((capacity + 63) div 64) * 64)"

definition CFBitVectorNumBuckets :: "nat \<Rightarrow> nat" where
  "CFBitVectorNumBuckets capacity = capacity div BITS_PER_BUCKET + 1"

definition CFBitBucketMask :: "nat \<Rightarrow> nat \<Rightarrow> bucket" where
  "CFBitBucketMask bottomBit topBit =
     (let shiftL = BITS_PER_BUCKET - topBit + bottomBit - 1;
          result = NOT 0;
          result = push_bit shiftL result
      in drop_bit bottomBit result)"

section \<open>Single bits\<close>

definition CFBitVectorBit :: "bucket list \<Rightarrow> nat \<Rightarrow> CFBit option" where
  "CFBitVectorBit buckets idx = do {
     let bucketIdx = idx div BITS_PER_BUCKET;
     let bitOfBucket = idx AND (BITS_PER_BUCKET - 1);
     b \<leftarrow> aget buckets bucketIdx;
     Some (ucast (drop_bit (BITS_PER_BUCKET - 1 - bitOfBucket) b AND 1))
   }"

definition CFSetBitVectorBit :: "bucket list \<Rightarrow> nat \<Rightarrow> CFBit \<Rightarrow> bucket list option" where
  "CFSetBitVectorBit buckets idx v = do {
     let bucketIdx = idx div BITS_PER_BUCKET;
     let bitOfBucket = idx AND (BITS_PER_BUCKET - 1);
     b \<leftarrow> aget buckets bucketIdx;
     if v \<noteq> 0
     then aset buckets bucketIdx (b OR push_bit (BITS_PER_BUCKET - 1 - bitOfBucket) 1)
     else aset buckets bucketIdx (b AND NOT (push_bit (BITS_PER_BUCKET - 1 - bitOfBucket) 1))
   }"

definition CFFlipBitVectorBit :: "bucket list \<Rightarrow> nat \<Rightarrow> bucket list option" where
  "CFFlipBitVectorBit buckets idx = do {
     let bucketIdx = idx div BITS_PER_BUCKET;
     let bitOfBucket = idx AND (BITS_PER_BUCKET - 1);
     b \<leftarrow> aget buckets bucketIdx;
     aset buckets bucketIdx (b XOR push_bit (BITS_PER_BUCKET - 1 - bitOfBucket) 1)
   }"

definition CFBitVectorGetBitAtIndex :: "CFBitVector \<Rightarrow> nat \<Rightarrow> CFBit option" where
  "CFBitVectorGetBitAtIndex bv idx = CFBitVectorBit (bv_buckets bv) idx"

definition CFBitVectorSetBitAtIndex :: "CFBitVector \<Rightarrow> nat \<Rightarrow> CFBit \<Rightarrow> CFBitVector option" where
  "CFBitVectorSetBitAtIndex bv idx v = do {
     b \<leftarrow> CFSetBitVectorBit (bv_buckets bv) idx v;
     Some (bv\<lparr>bv_buckets := b\<rparr>)
   }"

definition CFBitVectorFlipBitAtIndex :: "CFBitVector \<Rightarrow> nat \<Rightarrow> CFBitVector option" where
  "CFBitVectorFlipBitAtIndex bv idx = do {
     b \<leftarrow> CFFlipBitVectorBit (bv_buckets bv) idx;
     Some (bv\<lparr>bv_buckets := b\<rparr>)
   }"

section \<open>Creation, copies, comparison\<close>

text \<open>
  \<^verbatim>\<open>__CFBitVectorInit\<close>; the outer \<open>option\<close> is undefined behaviour, the inner one the \<^verbatim>\<open>NULL\<close> answered
  when memory is short. \<open>bytes\<close> is \<open>None\<close> for a null pointer. The requested capacity is not used.
\<close>

definition CFBitVectorInit ::
    "bool \<Rightarrow> (nat \<Rightarrow> bool) \<Rightarrow> bool \<Rightarrow> bucket list option \<Rightarrow> nat \<Rightarrow> CFBitVector option option" where
  "CFBitVectorInit created alloc flags bytes numBits =
     (if \<not> created then Some None
      else
        let capacity = CFBitVectorRoundUpCapacity numBits;
            numBuckets = CFBitVectorNumBuckets capacity
        in if \<not> alloc numBuckets then Some None
           else do {
             let buckets = replicate numBuckets 0;
             let numBytes = numBits div 8 + (if numBits AND 7 \<noteq> 0 then 1 else 0);
             buckets' \<leftarrow> (case bytes of
                 None \<Rightarrow> Some buckets
               | Some bs \<Rightarrow> if numBytes \<le> length bs \<and> numBytes \<le> numBuckets
                   then Some (take numBytes bs @ drop numBytes buckets) else None);
             Some (Some \<lparr>bv_count = numBits, bv_capacity = capacity, bv_buckets = buckets',
                         bv_mutable = flags\<rparr>)
           })"

definition CFBitVectorCreate ::
    "bool \<Rightarrow> (nat \<Rightarrow> bool) \<Rightarrow> bucket list option \<Rightarrow> nat \<Rightarrow> CFBitVector option option" where
  "CFBitVectorCreate created alloc bytes numBits = CFBitVectorInit created alloc False bytes numBits"

definition CFBitVectorCreateMutable ::
    "bool \<Rightarrow> (nat \<Rightarrow> bool) \<Rightarrow> CFBitVector option option" where
  "CFBitVectorCreateMutable created alloc = CFBitVectorInit created alloc True None 0"

definition CFBitVectorCreateCopy ::
    "bool \<Rightarrow> (nat \<Rightarrow> bool) \<Rightarrow> CFBitVector \<Rightarrow> CFBitVector option option" where
  "CFBitVectorCreateCopy created alloc bv =
     CFBitVectorInit created alloc False (Some (bv_buckets bv)) (bv_count bv)"

definition CFBitVectorCreateMutableCopy ::
    "bool \<Rightarrow> (nat \<Rightarrow> bool) \<Rightarrow> CFBitVector \<Rightarrow> CFBitVector option option" where
  "CFBitVectorCreateMutableCopy created alloc bv =
     CFBitVectorInit created alloc True (Some (bv_buckets bv)) (bv_count bv)"

definition CFBitVectorGetCount :: "CFBitVector \<Rightarrow> nat" where
  "CFBitVectorGetCount bv = bv_count bv"

function CFBitVectorEqualLoop :: "bucket list \<Rightarrow> bucket list \<Rightarrow> nat \<Rightarrow> nat \<Rightarrow> bool option" where
  "CFBitVectorEqualLoop b1 b2 n idx =
     (if idx < n
      then do {
        val1 \<leftarrow> aget b1 idx;
        val2 \<leftarrow> aget b2 idx;
        if val1 \<noteq> val2 then Some False else CFBitVectorEqualLoop b1 b2 n (idx + 1)
      }
      else Some True)"
  by pat_completeness auto
termination
  by (relation "measure (\<lambda>(b1, b2, n, idx). n - idx)") auto

declare CFBitVectorEqualLoop.simps [simp del]

definition CFBitVectorEqual :: "CFBitVector \<Rightarrow> CFBitVector \<Rightarrow> bool option" where
  "CFBitVectorEqual bv1 bv2 =
     (let cnt = bv_count bv1 in
      if cnt \<noteq> bv_count bv2 then Some False
      else if cnt = 0 then Some True
      else CFBitVectorEqualLoop (bv_buckets bv1) (bv_buckets bv2) (cnt div BITS_PER_BUCKET + 1) 0)"

definition CFBitVectorHash :: "CFBitVector \<Rightarrow> nat" where
  "CFBitVectorHash bv = bv_count bv"

definition CFBitVectorDeallocate :: "CFBitVector \<Rightarrow> CFBitVector" where
  "CFBitVectorDeallocate bv = bv\<lparr>bv_buckets := []\<rparr>"

section \<open>The map over a range of bits\<close>

text \<open>
  \<^verbatim>\<open>__CFBitVectorInternalMap\<close>: the mapper sees each bucket the range touches, with the mask of the
  bits that belong to the range, and threads its context \<open>c\<close>.
\<close>

type_synonym 'c mapper = "bucket \<Rightarrow> bucket \<Rightarrow> 'c \<Rightarrow> (bucket \<times> 'c) option"

definition map_masked ::
    "'c mapper \<Rightarrow> nat \<Rightarrow> bucket \<Rightarrow> bucket list \<Rightarrow> 'c \<Rightarrow> (bucket list \<times> 'c) option" where
  "map_masked mapper bucketIdx bucketValMask buckets c = do {
     v \<leftarrow> aget buckets bucketIdx;
     (newBucketVal, c') \<leftarrow> mapper v bucketValMask c;
     buckets' \<leftarrow> aset buckets bucketIdx
        ((v AND NOT bucketValMask) OR (newBucketVal AND bucketValMask));
     Some (buckets', c')
   }"

fun map_whole ::
    "'c mapper \<Rightarrow> nat \<Rightarrow> nat \<Rightarrow> bucket list \<Rightarrow> 'c \<Rightarrow> (bucket list \<times> 'c) option" where
  "map_whole mapper bucketIdx 0 buckets c = Some (buckets, c)"
| "map_whole mapper bucketIdx (Suc nBuckets) buckets c = do {
     v \<leftarrow> aget buckets bucketIdx;
     (newBucketVal, c') \<leftarrow> mapper v (NOT 0) c;
     buckets' \<leftarrow> aset buckets bucketIdx newBucketVal;
     map_whole mapper (bucketIdx + 1) nBuckets buckets' c'
   }"

definition CFBitVectorInternalMap ::
    "CFBitVector \<Rightarrow> CFRange \<Rightarrow> 'c mapper \<Rightarrow> 'c \<Rightarrow> (CFBitVector \<times> 'c) option" where
  "CFBitVectorInternalMap bv rng mapper c =
     (let loc = range_location rng; len = range_length rng in
      if 0 = len then Some (bv, c)
      else do {
        let bucketIdx = loc div BITS_PER_BUCKET;
        let bitOfBucket = loc AND (BITS_PER_BUCKET - 1);
        let short = bitOfBucket + len < BITS_PER_BUCKET;
        let bucketValMask = (if short then CFBitBucketMask bitOfBucket (bitOfBucket + len - 1)
                             else CFBitBucketMask bitOfBucket (BITS_PER_BUCKET - 1));
        let len1 = (if short then 0 else len - (BITS_PER_BUCKET - bitOfBucket));
        (b1, c1) \<leftarrow> map_masked mapper bucketIdx bucketValMask (bv_buckets bv) c;
        let nBuckets = len1 div BITS_PER_BUCKET;
        let len2 = len1 - nBuckets * BITS_PER_BUCKET;
        (b2, c2) \<leftarrow> map_whole mapper (bucketIdx + 1) nBuckets b1 c1;
        (b3, c3) \<leftarrow> (if 0 \<noteq> len2
           then map_masked mapper (bucketIdx + 1 + nBuckets) (CFBitBucketMask 0 (len2 - 1)) b2 c2
           else Some (b2, c2));
        Some (bv\<lparr>bv_buckets := b3\<rparr>, c3)
      })"

section \<open>Counting\<close>

record occursContext =
  oc_value :: CFBit
  oc_count :: nat

definition CFNibbleBitCount :: "nat list" where
  "CFNibbleBitCount = [0, 1, 1, 2, 1, 2, 2, 3, 1, 2, 2, 3, 2, 3, 3, 4]"

definition CFBitVectorCountBits :: "occursContext mapper" where
  "CFBitVectorCountBits bucketValue bucketValueMask ctx = do {
     let val = (if oc_value ctx \<noteq> 0 then bucketValue AND bucketValueMask
                else NOT bucketValue AND bucketValueMask);
     n0 \<leftarrow> aget CFNibbleBitCount (unat (val AND 0xF));
     let val1 = drop_bit 4 val;
     n1 \<leftarrow> aget CFNibbleBitCount (unat (val1 AND 0xF));
     Some (bucketValue, ctx\<lparr>oc_count := oc_count ctx + n0 + n1\<rparr>)
   }"

text \<open>The vector is handed to the map as a mutable one, so what it holds afterwards is returned too.\<close>

definition CFBitVectorGetCountOfBit ::
    "CFBitVector \<Rightarrow> CFRange \<Rightarrow> CFBit \<Rightarrow> (CFBitVector \<times> nat) option" where
  "CFBitVectorGetCountOfBit bv rng v =
     (if 0 = range_length rng then Some (bv, 0)
      else do {
        (bv', ctx) \<leftarrow> CFBitVectorInternalMap bv rng CFBitVectorCountBits
           \<lparr>oc_value = v, oc_count = 0\<rparr>;
        Some (bv', oc_count ctx)
      })"

definition CFBitVectorContainsBit ::
    "CFBitVector \<Rightarrow> CFRange \<Rightarrow> CFBit \<Rightarrow> (CFBitVector \<times> bool) option" where
  "CFBitVectorContainsBit bv rng v = do {
     (bv', n) \<leftarrow> CFBitVectorGetCountOfBit bv rng v;
     Some (bv', n \<noteq> 0)
   }"

section \<open>Extracting bits\<close>

text \<open>\<open>gb_bytes\<close> is the client's buffer and \<open>gb_cur\<close> the index \<^verbatim>\<open>curByte\<close> points at.\<close>

record getBitsContext =
  gb_bytes :: "bucket list"
  gb_cur :: nat
  gb_initBits :: nat
  gb_totalBits :: int
  gb_ignoreFirstInitBits :: bool

function GetBitsLoop :: "bucket \<Rightarrow> int \<Rightarrow> getBitsContext \<Rightarrow> (bucket \<times> int \<times> getBitsContext) option" where
  "GetBitsLoop val nBits ctx =
     (if 8 \<le> nBits
      then do {
        bytes' \<leftarrow> aset (gb_bytes ctx) (gb_cur ctx) (drop_bit (BITS_PER_BUCKET - 8) val);
        GetBitsLoop 0 (nBits - 8)
          (ctx\<lparr>gb_bytes := bytes', gb_cur := gb_cur ctx + 1,
                   gb_totalBits := gb_totalBits ctx - int (gb_initBits ctx)\<rparr>)
      }
      else Some (val, nBits, ctx))"
  by pat_completeness auto
termination
  by (relation "measure (\<lambda>(val, nBits, ctx). nat nBits)") auto

declare GetBitsLoop.simps [simp del]

definition GetBitsMapper :: "getBitsContext mapper" where
  "GetBitsMapper bucketValue bucketValueMask ctx = do {
     let val = bucketValue AND bucketValueMask;
     let nBits = min (int BITS_PER_BUCKET - int (gb_initBits ctx)) (gb_totalBits ctx);
     (val1, ctx1) \<leftarrow>
       (if 0 < gb_initBits ctx
        then do {
          ctx1 \<leftarrow>
            (if \<not> gb_ignoreFirstInitBits ctx
             then do {
               old \<leftarrow> aget (gb_bytes ctx) (gb_cur ctx);
               bytes' \<leftarrow> aset (gb_bytes ctx) (gb_cur ctx)
                  (old OR drop_bit (BITS_PER_BUCKET - gb_initBits ctx) val);
               Some (ctx\<lparr>gb_bytes := bytes', gb_cur := gb_cur ctx + 1,
                  gb_totalBits := gb_totalBits ctx - int (gb_initBits ctx),
                  gb_ignoreFirstInitBits := False\<rparr>)
             }
             else Some ctx);
          Some (push_bit (gb_initBits ctx1) val, ctx1)
        }
        else Some (val, ctx));
     (val2, nBits2, ctx2) \<leftarrow> GetBitsLoop val1 nBits ctx1;
     if 0 < nBits2
     then do {
       bytes' \<leftarrow> aset (gb_bytes ctx2) (gb_cur ctx2) (drop_bit (BITS_PER_BUCKET - 8) val2);
       Some (bucketValue, ctx2\<lparr>gb_bytes := bytes', gb_totalBits := gb_totalBits ctx2 - nBits2\<rparr>)
     }
     else Some (bucketValue, ctx2)
   }"

definition CFBitVectorGetBits ::
    "CFBitVector \<Rightarrow> CFRange \<Rightarrow> bucket list \<Rightarrow> (CFBitVector \<times> bucket list) option" where
  "CFBitVectorGetBits bv rng bytes =
     (if 0 = range_length rng then Some (bv, bytes)
      else do {
        (bv', ctx) \<leftarrow> CFBitVectorInternalMap bv rng GetBitsMapper
          \<lparr>gb_bytes = bytes, gb_cur = 0, gb_initBits = range_location rng AND (BITS_PER_BUCKET - 1),
           gb_totalBits = int (range_length rng), gb_ignoreFirstInitBits = True\<rparr>;
        Some (bv', gb_bytes ctx)
      })"

section \<open>Searching\<close>

text \<open>\<open>None\<close> inside is \<^verbatim>\<open>kCFNotFound\<close>.\<close>

function FirstIndexLoop :: "CFBitVector \<Rightarrow> CFRange \<Rightarrow> CFBit \<Rightarrow> nat \<Rightarrow> nat option option" where
  "FirstIndexLoop bv rng v idx =
     (if idx < range_length rng
      then do {
        x \<leftarrow> CFBitVectorGetBitAtIndex bv (range_location rng + idx);
        if v = x then Some (Some (range_location rng + idx))
        else FirstIndexLoop bv rng v (idx + 1)
      }
      else Some None)"
  by pat_completeness auto
termination
  by (relation "measure (\<lambda>(bv, rng, v, idx). range_length rng - idx)") auto

declare FirstIndexLoop.simps [simp del]

definition CFBitVectorGetFirstIndexOfBit :: "CFBitVector \<Rightarrow> CFRange \<Rightarrow> CFBit \<Rightarrow> nat option option" where
  "CFBitVectorGetFirstIndexOfBit bv rng v = FirstIndexLoop bv rng v 0"

fun LastIndexLoop :: "CFBitVector \<Rightarrow> CFRange \<Rightarrow> CFBit \<Rightarrow> nat \<Rightarrow> nat option option" where
  "LastIndexLoop bv rng v 0 = Some None"
| "LastIndexLoop bv rng v (Suc idx) = do {
     x \<leftarrow> CFBitVectorGetBitAtIndex bv (range_location rng + idx);
     if v = x then Some (Some (range_location rng + idx))
     else LastIndexLoop bv rng v idx
   }"

definition CFBitVectorGetLastIndexOfBit :: "CFBitVector \<Rightarrow> CFRange \<Rightarrow> CFBit \<Rightarrow> nat option option" where
  "CFBitVectorGetLastIndexOfBit bv rng v = LastIndexLoop bv rng v (range_length rng)"

section \<open>Changing ranges of bits\<close>

definition CFBitVectorGrow ::
    "(nat \<Rightarrow> bool) \<Rightarrow> (nat \<Rightarrow> bucket) \<Rightarrow> CFBitVector \<Rightarrow> nat \<Rightarrow> CFBitVector option" where
  "CFBitVectorGrow alloc junk bv numNewValues =
     (let capacity = CFBitVectorRoundUpCapacity (bv_count bv + numNewValues);
          numBuckets = CFBitVectorNumBuckets capacity
      in if alloc numBuckets
         then Some (bv\<lparr>bv_capacity := capacity,
                bv_buckets := map (\<lambda>i. if i < length (bv_buckets bv) then bv_buckets bv ! i else junk i)
                                [0..<numBuckets]\<rparr>)
         else None)"

definition CFBitVectorZeroBits :: "unit mapper" where
  "CFBitVectorZeroBits bucketValue bucketValueMask ctx = Some (0, ctx)"

definition CFBitVectorOneBits :: "unit mapper" where
  "CFBitVectorOneBits bucketValue bucketValueMask ctx = Some (NOT 0, ctx)"

definition CFBitVectorFlipMapper :: "unit mapper" where
  "CFBitVectorFlipMapper bucketValue bucketValueMask ctx = Some (NOT 0 XOR bucketValue, ctx)"

definition CFBitVectorSetCount ::
    "(nat \<Rightarrow> bool) \<Rightarrow> (nat \<Rightarrow> bucket) \<Rightarrow> CFBitVector \<Rightarrow> nat \<Rightarrow> CFBitVector option" where
  "CFBitVectorSetCount alloc junk bv newCount = do {
     let cnt = bv_count bv;
     bv1 \<leftarrow> (if bv_mutable bv \<and> cnt < newCount
             then CFBitVectorGrow alloc junk bv (newCount - cnt) else Some bv);
     bv2 \<leftarrow> (if cnt < newCount
             then do {
               (bv2, _) \<leftarrow> CFBitVectorInternalMap bv1 (CFRangeMake cnt (newCount - cnt)) CFBitVectorZeroBits ();
               Some bv2
             }
             else Some bv1);
     Some (bv2\<lparr>bv_count := newCount\<rparr>)
   }"

definition CFBitVectorFlipBits :: "CFBitVector \<Rightarrow> CFRange \<Rightarrow> CFBitVector option" where
  "CFBitVectorFlipBits bv rng =
     (if 0 = range_length rng then Some bv
      else map_option fst (CFBitVectorInternalMap bv rng CFBitVectorFlipMapper ()))"

definition CFBitVectorSetBits :: "CFBitVector \<Rightarrow> CFRange \<Rightarrow> CFBit \<Rightarrow> CFBitVector option" where
  "CFBitVectorSetBits bv rng v =
     (if 0 = range_length rng then Some bv
      else map_option fst (CFBitVectorInternalMap bv rng
             (if v \<noteq> 0 then CFBitVectorOneBits else CFBitVectorZeroBits) ()))"

definition CFBitVectorSetAllBits :: "CFBitVector \<Rightarrow> CFBit \<Rightarrow> CFBitVector option" where
  "CFBitVectorSetAllBits bv v = do {
     let nBuckets = bv_count bv div BITS_PER_BUCKET;
     let leftover = bv_count bv - nBuckets * BITS_PER_BUCKET;
     bv1 \<leftarrow> (if 0 < leftover
             then map_option fst (CFBitVectorInternalMap bv
                    (CFRangeMake (nBuckets * BITS_PER_BUCKET) leftover)
                    (if v \<noteq> 0 then CFBitVectorOneBits else CFBitVectorZeroBits) ())
             else Some bv);
     if nBuckets \<le> length (bv_buckets bv1)
     then Some (bv1\<lparr>bv_buckets :=
            replicate nBuckets (if v \<noteq> 0 then NOT 0 else 0) @ drop nBuckets (bv_buckets bv1)\<rparr>)
     else None
   }"

section \<open>Bits of buckets\<close>

definition bv_bit :: "bucket list \<Rightarrow> nat \<Rightarrow> bool" where
  "bv_bit b i = bit (b ! (i div 8)) (7 - i mod 8)"

definition bv_bits :: "CFBitVector \<Rightarrow> bool list" where
  "bv_bits bv = map (bv_bit (bv_buckets bv)) [0..<bv_count bv]"

text \<open>The buckets hold the bits, and one bucket more than the capacity needs is allocated.\<close>

definition bv_inv :: "CFBitVector \<Rightarrow> bool" where
  "bv_inv bv \<longleftrightarrow> bv_count bv \<le> bv_capacity bv \<and>
     length (bv_buckets bv) = CFBitVectorNumBuckets (bv_capacity bv)"

lemma and_7 [simp]: "(n::nat) AND 7 = n mod 8"
  using take_bit_eq_mask[of 3 n] by (simp add: take_bit_eq_mod mask_eq_exp_minus_1)

lemma bit_CFBitBucketMask:
  assumes "lo \<le> hi" "hi \<le> 7"
  shows "bit (CFBitBucketMask lo hi) j \<longleftrightarrow> 7 - hi \<le> j \<and> j \<le> 7 - lo"
  using assms
  by (auto simp: CFBitBucketMask_def Let_def bit_simps)

lemma CFBitBucketMask_0_7 [simp]: "CFBitBucketMask 0 7 = NOT 0"
  by (simp add: CFBitBucketMask_def)

section \<open>The map as a fold over masked buckets\<close>

text \<open>\<open>bv_mask loc len i\<close> selects the bits of bucket \<open>i\<close> that belong to the range.\<close>

definition bv_mask :: "nat \<Rightarrow> nat \<Rightarrow> nat \<Rightarrow> bucket" where
  "bv_mask loc len i = CFBitBucketMask (loc - 8 * i) (min (loc + len - 8 * i) 8 - 1)"

fun seg_fold ::
    "'c mapper \<Rightarrow> (nat \<times> bucket) list \<Rightarrow> bucket list \<Rightarrow> 'c \<Rightarrow> (bucket list \<times> 'c) option" where
  "seg_fold mapper [] b c = Some (b, c)"
| "seg_fold mapper ((i, m) # ss) b c = do {
     (b', c') \<leftarrow> map_masked mapper i m b c;
     seg_fold mapper ss b' c'
   }"

definition bv_segments :: "nat \<Rightarrow> nat \<Rightarrow> (nat \<times> bucket) list" where
  "bv_segments loc len = map (\<lambda>i. (i, bv_mask loc len i)) [loc div 8..<(loc + len - 1) div 8 + 1]"

lemma seg_fold_append:
  "seg_fold mapper (ss @ ts) b c =
     do { (b', c') \<leftarrow> seg_fold mapper ss b c; seg_fold mapper ts b' c' }"
  by (induction ss arbitrary: b c) (auto simp: Option.bind_assoc case_prod_unfold)

lemma map_whole_seg_fold:
  "map_whole mapper i n b c = seg_fold mapper (map (\<lambda>i. (i, NOT 0)) [i..<i + n]) b c"
proof (induction n arbitrary: i b c)
  case 0
  then show ?case by simp
next
  case (Suc n)
  have "[i..<i + Suc n] = i # [Suc i..<Suc i + n]" by (simp add: upt_conv_Cons del: upt_Suc)
  then show ?case
    using Suc by (simp add: map_masked_def Option.bind_assoc case_prod_unfold del: upt_Suc)
qed

lemma bit_bv_mask:
  assumes "0 < len" "loc div 8 \<le> i" "i \<le> (loc + len - 1) div 8" "j < 8"
  shows "bit (bv_mask loc len i) j \<longleftrightarrow> loc \<le> 8 * i + (7 - j) \<and> 8 * i + (7 - j) < loc + len"
proof -
  have "loc < 8 * i + 8" "8 * i < loc + len" using assms by linarith+
  then show ?thesis
    using assms(1,4) unfolding bv_mask_def
    by (subst bit_CFBitBucketMask) (auto simp: min_def)
qed

lemma bucket_end:
  "(loc::nat) = 8 * q + k \<Longrightarrow> k < 8 \<Longrightarrow> len = 8 - k + 8 * n + len2 \<Longrightarrow>
   loc + len = 8 * (q + 1 + n) + len2"
  by simp

lemma bucket_count:
  "0 < m \<Longrightarrow> r < 8 \<Longrightarrow> (8 * m + r - 1) div 8 + 1 = m + (if r \<noteq> 0 then 1 else (0::nat))"
  by (cases r) simp_all

lemma bv_segments_long:
  assumes len: "len = 8 - loc mod 8 + 8 * n + len2" and "len2 < 8"
  shows "bv_segments loc len = (loc div 8, CFBitBucketMask (loc mod 8) 7) #
     map (\<lambda>i. (i, NOT 0)) [loc div 8 + 1..<loc div 8 + 1 + n] @
     (if len2 \<noteq> 0 then [(loc div 8 + 1 + n, CFBitBucketMask 0 (len2 - 1))] else [])"
proof -
  define q k where qk: "q = loc div 8" "k = loc mod 8"
  have loc: "loc = 8 * q + k" "k < 8" by (simp_all add: qk)
  have sum: "loc + len = 8 * (q + 1 + n) + len2"
    using bucket_end[OF loc] len unfolding qk(2) by blast
  have hd: "bv_mask loc len q = CFBitBucketMask k 7"
    using sum loc by (simp add: bv_mask_def)
  have mid: "bv_mask loc len i = NOT 0" if "q + 1 \<le> i" "i < q + 1 + n" for i
  proof -
    have "loc - 8 * i = 0" "min (loc + len - 8 * i) 8 = 8" using that sum loc by simp_all
    then show ?thesis by (simp add: bv_mask_def)
  qed
  have last: "bv_mask loc len (q + 1 + n) = CFBitBucketMask 0 (len2 - 1)"
  proof -
    have "loc - 8 * (q + 1 + n) = 0" "min (loc + len - 8 * (q + 1 + n)) 8 = len2"
      using sum loc assms(2) by simp_all
    then show ?thesis by (simp add: bv_mask_def)
  qed
  have cnt: "(loc + len - 1) div 8 + 1 = q + 1 + n + (if len2 \<noteq> 0 then 1 else 0)"
    unfolding sum by (rule bucket_count) (use assms(2) in simp_all)
  have upt: "[q..<q + 1 + n + (if len2 \<noteq> 0 then 1 else 0)] =
      q # [q + 1..<q + 1 + n] @ (if len2 \<noteq> 0 then [q + 1 + n] else [])"
    by (simp add: upt_conv_Cons)
  have "map (\<lambda>i. (i, bv_mask loc len i)) [q + 1..<q + 1 + n] = map (\<lambda>i. (i, NOT 0)) [q + 1..<q + 1 + n]"
    by (rule map_cong[OF refl]) (use mid in \<open>simp del: upt_Suc\<close>)
  then show ?thesis
    unfolding bv_segments_def cnt qk[symmetric] upt using hd last by (simp del: upt_Suc)
qed

lemma InternalMap_segments:
  assumes "0 < range_length r"
  shows "CFBitVectorInternalMap bv r mapper c =
     map_option (\<lambda>(b, c'). (bv\<lparr>bv_buckets := b\<rparr>, c'))
       (seg_fold mapper (bv_segments (range_location r) (range_length r)) (bv_buckets bv) c)"
proof -
  define loc len i k where d: "loc = range_location r" "len = range_length r" "i = loc div 8"
    "k = loc mod 8"
  have loc: "loc = 8 * i + k" "k < 8" and len: "0 < len" using assms by (simp_all add: d)
  show ?thesis
  proof (cases "k + len < 8")
    case True
    then have div: "(loc + len - 1) div 8 = i" using loc len by (intro div_nat_eqI) simp_all
    have arith: "loc - 8 * i = k" "loc + len - 8 * i = k + len" using loc by simp_all
    have "bv_segments loc len = [(i, CFBitBucketMask k (k + len - 1))]"
      using True div arith by (simp add: bv_segments_def bv_mask_def d(3)[symmetric])
    with True len show ?thesis
      by (simp add: CFBitVectorInternalMap_def d[symmetric] case_prod_unfold
          map_conv_bind_option comp_def)
  next
    case False
    define len1 n len2 where e: "len1 = len - (8 - k)" "n = len1 div 8" "len2 = len1 mod 8"
    have len1: "len = 8 - k + len1" using False e(1) loc(2) by linarith
    have e2: "len1 = 8 * n + len2" "len2 < 8" unfolding e(2,3) by simp_all
    then have e3: "len1 - n * 8 = len2" "len = 8 - loc mod 8 + 8 * n + len2"
      using len1 d(4) by simp_all
    have "bv_segments loc len = (i, CFBitBucketMask k 7) # map (\<lambda>i. (i, NOT 0)) [i + 1..<i + 1 + n] @
        (if len2 \<noteq> 0 then [(i + 1 + n, CFBitBucketMask 0 (len2 - 1))] else [])"
      unfolding d(3,4) by (rule bv_segments_long[OF e3(2) e2(2)])
    moreover have "n * 8 < len1 \<longleftrightarrow> len2 \<noteq> 0" using e2 by simp
    ultimately show ?thesis
      using False len
      by (simp add: e3(1) CFBitVectorInternalMap_def d[symmetric] e[symmetric] case_prod_unfold
          map_conv_bind_option comp_def seg_fold_append map_whole_seg_fold Option.bind_assoc del: upt_Suc)
  qed
qed

section \<open>Mappers without a context\<close>

text \<open>A mapper that computes \<open>f\<close> on each bucket changes exactly the bits of the range, by \<open>f\<close>.\<close>

lemma seg_fold_pointwise:
  assumes "\<And>v m. mapper v m c = Some (f v, c)"
    and "\<forall>(i, m) \<in> set ss. i < length b" "distinct (map fst ss)"
  shows "\<exists>b'. seg_fold mapper ss b c = Some (b', c) \<and> length b' = length b \<and>
     (\<forall>i<length b. b' ! i = (case map_of ss i of
        None \<Rightarrow> b ! i | Some m \<Rightarrow> (b ! i AND NOT m) OR (f (b ! i) AND m)))"
  using assms(2,3)
proof (induction ss arbitrary: b)
  case Nil
  then show ?case by simp
next
  case (Cons s ss)
  obtain i m where s: "s = (i, m)" by force
  let ?b1 = "b[i := (b ! i AND NOT m) OR (f (b ! i) AND m)]"
  have i: "i < length b" "i \<notin> fst ` set ss" using Cons.prems s by auto
  have "\<forall>(i, m) \<in> set ss. i < length ?b1" "distinct (map fst ss)" using Cons.prems by auto
  from Cons.IH[OF this] obtain b' where b': "seg_fold mapper ss ?b1 c = Some (b', c)"
      "length b' = length b"
      "\<forall>j<length b. b' ! j = (case map_of ss j of
        None \<Rightarrow> ?b1 ! j | Some m \<Rightarrow> (?b1 ! j AND NOT m) OR (f (?b1 ! j) AND m))"
    by auto
  have "map_of ss i = None" using i(2) by (simp add: map_of_eq_None_iff)
  then have "\<forall>j<length b. b' ! j = (case map_of (s # ss) j of
        None \<Rightarrow> b ! j | Some m \<Rightarrow> (b ! j AND NOT m) OR (f (b ! j) AND m))"
    using b'(3) i(1) by (simp add: s nth_list_update split: option.splits)
  then show ?case
    using b'(1,2) i(1) by (simp add: s map_masked_def aget_in aset_in assms(1))
qed

lemma map_of_segments:
  "map_of (bv_segments loc len) i =
     (if loc div 8 \<le> i \<and> i \<le> (loc + len - 1) div 8 then Some (bv_mask loc len i) else None)"
proof -
  have "map_of (map (\<lambda>i. (i, f i)) xs) i = (if i \<in> set xs then Some (f i) else None)"
    for f :: "nat \<Rightarrow> bucket" and xs by (induction xs) auto
  then show ?thesis by (auto simp: bv_segments_def simp del: upt_Suc)
qed

lemma segments_in:
  assumes "loc + len \<le> 8 * n" "0 < len"
  shows "\<forall>(i, m) \<in> set (bv_segments loc len). i < n"
proof -
  have "(loc + len - 1) div 8 < n" using assms by (simp add: div_less_iff_less_mult)
  then show ?thesis by (auto simp: bv_segments_def simp del: upt_Suc)
qed

lemma distinct_segments [simp]: "distinct (map fst (bv_segments loc len))"
  by (simp add: bv_segments_def comp_def del: upt_Suc)

lemma idx_bounds:
  assumes "(i::nat) < loc + len" "loc \<le> i" "0 < len"
  shows "loc div 8 \<le> i div 8" "i div 8 \<le> (loc + len - 1) div 8"
  using assms by (simp_all add: div_le_mono)

lemma bit_masked:
  assumes "0 < len"
  shows "bit (case map_of (bv_segments loc len) (idx div 8) of
           None \<Rightarrow> x | Some m \<Rightarrow> (x AND NOT m) OR (y AND m)) (7 - idx mod 8) =
     (if loc \<le> idx \<and> idx < loc + len then bit y (7 - idx mod 8) else bit x (7 - idx mod 8))"
proof (cases "loc div 8 \<le> idx div 8 \<and> idx div 8 \<le> (loc + len - 1) div 8")
  case True
  have "idx mod 8 \<le> 7" using mod_less_divisor[of 8 idx] by simp
  then have "8 * (idx div 8) + (7 - (7 - idx mod 8)) = idx" by simp
  then have "bit (bv_mask loc len (idx div 8)) (7 - idx mod 8) \<longleftrightarrow> loc \<le> idx \<and> idx < loc + len"
    using bit_bv_mask[OF assms, of loc "idx div 8" "7 - idx mod 8"] True by simp
  with True show ?thesis by (auto simp: map_of_segments bit_simps)
next
  case False
  then have "\<not> (loc \<le> idx \<and> idx < loc + len)" using idx_bounds[of idx loc len] assms by blast
  with False show ?thesis by (auto simp: map_of_segments)
qed

lemma InternalMap_pointwise:
  assumes map: "\<And>v m. mapper v m c = Some (f v, c)"
    and r: "range_location r + range_length r \<le> 8 * length (bv_buckets bv)"
  shows "\<exists>b. CFBitVectorInternalMap bv r mapper c = Some (bv\<lparr>bv_buckets := b\<rparr>, c) \<and>
     length b = length (bv_buckets bv) \<and>
     (\<forall>idx < 8 * length b. bv_bit b idx =
        (if range_location r \<le> idx \<and> idx < range_location r + range_length r
         then bit (f (bv_buckets bv ! (idx div 8))) (7 - idx mod 8)
         else bv_bit (bv_buckets bv) idx))"
proof (cases "range_length r = 0")
  case True
  then show ?thesis by (intro exI[of _ "bv_buckets bv"]) (auto simp: CFBitVectorInternalMap_def)
next
  case False
  let ?ss = "bv_segments (range_location r) (range_length r)"
  from seg_fold_pointwise[where mapper = mapper and c = c and f = f and ss = ?ss and b = "bv_buckets bv"]
    map segments_in[OF r] False
  obtain b where b: "seg_fold mapper ?ss (bv_buckets bv) c = Some (b, c)"
      "length b = length (bv_buckets bv)"
      "\<forall>i<length (bv_buckets bv). b ! i = (case map_of ?ss i of
        None \<Rightarrow> bv_buckets bv ! i
      | Some m \<Rightarrow> (bv_buckets bv ! i AND NOT m) OR (f (bv_buckets bv ! i) AND m))"
    by auto
  have "bv_bit b idx = (if range_location r \<le> idx \<and> idx < range_location r + range_length r
         then bit (f (bv_buckets bv ! (idx div 8))) (7 - idx mod 8)
         else bv_bit (bv_buckets bv) idx)" if "idx < 8 * length b" for idx
  proof -
    have "idx div 8 < length (bv_buckets bv)"
      using that b(2) by (simp add: div_less_iff_less_mult mult.commute)
    then show ?thesis
      using b(3) bit_masked[where len = "range_length r" and loc = "range_location r" and idx = idx] False by (simp add: bv_bit_def)
  qed
  with b(1,2) False show ?thesis
    by (intro exI[of _ b]) (simp add: InternalMap_segments)
qed

section \<open>Counting\<close>

lemma nibble_count:
  "n < 16 \<Longrightarrow> CFNibbleBitCount ! n = card {j. j < 4 \<and> bit n j}"
proof -
  have c: "card {j. j < 4 \<and> bit n j} =
      of_bool (bit n 0) + of_bool (bit n 1) + of_bool (bit n 2) + of_bool (bit n 3)"
  proof -
    have "{j. j < 4 \<and> bit n j} = (\<Union>j\<in>{0, 1, 2, 3::nat}. if bit n j then {j} else {})"
      by (auto simp: numeral_eq_Suc less_Suc_eq split: if_splits)
    then show ?thesis by auto
  qed
  have "\<forall>n \<in> set [0..<16]. CFNibbleBitCount ! n =
      of_bool (bit n 0) + of_bool (bit n 1) + of_bool (bit n 2) + of_bool (bit n 3)"
    by code_simp
  then show "n < 16 \<Longrightarrow> ?thesis" unfolding c by simp
qed

lemma byte_count:
  fixes val :: bucket
  shows "\<exists>n0 n1. aget CFNibbleBitCount (unat (val AND 0xF)) = Some n0 \<and>
     aget CFNibbleBitCount (unat (drop_bit 4 val AND 0xF)) = Some n1 \<and>
     n0 + n1 = card {j. j < 8 \<and> bit val j}"
proof -
  have nib: "aget CFNibbleBitCount (unat (w AND 0xF)) = Some (card {j. j < 4 \<and> bit w j})" for w :: bucket
  proof -
    have m: "w AND 0xF = take_bit 4 w" by (simp add: take_bit_eq_mask mask_eq_exp_minus_1)
    then have u: "unat (w AND 0xF) = take_bit 4 (unat w)" by (simp add: unsigned_take_bit_eq)
    then have lt: "unat (w AND 0xF) < 16" using take_bit_nat_less_exp[of 4 "unat w"] by simp
    have "{j. j < 4 \<and> bit (unat (w AND 0xF)) j} = {j. j < 4 \<and> bit w j}"
      unfolding u by (auto simp: bit_simps)
    then show ?thesis using nibble_count[OF lt] lt by (simp add: aget_def CFNibbleBitCount_def)
  qed
  have "{j. j < 8 \<and> bit val j} = {j. j < 4 \<and> bit val j} \<union> (+) 4 ` {j. j < 4 \<and> bit (drop_bit 4 val) j}"
    (is "?L = ?A \<union> ?B")
  proof (rule set_eqI)
    fix j
    show "j \<in> ?L \<longleftrightarrow> j \<in> ?A \<union> ?B"
    proof (cases "j < 4")
      case False
      then obtain k where "j = 4 + k" using le_Suc_ex[of 4 j] by auto
      then show ?thesis by (auto simp: bit_simps)
    qed auto
  qed
  moreover have "card (?A \<union> ?B) = card ?A + card ?B" by (rule card_Un_disjoint) auto
  moreover have "card ?B = card {j. j < 4 \<and> bit (drop_bit 4 val) j}" by (simp add: card_image)
  ultimately show ?thesis using nib[of val] nib[of "drop_bit 4 val"] by simp
qed

definition seg_count :: "bool \<Rightarrow> bucket list \<Rightarrow> nat \<times> bucket \<Rightarrow> nat" where
  "seg_count v b s = card {j. j < 8 \<and> bit (snd s) j \<and> bit (b ! fst s) j = v}"

lemma CountBits_mapper:
  "CFBitVectorCountBits x m ctx =
     Some (x, ctx\<lparr>oc_count := oc_count ctx +
       card {j. j < 8 \<and> bit m j \<and> bit x j = (oc_value ctx \<noteq> 0)}\<rparr>)"
proof -
  let ?val = "if oc_value ctx \<noteq> 0 then x AND m else NOT x AND m"
  have "{j. j < 8 \<and> bit ?val j} = {j. j < 8 \<and> bit m j \<and> bit x j = (oc_value ctx \<noteq> 0)}"
    by (auto simp: bit_simps)
  moreover obtain n0 n1 where n: "aget CFNibbleBitCount (unat (?val AND 0xF)) = Some n0"
      "aget CFNibbleBitCount (unat (drop_bit 4 ?val AND 0xF)) = Some n1"
      "n0 + n1 = card {j. j < 8 \<and> bit ?val j}"
    using byte_count[of ?val] by blast
  ultimately have "oc_count ctx + n0 + n1 = oc_count ctx +
      card {j. j < 8 \<and> bit m j \<and> bit x j = (oc_value ctx \<noteq> 0)}"
    by simp
  then show ?thesis
    unfolding CFBitVectorCountBits_def Let_def n(1,2) Option.bind.simps(2) by (rule arg_cong)
qed

lemma masked_self: "((x :: bucket) AND NOT m) OR (x AND m) = x"
  by (rule bit_eqI) (auto simp: bit_simps)

lemma seg_fold_count:
  assumes "\<forall>(i, m) \<in> set ss. i < length b"
  shows "seg_fold CFBitVectorCountBits ss b ctx =
     Some (b, ctx\<lparr>oc_count := oc_count ctx + sum_list (map (seg_count (oc_value ctx \<noteq> 0) b) ss)\<rparr>)"
  using assms
proof (induction ss arbitrary: ctx)
  case Nil
  then show ?case by simp
next
  case (Cons s ss)
  then show ?case
    by (cases s) (simp add: map_masked_def aget_in aset_in CountBits_mapper masked_self seg_count_def
        add.assoc)
qed

lemma seg_count_card:
  assumes "0 < len" "loc div 8 \<le> i" "i \<le> (loc + len - 1) div 8"
  shows "seg_count v b (i, bv_mask loc len i) =
     card {idx \<in> {idx. loc \<le> idx \<and> idx < loc + len \<and> bv_bit b idx = v}. idx div 8 = i}"
    (is "_ = card ?R")
proof -
  have arith: "(8 * i + (7 - j)) div 8 = i" "(8 * i + (7 - j)) mod 8 = 7 - j" "7 - (7 - j) = j"
    if "j < 8" for j
  proof -
    define k where "k = 7 - j"
    have "k < 8" by (simp add: k_def)
    then show "(8 * i + (7 - j)) div 8 = i" "(8 * i + (7 - j)) mod 8 = 7 - j"
      unfolding k_def[symmetric] by simp_all
    show "7 - (7 - j) = j" using that by simp
  qed
  have "bij_betw (\<lambda>j. 8 * i + (7 - j))
      {j. j < 8 \<and> bit (bv_mask loc len i) j \<and> bit (b ! i) j = v} ?R"
  proof (rule bij_betw_byWitness[where f' = "\<lambda>idx. 7 - idx mod 8"])
    show "(\<lambda>j. 8 * i + (7 - j)) ` {j. j < 8 \<and> bit (bv_mask loc len i) j \<and> bit (b ! i) j = v} \<subseteq> ?R"
    proof (rule image_subsetI)
      fix j assume j: "j \<in> {j. j < 8 \<and> bit (bv_mask loc len i) j \<and> bit (b ! i) j = v}"
      then have "j < 8" by blast
      then have "bv_bit b (8 * i + (7 - j)) = bit (b ! i) j"
        by (simp only: bv_bit_def arith)
      with j bit_bv_mask[OF assms \<open>j < 8\<close>] arith(1)[OF \<open>j < 8\<close>] show "8 * i + (7 - j) \<in> ?R"
        by blast
    qed
    show "\<forall>j \<in> {j. j < 8 \<and> bit (bv_mask loc len i) j \<and> bit (b ! i) j = v}.
        7 - (8 * i + (7 - j)) mod 8 = j"
    proof
      fix j assume "j \<in> {j. j < 8 \<and> bit (bv_mask loc len i) j \<and> bit (b ! i) j = v}"
      then have "j < 8" by blast
      then show "7 - (8 * i + (7 - j)) mod 8 = j" by (simp only: arith)
    qed
    have inv_idx: "8 * i + (7 - (7 - idx mod 8)) = idx" if "idx \<in> ?R" for idx
    proof -
      have "idx mod 8 \<le> 7" using mod_less_divisor[of 8 idx] by simp
      then show ?thesis using that by auto
    qed
    then show "\<forall>idx \<in> ?R. 8 * i + (7 - (7 - idx mod 8)) = idx" by blast
    show "(\<lambda>idx. 7 - idx mod 8) ` ?R \<subseteq> {j. j < 8 \<and> bit (bv_mask loc len i) j \<and> bit (b ! i) j = v}"
    proof (rule image_subsetI)
      fix idx assume i: "idx \<in> ?R"
      then show "7 - idx mod 8 \<in> {j. j < 8 \<and> bit (bv_mask loc len i) j \<and> bit (b ! i) j = v}"
        using inv_idx[OF i] bit_bv_mask[OF assms, of "7 - idx mod 8"] by (auto simp: bv_bit_def)
    qed
  qed
  then show ?thesis by (simp add: seg_count_def bij_betw_same_card)
qed

lemma seg_count_sum:
  assumes "0 < len"
  shows "sum_list (map (seg_count v b) (bv_segments loc len)) =
     card {idx. loc \<le> idx \<and> idx < loc + len \<and> bv_bit b idx = v}" (is "_ = card ?A")
proof -
  let ?I = "{loc div 8..<(loc + len - 1) div 8 + 1}"
  have "sum_list (map (seg_count v b) (bv_segments loc len)) =
      (\<Sum>i\<in>?I. seg_count v b (i, bv_mask loc len i))"
    by (simp add: bv_segments_def comp_def interv_sum_list_conv_sum_set_nat del: upt_Suc)
  also have "\<dots> = (\<Sum>i\<in>?I. card {idx \<in> ?A. idx div 8 = i})"
    by (rule sum.cong[OF refl]) (use assms in \<open>simp add: seg_count_card\<close>)
  also have "\<dots> = (\<Sum>i\<in>?I. sum (\<lambda>_. 1) {idx \<in> ?A. idx div 8 = i})" by simp
  also have "\<dots> = sum (\<lambda>_. 1) ?A"
  proof (rule sum.group)
    show "finite ?A" by (rule finite_subset[of _ "{..<loc + len}"]) auto
    show "(\<lambda>idx. idx div 8) ` ?A \<subseteq> ?I" using idx_bounds[of _ loc len] assms by fastforce
  qed simp
  finally show ?thesis by simp
qed

section \<open>Operations on the list of bits\<close>

lemma NumBuckets_bound: "n \<le> cap \<Longrightarrow> n < 8 * CFBitVectorNumBuckets cap"
  using mult_div_mod_eq[of 8 cap] mod_less_divisor[of 8 cap]
  by (simp add: CFBitVectorNumBuckets_def)

lemma RoundUpCapacity_ge: "n \<le> CFBitVectorRoundUpCapacity n"
proof -
  have "n \<le> ((n + 63) div 64) * 64"
    using mult_div_mod_eq[of 64 "n + 63"] mod_less_divisor[of 64 "n + 63"] by linarith
  then show ?thesis by (simp add: CFBitVectorRoundUpCapacity_def)
qed

lemma bv_inv_room: "bv_inv bv \<Longrightarrow> n \<le> bv_count bv \<Longrightarrow> n < 8 * length (bv_buckets bv)"
  using NumBuckets_bound[of n "bv_capacity bv"] by (simp add: bv_inv_def)

lemma length_bv_bits [simp]: "length (bv_bits bv) = bv_count bv"
  by (simp add: bv_bits_def)

lemma nth_bv_bits [simp]: "i < bv_count bv \<Longrightarrow> bv_bits bv ! i = bv_bit (bv_buckets bv) i"
  by (simp add: bv_bits_def)

text \<open>The bits of the list \<open>xs\<close> in the range, changed by \<open>f\<close>.\<close>

definition in_range :: "CFRange \<Rightarrow> nat \<Rightarrow> bool" where
  "in_range r i \<longleftrightarrow> range_location r \<le> i \<and> i < range_location r + range_length r"

definition change_range :: "(bool \<Rightarrow> bool) \<Rightarrow> CFRange \<Rightarrow> bool list \<Rightarrow> bool list" where
  "change_range f r xs = map (\<lambda>i. if in_range r i then f (xs ! i) else xs ! i) [0..<length xs]"

lemma InternalMap_bits:
  assumes "bv_inv bv" "range_location r + range_length r \<le> bv_count bv"
    and map: "\<And>v m. mapper v m c = Some (f v, c)"
    and f: "\<And>v j. j < 8 \<Longrightarrow> bit (f v) j = g (bit v j)"
  shows "\<exists>bv'. CFBitVectorInternalMap bv r mapper c = Some (bv', c) \<and> bv_inv bv' \<and>
     bv_count bv' = bv_count bv \<and> bv_capacity bv' = bv_capacity bv \<and> bv_mutable bv' = bv_mutable bv \<and>
     bv_bits bv' = change_range g r (bv_bits bv)"
proof -
  have "range_location r + range_length r \<le> 8 * length (bv_buckets bv)"
    using bv_inv_room[OF assms(1), of "bv_count bv"] assms(2) by simp
  from InternalMap_pointwise[where f = f and mapper = mapper and c = c, OF map this] obtain b where
    b: "CFBitVectorInternalMap bv r mapper c = Some (bv\<lparr>bv_buckets := b\<rparr>, c)"
      "length b = length (bv_buckets bv)"
      "\<And>idx. idx < 8 * length b \<Longrightarrow> bv_bit b idx =
        (if range_location r \<le> idx \<and> idx < range_location r + range_length r
         then bit (f (bv_buckets bv ! (idx div 8))) (7 - idx mod 8)
         else bv_bit (bv_buckets bv) idx)"
    by blast
  have "bv_bit b i = (if in_range r i then g (bv_bit (bv_buckets bv) i) else bv_bit (bv_buckets bv) i)"
    if "i < bv_count bv" for i
    using b(3)[of i] bv_inv_room[OF assms(1), of i] that b(2) by (simp add: f bv_bit_def in_range_def)
  then have "bv_bits (bv\<lparr>bv_buckets := b\<rparr>) = change_range g r (bv_bits bv)"
    by (simp add: bv_bits_def[of "bv\<lparr>bv_buckets := b\<rparr>"] change_range_def)
  then show ?thesis using b(1,2) assms(1) by (simp add: bv_inv_def)
qed

lemma change_range_empty: "range_length r = 0 \<Longrightarrow> change_range f r xs = xs"
  by (intro nth_equalityI) (auto simp: change_range_def in_range_def)

lemma fill_bits:
  assumes "bv_inv bv" "range_location r + range_length r \<le> bv_count bv"
  shows "\<exists>bv'. CFBitVectorInternalMap bv r
       (if v \<noteq> (0 :: CFBit) then CFBitVectorOneBits else CFBitVectorZeroBits) () = Some (bv', ()) \<and>
     bv_inv bv' \<and> bv_count bv' = bv_count bv \<and> bv_capacity bv' = bv_capacity bv \<and>
     bv_mutable bv' = bv_mutable bv \<and> bv_bits bv' = change_range (\<lambda>_. v \<noteq> 0) r (bv_bits bv)"
  by (rule InternalMap_bits[OF assms, where f = "\<lambda>_. if v \<noteq> 0 then NOT 0 else 0"])
     (simp_all add: CFBitVectorOneBits_def CFBitVectorZeroBits_def)

lemma SetBits_correct:
  assumes "bv_inv bv" "range_location r + range_length r \<le> bv_count bv"
  shows "\<exists>bv'. CFBitVectorSetBits bv r v = Some bv' \<and> bv_inv bv' \<and>
     bv_count bv' = bv_count bv \<and> bv_bits bv' = change_range (\<lambda>_. v \<noteq> 0) r (bv_bits bv)"
proof -
  from fill_bits[OF assms, of v] obtain bv' where "CFBitVectorInternalMap bv r
      (if v \<noteq> (0 :: CFBit) then CFBitVectorOneBits else CFBitVectorZeroBits) () = Some (bv', ())"
      "bv_inv bv'" "bv_count bv' = bv_count bv" "bv_bits bv' = change_range (\<lambda>_. v \<noteq> 0) r (bv_bits bv)"
    by blast
  then show ?thesis using assms(1) by (simp add: CFBitVectorSetBits_def change_range_empty)
qed

lemma FlipBits_correct:
  assumes "bv_inv bv" "range_location r + range_length r \<le> bv_count bv"
  shows "\<exists>bv'. CFBitVectorFlipBits bv r = Some bv' \<and> bv_inv bv' \<and>
     bv_count bv' = bv_count bv \<and> bv_bits bv' = change_range Not r (bv_bits bv)"
  using InternalMap_bits[OF assms, where mapper = CFBitVectorFlipMapper and c = "()" and
      f = "\<lambda>v. NOT 0 XOR v" and g = Not] assms
  by (auto simp: CFBitVectorFlipMapper_def CFBitVectorFlipBits_def change_range_empty bit_simps)

lemma card_range_bits:
  assumes "loc + len \<le> bv_count bv"
  shows "card {idx. loc \<le> idx \<and> idx < loc + len \<and> bv_bit (bv_buckets bv) idx = v} =
     length (filter (\<lambda>x. x = v) (take len (drop loc (bv_bits bv))))"
proof -
  have "{idx. loc \<le> idx \<and> idx < loc + len \<and> bv_bit (bv_buckets bv) idx = v} =
      (+) loc ` {k. k < len \<and> bv_bit (bv_buckets bv) (loc + k) = v}" (is "_ = _ ` ?K")
  proof (rule set_eqI)
    fix idx
    show "idx \<in> {idx. loc \<le> idx \<and> idx < loc + len \<and> bv_bit (bv_buckets bv) idx = v} \<longleftrightarrow>
        idx \<in> (+) loc ` ?K"
      by (cases "loc \<le> idx") (auto dest!: le_Suc_ex)
  qed
  then have "card {idx. loc \<le> idx \<and> idx < loc + len \<and> bv_bit (bv_buckets bv) idx = v} = card ?K"
    by (simp add: card_image)
  moreover have "?K = {k. k < length (take len (drop loc (bv_bits bv))) \<and>
      take len (drop loc (bv_bits bv)) ! k = v}"
    using assms by auto
  ultimately show ?thesis by (simp add: length_filter_conv_card)
qed

lemma GetCountOfBit_correct:
  assumes "bv_inv bv" "range_location r + range_length r \<le> bv_count bv"
  shows "CFBitVectorGetCountOfBit bv r v = Some (bv,
     length (filter (\<lambda>x. x = (v \<noteq> 0)) (take (range_length r) (drop (range_location r) (bv_bits bv)))))"
proof (cases "range_length r = 0")
  case True
  then show ?thesis by (simp add: CFBitVectorGetCountOfBit_def)
next
  case False
  have "range_location r + range_length r \<le> 8 * length (bv_buckets bv)"
    using bv_inv_room[OF assms(1), of "bv_count bv"] assms(2) by simp
  from seg_fold_count[OF segments_in[OF this]] False show ?thesis
    by (simp add: CFBitVectorGetCountOfBit_def InternalMap_segments seg_count_sum
        card_range_bits[OF assms(2)])
qed

lemma Init_correct_bits:
  assumes "CFBitVectorInit True alloc flags bytes n = Some (Some bv)"
  shows "bv_inv bv \<and> bv_count bv = n \<and> bv_mutable bv = flags"
  using assms RoundUpCapacity_ge[of n]
  by (auto simp: CFBitVectorInit_def Let_def bv_inv_def split: if_splits option.splits)

lemma Grow_bits:
  assumes "bv_inv bv" "\<forall>n. alloc n" "bv_count bv < n"
  shows "\<exists>bv'. CFBitVectorGrow alloc junk bv (n - bv_count bv) = Some bv' \<and>
     bv_count bv' = bv_count bv \<and> bv_mutable bv' = bv_mutable bv \<and>
     n \<le> bv_capacity bv' \<and> length (bv_buckets bv') = CFBitVectorNumBuckets (bv_capacity bv') \<and>
     (\<forall>i<bv_count bv. bv_bit (bv_buckets bv') i = bv_bit (bv_buckets bv) i)"
proof -
  let ?c = "CFBitVectorRoundUpCapacity n"
  let ?b = "map (\<lambda>i. if i < length (bv_buckets bv) then bv_buckets bv ! i else junk i)
      [0..<CFBitVectorNumBuckets ?c]"
  have "CFBitVectorGrow alloc junk bv (n - bv_count bv) =
      Some (bv\<lparr>bv_capacity := ?c, bv_buckets := ?b\<rparr>)"
    using assms(2,3) by (simp add: CFBitVectorGrow_def Let_def)
  moreover have "bv_bit ?b i = bv_bit (bv_buckets bv) i" if "i < bv_count bv" for i
  proof -
    have "i div 8 < length (bv_buckets bv)"
      using bv_inv_room[OF assms(1), of i] that by (simp add: div_less_iff_less_mult mult.commute)
    moreover have "i < 8 * CFBitVectorNumBuckets ?c"
      using NumBuckets_bound[of i ?c] RoundUpCapacity_ge[of n] that assms(3) by linarith
    then have "i div 8 < CFBitVectorNumBuckets ?c"
      by (simp add: div_less_iff_less_mult mult.commute)
    ultimately show ?thesis by (simp add: bv_bit_def)
  qed
  ultimately show ?thesis using RoundUpCapacity_ge[of n] by simp
qed

lemma SetCount_correct:
  assumes "bv_inv bv" "bv_mutable bv" "\<forall>n. alloc n"
  shows "\<exists>bv'. CFBitVectorSetCount alloc junk bv n = Some bv' \<and> bv_inv bv' \<and> bv_mutable bv' \<and>
     bv_bits bv' = take n (bv_bits bv) @ replicate (n - bv_count bv) False"
proof (cases "bv_count bv < n")
  case False
  then have "CFBitVectorSetCount alloc junk bv n = Some (bv\<lparr>bv_count := n\<rparr>)"
    by (simp add: CFBitVectorSetCount_def)
  moreover have "bv_bits (bv\<lparr>bv_count := n\<rparr>) = take n (bv_bits bv)"
    using False by (intro nth_equalityI) auto
  ultimately show ?thesis using False assms by (simp add: bv_inv_def)
next
  case True
  let ?r = "CFRangeMake (bv_count bv) (n - bv_count bv)"
  from Grow_bits[OF assms(1,3) True, of junk] obtain bv1 where bv1:
      "CFBitVectorGrow alloc junk bv (n - bv_count bv) = Some bv1"
      "bv_count bv1 = bv_count bv" "bv_mutable bv1 = bv_mutable bv" "n \<le> bv_capacity bv1"
      "length (bv_buckets bv1) = CFBitVectorNumBuckets (bv_capacity bv1)"
      "\<And>i. i < bv_count bv \<Longrightarrow> bv_bit (bv_buckets bv1) i = bv_bit (bv_buckets bv) i"
    by blast
  have "bv_inv (bv1\<lparr>bv_count := n\<rparr>)" using bv1(4,5) by (simp add: bv_inv_def)
  then have room: "n < 8 * length (bv_buckets bv1)"
    using bv_inv_room[of "bv1\<lparr>bv_count := n\<rparr>" n] by simp
  have r: "range_location ?r = bv_count bv" "range_location ?r + range_length ?r = n"
    using True by (simp_all add: CFRangeMake_def)
  from InternalMap_pointwise[where mapper = CFBitVectorZeroBits and c = "()" and f = "\<lambda>_. 0"
      and r = ?r and bv = bv1] room r obtain b where
    b: "CFBitVectorInternalMap bv1 ?r CFBitVectorZeroBits () = Some (bv1\<lparr>bv_buckets := b\<rparr>, ())"
      "length b = length (bv_buckets bv1)"
      "\<And>idx. idx < 8 * length b \<Longrightarrow> bv_bit b idx =
         (if bv_count bv \<le> idx \<and> idx < n then False else bv_bit (bv_buckets bv1) idx)"
    by (auto simp: CFBitVectorZeroBits_def)
  let ?bv' = "bv1\<lparr>bv_buckets := b, bv_count := n\<rparr>"
  have "CFBitVectorSetCount alloc junk bv n = Some ?bv'"
    using bv1(1) b(1) assms(2) True by (simp add: CFBitVectorSetCount_def)
  moreover have "bv_bits ?bv' = take n (bv_bits bv) @ replicate (n - bv_count bv) False"
    using True b(2,3) room bv1(6) by (intro nth_equalityI) (auto simp: nth_append)
  moreover have "bv_inv ?bv'" using bv1(4,5) b(2) by (simp add: bv_inv_def)
  ultimately show ?thesis using bv1(3) assms(2) by simp
qed

lemma SetAllBits_correct:
  assumes "bv_inv bv"
  shows "\<exists>bv'. CFBitVectorSetAllBits bv v = Some bv' \<and> bv_inv bv' \<and>
     bv_bits bv' = replicate (bv_count bv) (v \<noteq> 0)"
proof -
  let ?n = "bv_count bv div 8" and ?x = "if v \<noteq> 0 then NOT 0 else 0 :: bucket"
  let ?r = "CFRangeMake (?n * 8) (bv_count bv - ?n * 8)"
  let ?m = "if v \<noteq> 0 then CFBitVectorOneBits else CFBitVectorZeroBits"
  have r: "range_location ?r + range_length ?r = bv_count bv" by (simp add: CFRangeMake_def)
  obtain bv1 where bv1: "(if 0 < bv_count bv - ?n * 8
        then map_option fst (CFBitVectorInternalMap bv ?r ?m ()) else Some bv) = Some bv1"
      "bv_inv bv1" "bv_count bv1 = bv_count bv" "bv_capacity bv1 = bv_capacity bv"
      "bv_bits bv1 = change_range (\<lambda>_. v \<noteq> 0) ?r (bv_bits bv)"
  proof (cases "0 < bv_count bv - ?n * 8")
    case True
    from fill_bits[OF assms, of ?r v] r obtain bv1 where
      "CFBitVectorInternalMap bv ?r ?m () = Some (bv1, ())" "bv_inv bv1"
      "bv_count bv1 = bv_count bv" "bv_capacity bv1 = bv_capacity bv"
      "bv_bits bv1 = change_range (\<lambda>_. v \<noteq> 0) ?r (bv_bits bv)"
      by auto
    with that[of bv1] True show ?thesis by simp
  next
    case False
    then show ?thesis using that assms by (simp add: change_range_empty CFRangeMake_def)
  qed
  have n: "?n \<le> length (bv_buckets bv1)"
    using bv_inv_room[OF bv1(2), of "bv_count bv"] bv1(3) by (simp add: div_less_iff_less_mult less_imp_le)
  let ?b = "replicate ?n ?x @ drop ?n (bv_buckets bv1)"
  let ?bv' = "bv1\<lparr>bv_buckets := ?b\<rparr>"
  have "CFBitVectorSetAllBits bv v = Some ?bv'"
    using bv1(1) n by (simp add: CFBitVectorSetAllBits_def Let_def)
  moreover have "bv_bit ?b i = (v \<noteq> 0)" if i: "i < bv_count bv" for i
  proof (cases "i div 8 < ?n")
    case True
    have "7 - i mod 8 < 8" by simp
    then show ?thesis using True by (simp add: bv_bit_def nth_append bit_simps)
  next
    case False
    then have "?b ! (i div 8) = bv_buckets bv1 ! (i div 8)" using n by (simp add: nth_append)
    then have "bv_bit ?b i = bv_bits bv1 ! i" using i bv1(3) by (simp add: bv_bit_def)
    moreover have "in_range ?r i"
    proof -
      have "?n \<le> i div 8" using False by simp
      then have "?n * 8 \<le> i" by (simp add: less_eq_div_iff_mult_less_eq)
      then show ?thesis using i by (simp add: in_range_def CFRangeMake_def)
    qed
    ultimately show ?thesis using i bv1(5) by (simp add: change_range_def)
  qed
  then have "bv_bits ?bv' = replicate (bv_count bv) (v \<noteq> 0)"
    using bv1(3) by (intro nth_equalityI) auto
  ultimately show ?thesis using bv1(2) n by (auto simp: bv_inv_def)
qed

section \<open>Single bits and searches\<close>

lemma bit_index_eq:
  "i div 8 = j div 8 \<and> 7 - i mod 8 = 7 - j mod 8 \<longleftrightarrow> i = (j::nat)"
proof
  assume a: "i div 8 = j div 8 \<and> 7 - i mod 8 = 7 - j mod 8"
  have "i mod 8 \<le> 7" "j mod 8 \<le> 7" using mod_less_divisor[of 8] by (simp_all add: less_Suc_eq_le[symmetric])
  with a have "i mod 8 = j mod 8" by linarith
  with a show "i = j" by (metis div_mult_mod_eq)
qed simp

lemma GetBit_correct:
  assumes "bv_inv bv" "i < bv_count bv"
  shows "CFBitVectorGetBitAtIndex bv i = Some (of_bool (bv_bits bv ! i))"
proof -
  have i: "i div 8 < length (bv_buckets bv)"
    using bv_inv_room[OF assms(1), of i] assms(2) by (simp add: div_less_iff_less_mult mult.commute)
  have "drop_bit (7 - i mod 8) (bv_buckets bv ! (i div 8)) AND 1 = of_bool (bv_bit (bv_buckets bv) i)"
    by (simp add: bv_bit_def bit_iff_odd_drop_bit and_one_eq mod_2_eq_odd)
  with i assms(2) show ?thesis
    by (simp add: CFBitVectorGetBitAtIndex_def CFBitVectorBit_def aget_in)
qed

lemma update_bit:
  assumes "bv_inv bv" "i < bv_count bv" "\<And>k. k < 8 \<Longrightarrow> bit w k =
      (if k = 7 - i mod 8 then x else bit (bv_buckets bv ! (i div 8)) k)"
  shows "bv_bits (bv\<lparr>bv_buckets := (bv_buckets bv)[i div 8 := w]\<rparr>) = (bv_bits bv)[i := x]"
proof (rule nth_equalityI)
  fix j assume "j < length (bv_bits (bv\<lparr>bv_buckets := (bv_buckets bv)[i div 8 := w]\<rparr>))"
  then have j: "j < bv_count bv" by simp
  have i: "i div 8 < length (bv_buckets bv)"
    using bv_inv_room[OF assms(1), of i] assms(2) by (simp add: div_less_iff_less_mult mult.commute)
  show "bv_bits (bv\<lparr>bv_buckets := (bv_buckets bv)[i div 8 := w]\<rparr>) ! j = (bv_bits bv)[i := x] ! j"
    using i j assms(2) assms(3)[of "7 - j mod 8"] bit_index_eq[of i j]
    by (auto simp: bv_bit_def nth_list_update)
qed simp

lemma SetBit_correct:
  assumes "bv_inv bv" "i < bv_count bv"
  shows "\<exists>bv'. CFBitVectorSetBitAtIndex bv i v = Some bv' \<and> bv_inv bv' \<and>
     bv_bits bv' = (bv_bits bv)[i := (v \<noteq> 0)]"
proof -
  let ?w = "bv_buckets bv ! (i div 8)" and ?p = "push_bit (7 - i mod 8) (1 :: bucket)"
  let ?w' = "if v \<noteq> 0 then ?w OR ?p else ?w AND NOT ?p"
  let ?bv' = "bv\<lparr>bv_buckets := (bv_buckets bv)[i div 8 := ?w']\<rparr>"
  have i: "i div 8 < length (bv_buckets bv)"
    using bv_inv_room[OF assms(1), of i] assms(2) by (simp add: div_less_iff_less_mult mult.commute)
  then have "CFBitVectorSetBitAtIndex bv i v = Some ?bv'"
    by (simp add: CFBitVectorSetBitAtIndex_def CFSetBitVectorBit_def Let_def aget_in aset_in)
  moreover have "bv_bits ?bv' = (bv_bits bv)[i := (v \<noteq> 0)]"
    by (rule update_bit[OF assms]) (auto simp: bit_simps)
  moreover have "bv_inv ?bv'" using assms(1) by (simp add: bv_inv_def)
  ultimately show ?thesis by blast
qed

lemma FlipBit_correct:
  assumes "bv_inv bv" "i < bv_count bv"
  shows "\<exists>bv'. CFBitVectorFlipBitAtIndex bv i = Some bv' \<and> bv_inv bv' \<and>
     bv_bits bv' = (bv_bits bv)[i := \<not> bv_bits bv ! i]"
proof -
  let ?w = "bv_buckets bv ! (i div 8)" and ?p = "push_bit (7 - i mod 8) (1 :: bucket)"
  let ?bv' = "bv\<lparr>bv_buckets := (bv_buckets bv)[i div 8 := ?w XOR ?p]\<rparr>"
  have i: "i div 8 < length (bv_buckets bv)"
    using bv_inv_room[OF assms(1), of i] assms(2) by (simp add: div_less_iff_less_mult mult.commute)
  then have "CFBitVectorFlipBitAtIndex bv i = Some ?bv'"
    by (simp add: CFBitVectorFlipBitAtIndex_def CFFlipBitVectorBit_def Let_def aget_in aset_in)
  moreover have "bv_bits ?bv' = (bv_bits bv)[i := \<not> bv_bits bv ! i]"
    by (rule update_bit[OF assms]) (use assms(2) in \<open>auto simp: bit_simps bv_bit_def\<close>)
  moreover have "bv_inv ?bv'" using assms(1) by (simp add: bv_inv_def)
  ultimately show ?thesis by blast
qed

lemma of_bool_eq_bit: "(of_bool x :: CFBit) = of_bool y \<longleftrightarrow> y = x"
  by (cases x; cases y) simp_all

lemma FirstIndexLoop_correct:
  assumes "bv_inv bv" "range_location r + range_length r \<le> bv_count bv"
  shows "FirstIndexLoop bv r (of_bool x) idx =
     Some (find (\<lambda>i. bv_bits bv ! i = x)
       [range_location r + idx..<range_location r + range_length r])"
proof (induction "range_length r - idx" arbitrary: idx)
  case 0
  then show ?case by (simp add: FirstIndexLoop.simps)
next
  case (Suc n)
  then have idx: "idx < range_length r" and IH: "FirstIndexLoop bv r (of_bool x) (idx + 1) =
      Some (find (\<lambda>i. bv_bits bv ! i = x)
        [range_location r + (idx + 1)..<range_location r + range_length r])"
    by simp_all
  have "[range_location r + idx..<range_location r + range_length r] =
      (range_location r + idx) # [range_location r + (idx + 1)..<range_location r + range_length r]"
    using idx by (simp add: upt_conv_Cons)
  with idx IH GetBit_correct[OF assms(1), of "range_location r + idx"] assms(2) show ?case
    by (subst FirstIndexLoop.simps) (simp add: of_bool_eq_bit del: upt_Suc)
qed

lemma LastIndexLoop_correct:
  assumes "bv_inv bv" "range_location r + n \<le> bv_count bv"
  shows "LastIndexLoop bv r (of_bool x) n =
     Some (find (\<lambda>i. bv_bits bv ! i = x) (rev [range_location r..<range_location r + n]))"
  using assms(2)
proof (induction n)
  case 0
  then show ?case by simp
next
  case (Suc n)
  with GetBit_correct[OF assms(1), of "range_location r + n"] show ?case
    by (simp add: of_bool_eq_bit)
qed

section \<open>Extraction\<close>

text \<open>On a byte boundary the mapper stores one byte per bucket.\<close>

lemma GetBitsMapper_aligned:
  assumes "gb_initBits ctx = 0" "0 < gb_totalBits ctx" "gb_cur ctx < length (gb_bytes ctx)"
  shows "GetBitsMapper x m ctx = Some (x, if 8 \<le> gb_totalBits ctx
     then ctx\<lparr>gb_bytes := (gb_bytes ctx)[gb_cur ctx := x AND m], gb_cur := gb_cur ctx + 1\<rparr>
     else ctx\<lparr>gb_bytes := (gb_bytes ctx)[gb_cur ctx := x AND m], gb_totalBits := 0\<rparr>)"
proof (cases "8 \<le> gb_totalBits ctx")
  case True
  then show ?thesis
    using assms by (simp add: GetBitsMapper_def GetBitsLoop.simps aset_in Let_def)
next
  case False
  then show ?thesis
    using assms by (simp add: GetBitsMapper_def GetBitsLoop.simps aset_in Let_def)
qed

definition put_bytes :: "bucket list \<Rightarrow> nat \<Rightarrow> bucket list \<Rightarrow> bucket list" where
  "put_bytes bs k xs = take k bs @ xs @ drop (k + length xs) bs"

lemma put_bytes_Cons:
  "k < length bs \<Longrightarrow> put_bytes (bs[k := x]) (Suc k) xs = put_bytes bs k (x # xs)"
  by (simp add: put_bytes_def take_Suc_conv_app_nth take_update_swap drop_update_swap
      list_update_append)

lemma seg_fold_aligned:
  assumes "\<forall>(i, m) \<in> set ss. i < length b" "gb_initBits ctx = 0" "8 \<le> gb_totalBits ctx"
    "gb_cur ctx + length ss \<le> length (gb_bytes ctx)"
  shows "seg_fold GetBitsMapper ss b ctx = Some (b, ctx\<lparr>
     gb_bytes := put_bytes (gb_bytes ctx) (gb_cur ctx) (map (\<lambda>(i, m). b ! i AND m) ss),
     gb_cur := gb_cur ctx + length ss\<rparr>)"
  using assms
proof (induction ss arbitrary: ctx)
  case Nil
  then show ?case by (simp add: put_bytes_def)
next
  case (Cons s ss)
  obtain i m where s: "s = (i, m)" by force
  let ?ctx = "ctx\<lparr>gb_bytes := (gb_bytes ctx)[gb_cur ctx := b ! i AND m], gb_cur := gb_cur ctx + 1\<rparr>"
  have "GetBitsMapper (b ! i) m ctx = Some (b ! i, ?ctx)"
    using Cons.prems GetBitsMapper_aligned[of ctx "b ! i" m] by simp
  moreover have "seg_fold GetBitsMapper ss b ?ctx = Some (b, ?ctx\<lparr>
     gb_bytes := put_bytes (gb_bytes ?ctx) (gb_cur ?ctx) (map (\<lambda>(i, m). b ! i AND m) ss),
     gb_cur := gb_cur ?ctx + length ss\<rparr>)"
    by (rule Cons.IH) (use Cons.prems in auto)
  ultimately show ?case
    using Cons.prems by (simp add: s map_masked_def aget_in aset_in masked_self put_bytes_Cons)
qed

text \<open>Off a byte boundary nothing but the byte under \<open>gb_cur\<close> is ever stored.\<close>

lemma GetBitsMapper_unaligned:
  assumes "0 < gb_initBits ctx" "gb_ignoreFirstInitBits ctx" "gb_cur ctx < length (gb_bytes ctx)"
  shows "\<exists>v t. GetBitsMapper x m ctx =
     Some (x, ctx\<lparr>gb_bytes := (gb_bytes ctx)[gb_cur ctx := v], gb_totalBits := t\<rparr>)"
proof -
  let ?n = "min (8 - int (gb_initBits ctx)) (gb_totalBits ctx)"
  have n: "?n < 8" using assms(1) by simp
  show ?thesis
  proof (cases "0 < ?n")
    case True
    then show ?thesis
      using assms n by (auto simp: GetBitsMapper_def GetBitsLoop.simps aset_in Let_def)
  next
    case False
    then have "GetBitsMapper x m ctx = Some (x, ctx)"
      using assms n by (auto simp: GetBitsMapper_def GetBitsLoop.simps Let_def)
    then show ?thesis
      by (intro exI[of _ "gb_bytes ctx ! gb_cur ctx"] exI[of _ "gb_totalBits ctx"]) simp
  qed
qed

lemma seg_fold_unaligned:
  assumes "\<forall>(i, m) \<in> set ss. i < length b" "0 < gb_initBits ctx" "gb_ignoreFirstInitBits ctx"
    "gb_cur ctx < length (gb_bytes ctx)"
  shows "\<exists>v t. seg_fold GetBitsMapper ss b ctx =
     Some (b, ctx\<lparr>gb_bytes := (gb_bytes ctx)[gb_cur ctx := v], gb_totalBits := t\<rparr>)"
  using assms
proof (induction ss arbitrary: ctx)
  case Nil
  then show ?case
    by (intro exI[of _ "gb_bytes ctx ! gb_cur ctx"] exI[of _ "gb_totalBits ctx"]) simp
next
  case (Cons s ss)
  obtain i m where s: "s = (i, m)" by force
  from GetBitsMapper_unaligned[OF Cons.prems(2-4), of "b ! i" m] obtain v t where
    v: "GetBitsMapper (b ! i) m ctx =
      Some (b ! i, ctx\<lparr>gb_bytes := (gb_bytes ctx)[gb_cur ctx := v], gb_totalBits := t\<rparr>)"
    (is "_ = Some (_, ?ctx)") by blast
  have "\<exists>v t. seg_fold GetBitsMapper ss b ?ctx =
     Some (b, ?ctx\<lparr>gb_bytes := (gb_bytes ?ctx)[gb_cur ?ctx := v], gb_totalBits := t\<rparr>)"
    by (rule Cons.IH) (use Cons.prems in auto)
  then show ?case
    using Cons.prems v by (simp add: s map_masked_def aget_in aset_in masked_self)
qed

lemma segments_aligned:
  assumes "loc = 8 * q" "0 < len"
  shows "bv_segments loc len = map (\<lambda>k. (q + k, bv_mask loc len (q + k))) [0..<(len + 7) div 8]"
proof -
  have "(8 * q + len - 1) div 8 + 1 = q + (len + 7) div 8"
  proof -
    have "8 * q + len - 1 = 8 * q + (len - 1)" using assms(2) by simp
    then have "(8 * q + len - 1) div 8 = q + (len - 1) div 8" by simp
    moreover have "(len + 7) div 8 = (len - 1) div 8 + 1"
    proof -
      have "len + 7 = len - 1 + 8" using assms(2) by simp
      then show ?thesis by simp
    qed
    ultimately show ?thesis by simp
  qed
  then have "[loc div 8..<(loc + len - 1) div 8 + 1] = map ((+) q) [0..<(len + 7) div 8]"
    using assms(1) by (intro nth_equalityI) (simp_all del: upt_Suc)
  then show ?thesis unfolding bv_segments_def by simp
qed

lemma GetBits_stores:
  assumes "bv_inv bv" "range_location r = 8 * q" "0 < range_length r"
    "range_location r + range_length r \<le> bv_count bv" "(range_length r + 7) div 8 \<le> length bytes"
  shows "CFBitVectorGetBits bv r bytes = Some (bv, put_bytes bytes 0
     (map (\<lambda>k. bv_buckets bv ! (q + k) AND bv_mask (8 * q) (range_length r) (q + k))
        [0..<(range_length r + 7) div 8]))"
proof -
  let ?len = "range_length r" and ?b = "bv_buckets bv"
  let ?ss = "bv_segments (range_location r) ?len"
  let ?ctx = "\<lparr>gb_bytes = bytes, gb_cur = 0, gb_initBits = 0, gb_totalBits = int ?len,
      gb_ignoreFirstInitBits = True\<rparr>"
  have "range_location r + ?len \<le> 8 * length ?b"
    using bv_inv_room[OF assms(1), of "bv_count bv"] assms(4) by simp
  then have ss_in: "\<forall>(i, m) \<in> set ?ss. i < length ?b" by (rule segments_in) (rule assms(3))
  have ss: "?ss = map (\<lambda>k. (q + k, bv_mask (8 * q) ?len (q + k))) [0..<(?len + 7) div 8]"
    using segments_aligned[OF assms(2,3)] assms(2) by simp
  have "\<exists>c. seg_fold GetBitsMapper ?ss ?b ?ctx = Some (?b, c) \<and>
      gb_bytes c = put_bytes bytes 0 (map (\<lambda>(i, m). ?b ! i AND m) ?ss)"
  proof (cases "8 \<le> ?len")
    case True
    have "seg_fold GetBitsMapper ?ss ?b ?ctx = Some (?b, ?ctx\<lparr>
       gb_bytes := put_bytes (gb_bytes ?ctx) (gb_cur ?ctx) (map (\<lambda>(i, m). ?b ! i AND m) ?ss),
       gb_cur := gb_cur ?ctx + length ?ss\<rparr>)"
      by (rule seg_fold_aligned[OF ss_in]) (use True assms(5) ss in simp_all)
    then show ?thesis by simp
  next
    case False
    then have one: "(?len + 7) div 8 = 1" using assms(3) by (intro div_nat_eqI) simp_all
    then have "0 < length bytes" using assms(5) by linarith
    then have "bytes[0 := x] = x # drop (Suc 0) bytes" for x by (cases bytes) simp_all
    then show ?thesis
      using \<open>0 < length bytes\<close> False one ss ss_in assms(3) GetBitsMapper_aligned[of ?ctx]
      by (simp add: map_masked_def aget_in aset_in masked_self put_bytes_def)
  qed
  then show ?thesis
    using assms(2,3) ss by (auto simp: CFBitVectorGetBits_def InternalMap_segments comp_def)
qed

lemma GetBits_aligned:
  assumes "bv_inv bv" "range_location r mod 8 = 0"
    "range_location r + range_length r \<le> bv_count bv" "(range_length r + 7) div 8 \<le> length bytes"
  shows "\<exists>bytes'. CFBitVectorGetBits bv r bytes = Some (bv, bytes') \<and> length bytes' = length bytes \<and>
     (\<forall>i < 8 * ((range_length r + 7) div 8). bv_bit bytes' i \<longleftrightarrow>
        i < range_length r \<and> bv_bits bv ! (range_location r + i)) \<and>
     drop ((range_length r + 7) div 8) bytes' = drop ((range_length r + 7) div 8) bytes"
proof (cases "range_length r = 0")
  case True
  then show ?thesis by (simp add: CFBitVectorGetBits_def)
next
  case False
  define len q where d: "len = range_length r" "q = range_location r div 8"
  have loc: "range_location r = 8 * q" using assms(2) d(2) by auto
  let ?n = "(len + 7) div 8"
  let ?xs = "map (\<lambda>k. bv_buckets bv ! (q + k) AND bv_mask (8 * q) len (q + k)) [0..<?n]"
  let ?bytes = "put_bytes bytes 0 ?xs"
  have len: "0 < len" using False d(1) by simp
  have "CFBitVectorGetBits bv r bytes = Some (bv, ?bytes)"
    using GetBits_stores[OF assms(1) loc _ assms(3,4)] False unfolding d(1) by blast
  moreover have "bv_bit ?bytes i \<longleftrightarrow> i < len \<and> bv_bits bv ! (8 * q + i)" if i: "i < 8 * ?n" for i
  proof -
    have k: "i div 8 < ?n" using i by (simp add: div_less_iff_less_mult mult.commute)
    have m7: "i mod 8 \<le> 7" using mod_less_divisor[of 8 i] by simp
    have idx: "8 * (q + i div 8) + (7 - (7 - i mod 8)) = 8 * q + i" using m7 by (simp add: algebra_simps)
    have ub: "q + i div 8 \<le> (8 * q + len - 1) div 8"
    proof -
      have "?n = (len - 1) div 8 + 1"
      proof -
        have "len + 7 = len - 1 + 8" using len by simp
        then show ?thesis by simp
      qed
      moreover have "8 * q + len - 1 = 8 * q + (len - 1)" using len by simp
      ultimately show ?thesis using k by simp
    qed
    have "bit (bv_mask (8 * q) len (q + i div 8)) (7 - i mod 8) \<longleftrightarrow> i < len"
      using bit_bv_mask[OF len _ ub, of "7 - i mod 8"] idx by simp
    moreover have "?bytes ! (i div 8) = ?xs ! (i div 8)" using k by (simp add: put_bytes_def nth_append)
    ultimately have "bv_bit ?bytes i \<longleftrightarrow> i < len \<and> bit (bv_buckets bv ! (q + i div 8)) (7 - i mod 8)"
      using k by (auto simp: bv_bit_def bit_simps)
    moreover have "bv_bit (bv_buckets bv) (8 * q + i) = bit (bv_buckets bv ! (q + i div 8)) (7 - i mod 8)"
      by (simp add: bv_bit_def)
    ultimately show ?thesis using assms(3) loc d(1) by auto
  qed
  moreover have "length ?bytes = length bytes" "drop ?n ?bytes = drop ?n bytes"
    using assms(4) d(1) by (simp_all add: put_bytes_def)
  ultimately show ?thesis unfolding loc d(1)[symmetric] by blast
qed

lemma GetBits_unaligned:
  assumes "bv_inv bv" "range_location r mod 8 \<noteq> 0"
    "range_location r + range_length r \<le> bv_count bv" "0 < length bytes"
  shows "\<exists>v. CFBitVectorGetBits bv r bytes = Some (bv, bytes[0 := v])"
proof (cases "range_length r = 0")
  case True
  then show ?thesis by (intro exI[of _ "bytes ! 0"]) (simp add: CFBitVectorGetBits_def)
next
  case False
  let ?ss = "bv_segments (range_location r) (range_length r)"
  let ?ctx = "\<lparr>gb_bytes = bytes, gb_cur = 0, gb_initBits = range_location r mod 8,
      gb_totalBits = int (range_length r), gb_ignoreFirstInitBits = True\<rparr>"
  have "range_location r + range_length r \<le> 8 * length (bv_buckets bv)"
    using bv_inv_room[OF assms(1), of "bv_count bv"] assms(3) by simp
  then have "\<forall>(i, m) \<in> set ?ss. i < length (bv_buckets bv)" by (rule segments_in) (use False in simp)
  then obtain v t where "seg_fold GetBitsMapper ?ss (bv_buckets bv) ?ctx =
      Some (bv_buckets bv, ?ctx\<lparr>gb_bytes := bytes[0 := v], gb_totalBits := t\<rparr>)"
    using seg_fold_unaligned[of ?ss "bv_buckets bv" ?ctx] assms(2,4) by auto
  then show ?thesis
    using False by (auto simp: CFBitVectorGetBits_def InternalMap_segments)
qed

section \<open>Comparison\<close>

lemma EqualLoop_correct:
  assumes "n \<le> length b1" "n \<le> length b2"
  shows "CFBitVectorEqualLoop b1 b2 n idx = Some (\<forall>i. idx \<le> i \<and> i < n \<longrightarrow> b1 ! i = b2 ! i)"
proof (induction "n - idx" arbitrary: idx)
  case 0
  then show ?case by (auto simp: CFBitVectorEqualLoop.simps)
next
  case (Suc k)
  then have idx: "idx < n" and
    IH: "CFBitVectorEqualLoop b1 b2 n (idx + 1) = Some (\<forall>i. idx + 1 \<le> i \<and> i < n \<longrightarrow> b1 ! i = b2 ! i)"
    by simp_all
  have "(\<forall>i. idx \<le> i \<and> i < n \<longrightarrow> b1 ! i = b2 ! i) \<longleftrightarrow>
      b1 ! idx = b2 ! idx \<and> (\<forall>i. idx + 1 \<le> i \<and> i < n \<longrightarrow> b1 ! i = b2 ! i)"
    using idx by (metis Suc_eq_plus1 Suc_leD Suc_leI le_neq_implies_less order_refl)
  then show ?case
    using idx assms IH by (subst CFBitVectorEqualLoop.simps) (simp add: aget_in)
qed

lemma Equal_buckets:
  assumes "bv_inv bv1" "bv_inv bv2" "bv_count bv1 = bv_count bv2" "0 < bv_count bv1"
  shows "CFBitVectorEqual bv1 bv2 =
     Some (\<forall>i < bv_count bv1 div 8 + 1. bv_buckets bv1 ! i = bv_buckets bv2 ! i)"
proof -
  have "bv_count bv1 div 8 + 1 \<le> length (bv_buckets bv1)"
    "bv_count bv1 div 8 + 1 \<le> length (bv_buckets bv2)"
    using assms by (simp_all add: bv_inv_def CFBitVectorNumBuckets_def div_le_mono)
  then show ?thesis using assms EqualLoop_correct by (simp add: CFBitVectorEqual_def Let_def)
qed

lemma Create_bytes:
  assumes "n mod 8 \<noteq> 0" "n div 8 < length bytes" "\<forall>k. alloc k"
  shows "\<exists>bv. CFBitVectorCreate True alloc (Some bytes) n = Some (Some bv) \<and> bv_inv bv \<and>
     bv_count bv = n \<and> (\<forall>i \<le> n div 8. bv_buckets bv ! i = bytes ! i)"
proof -
  let ?m = "n div 8 + 1" and ?cap = "CFBitVectorRoundUpCapacity n"
  let ?b = "take ?m bytes @ drop ?m (replicate (CFBitVectorNumBuckets ?cap) 0)"
  let ?bv = "\<lparr>bv_count = n, bv_capacity = ?cap, bv_buckets = ?b, bv_mutable = False\<rparr>"
  have m: "?m \<le> length bytes" "?m \<le> CFBitVectorNumBuckets ?cap"
    using assms(2) RoundUpCapacity_ge[of n] by (simp_all add: CFBitVectorNumBuckets_def div_le_mono)
  then have c: "CFBitVectorCreate True alloc (Some bytes) n = Some (Some ?bv)"
    using assms(1,3) by (simp add: CFBitVectorCreate_def CFBitVectorInit_def Let_def)
  moreover have "bv_inv ?bv"
    using Init_correct_bits c unfolding CFBitVectorCreate_def by blast
  moreover have "\<forall>i \<le> n div 8. ?b ! i = bytes ! i" using m(1) by (simp add: nth_append)
  ultimately show ?thesis by (intro exI[of _ ?bv]) simp
qed

section \<open>Properties\<close>

text \<open>
  C27. \<^verbatim>\<open>CFBitVectorSetBits\<close> on a range inside the vector: no access outside the buckets, the bits of the
  range get the value and no other bit of the vector changes, whatever the alignment of the range.
\<close>

theorem bits_set_range:
  assumes "bv_inv bv" "range_location r + range_length r \<le> bv_count bv"
  shows "\<exists>bv'. CFBitVectorSetBits bv r v = Some bv' \<and> bv_inv bv' \<and>
     bv_bits bv' = change_range (\<lambda>_. v \<noteq> 0) r (bv_bits bv)"
  using SetBits_correct[OF assms, of v] by blast

definition sample_bits :: CFBitVector where
  "sample_bits = \<lparr>bv_count = 20, bv_capacity = 64,
     bv_buckets = [0xA5, 0x0F, 0xC3, 0, 0, 0, 0, 0, 0], bv_mutable = True\<rparr>"

lemma sample_bits_inv [simp]: "bv_inv sample_bits"
  by (simp add: bv_inv_def sample_bits_def CFBitVectorNumBuckets_def)

lemma sample_bits_sel [simp]: "bv_count sample_bits = 20" "bv_mutable sample_bits"
  by (simp_all add: sample_bits_def)

theorem bits_set_range_witness:
  "bv_inv sample_bits \<and> (\<exists>bv'. CFBitVectorSetBits sample_bits (CFRangeMake 3 14) 1 = Some bv' \<and>
     bv_inv bv' \<and> bv_bits bv' = change_range (\<lambda>_. True) (CFRangeMake 3 14) (bv_bits sample_bits))"
  using bits_set_range[of sample_bits "CFRangeMake 3 14" 1] by (simp add: CFRangeMake_def)

text \<open>
  \<^verbatim>\<open>CFBitVectorFlipBits\<close> on a range inside the vector inverts exactly the bits of the range.
\<close>

theorem bits_flip_range:
  assumes "bv_inv bv" "range_location r + range_length r \<le> bv_count bv"
  shows "\<exists>bv'. CFBitVectorFlipBits bv r = Some bv' \<and> bv_inv bv' \<and>
     bv_bits bv' = change_range Not r (bv_bits bv)"
  using FlipBits_correct[OF assms] by blast

theorem bits_flip_range_witness:
  "\<exists>bv'. CFBitVectorFlipBits sample_bits (CFRangeMake 3 14) = Some bv' \<and>
     bv_inv bv' \<and> bv_bits bv' = change_range Not (CFRangeMake 3 14) (bv_bits sample_bits)"
  using bits_flip_range[of sample_bits "CFRangeMake 3 14"] by (simp add: CFRangeMake_def)

text \<open>
  \<^verbatim>\<open>CFBitVectorGetCountOfBit\<close>, which counts by nibble tables over masked buckets, answers the
  number of bits of the range with the given value, and leaves the (formally constant) vector as
  it was.
\<close>

theorem bits_count:
  assumes "bv_inv bv" "range_location r + range_length r \<le> bv_count bv"
  shows "CFBitVectorGetCountOfBit bv r v = Some (bv, length (filter (\<lambda>x. x = (v \<noteq> 0))
     (take (range_length r) (drop (range_location r) (bv_bits bv)))))"
  by (rule GetCountOfBit_correct[OF assms])

theorem bits_count_witness:
  "CFBitVectorGetCountOfBit sample_bits (CFRangeMake 3 14) 1 = Some (sample_bits, 7)"
proof -
  have "bv_bits sample_bits = map (bv_bit [0xA5, 0x0F, 0xC3, 0, 0, 0, 0, 0, 0]) [0..<20]"
    by (simp add: bv_bits_def sample_bits_def)
  also have "\<dots> = [True, False, True, False, False, True, False, True,
      False, False, False, False, True, True, True, True, True, True, False, False]"
    by code_simp
  finally show ?thesis
    using bits_count[of sample_bits "CFRangeMake 3 14" 1] by (simp add: CFRangeMake_def)
qed

text \<open>
  \<^verbatim>\<open>CFBitVectorSetCount\<close> keeps the bits up to the new count and appends zero bits when the vector
  grows, although the reallocated memory holds arbitrary bytes.
\<close>

theorem bits_set_count:
  assumes "bv_inv bv" "bv_mutable bv" "\<forall>n. alloc n"
  shows "\<exists>bv'. CFBitVectorSetCount alloc junk bv n = Some bv' \<and> bv_inv bv' \<and> bv_mutable bv' \<and>
     bv_bits bv' = take n (bv_bits bv) @ replicate (n - bv_count bv) False"
  by (rule SetCount_correct[OF assms])

theorem bits_set_count_witness:
  "\<exists>bv'. CFBitVectorSetCount (\<lambda>_. True) (\<lambda>_. 0xAA) sample_bits 100 = Some bv' \<and> bv_inv bv' \<and>
     bv_mutable bv' \<and> bv_bits bv' = bv_bits sample_bits @ replicate 80 False"
  using bits_set_count[of sample_bits "\<lambda>_. True" "\<lambda>_. 0xAA" 100] by simp

text \<open>
  \<^verbatim>\<open>CFBitVectorGetBits\<close> for a range that starts on a byte boundary: the client's buffer receives
  the bits of the range, the unused bits of its last byte are zero, later bytes are untouched.
\<close>

theorem bits_extract_aligned:
  assumes "bv_inv bv" "range_location r mod 8 = 0"
    "range_location r + range_length r \<le> bv_count bv" "(range_length r + 7) div 8 \<le> length bytes"
  shows "\<exists>bytes'. CFBitVectorGetBits bv r bytes = Some (bv, bytes') \<and> length bytes' = length bytes \<and>
     (\<forall>i < 8 * ((range_length r + 7) div 8). bv_bit bytes' i \<longleftrightarrow>
        i < range_length r \<and> bv_bits bv ! (range_location r + i)) \<and>
     drop ((range_length r + 7) div 8) bytes' = drop ((range_length r + 7) div 8) bytes"
  by (rule GetBits_aligned[OF assms])

theorem bits_extract_aligned_witness:
  "\<exists>bytes'. CFBitVectorGetBits sample_bits (CFRangeMake 8 12) [1, 2, 3] = Some (sample_bits, bytes') \<and>
     length bytes' = 3 \<and> drop 2 bytes' = [3] \<and>
     (\<forall>i < 16. bv_bit bytes' i \<longleftrightarrow> i < 12 \<and> bv_bits sample_bits ! (8 + i))"
  using bits_extract_aligned[of sample_bits "CFRangeMake 8 12" "[1, 2, 3]"]
  by (auto simp: CFRangeMake_def)

text \<open>
  C35. \<^verbatim>\<open>CFBitVectorGetBits\<close> for a range that does not start on a byte boundary stores into the first
  byte of the buffer only, however long the range is: the remaining bits are lost.
\<close>

theorem bits_extract_unaligned:
  assumes "bv_inv bv" "range_location r mod 8 \<noteq> 0"
    "range_location r + range_length r \<le> bv_count bv" "0 < length bytes"
  shows "\<exists>v. CFBitVectorGetBits bv r bytes = Some (bv, bytes[0 := v])"
  by (rule GetBits_unaligned[OF assms])

theorem bits_extract_unaligned_witness:
  "\<exists>v. CFBitVectorGetBits sample_bits (CFRangeMake 4 16) [0, 0] = Some (sample_bits, [v, 0]) \<and>
     bv_bits sample_bits ! 12"
proof -
  have "bv_bits sample_bits ! 12" by (simp add: bv_bit_def sample_bits_def)
  then show ?thesis
    using bits_extract_unaligned[of sample_bits "CFRangeMake 4 16" "[0, 0]"]
    by (simp add: CFRangeMake_def)
qed

text \<open>
  C36. \<^verbatim>\<open>__CFBitVectorEqual\<close> compares the unused bits of the last bucket too: for every client byte
  array whose last byte is partly used, the one that differs from it in the lowest bit of that byte gives a vector
  with the same bits, and the two vectors compare unequal.
\<close>

theorem bits_equal_padding:
  assumes "n mod 8 \<noteq> 0" "n div 8 < length bytes" "\<forall>k. alloc k"
  shows "\<exists>bv1 bv2. CFBitVectorCreate True alloc (Some bytes) n = Some (Some bv1) \<and>
     CFBitVectorCreate True alloc (Some (bytes[n div 8 := bytes ! (n div 8) XOR 1])) n = Some (Some bv2) \<and>
     bv_bits bv1 = bv_bits bv2 \<and> CFBitVectorEqual bv1 bv2 = Some False"
proof -
  let ?bytes2 = "bytes[n div 8 := bytes ! (n div 8) XOR 1]"
  from Create_bytes[OF assms(1-3)] obtain bv1 where bv1:
      "CFBitVectorCreate True alloc (Some bytes) n = Some (Some bv1)" "bv_inv bv1" "bv_count bv1 = n"
      "\<And>i. i \<le> n div 8 \<Longrightarrow> bv_buckets bv1 ! i = bytes ! i"
    by blast
  from Create_bytes[of n ?bytes2 alloc] assms obtain bv2 where bv2:
      "CFBitVectorCreate True alloc (Some ?bytes2) n = Some (Some bv2)" "bv_inv bv2" "bv_count bv2 = n"
      "\<And>i. i \<le> n div 8 \<Longrightarrow> bv_buckets bv2 ! i = ?bytes2 ! i"
    by auto
  have "bv_bit (bv_buckets bv1) i = bv_bit (bv_buckets bv2) i" if i: "i < n" for i
  proof -
    have le: "i div 8 \<le> n div 8" using i by (simp add: div_le_mono)
    show ?thesis
    proof (cases "i div 8 = n div 8")
      case True
      then have "i mod 8 < n mod 8" using i by (metis div_mult_mod_eq nat_add_left_cancel_less)
      then have "0 < 7 - i mod 8" using mod_less_divisor[of 8 n] by linarith
      then show ?thesis
        using bv1(4)[OF le] bv2(4)[OF le] assms(2) True by (simp add: bv_bit_def bit_simps)
    next
      case False
      then show ?thesis using bv1(4)[OF le] bv2(4)[OF le] by (simp add: bv_bit_def)
    qed
  qed
  then have "bv_bits bv1 = bv_bits bv2" using bv1(3) bv2(3) by (simp add: bv_bits_def)
  moreover have "bytes ! (n div 8) \<noteq> bytes ! (n div 8) XOR 1"
  proof
    assume "bytes ! (n div 8) = bytes ! (n div 8) XOR 1"
    then have "bit (bytes ! (n div 8)) 0 = bit (bytes ! (n div 8) XOR 1) 0" by metis
    then show False by (simp add: bit_simps)
  qed
  then have "CFBitVectorEqual bv1 bv2 = Some False"
    using Equal_buckets[OF bv1(2) bv2(2)] bv1(3,4) bv2(3,4) assms(1,2)
    by (auto intro!: exI[of _ "n div 8"] intro: gr0I)
  ultimately show ?thesis using bv1(1) bv2(1) by blast
qed

theorem bits_equal_padding_witness:
  "\<exists>bv1 bv2. CFBitVectorCreate True (\<lambda>_. True) (Some [0x80]) 1 = Some (Some bv1) \<and>
     CFBitVectorCreate True (\<lambda>_. True) (Some [0x81]) 1 = Some (Some bv2) \<and>
     bv_bits bv1 = bv_bits bv2 \<and> CFBitVectorEqual bv1 bv2 = Some False"
  using bits_equal_padding[of 1 "[0x80]" "\<lambda>_. True"] by simp

text \<open>
  Reading back: \<^verbatim>\<open>CFBitVectorSetBitAtIndex\<close> and \<^verbatim>\<open>CFBitVectorFlipBitAtIndex\<close> change exactly the
  addressed bit, and \<^verbatim>\<open>CFBitVectorGetBitAtIndex\<close> then answers 0 or 1 accordingly at every index.
\<close>

theorem bits_single:
  assumes "bv_inv bv" "i < bv_count bv" "j < bv_count bv"
  shows "\<exists>bv1 bv2. CFBitVectorSetBitAtIndex bv i v = Some bv1 \<and>
     CFBitVectorFlipBitAtIndex bv i = Some bv2 \<and>
     CFBitVectorGetBitAtIndex bv1 j = (if i = j then Some (of_bool (v \<noteq> 0)) else CFBitVectorGetBitAtIndex bv j) \<and>
     CFBitVectorGetBitAtIndex bv2 j = Some (of_bool ((i = j) \<noteq> bv_bits bv ! j))"
proof -
  from SetBit_correct[OF assms(1,2), of v] obtain bv1 where
    1: "CFBitVectorSetBitAtIndex bv i v = Some bv1" "bv_inv bv1" "bv_bits bv1 = (bv_bits bv)[i := (v \<noteq> 0)]"
    by blast
  from FlipBit_correct[OF assms(1,2)] obtain bv2 where
    2: "CFBitVectorFlipBitAtIndex bv i = Some bv2" "bv_inv bv2"
      "bv_bits bv2 = (bv_bits bv)[i := \<not> bv_bits bv ! i]"
    by blast
  have "bv_count bv1 = bv_count bv" "bv_count bv2 = bv_count bv"
    using 1(3) 2(3) by (metis length_bv_bits length_list_update)+
  then have "CFBitVectorGetBitAtIndex bv1 j = Some (of_bool ((bv_bits bv)[i := (v \<noteq> 0)] ! j))"
      "CFBitVectorGetBitAtIndex bv2 j = Some (of_bool ((bv_bits bv)[i := \<not> bv_bits bv ! i] ! j))"
    using GetBit_correct[OF 1(2), of j] GetBit_correct[OF 2(2), of j] 1(3) 2(3) assms(3) by simp_all
  then show ?thesis
    using 1(1) 2(1) GetBit_correct[OF assms(1,3)] assms(2,3) by (cases "i = j") simp_all
qed

theorem bits_single_witness:
  "\<exists>bv1 bv2. CFBitVectorSetBitAtIndex sample_bits 9 1 = Some bv1 \<and>
     CFBitVectorFlipBitAtIndex sample_bits 9 = Some bv2 \<and>
     CFBitVectorGetBitAtIndex bv1 9 = Some 1 \<and>
     CFBitVectorGetBitAtIndex bv2 9 = Some 1"
proof -
  have "\<not> bv_bits sample_bits ! 9" by (simp add: bv_bit_def sample_bits_def bit_simps)
  then show ?thesis using bits_single[of sample_bits 9 9 1] by simp
qed

text \<open>
  \<^verbatim>\<open>CFBitVectorGetFirstIndexOfBit\<close> and \<^verbatim>\<open>CFBitVectorGetLastIndexOfBit\<close> answer the least and the
  greatest index of the range that holds the bit, and \<^verbatim>\<open>kCFNotFound\<close> if there is none.
\<close>

theorem bits_search:
  assumes "bv_inv bv" "range_location r + range_length r \<le> bv_count bv"
  shows "CFBitVectorGetFirstIndexOfBit bv r (of_bool x) = Some (find (\<lambda>i. bv_bits bv ! i = x)
       [range_location r..<range_location r + range_length r]) \<and>
     CFBitVectorGetLastIndexOfBit bv r (of_bool x) = Some (find (\<lambda>i. bv_bits bv ! i = x)
       (rev [range_location r..<range_location r + range_length r]))"
  using FirstIndexLoop_correct[OF assms, of x 0] LastIndexLoop_correct[OF assms, of x]
  by (simp add: CFBitVectorGetFirstIndexOfBit_def CFBitVectorGetLastIndexOfBit_def)

theorem bits_search_witness:
  "CFBitVectorGetFirstIndexOfBit sample_bits (CFRangeMake 8 3) 1 = Some None \<and>
   CFBitVectorGetLastIndexOfBit sample_bits (CFRangeMake 8 3) 0 = Some (Some 10)"
proof -
  have b: "\<not> bv_bits sample_bits ! 8" "\<not> bv_bits sample_bits ! 9" "\<not> bv_bits sample_bits ! 10"
    by (simp_all add: bv_bit_def sample_bits_def bit_simps)
  have "[8..<11] = [8, 9, 10::nat]" by code_simp
  with b show ?thesis
    using bits_search[of sample_bits "CFRangeMake 8 3" True] bits_search[of sample_bits "CFRangeMake 8 3" False]
    by (simp add: CFRangeMake_def)
qed

end
