(* ===== verification/Blocks_Refcount.thy ===== *)
theory Blocks_Refcount
  imports CF_Prelude
begin

text \<open>
  The reference counts of the blocks runtime (\<^verbatim>\<open>BlocksRuntime/runtime.c\<close>, first part): a counter in
  bits 1 to 15 of the flag word of a block or of a \<^verbatim>\<open>__block\<close> variable, a deallocating bit below it,
  both updated by compare-and-swap loops that stop ("latch") at the largest count and at zero.

  Each loop is given by its body: what one turn does after it has read the word. The sequential
  effect of a loop is one turn without interference. The inductive relation \<open>cas_step\<close> is the
  interleaved execution of any number of such loops on one word; the lemmas show that it is
  linearizable to the sequential effects, and that the sequential effects are those of an abstract counter
  (\<open>count_op\<close>), so that concurrent loops count references.
\<close>

section \<open>Flag words\<close>

type_synonym flags = "32 word"

abbreviation (input) BLOCK_DEALLOCATING :: flags where "BLOCK_DEALLOCATING \<equiv> 0x0001"
abbreviation (input) BLOCK_REFCOUNT_MASK :: flags where "BLOCK_REFCOUNT_MASK \<equiv> 0xfffe"

section \<open>Compare-and-swap loops\<close>

text \<open>
  A turn of a loop: return at once, or try to replace the value read by a new one and return if
  that succeeds; otherwise the loop takes another turn.
\<close>

datatype 'r turn = Return 'r | Swap flags 'r

definition latching_incr_int :: "flags \<Rightarrow> flags turn" where
  "latching_incr_int old_value =
     (if old_value AND BLOCK_REFCOUNT_MASK = BLOCK_REFCOUNT_MASK then Return BLOCK_REFCOUNT_MASK
      else Swap (old_value + 2) (old_value + 2))"

definition latching_incr_int_not_deallocating :: "flags \<Rightarrow> bool turn" where
  "latching_incr_int_not_deallocating old_value =
     (if old_value AND BLOCK_DEALLOCATING \<noteq> 0 then Return False
      else if old_value AND BLOCK_REFCOUNT_MASK = BLOCK_REFCOUNT_MASK then Return True
      else Swap (old_value + 2) True)"

definition latching_decr_int_should_deallocate :: "flags \<Rightarrow> bool turn" where
  "latching_decr_int_should_deallocate old_value =
     (if old_value AND BLOCK_REFCOUNT_MASK = BLOCK_REFCOUNT_MASK then Return False
      else if old_value AND BLOCK_REFCOUNT_MASK = 0 then Return False
      else if old_value AND (BLOCK_REFCOUNT_MASK OR BLOCK_DEALLOCATING) = 2
        then Swap (old_value - 1) True
        else Swap (old_value - 2) False)"

definition latching_decr_int_now_zero :: "flags \<Rightarrow> bool turn" where
  "latching_decr_int_now_zero old_value =
     (if old_value AND BLOCK_REFCOUNT_MASK = BLOCK_REFCOUNT_MASK then Return False
      else if old_value AND BLOCK_REFCOUNT_MASK = 0 then Return False
      else let new_value = old_value - 2
           in Swap new_value (new_value AND BLOCK_REFCOUNT_MASK = 0))"

text \<open>The four loops with one type of result.\<close>

datatype latch_op = Incr | IncrNotDeallocating | DecrShouldDeallocate | DecrNowZero

fun latch_turn :: "latch_op \<Rightarrow> flags \<Rightarrow> (flags + bool) turn" where
  "latch_turn Incr w = map_turn Inl (latching_incr_int w)"
| "latch_turn IncrNotDeallocating w = map_turn Inr (latching_incr_int_not_deallocating w)"
| "latch_turn DecrShouldDeallocate w = map_turn Inr (latching_decr_int_should_deallocate w)"
| "latch_turn DecrNowZero w = map_turn Inr (latching_decr_int_now_zero w)"

text \<open>The effect of a loop that runs without interference: the new word and the result.\<close>

definition run_turn :: "(flags \<Rightarrow> 'r turn) \<Rightarrow> flags \<Rightarrow> flags \<times> 'r" where
  "run_turn body w = (case body w of Return r \<Rightarrow> (w, r) | Swap w' r \<Rightarrow> (w', r))"

section \<open>Interleaved execution\<close>

text \<open>
  Threads \<open>t\<close> run the loops \<open>body t\<close> on one shared word. A thread reads the word, then either
  returns or tries the swap; a failed swap sends it back to reading. The log is a ghost: a
  thread enters it with its result at the moment its loop takes effect.
\<close>

datatype 'r pc = Idle | Loaded flags | Finished 'r

record 'r cas_state =
  cs_word :: flags
  cs_pc :: "nat \<Rightarrow> 'r pc"
  cs_log :: "(nat \<times> 'r) list"

inductive cas_step :: "(nat \<Rightarrow> flags \<Rightarrow> 'r turn) \<Rightarrow> 'r cas_state \<Rightarrow> 'r cas_state \<Rightarrow> bool"
  for body where
  load_return: "cs_pc s t = Idle \<Longrightarrow> body t (cs_word s) = Return r \<Longrightarrow>
     cas_step body s (s\<lparr>cs_pc := (cs_pc s)(t := Loaded (cs_word s)), cs_log := cs_log s @ [(t, r)]\<rparr>)"
| load_swap: "cs_pc s t = Idle \<Longrightarrow> body t (cs_word s) = Swap w r \<Longrightarrow>
     cas_step body s (s\<lparr>cs_pc := (cs_pc s)(t := Loaded (cs_word s))\<rparr>)"
| give_up: "cs_pc s t = Loaded v \<Longrightarrow> body t v = Return r \<Longrightarrow>
     cas_step body s (s\<lparr>cs_pc := (cs_pc s)(t := Finished r)\<rparr>)"
| swap_ok: "cs_pc s t = Loaded v \<Longrightarrow> body t v = Swap w r \<Longrightarrow> cs_word s = v \<Longrightarrow>
     cas_step body s (s\<lparr>cs_word := w, cs_pc := (cs_pc s)(t := Finished r), cs_log := cs_log s @ [(t, r)]\<rparr>)"
| swap_fail: "cs_pc s t = Loaded v \<Longrightarrow> body t v = Swap w r \<Longrightarrow> cs_word s \<noteq> v \<Longrightarrow>
     cas_step body s (s\<lparr>cs_pc := (cs_pc s)(t := Idle)\<rparr>)"

definition cas_init :: "flags \<Rightarrow> 'r cas_state" where
  "cas_init w = \<lparr>cs_word = w, cs_pc = (\<lambda>_. Idle), cs_log = []\<rparr>"

text \<open>The sequential run of the logged threads: the word they leave and whether each result is right.\<close>

fun replay :: "(nat \<Rightarrow> flags \<Rightarrow> 'r turn) \<Rightarrow> flags \<Rightarrow> (nat \<times> 'r) list \<Rightarrow> flags option" where
  "replay body w [] = Some w"
| "replay body w ((t, r) # log) =
     (let (w', r') = run_turn (body t) w in if r' = r then replay body w' log else None)"

lemma replay_append:
  "replay body w (xs @ ys) = do { w' \<leftarrow> replay body w xs; replay body w' ys }"
  by (induction xs arbitrary: w) (auto simp: Let_def split: prod.splits)

definition cas_inv :: "(nat \<Rightarrow> flags \<Rightarrow> 'r turn) \<Rightarrow> flags \<Rightarrow> 'r cas_state \<Rightarrow> bool" where
  "cas_inv body w0 s \<longleftrightarrow> replay body w0 (cs_log s) = Some (cs_word s) \<and> distinct (map fst (cs_log s)) \<and>
     (\<forall>t. case cs_pc s t of
        Idle \<Rightarrow> t \<notin> fst ` set (cs_log s)
      | Loaded v \<Rightarrow> (case body t v of Return r \<Rightarrow> (t, r) \<in> set (cs_log s)
                                  | Swap w r \<Rightarrow> t \<notin> fst ` set (cs_log s))
      | Finished r \<Rightarrow> (t, r) \<in> set (cs_log s))"

lemma cas_inv_init: "cas_inv body w (cas_init w)"
  by (simp add: cas_inv_def cas_init_def)

lemma cas_inv_step:
  assumes "cas_step body s s'" "cas_inv body w0 s"
  shows "cas_inv body w0 s'"
  using assms
proof (induction rule: cas_step.induct)
  case (load_return s t r)
  have "t \<notin> fst ` set (cs_log s)" using load_return(1,3) by (auto simp: cas_inv_def split: pc.splits)
  with load_return show ?case
    by (auto simp: cas_inv_def replay_append run_turn_def split: pc.splits turn.splits)
next
  case (load_swap s t w r)
  then show ?case by (auto simp: cas_inv_def split: pc.splits turn.splits)
next
  case (give_up s t v r)
  then show ?case by (auto simp: cas_inv_def split: pc.splits turn.splits)
next
  case (swap_ok s t v w r)
  have "t \<notin> fst ` set (cs_log s)"
    using swap_ok(4)[unfolded cas_inv_def, THEN conjunct2, THEN conjunct2, THEN spec[of _ t]]
      swap_ok(1,2) by simp
  with swap_ok show ?case
    by (auto simp: cas_inv_def replay_append run_turn_def split: pc.splits turn.splits)
next
  case (swap_fail s t v w r)
  then show ?case by (auto simp: cas_inv_def split: pc.splits turn.splits)
qed

lemma cas_inv_reachable:
  assumes "(cas_step body)\<^sup>*\<^sup>* (cas_init w0) s"
  shows "cas_inv body w0 s"
  using assms by (induction rule: rtranclp_induct) (auto intro: cas_inv_init cas_inv_step)

section \<open>The three fields of a flag word\<close>

definition refs :: "flags \<Rightarrow> nat" where
  "refs w = unat w div 2 mod 32768"

definition deallocating :: "flags \<Rightarrow> bool" where
  "deallocating w \<longleftrightarrow> odd (unat w)"

definition upper :: "flags \<Rightarrow> nat" where
  "upper w = unat w div 65536"

abbreviation (input) max_refs :: nat where
  "max_refs \<equiv> 32767"

lemma refs_le: "refs w \<le> max_refs"
  by (simp add: refs_def less_Suc_eq_le[symmetric])

lemma flags_split: "unat w = 65536 * upper w + 2 * refs w + of_bool (deallocating w)"
proof -
  have "unat w = 2 * (unat w div 2) + of_bool (odd (unat w))"
    using mult_div_mod_eq[of 2 "unat w"] by (simp add: mod_2_eq_odd)
  moreover have "unat w div 2 = 32768 * (unat w div 65536) + unat w div 2 mod 32768"
    using mult_div_mod_eq[of 32768 "unat w div 2"] by (simp add: div_mult2_eq[symmetric])
  ultimately show ?thesis by (simp add: refs_def upper_def deallocating_def)
qed

text \<open>The fields determine the word.\<close>

lemma flags_fields:
  assumes "unat w = 65536 * u + 2 * r + of_bool d" "r \<le> max_refs"
  shows "upper w = u" "refs w = r" "deallocating w = d"
proof -
  have *: "2 * r + of_bool d < 65536" using assms(2) by (cases d) auto
  show "upper w = u"
    unfolding upper_def assms(1) using * by (intro div_nat_eqI) simp_all
  have "(65536 * u + 2 * r + of_bool d) div 2 = 32768 * u + r" by (cases d) auto
  then show "refs w = r" unfolding refs_def assms(1) using assms(2) by simp
  show "deallocating w = d" unfolding deallocating_def assms(1) by (cases d) auto
qed

lemma unat_and_mask: "unat (w AND BLOCK_REFCOUNT_MASK) = 2 * refs w"
proof -
  have gen: "w AND push_bit k (mask 15) = push_bit k (take_bit 15 (drop_bit k w))" for k
    by (rule bit_eqI) (auto simp: bit_simps)
  have "w AND BLOCK_REFCOUNT_MASK = take_bit 15 (drop_bit 1 w) * 2"
    using gen[of 1] by (simp add: mask_eq_exp_minus_1)
  moreover have "unat (take_bit 15 (drop_bit 1 w)) = refs w"
    by (simp add: refs_def take_bit_eq_mod drop_bit_eq_div unat_div unat_mod)
  ultimately show ?thesis
    using refs_le[of w] by (simp add: unat_word_ariths(2))
qed

lemma unat_less [simp]: "unat (w :: flags) < 4294967296"
  using unsigned_less[where ?'a = nat and w = w] by simp

lemma mask_tests:
  "w AND BLOCK_REFCOUNT_MASK = BLOCK_REFCOUNT_MASK \<longleftrightarrow> refs w = max_refs"
  "w AND BLOCK_REFCOUNT_MASK = 0 \<longleftrightarrow> refs w = 0"
  "w AND BLOCK_DEALLOCATING = 0 \<longleftrightarrow> \<not> deallocating w"
  "w AND (BLOCK_REFCOUNT_MASK OR BLOCK_DEALLOCATING) = 2 \<longleftrightarrow> refs w = 1 \<and> \<not> deallocating w"
proof -
  show "w AND BLOCK_REFCOUNT_MASK = BLOCK_REFCOUNT_MASK \<longleftrightarrow> refs w = max_refs"
    "w AND BLOCK_REFCOUNT_MASK = 0 \<longleftrightarrow> refs w = 0"
    unfolding word_unat_eq_iff unat_and_mask by simp_all
  show "w AND BLOCK_DEALLOCATING = 0 \<longleftrightarrow> \<not> deallocating w"
    unfolding word_unat_eq_iff and_one_eq deallocating_def by (simp add: unat_mod even_iff_mod_2_eq_zero)
  have "w AND 0xffff = w AND mask 16" by (simp add: mask_eq_exp_minus_1)
  then have "unat (w AND 0xffff) = unat w mod 65536"
    by (simp add: take_bit_eq_mask[symmetric] take_bit_eq_mod unat_mod)
  also have "\<dots> = 2 * refs w + of_bool (deallocating w)"
    using refs_le[of w] by (subst flags_split) (auto simp: add.assoc)
  finally have *: "unat (w AND 0xffff) = 2 * refs w + of_bool (deallocating w)" .
  have "2 * refs w + 1 \<noteq> 2" by presburger
  with * show "w AND (BLOCK_REFCOUNT_MASK OR BLOCK_DEALLOCATING) = 2 \<longleftrightarrow> refs w = 1 \<and> \<not> deallocating w"
    unfolding word_unat_eq_iff by (cases "deallocating w") simp_all
qed

text \<open>Adding to and subtracting from the word moves the fields without carries.\<close>

lemma flags_arith:
  assumes "unat w + k = 65536 * upper w + 2 * r + of_bool d" "r \<le> max_refs"
  shows "upper (w + of_nat k) = upper w \<and> refs (w + of_nat k) = r \<and> deallocating (w + of_nat k) = d"
proof -
  have "unat w + k < 2 ^ 32"
  proof -
    have "upper w < 65536" using unat_less[of w] by (simp add: upper_def div_less_iff_less_mult)
    then show ?thesis using assms by (cases d) auto
  qed
  then have "unat (w + of_nat k) = unat w + k"
    by (simp add: unat_word_ariths(1) unat_of_nat)
  with assms have "unat (w + of_nat k) = 65536 * upper w + 2 * r + of_bool d" by simp
  from flags_fields[OF this assms(2)] show ?thesis by blast
qed

lemma flags_arith_minus:
  assumes "unat w = 65536 * upper w + 2 * r + of_bool d + k" "r \<le> max_refs"
  shows "upper (w - of_nat k) = upper w \<and> refs (w - of_nat k) = r \<and> deallocating (w - of_nat k) = d"
proof -
  have k: "k \<le> unat w" using assms(1) by simp
  then have "k < 4294967296" using unat_less[of w] by linarith
  then have "unat (of_nat k :: flags) = k" by (simp add: unat_of_nat)
  then have "unat (w - of_nat k) = unat w - k" using k by (subst unat_sub) (simp_all add: word_le_nat_alt)
  with assms have "unat (w - of_nat k) = 65536 * upper w + 2 * r + of_bool d" by simp
  from flags_fields[OF this assms(2)] show ?thesis by blast
qed

lemma incr_fields:
  assumes "refs w < max_refs"
  shows "upper (w + 2) = upper w" "refs (w + 2) = refs w + 1" "deallocating (w + 2) = deallocating w"
  using flags_arith[of w 2 "refs w + 1" "deallocating w"] flags_split[of w] assms by simp_all

lemma decr_fields:
  assumes "0 < refs w"
  shows "upper (w - 2) = upper w" "refs (w - 2) = refs w - 1" "deallocating (w - 2) = deallocating w"
  using flags_arith_minus[of w "refs w - 1" "deallocating w" 2] flags_split[of w] refs_le[of w] assms
  by simp_all

lemma last_decr_fields:
  assumes "refs w = 1" "\<not> deallocating w"
  shows "upper (w - 1) = upper w" "refs (w - 1) = 0" "deallocating (w - 1)"
  using flags_arith_minus[of w 0 True 1] flags_split[of w] assms by simp_all

section \<open>Sequences of retains and releases\<close>

text \<open>
  What \<^verbatim>\<open>_Block_copy\<close> and \<^verbatim>\<open>_Block_release\<close> do to the flag word of a heap block; the result says whether
  the caller has to deallocate.
\<close>

datatype rc_op = Retain | Release

fun rc_apply :: "rc_op \<Rightarrow> flags \<Rightarrow> flags \<times> bool" where
  "rc_apply Retain w = (fst (run_turn latching_incr_int w), False)"
| "rc_apply Release w = run_turn latching_decr_int_should_deallocate w"

fun rc_run :: "rc_op list \<Rightarrow> flags \<Rightarrow> flags \<times> bool list" where
  "rc_run [] w = (w, [])"
| "rc_run (op # ops) w =
     (let (w1, r) = rc_apply op w; (w2, rs) = rc_run ops w1 in (w2, r # rs))"

text \<open>
  Clients own what they release: an operation is made by someone who holds a reference, so the
  count is positive before it, and there are never so many references that the counter latches.
\<close>

fun rc_owned :: "nat \<Rightarrow> rc_op list \<Rightarrow> bool" where
  "rc_owned c [] \<longleftrightarrow> True"
| "rc_owned c (Retain # ops) \<longleftrightarrow> 0 < c \<and> c + 1 < max_refs \<and> rc_owned (c + 1) ops"
| "rc_owned c (Release # ops) \<longleftrightarrow> 0 < c \<and> rc_owned (c - 1) ops"

fun rc_final :: "nat \<Rightarrow> rc_op list \<Rightarrow> nat" where
  "rc_final c [] = c"
| "rc_final c (Retain # ops) = rc_final (c + 1) ops"
| "rc_final c (Release # ops) = rc_final (c - 1) ops"

lemma run_incr:
  "run_turn latching_incr_int w = (if refs w = max_refs then (w, BLOCK_REFCOUNT_MASK) else (w + 2, w + 2))"
  by (simp add: run_turn_def latching_incr_int_def mask_tests)

lemma run_decr:
  "run_turn latching_decr_int_should_deallocate w =
     (if refs w = max_refs \<or> refs w = 0 then (w, False)
      else if refs w = 1 \<and> \<not> deallocating w then (w - 1, True) else (w - 2, False))"
  unfolding run_turn_def latching_decr_int_should_deallocate_def mask_tests by simp

lemma run_now_zero:
  "run_turn latching_decr_int_now_zero w =
     (if refs w = max_refs \<or> refs w = 0 then (w, False) else (w - 2, refs w = 1))"
  unfolding run_turn_def latching_decr_int_now_zero_def mask_tests Let_def
  using decr_fields(2)[of w] by auto

lemma run_try_retain:
  "run_turn latching_incr_int_not_deallocating w =
     (if deallocating w then (w, False) else if refs w = max_refs then (w, True) else (w + 2, True))"
  unfolding run_turn_def latching_incr_int_not_deallocating_def mask_tests by simp

lemma rc_owned_0: "rc_owned 0 ops \<longleftrightarrow> ops = []"
  by (cases ops; cases "hd ops") auto

lemma rc_run_correct:
  assumes "\<not> deallocating w" "refs w = c" "c < max_refs" "rc_owned c ops" "ops \<noteq> []"
  shows "\<exists>w'. rc_run ops w = (w', replicate (length ops - 1) False @ [rc_final c ops = 0]) \<and>
     refs w' = rc_final c ops \<and> deallocating w' = (rc_final c ops = 0) \<and> upper w' = upper w"
  using assms
proof (induction ops arbitrary: w c)
  case Nil
  then show ?case by simp
next
  case (Cons op ops)
  show ?case
  proof (cases op)
    case Retain
    have w: "rc_apply op w = (w + 2, False)" "refs (w + 2) = c + 1" "\<not> deallocating (w + 2)"
        "upper (w + 2) = upper w"
      using Cons.prems incr_fields[of w] by (simp_all add: Retain run_incr)
    show ?thesis
    proof (cases "ops = []")
      case True
      then show ?thesis using w by (simp add: Retain)
    next
      case False
      from Cons.IH[of "w + 2" "c + 1"] w Cons.prems False obtain w' where
        "rc_run ops (w + 2) = (w', replicate (length ops - 1) False @ [rc_final (c + 1) ops = 0])"
        "refs w' = rc_final (c + 1) ops" "deallocating w' = (rc_final (c + 1) ops = 0)" "upper w' = upper w"
        by (auto simp: Retain)
      moreover have "False # replicate (length ops - 1) False = replicate (length ops) False"
        using False by (cases ops) simp_all
      ultimately show ?thesis using w(1) by (simp add: Retain)
    qed
  next
    case Release
    show ?thesis
    proof (cases "c = 1")
      case True
      have "ops = []" using Cons.prems True Release by (simp add: rc_owned_0)
      then show ?thesis
        using Cons.prems True last_decr_fields[of w] by (simp add: Release run_decr)
    next
      case False
      have w: "rc_apply op w = (w - 2, False)" "refs (w - 2) = c - 1" "\<not> deallocating (w - 2)"
          "upper (w - 2) = upper w" "c - 1 \<noteq> 0"
        using Cons.prems False decr_fields[of w] by (simp_all add: Release run_decr)
      show ?thesis
      proof (cases "ops = []")
        case True
        then show ?thesis using w by (simp add: Release)
      next
        case nonempty: False
        have "c - 1 < max_refs" using Cons.prems(3) by simp
        with Cons.IH[of "w - 2" "c - 1"] w Cons.prems nonempty obtain w' where
          "rc_run ops (w - 2) = (w', replicate (length ops - 1) False @ [rc_final (c - 1) ops = 0])"
          "refs w' = rc_final (c - 1) ops" "deallocating w' = (rc_final (c - 1) ops = 0)" "upper w' = upper w"
          by (auto simp: Release)
        moreover have "False # replicate (length ops - 1) False = replicate (length ops) False"
          using nonempty by (cases ops) simp_all
        ultimately show ?thesis using w(1) by (simp add: Release)
      qed
    qed
  qed
qed

lemma rc_run_latched:
  assumes "refs w = max_refs"
  shows "rc_run ops w = (w, replicate (length ops) False)"
  using assms
proof (induction ops)
  case (Cons op ops)
  then show ?case by (cases op) (simp_all add: run_incr run_decr)
qed simp

section \<open>The abstract counter\<close>

text \<open>
  What the four loops are to do to a count and a deallocating flag, and what they tell their caller: the largest count is kept
  for ever, the last release of an object that is not being deallocated takes the reference and sets the flag in one
  step, and only its caller is told to deallocate.
\<close>

fun count_op :: "latch_op \<Rightarrow> nat \<times> bool \<Rightarrow> (nat \<times> bool) \<times> (nat + bool)" where
  "count_op Incr (c, d) = (let c' = min max_refs (c + 1) in ((c', d), Inl c'))"
| "count_op IncrNotDeallocating (c, d) = (if d then ((c, d), Inr False) else ((min max_refs (c + 1), d), Inr True))"
| "count_op DecrShouldDeallocate (c, d) =
     (if c = max_refs \<or> c = 0 then ((c, d), Inr False)
      else if c = 1 \<and> \<not> d then ((0, True), Inr True) else ((c - 1, d), Inr False))"
| "count_op DecrNowZero (c, d) =
     (if c = max_refs \<or> c = 0 then ((c, d), Inr False) else ((c - 1, d), Inr (c = 1)))"

text \<open>The abstract operations one after another; a returned word is read as the count in it.\<close>

fun count_replay :: "(nat \<Rightarrow> latch_op) \<Rightarrow> nat \<times> bool \<Rightarrow> (nat \<times> (flags + bool)) list \<Rightarrow> (nat \<times> bool) option" where
  "count_replay prog st [] = Some st"
| "count_replay prog st ((t, r) # log) =
     (let (st', r') = count_op (prog t) st in if r' = map_sum refs id r then count_replay prog st' log else None)"

lemma run_map_turn: "run_turn (\<lambda>w. map_turn f (body w)) w = map_prod id f (run_turn body w)"
  by (simp add: run_turn_def split: turn.split)

lemma latch_turn_counts:
  "count_op op (refs w, deallocating w) = (case run_turn (latch_turn op) w of
     (w', r) \<Rightarrow> ((refs w', deallocating w'), map_sum refs id r))"
  "upper (fst (run_turn (latch_turn op) w)) = upper w"
proof -
  have turns: "latch_turn Incr = (\<lambda>w. map_turn Inl (latching_incr_int w))"
    "latch_turn IncrNotDeallocating = (\<lambda>w. map_turn Inr (latching_incr_int_not_deallocating w))"
    "latch_turn DecrShouldDeallocate = (\<lambda>w. map_turn Inr (latching_decr_int_should_deallocate w))"
    "latch_turn DecrNowZero = (\<lambda>w. map_turn Inr (latching_decr_int_now_zero w))"
    by (simp_all add: fun_eq_iff)
  note runs = turns run_map_turn run_incr run_decr run_now_zero run_try_retain
  have mask: "refs BLOCK_REFCOUNT_MASK = max_refs" by (simp add: refs_def)
  have more: "refs w < max_refs" if "refs w \<noteq> max_refs" using refs_le[of w] that by simp
  show "count_op op (refs w, deallocating w) = (case run_turn (latch_turn op) w of
      (w', r) \<Rightarrow> ((refs w', deallocating w'), map_sum refs id r))"
    using incr_fields[OF more] decr_fields[of w] last_decr_fields[of w] more
    by (cases op) (auto simp: runs mask Let_def)
  show "upper (fst (run_turn (latch_turn op) w)) = upper w"
    using incr_fields[OF more] decr_fields[of w] last_decr_fields[of w] by (cases op) (auto simp: runs)
qed

lemma replay_counts:
  assumes "replay (\<lambda>t. latch_turn (prog t)) w log = Some w'"
  shows "count_replay prog (refs w, deallocating w) log = Some (refs w', deallocating w')" "upper w' = upper w"
proof -
  have "count_replay prog (refs w, deallocating w) log = Some (refs w', deallocating w') \<and> upper w' = upper w"
    using assms
  proof (induction log arbitrary: w)
    case (Cons x log)
    obtain t r where x: "x = (t, r)" by force
    obtain v r' where run: "run_turn (latch_turn (prog t)) w = (v, r')" by force
    then have v: "r' = r" "replay (\<lambda>t. latch_turn (prog t)) v log = Some w'" using Cons.prems x by (auto split: if_splits)
    have "count_op (prog t) (refs w, deallocating w) = ((refs v, deallocating v), map_sum refs id r)" "upper v = upper w"
      using latch_turn_counts[of "prog t" w] run v(1) by simp_all
    then show ?case using Cons.IH[OF v(2)] x by simp
  qed simp
  then show "count_replay prog (refs w, deallocating w) log = Some (refs w', deallocating w')" "upper w' = upper w" by simp_all
qed

section \<open>Concurrent releases\<close>

text \<open>The results of a logged run of releases: all false until the last reference goes.\<close>

lemma replay_releases:
  assumes "\<not> deallocating w" "0 < refs w" "refs w < max_refs" "length log \<le> refs w"
    "replay (\<lambda>_. latching_decr_int_should_deallocate) w log = Some w'"
  shows "map snd log = (if length log = refs w then replicate (refs w - 1) False @ [True]
       else replicate (length log) False) \<and>
     refs w' = refs w - length log \<and> deallocating w' = (length log = refs w)"
  using assms
proof (induction log arbitrary: w)
  case Nil
  then show ?case by simp
next
  case (Cons x log)
  obtain t r where x: "x = (t, r)" by force
  show ?case
  proof (cases "refs w = 1")
    case True
    then show ?thesis
      using Cons.prems last_decr_fields[of w] by (auto simp: x run_decr Let_def split: if_splits)
  next
    case False
    then have w: "\<not> deallocating (w - 2)" "refs (w - 2) = refs w - 1" "r = False"
        "replay (\<lambda>_. latching_decr_int_should_deallocate) (w - 2) log = Some w'"
      using Cons.prems decr_fields[of w] by (auto simp: x run_decr Let_def split: if_splits)
    have "refs w - 1 = Suc (refs w - 2)" using False Cons.prems(2) by simp
    with Cons.IH[OF w(1) _ _ _ w(4)] w(2,3) Cons.prems False show ?thesis
      by (auto simp: x)
  qed
qed

lemma release_log:
  assumes "(cas_step (\<lambda>_. latching_decr_int_should_deallocate))\<^sup>*\<^sup>* (cas_init w) s"
    "\<not> deallocating w" "0 < refs w" "refs w < max_refs"
    "\<And>t. t < refs w \<Longrightarrow> \<exists>r. cs_pc s t = Finished r" "\<And>t. refs w \<le> t \<Longrightarrow> cs_pc s t = Idle"
  shows "distinct (map fst (cs_log s)) \<and> fst ` set (cs_log s) = {..<refs w} \<and>
     map snd (cs_log s) = replicate (refs w - 1) False @ [True] \<and>
     (\<forall>t r. cs_pc s t = Finished r \<longrightarrow> (t, r) \<in> set (cs_log s)) \<and>
     refs (cs_word s) = 0 \<and> deallocating (cs_word s)"
proof -
  have inv: "cas_inv (\<lambda>_. latching_decr_int_should_deallocate) w s"
    using assms(1) by (rule cas_inv_reachable)
  then have d: "distinct (map fst (cs_log s))"
    and rep: "replay (\<lambda>_. latching_decr_int_should_deallocate) w (cs_log s) = Some (cs_word s)"
    by (simp_all add: cas_inv_def)
  have pc: "case cs_pc s t of
        Idle \<Rightarrow> t \<notin> fst ` set (cs_log s)
      | Loaded v \<Rightarrow> (case latching_decr_int_should_deallocate v of
            Return r \<Rightarrow> (t, r) \<in> set (cs_log s) | Swap w r \<Rightarrow> t \<notin> fst ` set (cs_log s))
      | Finished r \<Rightarrow> (t, r) \<in> set (cs_log s)" for t
    using inv by (simp add: cas_inv_def)
  have fin: "\<forall>t r. cs_pc s t = Finished r \<longrightarrow> (t, r) \<in> set (cs_log s)"
  proof (intro allI impI)
    fix t r assume "cs_pc s t = Finished r"
    with pc[of t] show "(t, r) \<in> set (cs_log s)" by simp
  qed
  have th: "fst ` set (cs_log s) = {..<refs w}"
  proof (rule set_eqI)
    fix t
    show "t \<in> fst ` set (cs_log s) \<longleftrightarrow> t \<in> {..<refs w}"
    proof (cases "t < refs w")
      case True
      then obtain r where "(t, r) \<in> set (cs_log s)" using assms(5) fin by blast
      then have "t \<in> fst ` set (cs_log s)" by (rule image_eqI[rotated]) simp
      then show ?thesis using True by simp
    next
      case False
      then show ?thesis using pc[of t] assms(6)[of t] by simp
    qed
  qed
  have "length (cs_log s) = card (fst ` set (cs_log s))"
    using distinct_card[OF d] by simp
  then have len: "length (cs_log s) = refs w" using th by simp
  have "map snd (cs_log s) = replicate (refs w - 1) False @ [True] \<and>
      refs (cs_word s) = 0 \<and> deallocating (cs_word s)"
    using replay_releases[OF assms(2-4) _ rep] len by simp
  then show ?thesis using d th fin by blast
qed

lemma last_only_true:
  assumes "map snd xs = replicate n False @ [True]"
  shows "\<exists>t. (t, True) \<in> set xs \<and> (\<forall>t'. (t', True) \<in> set xs \<longrightarrow> t' = t)"
proof -
  have "xs \<noteq> []" using assms by auto
  then obtain ys y where xs: "xs = ys @ [y]" by (metis rev_exhaust)
  then have ys: "map snd ys = replicate n False" "snd y" using assms by simp_all
  then have "snd z = False" if "z \<in> set ys" for z
    using that by (metis in_set_replicate image_eqI set_map)
  moreover obtain t where "y = (t, True)" using ys(2) by (cases y) simp
  ultimately show ?thesis by (intro exI[of _ t]) (force simp: xs)
qed

text \<open>
  A concrete interleaving, used to exercise the properties: two threads release a block with two
  references; both read the word before either swaps, so the second has to take another turn.
\<close>

definition sample_race :: "bool cas_state" where
  "sample_race = \<lparr>cs_word = 1, cs_pc = (\<lambda>_. Idle)(0 := Finished False, 1 := Finished True),
     cs_log = [(0, False), (1, True)]\<rparr>"

lemma sample_race_reachable:
  "(cas_step (\<lambda>_. latching_decr_int_should_deallocate))\<^sup>*\<^sup>* (cas_init 4) sample_race"
proof -
  let ?step = "cas_step (\<lambda>_. latching_decr_int_should_deallocate)"
  have d: "latching_decr_int_should_deallocate 4 = Swap 2 False"
      "latching_decr_int_should_deallocate 2 = Swap 1 True"
    by (simp_all add: latching_decr_int_should_deallocate_def)
  let ?s1 = "\<lparr>cs_word = 4, cs_pc = (\<lambda>_. Idle)(0 := Loaded 4), cs_log = []\<rparr> :: bool cas_state"
  let ?s2 = "\<lparr>cs_word = 4, cs_pc = (\<lambda>_. Idle)(0 := Loaded 4, 1 := Loaded 4), cs_log = []\<rparr> :: bool cas_state"
  let ?s3 = "\<lparr>cs_word = 2, cs_pc = (\<lambda>_. Idle)(0 := Finished False, 1 := Loaded 4),
      cs_log = [(0, False)]\<rparr> :: bool cas_state"
  let ?s4 = "\<lparr>cs_word = 2, cs_pc = (\<lambda>_. Idle)(0 := Finished False, 1 := Idle), cs_log = [(0, False)]\<rparr> :: bool cas_state"
  let ?s5 = "\<lparr>cs_word = 2, cs_pc = (\<lambda>_. Idle)(0 := Finished False, 1 := Loaded 2),
      cs_log = [(0, False)]\<rparr> :: bool cas_state"
  have "?step (cas_init 4) ?s1"
    using cas_step.load_swap[of "cas_init 4" 0 "\<lambda>_. latching_decr_int_should_deallocate" 2 False] d
    by (simp add: cas_init_def)
  moreover have "?step ?s1 ?s2"
    using cas_step.load_swap[of ?s1 1 "\<lambda>_. latching_decr_int_should_deallocate" 2 False] d by simp
  moreover have "?step ?s2 ?s3"
    using cas_step.swap_ok[of ?s2 0 4 "\<lambda>_. latching_decr_int_should_deallocate" 2 False] d
    by (simp add: fun_upd_twist)
  moreover have "?step ?s3 ?s4"
    using cas_step.swap_fail[of ?s3 1 4 "\<lambda>_. latching_decr_int_should_deallocate" 2 False] d
    by (simp add: fun_upd_twist)
  moreover have "?step ?s4 ?s5"
    using cas_step.load_swap[of ?s4 1 "\<lambda>_. latching_decr_int_should_deallocate" 1 True] d by simp
  moreover have "?step ?s5 sample_race"
    using cas_step.swap_ok[of ?s5 1 2 "\<lambda>_. latching_decr_int_should_deallocate" 1 True] d
    by (simp add: sample_race_def)
  ultimately show ?thesis by (meson converse_rtranclp_into_rtranclp rtranclp.rtrancl_refl)
qed

section \<open>Properties\<close>

text \<open>
  C32. The four compare-and-swap loops implement an atomic saturating counter with a deallocating flag: whatever loops any
  number of threads run on one flag word, and however their reads and swaps interleave, there is one order, that of the log,
  in which the abstract operations, done one after another from the count and flag of the first word, give the count
  and flag of the word and the results of the threads. No thread takes effect twice, every finished thread has
  taken effect with the result it returned, no thread that has not read the word has, and the bits above the counter never change.
\<close>

theorem latching_linearizable:
  assumes "(cas_step (\<lambda>t. latch_turn (prog t)))\<^sup>*\<^sup>* (cas_init w0) s"
  shows "count_replay prog (refs w0, deallocating w0) (cs_log s) = Some (refs (cs_word s), deallocating (cs_word s)) \<and>
     upper (cs_word s) = upper w0 \<and> distinct (map fst (cs_log s)) \<and>
     (\<forall>t r. cs_pc s t = Finished r \<longrightarrow> (t, r) \<in> set (cs_log s)) \<and> (\<forall>t. cs_pc s t = Idle \<longrightarrow> t \<notin> fst ` set (cs_log s))"
proof -
  have inv: "cas_inv (\<lambda>t. latch_turn (prog t)) w0 s" using assms by (rule cas_inv_reachable)
  then have "replay (\<lambda>t. latch_turn (prog t)) w0 (cs_log s) = Some (cs_word s)" by (simp add: cas_inv_def)
  note counted = replay_counts[OF this]
  have pc: "case cs_pc s t of Idle \<Rightarrow> t \<notin> fst ` set (cs_log s)
      | Loaded v \<Rightarrow> (case latch_turn (prog t) v of Return r \<Rightarrow> (t, r) \<in> set (cs_log s) | Swap w r \<Rightarrow> t \<notin> fst ` set (cs_log s))
      | Finished r \<Rightarrow> (t, r) \<in> set (cs_log s)" for t
    using inv by (simp add: cas_inv_def)
  have "(t, r) \<in> set (cs_log s)" if "cs_pc s t = Finished r" for t r using pc[of t] that by simp
  moreover have "t \<notin> fst ` set (cs_log s)" if "cs_pc s t = Idle" for t using pc[of t] that by simp
  ultimately show ?thesis using counted inv by (simp add: cas_inv_def)
qed

theorem latching_linearizable_witness:
  "count_replay (\<lambda>t. if t = (1::nat) then DecrShouldDeallocate else Incr) (1, False) [(0, Inl 4), (1, Inr False)] = Some (1, False)"
proof -
  let ?body = "\<lambda>t. latch_turn (if t = (1::nat) then DecrShouldDeallocate else Incr)"
  let ?s1 = "\<lparr>cs_word = 2, cs_pc = (\<lambda>_. Idle)(0 := Loaded 2), cs_log = []\<rparr> :: (flags + bool) cas_state"
  let ?s2 = "\<lparr>cs_word = 4, cs_pc = (\<lambda>_. Idle)(0 := Finished (Inl 4)),
      cs_log = [(0, Inl 4)]\<rparr> :: (flags + bool) cas_state"
  let ?s3 = "\<lparr>cs_word = 4, cs_pc = (\<lambda>_. Idle)(0 := Finished (Inl 4), 1 := Loaded 4),
      cs_log = [(0, Inl 4)]\<rparr> :: (flags + bool) cas_state"
  let ?s4 = "\<lparr>cs_word = 2, cs_pc = (\<lambda>_. Idle)(0 := Finished (Inl 4), 1 := Finished (Inr False)),
      cs_log = [(0, Inl 4), (1, Inr False)]\<rparr> :: (flags + bool) cas_state"
  have b: "?body 0 2 = Swap 4 (Inl 4)" "?body 1 4 = Swap 2 (Inr False)"
    by (simp_all add: latching_incr_int_def latching_decr_int_should_deallocate_def)
  have "cas_step ?body (cas_init 2) ?s1"
    using cas_step.load_swap[of "cas_init 2" 0 ?body 4 "Inl 4"] b by (simp add: cas_init_def)
  moreover have "cas_step ?body ?s1 ?s2"
    using cas_step.swap_ok[of ?s1 0 2 ?body 4 "Inl 4"] b by simp
  moreover have "cas_step ?body ?s2 ?s3"
    using cas_step.load_swap[of ?s2 1 ?body 2 "Inr False"] b by simp
  moreover have "cas_step ?body ?s3 ?s4"
    using cas_step.swap_ok[of ?s3 1 4 ?body 2 "Inr False"] b by simp
  ultimately have "(cas_step ?body)\<^sup>*\<^sup>* (cas_init 2) ?s4"
    by (meson converse_rtranclp_into_rtranclp rtranclp.rtrancl_refl)
  from latching_linearizable[OF this] show ?thesis by (simp add: refs_def deallocating_def del: count_replay.simps)
qed

text \<open>
  C12. As many threads as a block has references release it concurrently: in every interleaving in
  which they have all finished, exactly one of them is told to deallocate, the count is zero and
  the deallocating bit is set.
\<close>

theorem concurrent_release_once:
  assumes "(cas_step (\<lambda>_. latching_decr_int_should_deallocate))\<^sup>*\<^sup>* (cas_init w) s"
    "\<not> deallocating w" "0 < refs w" "refs w < 32767"
    "\<forall>t < refs w. \<exists>r. cs_pc s t = Finished r" "\<forall>t \<ge> refs w. cs_pc s t = Idle"
  shows "(\<exists>!t. cs_pc s t = Finished True) \<and> refs (cs_word s) = 0 \<and> deallocating (cs_word s)"
proof -
  have l: "distinct (map fst (cs_log s))" "fst ` set (cs_log s) = {..<refs w}"
      "map snd (cs_log s) = replicate (refs w - 1) False @ [True]"
      "\<And>t r. cs_pc s t = Finished r \<Longrightarrow> (t, r) \<in> set (cs_log s)"
      "refs (cs_word s) = 0" "deallocating (cs_word s)"
    using release_log[OF assms(1-4)] assms(5,6) by blast+
  obtain t where t: "(t, True) \<in> set (cs_log s)" "\<And>t'. (t', True) \<in> set (cs_log s) \<Longrightarrow> t' = t"
    using last_only_true[OF l(3)] by blast
  have "t < refs w" using t(1) l(2) by force
  then obtain r where r: "cs_pc s t = Finished r" using assms(5) by blast
  then have "r = True" using eq_key_imp_eq_value[OF l(1) l(4)[OF r] t(1)] by simp
  with r have "cs_pc s t = Finished True" by simp
  moreover have "t' = t" if "cs_pc s t' = Finished True" for t' using l(4)[OF that] t(2) by blast
  ultimately show ?thesis using l(5,6) by blast
qed

theorem concurrent_release_once_witness:
  "refs 4 = 2 \<and> (\<exists>!t. cs_pc sample_race t = Finished True) \<and> deallocating (cs_word sample_race)"
proof -
  have r: "refs 4 = 2" "\<not> deallocating 4" by (simp_all add: refs_def deallocating_def)
  have "\<forall>t < refs 4. \<exists>r. cs_pc sample_race t = Finished r" "\<forall>t \<ge> refs 4. cs_pc sample_race t = Idle"
    by (auto simp: r sample_race_def less_2_cases_iff)
  from concurrent_release_once[OF sample_race_reachable r(2) _ _ this] r(1) show ?thesis by simp
qed

text \<open>
  A sequence of retains and releases by owners, starting from a live count, keeps the flags
  above the count; exactly the release that takes the last reference, if any does, is told to
  deallocate, and it is the last operation.
\<close>

theorem refcount_sequence:
  assumes "\<not> deallocating w" "refs w < 32767" "rc_owned (refs w) ops" "ops \<noteq> []"
  shows "\<exists>w'. rc_run ops w = (w', replicate (length ops - 1) False @ [rc_final (refs w) ops = 0]) \<and>
     refs w' = rc_final (refs w) ops \<and> deallocating w' = (rc_final (refs w) ops = 0) \<and>
     upper w' = upper w"
  using rc_run_correct[OF assms(1) refl assms(2-4)] by blast

theorem refcount_sequence_witness:
  "rc_owned 1 [Retain, Release, Release] \<and>
   snd (rc_run [Retain, Release, Release] 0x1000002) = [False, False, True]"
proof -
  have r: "refs 0x1000002 = 1" "\<not> deallocating 0x1000002" by (simp_all add: refs_def deallocating_def)
  have "rc_owned 1 [Retain, Release, Release]" by simp
  moreover have "snd (rc_run [Retain, Release, Release] 0x1000002) = [False, False, True]"
    using refcount_sequence[of "0x1000002" "[Retain, Release, Release]"] r
    by (auto simp: numeral_2_eq_2 simp del: rc_run.simps)
  ultimately show ?thesis by blast
qed

text \<open>
  C33. A latched counter stays latched: with the largest count no sequence of retains and releases
  changes the word or has anybody deallocate (the block is leaked rather than freed too early).
\<close>

theorem refcount_latched:
  assumes "refs w = 32767"
  shows "rc_run ops w = (w, replicate (length ops) False)"
  using rc_run_latched[OF assms] .

theorem refcount_latched_witness:
  "rc_run [Release, Release, Retain] 0x100fffe = (0x100fffe, [False, False, False])"
proof -
  have "refs 0x100fffe = 32767" by (simp add: refs_def)
  from refcount_latched[OF this, of "[Release, Release, Retain]"] show ?thesis
    by (simp add: numeral_3_eq_3 del: rc_run.simps)
qed

end
