(* ===== verification/Blocks_Runtime.thy ===== *)
theory Blocks_Runtime
  imports Blocks_Refcount
begin

text \<open>
  Copying and releasing blocks and \<^verbatim>\<open>__block\<close> variables (\<^verbatim>\<open>BlocksRuntime/runtime.c\<close>, second part).

  The store \<open>rt_mem\<close> maps addresses to blocks and to \<^verbatim>\<open>__block\<close> containers. The copy and dispose
  helpers a compiler synthesizes are represented by what the comment in \<^verbatim>\<open>runtime.c\<close> says they do: a
  list of captured variables with their flags, for each of which the copy helper calls
  \<^verbatim>\<open>_Block_object_assign\<close> and the dispose helper \<^verbatim>\<open>_Block_object_dispose\<close>. Calls that leave the runtime
  (retain, release, the collector, the deallocator) are recorded in order in \<open>rt_calls\<close>. The
  allocators are parameters. Recursion through captured blocks is bounded by a fuel argument; running
  out of it is \<open>None\<close>, like undefined behaviour.
\<close>

section \<open>State\<close>

datatype isa = NSConcreteStackBlock | NSConcreteMallocBlock | NSConcreteAutoBlock
  | NSConcreteFinalizingBlock | NSConcreteGlobalBlock | NSConcreteWeakBlockVariable | NoIsa

abbreviation (input) BLOCK_NEEDS_FREE :: flags where "BLOCK_NEEDS_FREE \<equiv> 0x01000000"
abbreviation (input) BLOCK_HAS_COPY_DISPOSE :: flags where "BLOCK_HAS_COPY_DISPOSE \<equiv> 0x02000000"
abbreviation (input) BLOCK_HAS_CTOR :: flags where "BLOCK_HAS_CTOR \<equiv> 0x04000000"
abbreviation (input) BLOCK_IS_GC :: flags where "BLOCK_IS_GC \<equiv> 0x08000000"
abbreviation (input) BLOCK_IS_GLOBAL :: flags where "BLOCK_IS_GLOBAL \<equiv> 0x10000000"
abbreviation (input) BLOCK_USE_STRET :: flags where "BLOCK_USE_STRET \<equiv> 0x20000000"
abbreviation (input) BLOCK_HAS_SIGNATURE :: flags where "BLOCK_HAS_SIGNATURE \<equiv> 0x40000000"
abbreviation (input) BLOCK_HAS_EXTENDED_LAYOUT :: flags where "BLOCK_HAS_EXTENDED_LAYOUT \<equiv> 0x80000000"

abbreviation (input) BLOCK_BYREF_LAYOUT_EXTENDED :: flags where "BLOCK_BYREF_LAYOUT_EXTENDED \<equiv> 0x10000000"
abbreviation (input) BLOCK_BYREF_IS_GC :: flags where "BLOCK_BYREF_IS_GC \<equiv> 0x08000000"
abbreviation (input) BLOCK_BYREF_HAS_COPY_DISPOSE :: flags where "BLOCK_BYREF_HAS_COPY_DISPOSE \<equiv> 0x02000000"
abbreviation (input) BLOCK_BYREF_NEEDS_FREE :: flags where "BLOCK_BYREF_NEEDS_FREE \<equiv> 0x01000000"

abbreviation (input) BLOCK_FIELD_IS_OBJECT :: flags where "BLOCK_FIELD_IS_OBJECT \<equiv> 3"
abbreviation (input) BLOCK_FIELD_IS_BLOCK :: flags where "BLOCK_FIELD_IS_BLOCK \<equiv> 7"
abbreviation (input) BLOCK_FIELD_IS_BYREF :: flags where "BLOCK_FIELD_IS_BYREF \<equiv> 8"
abbreviation (input) BLOCK_FIELD_IS_WEAK :: flags where "BLOCK_FIELD_IS_WEAK \<equiv> 16"
abbreviation (input) BLOCK_BYREF_CALLER :: flags where "BLOCK_BYREF_CALLER \<equiv> 128"
abbreviation (input) BLOCK_ALL_COPY_DISPOSE_FLAGS :: flags where
  "BLOCK_ALL_COPY_DISPOSE_FLAGS \<equiv> BLOCK_FIELD_IS_OBJECT OR BLOCK_FIELD_IS_BLOCK OR
     BLOCK_FIELD_IS_BYREF OR BLOCK_FIELD_IS_WEAK OR BLOCK_BYREF_CALLER"

text \<open>A captured variable: its place among the imported variables and the flags of its helper call.\<close>

type_synonym capture = "nat \<times> flags"

record Block_descriptor =
  bd_size :: nat
  bd_helpers :: "capture list"
  bd_signature :: ptr
  bd_layout :: ptr

record Block_layout =
  bl_isa :: isa
  bl_flags :: flags
  bl_descriptor :: Block_descriptor
  bl_vars :: "ptr mem"

record Block_byref =
  br_isa :: isa
  br_forwarding :: ptr
  br_flags :: flags
  br_size :: nat
  br_helpers :: "capture list"
  br_layout :: ptr
  br_vars :: "ptr mem"

datatype cell = BlockCell Block_layout | ByrefCell Block_byref

datatype rt_call = RetainObject ptr | ReleaseObject ptr | SetHasRefcount ptr bool
  | DestructInstance ptr | Deallocated ptr

record runtime =
  rt_mem :: "ptr \<rightharpoonup> cell"
  rt_calls :: "rt_call list"
  rt_isGC :: bool
  rt_Byref_flag_initial_value :: flags
  rt_objects :: bool
  rt_destructs :: bool

text \<open>
  The allocators answer the address of a block of memory or \<^verbatim>\<open>NULL\<close>: \<^verbatim>\<open>malloc\<close>, and the collector's
  allocator, which is also told whether the initial count is one and whether to scan the memory.
\<close>

record allocators =
  al_malloc :: "(ptr \<rightharpoonup> cell) \<Rightarrow> nat \<Rightarrow> ptr"
  al_gc :: "(ptr \<rightharpoonup> cell) \<Rightarrow> nat \<Rightarrow> bool \<Rightarrow> bool \<Rightarrow> ptr"

definition runtime_init :: "(ptr \<rightharpoonup> cell) \<Rightarrow> runtime" where
  "runtime_init m = \<lparr>rt_mem = m, rt_calls = [], rt_isGC = False,
     rt_Byref_flag_initial_value = BLOCK_BYREF_NEEDS_FREE OR 4, rt_objects = False, rt_destructs = False\<rparr>"

definition Block_use_GC :: "runtime \<Rightarrow> runtime" where
  "Block_use_GC st = st\<lparr>rt_isGC := True, rt_Byref_flag_initial_value := BLOCK_BYREF_IS_GC,
     rt_objects := False\<rparr>"

definition Block_use_RR :: "runtime \<Rightarrow> runtime" where
  "Block_use_RR st = st\<lparr>rt_objects := True, rt_destructs := True\<rparr>"

section \<open>Access to the store and callouts\<close>

definition get_block :: "runtime \<Rightarrow> ptr \<Rightarrow> Block_layout option" where
  "get_block st p = (case rt_mem st p of Some (BlockCell b) \<Rightarrow> Some b | _ \<Rightarrow> None)"

definition get_byref :: "runtime \<Rightarrow> ptr \<Rightarrow> Block_byref option" where
  "get_byref st p = (case rt_mem st p of Some (ByrefCell b) \<Rightarrow> Some b | _ \<Rightarrow> None)"

definition put_block :: "runtime \<Rightarrow> ptr \<Rightarrow> Block_layout \<Rightarrow> runtime" where
  "put_block st p b = st\<lparr>rt_mem := (rt_mem st)(p \<mapsto> BlockCell b)\<rparr>"

definition put_byref :: "runtime \<Rightarrow> ptr \<Rightarrow> Block_byref \<Rightarrow> runtime" where
  "put_byref st p b = st\<lparr>rt_mem := (rt_mem st)(p \<mapsto> ByrefCell b)\<rparr>"

definition rt_record :: "runtime \<Rightarrow> rt_call \<Rightarrow> runtime" where
  "rt_record st c = st\<lparr>rt_calls := rt_calls st @ [c]\<rparr>"

definition Block_allocator :: "allocators \<Rightarrow> runtime \<Rightarrow> nat \<Rightarrow> bool \<Rightarrow> bool \<Rightarrow> ptr" where
  "Block_allocator al st sz isOne isObject =
     (if rt_isGC st then al_gc al (rt_mem st) sz isOne isObject else al_malloc al (rt_mem st) sz)"

definition Block_deallocator :: "runtime \<Rightarrow> ptr \<Rightarrow> runtime" where
  "Block_deallocator st p =
     (if rt_isGC st then st
      else rt_record (st\<lparr>rt_mem := (rt_mem st)(p := None)\<rparr>) (Deallocated p))"

definition Block_retain_object :: "runtime \<Rightarrow> ptr \<Rightarrow> runtime" where
  "Block_retain_object st p = (if rt_objects st then rt_record st (RetainObject p) else st)"

definition Block_release_object :: "runtime \<Rightarrow> ptr \<Rightarrow> runtime" where
  "Block_release_object st p = (if rt_objects st then rt_record st (ReleaseObject p) else st)"

definition Block_destructInstance :: "runtime \<Rightarrow> ptr \<Rightarrow> runtime" where
  "Block_destructInstance st p = (if rt_destructs st then rt_record st (DestructInstance p) else st)"

definition Block_setHasRefcount :: "runtime \<Rightarrow> ptr \<Rightarrow> bool \<Rightarrow> runtime" where
  "Block_setHasRefcount st p b = (if rt_isGC st then rt_record st (SetHasRefcount p b) else st)"

text \<open>\<^verbatim>\<open>_Block_assign\<close>: the destination is an imported variable of a block or of a container.\<close>

definition Block_assign :: "runtime \<Rightarrow> ptr \<Rightarrow> ptr \<times> nat \<Rightarrow> runtime option" where
  "Block_assign st v dest =
     (case rt_mem st (fst dest) of
        Some (BlockCell b) \<Rightarrow> do {
          vars \<leftarrow> wr (bl_vars b) (snd dest) v;
          Some (put_block st (fst dest) (b\<lparr>bl_vars := vars\<rparr>))
        }
      | Some (ByrefCell b) \<Rightarrow> do {
          vars \<leftarrow> wr (br_vars b) (snd dest) v;
          Some (put_byref st (fst dest) (b\<lparr>br_vars := vars\<rparr>))
        }
      | None \<Rightarrow> None)"

definition read_var :: "runtime \<Rightarrow> ptr \<times> nat \<Rightarrow> ptr option" where
  "read_var st a =
     (case rt_mem st (fst a) of
        Some (BlockCell b) \<Rightarrow> rd (bl_vars b) (snd a)
      | Some (ByrefCell b) \<Rightarrow> rd (br_vars b) (snd a)
      | None \<Rightarrow> None)"

section \<open>Descriptor accessors\<close>

definition Block_descriptor_2 :: "Block_layout \<Rightarrow> capture list option" where
  "Block_descriptor_2 b =
     (if bl_flags b AND BLOCK_HAS_COPY_DISPOSE = 0 then None else Some (bd_helpers (bl_descriptor b)))"

definition Block_descriptor_3 :: "Block_layout \<Rightarrow> (ptr \<times> ptr) option" where
  "Block_descriptor_3 b =
     (if bl_flags b AND BLOCK_HAS_SIGNATURE = 0 then None
      else Some (bd_signature (bl_descriptor b), bd_layout (bl_descriptor b)))"

definition Block_has_layout :: "Block_layout \<Rightarrow> bool" where
  "Block_has_layout b =
     (if bl_flags b AND BLOCK_HAS_SIGNATURE = 0 then False else bd_layout (bl_descriptor b) \<noteq> NULL)"

definition Block_size :: "Block_layout \<Rightarrow> nat" where
  "Block_size b = bd_size (bl_descriptor b)"

definition Block_use_stret :: "Block_layout \<Rightarrow> bool" where
  "Block_use_stret b \<longleftrightarrow> bl_flags b AND (BLOCK_HAS_SIGNATURE OR BLOCK_USE_STRET) =
     BLOCK_HAS_SIGNATURE OR BLOCK_USE_STRET"

definition Block_signature :: "Block_layout \<Rightarrow> ptr" where
  "Block_signature b = (case Block_descriptor_3 b of None \<Rightarrow> NULL | Some (s, _) \<Rightarrow> s)"

definition Block_has_signature :: "Block_layout \<Rightarrow> bool" where
  "Block_has_signature b \<longleftrightarrow> Block_signature b \<noteq> NULL"

definition Block_gc_layout :: "Block_layout \<Rightarrow> ptr" where
  "Block_gc_layout b =
     (if bl_flags b AND BLOCK_HAS_EXTENDED_LAYOUT \<noteq> 0 then NULL
      else case Block_descriptor_3 b of None \<Rightarrow> NULL | Some (_, l) \<Rightarrow> l)"

text \<open>\<open>emptyStr\<close> is the address of the empty string constant.\<close>

definition Block_extended_layout :: "ptr \<Rightarrow> Block_layout \<Rightarrow> ptr" where
  "Block_extended_layout emptyStr b =
     (if bl_flags b AND BLOCK_HAS_EXTENDED_LAYOUT = 0 then NULL
      else case Block_descriptor_3 b of None \<Rightarrow> NULL | Some (_, l) \<Rightarrow> if l = NULL then emptyStr else l)"

section \<open>Copying\<close>

text \<open>The copy of a stack block, without and with the collector, before its copy helper runs.\<close>

definition stack_block_copy :: "Block_layout \<Rightarrow> Block_layout" where
  "stack_block_copy b = b\<lparr>bl_flags := ((bl_flags b AND NOT (BLOCK_REFCOUNT_MASK OR BLOCK_DEALLOCATING))
       OR (BLOCK_NEEDS_FREE OR 2)), bl_isa := NSConcreteMallocBlock\<rparr>"

definition gc_block_copy :: "bool \<Rightarrow> Block_layout \<Rightarrow> Block_layout" where
  "gc_block_copy wantsOne b = b\<lparr>bl_flags :=
      (bl_flags b AND NOT (BLOCK_NEEDS_FREE OR BLOCK_REFCOUNT_MASK OR BLOCK_DEALLOCATING))
        OR (if wantsOne then BLOCK_IS_GC OR 2 else BLOCK_IS_GC)\<rparr>"

text \<open>The copy of a container, before its copy helper runs.\<close>

definition byref_heap_copy :: "flags \<Rightarrow> bool \<Rightarrow> ptr \<Rightarrow> Block_byref \<Rightarrow> Block_byref" where
  "byref_heap_copy initial isWeak copy src =
     \<lparr>br_isa = (if isWeak then NSConcreteWeakBlockVariable else NoIsa),
      br_forwarding = copy, br_flags = br_flags src OR initial, br_size = br_size src,
      br_helpers = br_helpers src,
      br_layout = (if br_flags src AND BLOCK_BYREF_HAS_COPY_DISPOSE = 0 \<or>
                      br_flags src AND BLOCK_BYREF_LAYOUT_EXTENDED \<noteq> 0 then br_layout src else NULL),
      br_vars = (if br_flags src AND BLOCK_BYREF_HAS_COPY_DISPOSE \<noteq> 0
                 then mem_alloc (length (br_vars src)) else br_vars src)\<rparr>"

function Block_copy_internal ::
    "nat \<Rightarrow> allocators \<Rightarrow> runtime \<Rightarrow> ptr \<Rightarrow> bool \<Rightarrow> (runtime \<times> ptr) option"
  and Block_byref_assign_copy ::
    "nat \<Rightarrow> allocators \<Rightarrow> runtime \<Rightarrow> ptr \<times> nat \<Rightarrow> ptr \<Rightarrow> flags \<Rightarrow> runtime option"
  and Block_object_assign ::
    "nat \<Rightarrow> allocators \<Rightarrow> runtime \<Rightarrow> ptr \<times> nat \<Rightarrow> ptr \<Rightarrow> flags \<Rightarrow> runtime option"
  and copy_helper ::
    "nat \<Rightarrow> allocators \<Rightarrow> runtime \<Rightarrow> ptr \<Rightarrow> ptr \<Rightarrow> capture list \<Rightarrow> runtime option"
where
  "Block_copy_internal n al st arg wantsOne =
     (case n of 0 \<Rightarrow> None | Suc n' \<Rightarrow>
      if arg = NULL then Some (st, NULL)
      else do {
        aBlock \<leftarrow> get_block st arg;
        if bl_flags aBlock AND BLOCK_NEEDS_FREE \<noteq> 0
        then Some (put_block st arg (aBlock\<lparr>bl_flags := fst (run_turn latching_incr_int (bl_flags aBlock))\<rparr>), arg)
        else if bl_flags aBlock AND BLOCK_IS_GC \<noteq> 0
        then (if wantsOne
              then let (w, r) = run_turn latching_incr_int (bl_flags aBlock);
                       st1 = put_block st arg (aBlock\<lparr>bl_flags := w\<rparr>)
                   in Some (if r AND BLOCK_REFCOUNT_MASK = 2 then Block_setHasRefcount st1 arg True else st1, arg)
              else Some (st, arg))
        else if bl_flags aBlock AND BLOCK_IS_GLOBAL \<noteq> 0 then Some (st, arg)
        else if \<not> rt_isGC st
        then (let result = al_malloc al (rt_mem st) (bd_size (bl_descriptor aBlock)) in
              if result = NULL then Some (st, NULL)
              else do {
                let st1 = put_block st result (stack_block_copy aBlock);
                st2 \<leftarrow> (case Block_descriptor_2 aBlock of
                   None \<Rightarrow> Some st1
                 | Some cs \<Rightarrow> copy_helper n' al st1 result arg cs);
                Some (st2, result)
              })
        else (let hasCTOR = bl_flags aBlock AND BLOCK_HAS_CTOR \<noteq> 0;
                  result = Block_allocator al st (bd_size (bl_descriptor aBlock)) wantsOne
                             (hasCTOR \<or> Block_has_layout aBlock) in
              if result = NULL then Some (st, NULL)
              else do {
                let st1 = put_block st result (gc_block_copy wantsOne aBlock);
                st2 \<leftarrow> (case Block_descriptor_2 aBlock of
                   None \<Rightarrow> Some st1
                 | Some cs \<Rightarrow> copy_helper n' al st1 result arg cs);
                b \<leftarrow> get_block st2 result;
                Some (put_block st2 result
                  (b\<lparr>bl_isa := if hasCTOR then NSConcreteFinalizingBlock else NSConcreteAutoBlock\<rparr>), result)
              })
      })"
| "Block_byref_assign_copy n al st dest arg flags =
     (case n of 0 \<Rightarrow> None | Suc n' \<Rightarrow> do {
        src \<leftarrow> get_byref st arg;
        fwd \<leftarrow> get_byref st (br_forwarding src);
        st' \<leftarrow>
          (if br_flags fwd AND BLOCK_BYREF_IS_GC \<noteq> 0 then Some st
           else if br_flags fwd AND BLOCK_REFCOUNT_MASK = 0
           then do {
             let isWeak = (flags AND (BLOCK_FIELD_IS_BYREF OR BLOCK_FIELD_IS_WEAK) =
                             BLOCK_FIELD_IS_BYREF OR BLOCK_FIELD_IS_WEAK);
             let copy = Block_allocator al st (br_size src) False isWeak;
             if copy = NULL then None
             else do {
               let st1 = put_byref st copy
                     (byref_heap_copy (rt_Byref_flag_initial_value st) isWeak copy src);
               let st2 = put_byref st1 arg (src\<lparr>br_forwarding := copy\<rparr>);
               if br_flags src AND BLOCK_BYREF_HAS_COPY_DISPOSE \<noteq> 0
               then copy_helper n' al st2 copy arg (br_helpers src)
               else Some st2
             }
           }
           else if br_flags fwd AND BLOCK_BYREF_NEEDS_FREE = BLOCK_BYREF_NEEDS_FREE
           then Some (put_byref st (br_forwarding src)
                  (fwd\<lparr>br_flags := fst (run_turn latching_incr_int (br_flags fwd))\<rparr>))
           else Some st);
        src' \<leftarrow> get_byref st' arg;
        Block_assign st' (br_forwarding src') dest
      })"
| "Block_object_assign n al st destAddr object flags =
     (let f = flags AND BLOCK_ALL_COPY_DISPOSE_FLAGS in
      if f = BLOCK_FIELD_IS_OBJECT
      then Block_assign (Block_retain_object st object) object destAddr
      else if f = BLOCK_FIELD_IS_BLOCK
      then do { (st1, p) \<leftarrow> Block_copy_internal n al st object False; Block_assign st1 p destAddr }
      else if f = BLOCK_FIELD_IS_BYREF OR BLOCK_FIELD_IS_WEAK \<or> f = BLOCK_FIELD_IS_BYREF
      then Block_byref_assign_copy n al st destAddr object flags
      else if f = BLOCK_BYREF_CALLER OR BLOCK_FIELD_IS_OBJECT \<or>
              f = BLOCK_BYREF_CALLER OR BLOCK_FIELD_IS_BLOCK
      then Block_assign st object destAddr
      else if f = BLOCK_BYREF_CALLER OR BLOCK_FIELD_IS_OBJECT OR BLOCK_FIELD_IS_WEAK \<or>
              f = BLOCK_BYREF_CALLER OR BLOCK_FIELD_IS_BLOCK OR BLOCK_FIELD_IS_WEAK
      then Block_assign st object destAddr
      else Some st)"
| "copy_helper n al st dst src [] = Some st"
| "copy_helper n al st dst src ((i, flags) # cs) = do {
     v \<leftarrow> read_var st (src, i);
     st1 \<leftarrow> Block_object_assign n al st (dst, i) v flags;
     copy_helper n al st1 dst src cs
   }"
  by pat_completeness auto
termination
  by (relation "inv_image (less_than <*lex*> less_than <*lex*> less_than) (\<lambda>x. case x of
        Inl (Inl (n, _)) \<Rightarrow> (n, 0, 0)
      | Inl (Inr (n, _)) \<Rightarrow> (n, 0, 0)
      | Inr (Inl (n, _)) \<Rightarrow> (n, 1, 0)
      | Inr (Inr (n, al, st, dst, src, cs)) \<Rightarrow> (n, 2 :: nat, length cs))")
     auto

declare Block_copy_internal.simps [simp del]
declare Block_byref_assign_copy.simps [simp del]
declare Block_object_assign.simps [simp del]

definition Block_copy :: "nat \<Rightarrow> allocators \<Rightarrow> runtime \<Rightarrow> ptr \<Rightarrow> (runtime \<times> ptr) option" where
  "Block_copy n al st arg = Block_copy_internal n al st arg True"

definition Block_copy_collectable :: "nat \<Rightarrow> allocators \<Rightarrow> runtime \<Rightarrow> ptr \<Rightarrow> (runtime \<times> ptr) option" where
  "Block_copy_collectable n al st arg = Block_copy_internal n al st arg False"

section \<open>Releasing\<close>

function Block_release :: "nat \<Rightarrow> runtime \<Rightarrow> ptr \<Rightarrow> runtime option"
  and Block_byref_release :: "nat \<Rightarrow> runtime \<Rightarrow> ptr \<Rightarrow> runtime option"
  and Block_object_dispose :: "nat \<Rightarrow> runtime \<Rightarrow> ptr \<Rightarrow> flags \<Rightarrow> runtime option"
  and dispose_helper :: "nat \<Rightarrow> runtime \<Rightarrow> ptr \<Rightarrow> capture list \<Rightarrow> runtime option"
where
  "Block_release n st arg =
     (case n of 0 \<Rightarrow> None | Suc n' \<Rightarrow>
      if arg = NULL then Some st
      else do {
        aBlock \<leftarrow> get_block st arg;
        if bl_flags aBlock AND BLOCK_IS_GLOBAL \<noteq> 0 \<or>
           bl_flags aBlock AND (BLOCK_IS_GC OR BLOCK_NEEDS_FREE) = 0
        then Some st
        else if bl_flags aBlock AND BLOCK_IS_GC \<noteq> 0
        then (let (w, z) = run_turn latching_decr_int_now_zero (bl_flags aBlock);
                  st1 = put_block st arg (aBlock\<lparr>bl_flags := w\<rparr>)
              in Some (if z then Block_setHasRefcount st1 arg False else st1))
        else if bl_flags aBlock AND BLOCK_NEEDS_FREE \<noteq> 0
        then (let (w, d) = run_turn latching_decr_int_should_deallocate (bl_flags aBlock);
                  st1 = put_block st arg (aBlock\<lparr>bl_flags := w\<rparr>)
              in if d
                 then do {
                   st2 \<leftarrow> (case Block_descriptor_2 (aBlock\<lparr>bl_flags := w\<rparr>) of
                      None \<Rightarrow> Some st1
                    | Some cs \<Rightarrow> dispose_helper n' st1 arg cs);
                   Some (Block_deallocator (Block_destructInstance st2 arg) arg)
                 }
                 else Some st1)
        else Some st
      })"
| "Block_byref_release n st arg =
     (case n of 0 \<Rightarrow> None | Suc n' \<Rightarrow> do {
        byref0 \<leftarrow> get_byref st arg;
        let p = br_forwarding byref0;
        byref \<leftarrow> get_byref st p;
        if br_flags byref AND BLOCK_BYREF_NEEDS_FREE = 0 then Some st
        else if br_flags byref AND BLOCK_REFCOUNT_MASK = 0 then None
        else
          let (w, d) = run_turn latching_decr_int_should_deallocate (br_flags byref);
              st1 = put_byref st p (byref\<lparr>br_flags := w\<rparr>)
          in if d
             then do {
               st2 \<leftarrow> (if w AND BLOCK_BYREF_HAS_COPY_DISPOSE \<noteq> 0
                       then dispose_helper n' st1 p (br_helpers byref) else Some st1);
               Some (Block_deallocator st2 p)
             }
             else Some st1
      })"
| "Block_object_dispose n st object flags =
     (let f = flags AND BLOCK_ALL_COPY_DISPOSE_FLAGS in
      if f = BLOCK_FIELD_IS_BYREF OR BLOCK_FIELD_IS_WEAK \<or> f = BLOCK_FIELD_IS_BYREF
      then Block_byref_release n st object
      else if f = BLOCK_FIELD_IS_BLOCK
      then (if object = NULL then Some st
            else do {
              aBlock \<leftarrow> get_block st object;
              if bl_flags aBlock AND BLOCK_IS_GC \<noteq> 0 then Some st else Block_release n st object
            })
      else if f = BLOCK_FIELD_IS_OBJECT then Some (Block_release_object st object)
      else Some st)"
| "dispose_helper n st p [] = Some st"
| "dispose_helper n st p ((i, flags) # cs) = do {
     v \<leftarrow> read_var st (p, i);
     st1 \<leftarrow> Block_object_dispose n st v flags;
     dispose_helper n st1 p cs
   }"
  by pat_completeness auto
termination
  by (relation "inv_image (less_than <*lex*> less_than <*lex*> less_than) (\<lambda>x. case x of
        Inl (Inl (n, _)) \<Rightarrow> (n, 0, 0)
      | Inl (Inr (n, _)) \<Rightarrow> (n, 0, 0)
      | Inr (Inl (n, _)) \<Rightarrow> (n, 1, 0)
      | Inr (Inr (n, st, p, cs)) \<Rightarrow> (n, 2 :: nat, length cs))")
     auto

declare Block_release.simps [simp del]
declare Block_byref_release.simps [simp del]
declare Block_object_dispose.simps [simp del]

text \<open>\<^verbatim>\<open>_Block_destroy\<close> is the \<^verbatim>\<open>BLOCK_FIELD_IS_BLOCK\<close> case of \<open>Block_object_dispose\<close>.\<close>

definition Block_destroy :: "nat \<Rightarrow> runtime \<Rightarrow> ptr \<Rightarrow> runtime option" where
  "Block_destroy n st arg = Block_object_dispose n st arg BLOCK_FIELD_IS_BLOCK"

definition Block_tryRetain :: "runtime \<Rightarrow> ptr \<Rightarrow> (runtime \<times> bool) option" where
  "Block_tryRetain st arg = do {
     aBlock \<leftarrow> get_block st arg;
     let (w, r) = run_turn latching_incr_int_not_deallocating (bl_flags aBlock);
     Some (put_block st arg (aBlock\<lparr>bl_flags := w\<rparr>), r)
   }"

definition Block_isDeallocating :: "runtime \<Rightarrow> ptr \<Rightarrow> bool option" where
  "Block_isDeallocating st arg = do {
     aBlock \<leftarrow> get_block st arg;
     Some (bl_flags aBlock AND BLOCK_DEALLOCATING \<noteq> 0)
   }"

section \<open>Flag words of blocks\<close>

text \<open>Tests of the flags above the count see only the upper part of the word.\<close>

lemma upper_bits:
  assumes "upper w = upper w'" "16 \<le> n"
  shows "bit w n = bit w' n"
proof -
  have u: "upper v = drop_bit 16 (unat v)" for v by (simp add: upper_def drop_bit_eq_div)
  have "bit v n \<longleftrightarrow> bit (unat v) n" for v :: flags by (simp add: bit_unsigned_iff)
  moreover have "bit (unat v) n \<longleftrightarrow> bit (drop_bit 16 (unat v)) (n - 16)" for v :: flags
    using assms(2) by (simp add: bit_drop_bit_eq)
  ultimately show ?thesis using assms(1) u by metis
qed

lemma upper_test:
  assumes "upper w = upper w'"
  shows "w AND push_bit 16 m = w' AND push_bit 16 m"
proof (rule bit_eqI)
  fix n
  show "bit (w AND push_bit 16 m) n = bit (w' AND push_bit 16 m) n"
    using upper_bits[OF assms, of n] by (auto simp: bit_simps)
qed

lemma flag_tests:
  assumes "upper w = upper w'"
  shows "w AND BLOCK_NEEDS_FREE = w' AND BLOCK_NEEDS_FREE"
    "w AND BLOCK_HAS_COPY_DISPOSE = w' AND BLOCK_HAS_COPY_DISPOSE"
    "w AND BLOCK_IS_GC = w' AND BLOCK_IS_GC"
    "w AND BLOCK_IS_GLOBAL = w' AND BLOCK_IS_GLOBAL"
    "w AND (BLOCK_IS_GC OR BLOCK_NEEDS_FREE) = w' AND (BLOCK_IS_GC OR BLOCK_NEEDS_FREE)"
  using upper_test[OF assms, of "0x100"] upper_test[OF assms, of "0x200"] upper_test[OF assms, of "0x800"]
    upper_test[OF assms, of "0x1000"] upper_test[OF assms, of "0x900"]
  by (simp_all add: push_bit_eq_mult)

lemma stack_copy_flags:
  fixes f :: flags
  defines "w \<equiv> (f AND NOT (BLOCK_REFCOUNT_MASK OR BLOCK_DEALLOCATING)) OR (BLOCK_NEEDS_FREE OR 2)"
  shows "refs w = 1" "\<not> deallocating w" "w AND BLOCK_NEEDS_FREE \<noteq> 0"
    "w AND BLOCK_HAS_COPY_DISPOSE = f AND BLOCK_HAS_COPY_DISPOSE"
    "w AND BLOCK_IS_GC = f AND BLOCK_IS_GC" "w AND BLOCK_IS_GLOBAL = f AND BLOCK_IS_GLOBAL"
proof -
  have dist: "w AND m = (f AND (NOT (BLOCK_REFCOUNT_MASK OR BLOCK_DEALLOCATING) AND m)) OR
      ((BLOCK_NEEDS_FREE OR 2) AND m)" for m
    by (simp only: w_def bit.conj_disj_distrib2 and.assoc)
  have "w AND BLOCK_REFCOUNT_MASK = 2" using dist[of "0xfffe"] by simp
  then have "unat (w AND BLOCK_REFCOUNT_MASK) = 2" by simp
  then show "refs w = 1" using unat_and_mask[of w] by simp
  have "w AND BLOCK_DEALLOCATING = 0" using dist[of 1] by simp
  then show "\<not> deallocating w" using mask_tests(3) by blast
  show "w AND BLOCK_HAS_COPY_DISPOSE = f AND BLOCK_HAS_COPY_DISPOSE"
    "w AND BLOCK_IS_GC = f AND BLOCK_IS_GC" "w AND BLOCK_IS_GLOBAL = f AND BLOCK_IS_GLOBAL"
    using dist[of "0x02000000"] dist[of "0x08000000"] dist[of "0x10000000"] by simp_all
  have "bit (w AND BLOCK_NEEDS_FREE) 24"
    by (simp add: w_def bit_and_iff bit_or_iff)
  then show "w AND BLOCK_NEEDS_FREE \<noteq> 0" by auto
qed

section \<open>Blocks that capture objects\<close>

lemma get_put_block [simp]:
  "get_block (put_block st p b) q = (if q = p then Some b else get_block st q)"
  by (simp add: get_block_def put_block_def)

lemma put_block_sel [simp]:
  "rt_calls (put_block st p b) = rt_calls st" "rt_isGC (put_block st p b) = rt_isGC st"
  "rt_objects (put_block st p b) = rt_objects st" "rt_destructs (put_block st p b) = rt_destructs st"
  "rt_mem (put_block st p b) = (rt_mem st)(p \<mapsto> BlockCell b)"
  by (simp_all add: put_block_def)

lemma get_block_mem: "get_block st p = Some b \<longleftrightarrow> rt_mem st p = Some (BlockCell b)"
  by (auto simp: get_block_def split: option.splits cell.splits)

text \<open>Every captured variable is an object pointer that the block holds.\<close>

definition object_captures :: "Block_layout \<Rightarrow> bool" where
  "object_captures b \<longleftrightarrow> (\<forall>(i, f) \<in> set (bd_helpers (bl_descriptor b)).
     f = BLOCK_FIELD_IS_OBJECT \<and> i < length (bl_vars b) \<and> bl_vars b ! i \<noteq> None)"

definition captured :: "Block_layout \<Rightarrow> ptr list" where
  "captured b = (if bl_flags b AND BLOCK_HAS_COPY_DISPOSE = 0 then []
     else map (\<lambda>(i, f). the (bl_vars b ! i)) (bd_helpers (bl_descriptor b)))"

definition object_calls :: "(ptr \<Rightarrow> rt_call) \<Rightarrow> runtime \<Rightarrow> ptr list \<Rightarrow> rt_call list" where
  "object_calls c st ps = (if rt_objects st then map c ps else [])"

lemma copy_helper_objects:
  assumes "rt_mem st src = Some (BlockCell b)" "rt_mem st dst = Some (BlockCell b')"
    "bl_vars b' = bl_vars b"
    "\<forall>(i, f) \<in> set cs. f = BLOCK_FIELD_IS_OBJECT \<and> i < length (bl_vars b) \<and> bl_vars b ! i \<noteq> None"
  shows "copy_helper n al st dst src cs = Some (st\<lparr>rt_calls := rt_calls st @
     object_calls RetainObject st (map (\<lambda>(i, f). the (bl_vars b ! i)) cs)\<rparr>)"
  using assms
proof (induction cs arbitrary: st)
  case Nil
  then show ?case by (simp add: object_calls_def)
next
  case (Cons c cs)
  obtain i f where c: "c = (i, f)" by force
  with Cons.prems(4) obtain v where v: "f = BLOCK_FIELD_IS_OBJECT" "i < length (bl_vars b)"
      "bl_vars b ! i = Some v"
    by auto
  let ?st1 = "st\<lparr>rt_calls := rt_calls st @ object_calls RetainObject st [v]\<rparr>"
  have "(bl_vars b)[i := Some v] = bl_vars b" using v(3) by (metis list_update_id)
  then have "b'\<lparr>bl_vars := (bl_vars b)[i := Some v]\<rparr> = b'" using Cons.prems(3) by simp
  then have "Block_object_assign n al st (dst, i) v f = Some ?st1"
    using v Cons.prems(2,3)
    by (simp add: Block_object_assign.simps Block_retain_object_def rt_record_def Block_assign_def
        wr_in put_block_def object_calls_def fun_upd_idem)
  moreover have "copy_helper n al ?st1 dst src cs = Some (?st1\<lparr>rt_calls := rt_calls ?st1 @
      object_calls RetainObject ?st1 (map (\<lambda>(i, f). the (bl_vars b ! i)) cs)\<rparr>)"
    by (rule Cons.IH) (use Cons.prems in simp_all)
  ultimately show ?case
    using Cons.prems(1) v by (simp add: c read_var_def rd_in object_calls_def)
qed

lemma dispose_helper_objects:
  assumes "rt_mem st p = Some (BlockCell b)"
    "\<forall>(i, f) \<in> set cs. f = BLOCK_FIELD_IS_OBJECT \<and> i < length (bl_vars b) \<and> bl_vars b ! i \<noteq> None"
  shows "dispose_helper n st p cs = Some (st\<lparr>rt_calls := rt_calls st @
     object_calls ReleaseObject st (map (\<lambda>(i, f). the (bl_vars b ! i)) cs)\<rparr>)"
  using assms
proof (induction cs arbitrary: st)
  case Nil
  then show ?case by (simp add: object_calls_def)
next
  case (Cons c cs)
  obtain i f where c: "c = (i, f)" by force
  with Cons.prems(2) obtain v where v: "f = BLOCK_FIELD_IS_OBJECT" "i < length (bl_vars b)"
      "bl_vars b ! i = Some v"
    by auto
  let ?st1 = "st\<lparr>rt_calls := rt_calls st @ object_calls ReleaseObject st [v]\<rparr>"
  have "Block_object_dispose n st v f = Some ?st1"
    using v by (simp add: Block_object_dispose.simps Block_release_object_def rt_record_def
        object_calls_def)
  moreover have "dispose_helper n ?st1 p cs = Some (?st1\<lparr>rt_calls := rt_calls ?st1 @
      object_calls ReleaseObject ?st1 (map (\<lambda>(i, f). the (bl_vars b ! i)) cs)\<rparr>)"
    by (rule Cons.IH) (use Cons.prems in simp_all)
  ultimately show ?case
    using Cons.prems(1) v by (simp add: c read_var_def rd_in object_calls_def)
qed

section \<open>The life of a heap block\<close>

definition heap_block :: "Block_layout \<Rightarrow> bool" where
  "heap_block b \<longleftrightarrow> bl_flags b AND BLOCK_NEEDS_FREE \<noteq> 0 \<and> bl_flags b AND BLOCK_IS_GC = 0 \<and>
     bl_flags b AND BLOCK_IS_GLOBAL = 0"

lemma heap_block_upper: "upper w = upper (bl_flags b) \<Longrightarrow> heap_block (b\<lparr>bl_flags := w\<rparr>) = heap_block b"
  using flag_tests[of w "bl_flags b"] by (simp add: heap_block_def)

lemma gc_or_free:
  assumes "heap_block b"
  shows "bl_flags b AND (BLOCK_IS_GC OR BLOCK_NEEDS_FREE) \<noteq> 0"
proof -
  have "bl_flags b AND (BLOCK_IS_GC OR BLOCK_NEEDS_FREE) =
      (bl_flags b AND BLOCK_IS_GC) OR (bl_flags b AND BLOCK_NEEDS_FREE)"
    by (rule bit.conj_disj_distrib)
  then show ?thesis using assms unfolding heap_block_def by simp
qed

text \<open>What is called when a block goes: its objects are released, then it is destroyed and freed.\<close>

definition final_calls :: "runtime \<Rightarrow> ptr \<Rightarrow> Block_layout \<Rightarrow> rt_call list" where
  "final_calls st p b = object_calls ReleaseObject st (captured b) @
     (if rt_destructs st then [DestructInstance p] else []) @ [Deallocated p]"

lemma copy_heap_block:
  assumes "get_block st p = Some b" "heap_block b" "p \<noteq> NULL"
  shows "Block_copy (Suc n) al st p =
     Some (put_block st p (b\<lparr>bl_flags := fst (rc_apply Retain (bl_flags b))\<rparr>), p)"
  using assms by (simp add: Block_copy_def Block_copy_internal.simps heap_block_def)

lemma release_heap_block:
  assumes "get_block st p = Some b" "heap_block b" "p \<noteq> NULL" "rc_apply Release (bl_flags b) = (w, False)"
  shows "Block_release (Suc n) st p = Some (put_block st p (b\<lparr>bl_flags := w\<rparr>))"
  using assms gc_or_free[OF assms(2)] by (simp add: Block_release.simps heap_block_def)

lemma release_last:
  assumes "get_block st p = Some b" "heap_block b" "p \<noteq> NULL" "refs (bl_flags b) = 1"
    "\<not> deallocating (bl_flags b)" "\<not> rt_isGC st" "object_captures b"
  shows "\<exists>st'. Block_release (Suc n) st p = Some st' \<and> rt_mem st' = (rt_mem st)(p := None) \<and>
     rt_calls st' = rt_calls st @ final_calls st p b"
proof -
  let ?w = "bl_flags b - 1"
  let ?b = "b\<lparr>bl_flags := ?w\<rparr>"
  let ?st1 = "put_block st p ?b"
  have d: "run_turn latching_decr_int_should_deallocate (bl_flags b) = (?w, True)"
    using assms(4,5) by (simp add: run_decr)
  have up: "upper ?w = upper (bl_flags b)" using last_decr_fields(1)[OF assms(4,5)] .
  have "(case Block_descriptor_2 ?b of None \<Rightarrow> Some ?st1 | Some cs \<Rightarrow> dispose_helper n ?st1 p cs) =
      Some (?st1\<lparr>rt_calls := rt_calls st @ object_calls ReleaseObject st (captured b)\<rparr>)"
  proof (cases "bl_flags b AND BLOCK_HAS_COPY_DISPOSE = 0")
    case True
    then show ?thesis
      using flag_tests(2)[OF up] by (simp add: Block_descriptor_2_def captured_def object_calls_def)
  next
    case False
    have "dispose_helper n ?st1 p (bd_helpers (bl_descriptor b)) = Some (?st1\<lparr>rt_calls := rt_calls ?st1 @
        object_calls ReleaseObject ?st1 (map (\<lambda>(i, f). the (bl_vars ?b ! i)) (bd_helpers (bl_descriptor b)))\<rparr>)"
      by (rule dispose_helper_objects) (use assms(7) in \<open>auto simp: object_captures_def\<close>)
    then show ?thesis
      using False flag_tests(2)[OF up] by (simp add: Block_descriptor_2_def captured_def object_calls_def)
  qed
  then show ?thesis
    using assms d gc_or_free[OF assms(2)]
    by (auto simp: Block_release.simps heap_block_def Block_destructInstance_def Block_deallocator_def
        rt_record_def final_calls_def)
qed

fun block_run :: "nat \<Rightarrow> allocators \<Rightarrow> rc_op list \<Rightarrow> runtime \<Rightarrow> ptr \<Rightarrow> runtime option" where
  "block_run n al [] st p = Some st"
| "block_run n al (Retain # ops) st p = do { (st', _) \<leftarrow> Block_copy n al st p; block_run n al ops st' p }"
| "block_run n al (Release # ops) st p = do { st' \<leftarrow> Block_release n st p; block_run n al ops st' p }"

lemma block_run_correct:
  assumes "get_block st p = Some b" "heap_block b" "p \<noteq> NULL" "refs (bl_flags b) = c"
    "\<not> deallocating (bl_flags b)" "\<not> rt_isGC st" "object_captures b" "c < max_refs" "rc_owned c ops" "0 < c"
  shows "\<exists>st'. block_run (Suc n) al ops st p = Some st' \<and>
     (if rc_final c ops = 0
      then rt_mem st' = (rt_mem st)(p := None) \<and> rt_calls st' = rt_calls st @ final_calls st p b
      else (\<exists>w. rt_mem st' = (rt_mem st)(p \<mapsto> BlockCell (b\<lparr>bl_flags := w\<rparr>)) \<and>
             refs w = rc_final c ops \<and> \<not> deallocating w \<and> upper w = upper (bl_flags b)) \<and>
           rt_calls st' = rt_calls st)"
  using assms
proof (induction ops arbitrary: st b c)
  case Nil
  then show ?case
    by (auto simp: get_block_mem fun_upd_idem intro!: exI[of _ "bl_flags b"])
next
  case (Cons op ops)
  show ?case
  proof (cases "op = Release \<and> c = 1")
    case True
    then have ops: "ops = []" using Cons.prems(9) by (simp add: rc_owned_0)
    from release_last[OF Cons.prems(1-3) _ Cons.prems(5-7), of n] True Cons.prems(4) ops show ?thesis
      by auto
  next
    case False
    define w where "w = fst (rc_apply op (bl_flags b))"
    define c' where "c' = (if op = Retain then c + 1 else c - 1)"
    let ?b = "b\<lparr>bl_flags := w\<rparr>"
    have w: "refs w = c'" "\<not> deallocating w" "upper w = upper (bl_flags b)" "0 < c'" "c' < max_refs"
        "rc_owned c' ops" "rc_final c (op # ops) = rc_final c' ops" "rc_apply op (bl_flags b) = (w, False)"
      using Cons.prems False incr_fields[of "bl_flags b"] decr_fields[of "bl_flags b"]
      by (cases op; auto simp: w_def c'_def run_incr run_decr)+
    have step: "block_run (Suc n) al (op # ops) st p = block_run (Suc n) al ops (put_block st p ?b) p"
    proof (cases op)
      case Retain
      then show ?thesis using copy_heap_block[OF Cons.prems(1-3), of n al] by (simp add: w_def)
    next
      case Release
      then show ?thesis using release_heap_block[OF Cons.prems(1-3), of w n] w(8) by simp
    qed
    have oc: "object_captures ?b" "captured ?b = captured b"
      using Cons.prems(7) flag_tests(2)[OF w(3)] by (simp_all add: object_captures_def captured_def)
    have hb: "heap_block ?b" using heap_block_upper[OF w(3)] Cons.prems(2) by simp
    have fc: "final_calls (put_block st p ?b) p ?b = final_calls st p b"
      using oc(2) by (simp add: final_calls_def object_calls_def)
    from Cons.IH[of "put_block st p ?b" ?b c'] w hb oc(1) Cons.prems(3,6) obtain st' where
      st': "block_run (Suc n) al ops (put_block st p ?b) p = Some st'"
       "if rc_final c' ops = 0
        then rt_mem st' = (rt_mem (put_block st p ?b))(p := None) \<and>
             rt_calls st' = rt_calls (put_block st p ?b) @ final_calls (put_block st p ?b) p ?b
        else (\<exists>w'. rt_mem st' = (rt_mem (put_block st p ?b))(p \<mapsto> BlockCell (?b\<lparr>bl_flags := w'\<rparr>)) \<and>
               refs w' = rc_final c' ops \<and> \<not> deallocating w' \<and> upper w' = upper (bl_flags ?b)) \<and>
             rt_calls st' = rt_calls (put_block st p ?b)"
      by auto
    show ?thesis
      using st' step w(3,7) fc by (simp split: if_splits)
  qed
qed

section \<open>Copying a stack block\<close>

definition stack_block :: "Block_layout \<Rightarrow> bool" where
  "stack_block b \<longleftrightarrow> bl_flags b AND BLOCK_NEEDS_FREE = 0 \<and> bl_flags b AND BLOCK_IS_GC = 0 \<and>
     bl_flags b AND BLOCK_IS_GLOBAL = 0"

lemma copy_stack_block:
  assumes "get_block st arg = Some b" "stack_block b" "arg \<noteq> NULL" "\<not> rt_isGC st" "object_captures b"
    "al_malloc al (rt_mem st) (bd_size (bl_descriptor b)) = p" "p \<noteq> NULL" "rt_mem st p = None"
  shows "Block_copy (Suc n) al st arg = Some ((put_block st p (stack_block_copy b))\<lparr>rt_calls :=
     rt_calls st @ object_calls RetainObject st (captured b)\<rparr>, p)"
proof -
  have ne: "p \<noteq> arg" using assms(1,8) by (auto simp: get_block_def)
  let ?st1 = "put_block st p (stack_block_copy b)"
  have "(case Block_descriptor_2 b of None \<Rightarrow> Some ?st1 | Some cs \<Rightarrow> copy_helper n al ?st1 p arg cs) =
      Some (?st1\<lparr>rt_calls := rt_calls st @ object_calls RetainObject st (captured b)\<rparr>)"
  proof (cases "bl_flags b AND BLOCK_HAS_COPY_DISPOSE = 0")
    case True
    then show ?thesis by (simp add: Block_descriptor_2_def captured_def object_calls_def)
  next
    case False
    have "copy_helper n al ?st1 p arg (bd_helpers (bl_descriptor b)) = Some (?st1\<lparr>rt_calls := rt_calls ?st1 @
        object_calls RetainObject ?st1 (map (\<lambda>(i, f). the (bl_vars b ! i)) (bd_helpers (bl_descriptor b)))\<rparr>)"
      by (rule copy_helper_objects[where b' = "stack_block_copy b"])
         (use assms(1,5) ne in \<open>auto simp: object_captures_def get_block_mem stack_block_copy_def\<close>)
    then show ?thesis
      using False by (simp add: Block_descriptor_2_def captured_def object_calls_def)
  qed
  then show ?thesis
    using assms by (simp add: Block_copy_def Block_copy_internal.simps stack_block_def Let_def)
qed

lemma stack_copy_heap:
  assumes "stack_block b"
  shows "heap_block (stack_block_copy b)" "refs (bl_flags (stack_block_copy b)) = 1"
    "\<not> deallocating (bl_flags (stack_block_copy b))" "captured (stack_block_copy b) = captured b"
    "object_captures (stack_block_copy b) = object_captures b"
  using assms stack_copy_flags[of "bl_flags b"]
  by (simp_all add: heap_block_def stack_block_def stack_block_copy_def captured_def object_captures_def)

section \<open>The life of a __block variable\<close>

lemma get_put_byref [simp]:
  "get_byref (put_byref st p b) q = (if q = p then Some b else get_byref st q)"
  by (simp add: get_byref_def put_byref_def)

lemma put_byref_sel [simp]:
  "rt_calls (put_byref st p b) = rt_calls st" "rt_isGC (put_byref st p b) = rt_isGC st"
  "rt_Byref_flag_initial_value (put_byref st p b) = rt_Byref_flag_initial_value st"
  "rt_mem (put_byref st p b) = (rt_mem st)(p \<mapsto> ByrefCell b)"
  by (simp_all add: put_byref_def)

lemma get_byref_mem: "get_byref st p = Some b \<longleftrightarrow> rt_mem st p = Some (ByrefCell b)"
  by (auto simp: get_byref_def split: option.splits cell.splits)

text \<open>A destination: an imported variable of a block.\<close>

definition block_dest :: "runtime \<Rightarrow> ptr \<times> nat \<Rightarrow> bool" where
  "block_dest st d \<longleftrightarrow> (\<exists>b. get_block st (fst d) = Some b \<and> snd d < length (bl_vars b))"

text \<open>
  A container that has been moved to the heap: the stack container \<open>a\<close> and the heap copy \<open>h\<close> forward
  to \<open>h\<close>, which is counted.
\<close>

definition moved :: "runtime \<Rightarrow> ptr \<Rightarrow> ptr \<Rightarrow> nat \<Rightarrow> bool" where
  "moved st a h c \<longleftrightarrow> a \<noteq> h \<and> \<not> rt_isGC st \<and>
     (\<exists>s. get_byref st a = Some s \<and> br_forwarding s = h) \<and>
     (\<exists>k. get_byref st h = Some k \<and> br_forwarding k = h \<and> refs (br_flags k) = c \<and>
        \<not> deallocating (br_flags k) \<and> br_flags k AND BLOCK_BYREF_IS_GC = 0 \<and>
        br_flags k AND BLOCK_BYREF_NEEDS_FREE \<noteq> 0 \<and> br_flags k AND BLOCK_BYREF_HAS_COPY_DISPOSE = 0)"

lemma needs_free_test: "(w :: flags) AND 0x01000000 = 0x01000000 \<longleftrightarrow> w AND 0x01000000 \<noteq> 0"
proof -
  have "w AND push_bit k 1 = of_bool (bit w k) * push_bit k 1" for k
    by (rule bit_eqI) (auto simp: bit_simps)
  from this[of 24] show ?thesis by (cases "bit w 24") simp_all
qed

lemma assign_dest:
  assumes "block_dest st d"
  shows "\<exists>st'. Block_assign st v d = Some st' \<and> read_var st' d = Some v \<and>
     (\<forall>q. get_byref st' q = get_byref st q) \<and> rt_isGC st' = rt_isGC st \<and> rt_calls st' = rt_calls st \<and>
     rt_Byref_flag_initial_value st' = rt_Byref_flag_initial_value st \<and>
     (\<forall>d'. block_dest st' d' = block_dest st d') \<and>
     (\<forall>d'. d' \<noteq> d \<longrightarrow> read_var st' d' = read_var st d') \<and>
     (\<forall>q. q \<noteq> fst d \<longrightarrow> rt_mem st' q = rt_mem st q)"
proof -
  from assms obtain b where b: "rt_mem st (fst d) = Some (BlockCell b)" "snd d < length (bl_vars b)"
    by (auto simp: block_dest_def get_block_mem)
  let ?b = "b\<lparr>bl_vars := (bl_vars b)[snd d := Some v]\<rparr>"
  have "Block_assign st v d = Some (put_block st (fst d) ?b)"
    using b by (simp add: Block_assign_def wr_in)
  moreover have "read_var (put_block st (fst d) ?b) d = Some v"
    using b by (simp add: read_var_def rd_in)
  moreover have "get_byref (put_block st (fst d) ?b) q = get_byref st q" for q
    using b by (simp add: get_byref_def)
  moreover have "block_dest (put_block st (fst d) ?b) d' = block_dest st d'" for d'
    using b by (auto simp: block_dest_def get_block_mem)
  moreover have "read_var (put_block st (fst d) ?b) d' = read_var st d'" if "d' \<noteq> d" for d'
    using b that by (cases "fst d' = fst d") (auto simp: read_var_def rd_def prod_eq_iff)
  ultimately show ?thesis by (intro exI[of _ "put_block st (fst d) ?b"]) (simp add: put_block_def)
qed

lemma byref_retain:
  assumes "moved st a h c" "0 < c" "c < max_refs" "block_dest st d"
  shows "\<exists>st'. Block_object_assign (Suc n) al st d a BLOCK_FIELD_IS_BYREF = Some st' \<and>
     moved st' a h (c + 1) \<and> read_var st' d = Some h \<and> rt_calls st' = rt_calls st \<and>
     (\<forall>d'. block_dest st' d' = block_dest st d') \<and>
     (\<forall>d'. block_dest st d' \<and> d' \<noteq> d \<longrightarrow> read_var st' d' = read_var st d')"
proof -
  from assms(1) obtain s k where
    s: "get_byref st a = Some s" "br_forwarding s = h" and
    k: "get_byref st h = Some k" "br_forwarding k = h" "refs (br_flags k) = c"
       "\<not> deallocating (br_flags k)" "br_flags k AND BLOCK_BYREF_IS_GC = 0"
       "br_flags k AND BLOCK_BYREF_NEEDS_FREE \<noteq> 0" "br_flags k AND BLOCK_BYREF_HAS_COPY_DISPOSE = 0"
    and ah: "a \<noteq> h" "\<not> rt_isGC st"
    by (auto simp: moved_def)
  let ?w = "br_flags k + 2"
  let ?st1 = "put_byref st h (k\<lparr>br_flags := ?w\<rparr>)"
  have w: "refs ?w = c + 1" "\<not> deallocating ?w" "upper ?w = upper (br_flags k)"
    using incr_fields[of "br_flags k"] k(3,4) assms(3) by simp_all
  have dest1: "block_dest ?st1 d' = block_dest st d'" for d'
    using k(1) by (auto simp: block_dest_def get_block_def get_byref_mem)
  have var1: "read_var ?st1 d' = read_var st d'" if "block_dest st d'" for d'
    using that k(1) by (auto simp: block_dest_def get_block_mem get_byref_mem read_var_def)
  from assign_dest[of ?st1 d h] dest1 assms(4) obtain st' where
    st': "Block_assign ?st1 h d = Some st'" "read_var st' d = Some h"
      "\<And>q. get_byref st' q = get_byref ?st1 q" "rt_isGC st' = rt_isGC ?st1" "rt_calls st' = rt_calls ?st1"
      "\<And>d'. block_dest st' d' = block_dest ?st1 d'" "\<And>d'. d' \<noteq> d \<Longrightarrow> read_var st' d' = read_var ?st1 d'"
    by blast
  have "Block_object_assign (Suc n) al st d a BLOCK_FIELD_IS_BYREF = Some st'"
    using s k ah st'(1) assms(2,3) mask_tests(2)[of "br_flags k"] needs_free_test
    by (simp add: Block_object_assign.simps Block_byref_assign_copy.simps run_incr)
  moreover have "moved st' a h (c + 1)"
    using s k ah w flag_tests[OF w(3)] st'(3,4) by (simp add: moved_def)
  ultimately show ?thesis using st'(2,5-7) dest1 var1 by (auto simp: put_byref_def)
qed

text \<open>A container still on the stack, with plain data in it.\<close>

definition on_stack :: "runtime \<Rightarrow> ptr \<Rightarrow> bool" where
  "on_stack st a \<longleftrightarrow> \<not> rt_isGC st \<and>
     rt_Byref_flag_initial_value st = BLOCK_BYREF_NEEDS_FREE OR 4 \<and>
     (\<exists>s. get_byref st a = Some s \<and> br_forwarding s = a \<and> refs (br_flags s) = 0 \<and>
        \<not> deallocating (br_flags s) \<and> br_flags s AND BLOCK_BYREF_IS_GC = 0 \<and>
        br_flags s AND BLOCK_BYREF_HAS_COPY_DISPOSE = 0)"

lemma heap_copy_flags:
  fixes f :: flags
  assumes "refs f = 0" "\<not> deallocating f"
  defines "w \<equiv> f OR (BLOCK_BYREF_NEEDS_FREE OR 4)"
  shows "refs w = 2" "\<not> deallocating w" "w AND BLOCK_BYREF_NEEDS_FREE \<noteq> 0"
    "w AND BLOCK_BYREF_IS_GC = f AND BLOCK_BYREF_IS_GC"
    "w AND BLOCK_BYREF_HAS_COPY_DISPOSE = f AND BLOCK_BYREF_HAS_COPY_DISPOSE"
proof -
  have dist: "w AND m = (f AND m) OR ((BLOCK_BYREF_NEEDS_FREE OR 4) AND m)" for m
    by (simp only: w_def bit.conj_disj_distrib2)
  have "w AND BLOCK_REFCOUNT_MASK = 4"
    using dist[of "0xfffe"] assms(1) mask_tests(2)[of f] by simp
  then have "unat (w AND BLOCK_REFCOUNT_MASK) = 4" by simp
  then show "refs w = 2" using unat_and_mask[of w] by simp
  have "w AND BLOCK_DEALLOCATING = 0" using dist[of 1] assms(2) mask_tests(3)[of f] by simp
  then show "\<not> deallocating w" using mask_tests(3) by blast
  show "w AND BLOCK_BYREF_IS_GC = f AND BLOCK_BYREF_IS_GC"
    "w AND BLOCK_BYREF_HAS_COPY_DISPOSE = f AND BLOCK_BYREF_HAS_COPY_DISPOSE"
    using dist[of "0x08000000"] dist[of "0x02000000"] by simp_all
  have "bit (w AND BLOCK_BYREF_NEEDS_FREE) 24"
    by (simp add: w_def bit_and_iff bit_or_iff)
  then show "w AND BLOCK_BYREF_NEEDS_FREE \<noteq> 0" by auto
qed

lemma byref_move:
  assumes "on_stack st a" "block_dest st d"
    "\<And>n. al_malloc al (rt_mem st) n = h" "h \<noteq> NULL" "rt_mem st h = None"
  shows "\<exists>st'. Block_object_assign (Suc n) al st d a BLOCK_FIELD_IS_BYREF = Some st' \<and>
     moved st' a h 2 \<and> read_var st' d = Some h \<and> rt_calls st' = rt_calls st \<and>
     (\<forall>d'. block_dest st' d' = block_dest st d') \<and>
     (\<forall>d'. block_dest st d' \<and> d' \<noteq> d \<longrightarrow> read_var st' d' = read_var st d')"
proof -
  from assms(1) obtain s where s: "get_byref st a = Some s" "br_forwarding s = a"
      "refs (br_flags s) = 0" "\<not> deallocating (br_flags s)" "br_flags s AND BLOCK_BYREF_IS_GC = 0"
      "br_flags s AND BLOCK_BYREF_HAS_COPY_DISPOSE = 0" "\<not> rt_isGC st"
      "rt_Byref_flag_initial_value st = BLOCK_BYREF_NEEDS_FREE OR 4"
    by (auto simp: on_stack_def)
  have ah: "a \<noteq> h" using s(1) assms(5) by (auto simp: get_byref_def)
  let ?k = "byref_heap_copy (BLOCK_BYREF_NEEDS_FREE OR 4) False h s"
  let ?st2 = "put_byref (put_byref st h ?k) a (s\<lparr>br_forwarding := h\<rparr>)"
  have dest2: "block_dest ?st2 d' = block_dest st d'" for d'
    using s(1) assms(5) by (auto simp: block_dest_def get_block_def get_byref_mem)
  have var2: "read_var ?st2 d' = read_var st d'" if "block_dest st d'" for d'
    using that s(1) assms(5) by (auto simp: block_dest_def get_block_mem get_byref_mem read_var_def)
  from assign_dest[of ?st2 d h] dest2 assms(2) obtain st' where
    st': "Block_assign ?st2 h d = Some st'" "read_var st' d = Some h"
      "\<And>q. get_byref st' q = get_byref ?st2 q" "rt_isGC st' = rt_isGC ?st2" "rt_calls st' = rt_calls ?st2"
      "\<And>d'. block_dest st' d' = block_dest ?st2 d'" "\<And>d'. d' \<noteq> d \<Longrightarrow> read_var st' d' = read_var ?st2 d'"
    by blast
  have "Block_object_assign (Suc n) al st d a BLOCK_FIELD_IS_BYREF = Some st'"
    using s ah st'(1) assms(3,4) mask_tests(2)[of "br_flags s"]
    by (simp add: Block_object_assign.simps Block_byref_assign_copy.simps Block_allocator_def Let_def)
  moreover have "moved st' a h 2"
    using heap_copy_flags[OF s(3,4)] s ah st'(3,4) by (simp add: moved_def byref_heap_copy_def)
  ultimately show ?thesis using st'(2,5-7) dest2 var2 by auto
qed

lemma byref_release_one:
  assumes "moved st a h c" "1 < c" "c < max_refs" "p \<in> {a, h}"
  shows "\<exists>st'. Block_byref_release (Suc n) st p = Some st' \<and> moved st' a h (c - 1) \<and>
     rt_calls st' = rt_calls st"
proof -
  from assms(1) obtain s k where
    s: "get_byref st a = Some s" "br_forwarding s = h" and
    k: "get_byref st h = Some k" "br_forwarding k = h" "refs (br_flags k) = c"
       "\<not> deallocating (br_flags k)" "br_flags k AND BLOCK_BYREF_IS_GC = 0"
       "br_flags k AND BLOCK_BYREF_NEEDS_FREE \<noteq> 0" "br_flags k AND BLOCK_BYREF_HAS_COPY_DISPOSE = 0"
    and ah: "a \<noteq> h" "\<not> rt_isGC st"
    by (auto simp: moved_def)
  let ?w = "br_flags k - 2"
  let ?st' = "put_byref st h (k\<lparr>br_flags := ?w\<rparr>)"
  have w: "refs ?w = c - 1" "\<not> deallocating ?w" "upper ?w = upper (br_flags k)"
    using decr_fields[of "br_flags k"] k(3,4) assms(2) by simp_all
  have "Block_byref_release (Suc n) st p = Some ?st'"
    using assms(2-4) s k mask_tests(2)[of "br_flags k"] by (auto simp: Block_byref_release.simps run_decr)
  moreover have "moved ?st' a h (c - 1)"
    using s k ah w flag_tests[OF w(3)] by (simp add: moved_def)
  ultimately show ?thesis by simp
qed

lemma byref_release_last:
  assumes "moved st a h 1" "p \<in> {a, h}"
  shows "\<exists>st'. Block_byref_release (Suc n) st p = Some st' \<and> rt_mem st' = (rt_mem st)(h := None) \<and>
     rt_calls st' = rt_calls st @ [Deallocated h]"
proof -
  from assms(1) obtain s k where
    s: "get_byref st a = Some s" "br_forwarding s = h" and
    k: "get_byref st h = Some k" "br_forwarding k = h" "refs (br_flags k) = 1"
       "\<not> deallocating (br_flags k)" "br_flags k AND BLOCK_BYREF_IS_GC = 0"
       "br_flags k AND BLOCK_BYREF_NEEDS_FREE \<noteq> 0" "br_flags k AND BLOCK_BYREF_HAS_COPY_DISPOSE = 0"
    and ah: "a \<noteq> h" "\<not> rt_isGC st"
    by (auto simp: moved_def)
  let ?w = "br_flags k - 1"
  have w: "upper ?w = upper (br_flags k)" using last_decr_fields[OF k(3,4)] by simp
  then show ?thesis
    using assms(2) s k ah(2) mask_tests(2)[of "br_flags k"] flag_tests(2)[OF w]
    by (auto simp: Block_byref_release.simps run_decr Block_deallocator_def rt_record_def Let_def)
qed

fun assign_all :: "nat \<Rightarrow> allocators \<Rightarrow> runtime \<Rightarrow> ptr \<Rightarrow> (ptr \<times> nat) list \<Rightarrow> runtime option" where
  "assign_all n al st a [] = Some st"
| "assign_all n al st a (d # ds) = do {
     st' \<leftarrow> Block_object_assign n al st d a BLOCK_FIELD_IS_BYREF;
     assign_all n al st' a ds
   }"

fun dispose_all :: "nat \<Rightarrow> runtime \<Rightarrow> ptr list \<Rightarrow> runtime option" where
  "dispose_all n st [] = Some st"
| "dispose_all n st (p # ps) = do {
     st' \<leftarrow> Block_object_dispose n st p BLOCK_FIELD_IS_BYREF;
     dispose_all n st' ps
   }"

lemma assign_all_moved:
  assumes "moved st a h c" "0 < c" "c + length ds < max_refs" "\<forall>d \<in> set ds. block_dest st d"
  shows "\<exists>st'. assign_all (Suc n) al st a ds = Some st' \<and> moved st' a h (c + length ds) \<and>
     rt_calls st' = rt_calls st \<and> (\<forall>d. block_dest st' d = block_dest st d) \<and>
     (\<forall>d \<in> set ds. read_var st' d = Some h) \<and>
     (\<forall>d. block_dest st d \<and> d \<notin> set ds \<longrightarrow> read_var st' d = read_var st d)"
  using assms
proof (induction ds arbitrary: st c)
  case Nil
  then show ?case by simp
next
  case (Cons d ds)
  from byref_retain[OF Cons.prems(1,2), of d n al] Cons.prems(3,4) obtain st1 where
    st1: "Block_object_assign (Suc n) al st d a BLOCK_FIELD_IS_BYREF = Some st1"
      "moved st1 a h (c + 1)" "read_var st1 d = Some h" "rt_calls st1 = rt_calls st"
      "\<And>d'. block_dest st1 d' = block_dest st d'"
      "\<And>d'. block_dest st d' \<Longrightarrow> d' \<noteq> d \<Longrightarrow> read_var st1 d' = read_var st d'"
    by auto
  from Cons.IH[OF st1(2)] Cons.prems(3,4) st1(5) obtain st2 where
    st2: "assign_all (Suc n) al st1 a ds = Some st2" "moved st2 a h (c + 1 + length ds)"
      "rt_calls st2 = rt_calls st1" "\<And>d. block_dest st2 d = block_dest st1 d"
      "\<And>d. d \<in> set ds \<Longrightarrow> read_var st2 d = Some h"
      "\<And>d. block_dest st1 d \<Longrightarrow> d \<notin> set ds \<Longrightarrow> read_var st2 d = read_var st1 d"
    by auto
  have "read_var st2 d = Some h"
    using st2(5,6)[of d] st1(3,5) Cons.prems(4) by (cases "d \<in> set ds") auto
  with st1 st2 show ?case by (intro exI[of _ st2]) auto
qed

lemma dispose_all_moved:
  assumes "moved st a h (length ps)" "set ps \<subseteq> {a, h}" "ps \<noteq> []" "length ps < max_refs"
  shows "\<exists>st'. dispose_all (Suc n) st ps = Some st' \<and> rt_mem st' h = None \<and>
     rt_calls st' = rt_calls st @ [Deallocated h]"
  using assms
proof (induction ps arbitrary: st)
  case Nil
  then show ?case by simp
next
  case (Cons p ps)
  have d: "Block_object_dispose (Suc n) st p BLOCK_FIELD_IS_BYREF = Block_byref_release (Suc n) st p"
    by (simp add: Block_object_dispose.simps)
  show ?case
  proof (cases "ps = []")
    case True
    then have "moved st a h 1" using Cons.prems(1) by simp
    from byref_release_last[OF this, of p n] Cons.prems(2) True d show ?thesis by auto
  next
    case False
    from byref_release_one[OF Cons.prems(1), of p n] Cons.prems(2,4) False obtain st1 where
      st1: "Block_byref_release (Suc n) st p = Some st1" "moved st1 a h (length ps)"
        "rt_calls st1 = rt_calls st"
      by auto
    from Cons.IH[OF st1(2)] Cons.prems(2,4) False obtain st2 where
      "dispose_all (Suc n) st1 ps = Some st2" "rt_mem st2 h = None" "rt_calls st2 = rt_calls st1 @ [Deallocated h]"
      by auto
    with st1 d show ?thesis by simp
  qed
qed

section \<open>Sample stores\<close>

definition sample_block :: Block_layout where
  "sample_block = \<lparr>bl_isa = NSConcreteStackBlock, bl_flags = 0x42000000,
     bl_descriptor = \<lparr>bd_size = 48, bd_helpers = [(0, 3), (1, 3)], bd_signature = 0x500, bd_layout = NULL\<rparr>,
     bl_vars = [Some 0xA0, Some 0xB0]\<rparr>"

definition sample_byref :: "ptr \<Rightarrow> Block_byref" where
  "sample_byref a = \<lparr>br_isa = NoIsa, br_forwarding = a, br_flags = 0, br_size = 32, br_helpers = [],
     br_layout = NULL, br_vars = [Some 7]\<rparr>"

definition sample_runtime :: runtime where
  "sample_runtime = Block_use_RR (runtime_init
     [0x1000 \<mapsto> BlockCell sample_block, 0x2000 \<mapsto> ByrefCell (sample_byref 0x2000)])"

definition sample_allocators :: allocators where
  "sample_allocators = \<lparr>al_malloc = (\<lambda>_ _. 0x9000), al_gc = (\<lambda>_ _ _ _. NULL)\<rparr>"

lemma sample_runtime_sel [simp]:
  "rt_mem sample_runtime = [0x1000 \<mapsto> BlockCell sample_block, 0x2000 \<mapsto> ByrefCell (sample_byref 0x2000)]"
  "rt_calls sample_runtime = []" "\<not> rt_isGC sample_runtime" "rt_objects sample_runtime"
  "rt_destructs sample_runtime" "rt_Byref_flag_initial_value sample_runtime = 0x01000000 OR 4"
  "al_malloc sample_allocators m k = 0x9000"
  by (simp_all add: sample_runtime_def Block_use_RR_def runtime_init_def sample_allocators_def)

lemma sample_block_ok:
  "get_block sample_runtime 0x1000 = Some sample_block" "stack_block sample_block"
  "object_captures sample_block" "captured sample_block = [0xA0, 0xB0]"
  by (simp_all add: get_block_def sample_block_def stack_block_def object_captures_def captured_def)

section \<open>Properties\<close>

text \<open>
  C7. Copying a stack block that captures nothing but objects and releasing the copy, without the collector: \<^verbatim>\<open>_Block_copy\<close> answers the
  fresh block, which has one reference and the captured variables, leaves the stack block alone and
  retains each captured object once; \<^verbatim>\<open>_Block_release\<close> then releases each of them once, destroys and
  frees the copy, and the store is as before.
\<close>

theorem block_copy_release:
  assumes "get_block st arg = Some b" "stack_block b" "arg \<noteq> NULL" "\<not> rt_isGC st" "object_captures b"
    "al_malloc al (rt_mem st) (bd_size (bl_descriptor b)) = p" "p \<noteq> NULL" "rt_mem st p = None"
  shows "\<exists>st1 st2 c. Block_copy (Suc n) al st arg = Some (st1, p) \<and> get_block st1 arg = Some b \<and>
     get_block st1 p = Some c \<and> refs (bl_flags c) = 1 \<and> bl_vars c = bl_vars b \<and>
     bl_isa c = NSConcreteMallocBlock \<and>
     rt_calls st1 = rt_calls st @ object_calls RetainObject st (captured b) \<and>
     Block_release (Suc n) st1 p = Some st2 \<and> rt_mem st2 = rt_mem st \<and>
     rt_calls st2 = rt_calls st1 @ object_calls ReleaseObject st (captured b) @
       (if rt_destructs st then [DestructInstance p] else []) @ [Deallocated p]"
proof -
  let ?c = "stack_block_copy b"
  let ?st1 = "(put_block st p ?c)\<lparr>rt_calls := rt_calls st @ object_calls RetainObject st (captured b)\<rparr>"
  have copy: "Block_copy (Suc n) al st arg = Some (?st1, p)" by (rule copy_stack_block[OF assms])
  have c: "get_block ?st1 p = Some ?c" by (simp add: get_block_def)
  have "object_captures ?c" using stack_copy_heap(5)[OF assms(2)] assms(5) by simp
  from release_last[OF c stack_copy_heap(1)[OF assms(2)] assms(7) stack_copy_heap(2,3)[OF assms(2)] _ this, of n]
  obtain st2 where st2: "Block_release (Suc n) ?st1 p = Some st2"
      "rt_mem st2 = (rt_mem ?st1)(p := None)" "rt_calls st2 = rt_calls ?st1 @ final_calls ?st1 p ?c"
    using assms(4) by auto
  have "rt_mem st2 = rt_mem st" using st2(2) assms(8) by (simp add: fun_upd_idem)
  moreover have "final_calls ?st1 p ?c = object_calls ReleaseObject st (captured b) @
      (if rt_destructs st then [DestructInstance p] else []) @ [Deallocated p]"
    using stack_copy_heap(4)[OF assms(2)] by (simp add: final_calls_def object_calls_def)
  moreover have "get_block ?st1 arg = Some b" using assms(1,8) by (auto simp: get_block_def)
  moreover have "bl_vars ?c = bl_vars b" "bl_isa ?c = NSConcreteMallocBlock"
    by (simp_all add: stack_block_copy_def)
  ultimately show ?thesis using copy c st2(1,3) stack_copy_heap(2)[OF assms(2)]
    by (intro exI[of _ ?st1] exI[of _ st2] exI[of _ ?c]) simp
qed

theorem block_copy_release_witness:
  "\<exists>st1 st2. Block_copy 1 sample_allocators sample_runtime 0x1000 = Some (st1, 0x9000) \<and>
     rt_calls st1 = [RetainObject 0xA0, RetainObject 0xB0] \<and>
     Block_release 1 st1 0x9000 = Some st2 \<and> rt_mem st2 = rt_mem sample_runtime \<and>
     rt_calls st2 = rt_calls st1 @ [ReleaseObject 0xA0, ReleaseObject 0xB0,
        DestructInstance 0x9000, Deallocated 0x9000]"
proof -
  have "rt_mem sample_runtime 0x9000 = None" by simp
  from block_copy_release[OF sample_block_ok(1,2) _ _ sample_block_ok(3) _ _ this, of sample_allocators 0]
  show ?thesis by (auto simp: sample_block_ok(4) object_calls_def)
qed

text \<open>
  C8. The life of a heap block that captures nothing but objects and whose count is not saturated, without the collector, under any sequence of \<^verbatim>\<open>_Block_copy\<close> and \<^verbatim>\<open>_Block_release\<close> calls by owners:
  until the count reaches zero nothing but the count changes and nothing is called; the release
  that takes the count to zero releases the captured objects, destroys and frees the block, once.
\<close>

theorem block_lifecycle:
  assumes "get_block st p = Some b" "heap_block b" "p \<noteq> NULL" "\<not> deallocating (bl_flags b)"
    "\<not> rt_isGC st" "object_captures b" "0 < refs (bl_flags b)" "refs (bl_flags b) < 32767"
    "rc_owned (refs (bl_flags b)) ops"
  shows "\<exists>st'. block_run (Suc n) al ops st p = Some st' \<and>
     (if rc_final (refs (bl_flags b)) ops = 0
      then rt_mem st' = (rt_mem st)(p := None) \<and> rt_calls st' = rt_calls st @ final_calls st p b
      else (\<exists>w. rt_mem st' = (rt_mem st)(p \<mapsto> BlockCell (b\<lparr>bl_flags := w\<rparr>)) \<and>
             refs w = rc_final (refs (bl_flags b)) ops \<and> \<not> deallocating w \<and>
             upper w = upper (bl_flags b)) \<and>
           rt_calls st' = rt_calls st)"
  by (rule block_run_correct[OF assms(1-3) refl assms(4-6,8,9,7)])

theorem block_lifecycle_witness:
  "\<exists>st'. block_run 1 sample_allocators [Retain, Release, Release]
        (put_block sample_runtime 0x9000 (stack_block_copy sample_block)) 0x9000 = Some st' \<and>
     rt_mem st' = rt_mem sample_runtime \<and>
     rt_calls st' = [ReleaseObject 0xA0, ReleaseObject 0xB0, DestructInstance 0x9000, Deallocated 0x9000]"
proof -
  let ?c = "stack_block_copy sample_block"
  let ?st = "put_block sample_runtime 0x9000 ?c"
  note c = stack_copy_heap[OF sample_block_ok(2)]
  have g: "get_block ?st 0x9000 = Some ?c" by simp
  have o: "rc_owned (refs (bl_flags ?c)) [Retain, Release, Release]" "0 < refs (bl_flags ?c)"
      "refs (bl_flags ?c) < 32767" "object_captures ?c" "\<not> rt_isGC ?st" "(0x9000 :: ptr) \<noteq> NULL"
    using c sample_block_ok(3) by simp_all
  have m: "(rt_mem ?st)(0x9000 := None) = rt_mem sample_runtime" by (simp add: fun_upd_idem)
  have f: "final_calls ?st 0x9000 ?c =
      [ReleaseObject 0xA0, ReleaseObject 0xB0, DestructInstance 0x9000, Deallocated 0x9000]"
    using c(4) sample_block_ok(4) by (simp add: final_calls_def object_calls_def)
  from block_lifecycle[OF g c(1) o(6) c(3) o(5,4,2,3,1), of 0 sample_allocators] show ?thesis
    using c(2) m f by (simp del: block_run.simps)
qed

text \<open>
  C9. The life of a \<^verbatim>\<open>__block\<close> variable with plain data that several blocks share: the first block that
  is copied moves the container to the heap, the others only count, and all of them and the stack
  container refer to the one heap copy; when each block and the stack frame have disposed of it, in
  any order, the heap copy has been freed exactly once, at the last disposal.
\<close>

theorem byref_lifecycle:
  assumes "on_stack st a" "ds \<noteq> []" "\<forall>d \<in> set ds. block_dest st d" "length ds + 1 < 32767"
    "\<forall>k. al_malloc al (rt_mem st) k = h" "h \<noteq> NULL" "rt_mem st h = None"
    "length ps = length ds + 1" "set ps \<subseteq> {a, h}"
  shows "\<exists>st1 st2. assign_all (Suc n) al st a ds = Some st1 \<and>
     (\<forall>d \<in> set ds. read_var st1 d = Some h) \<and> map_option br_forwarding (get_byref st1 a) = Some h \<and>
     rt_calls st1 = rt_calls st \<and> dispose_all (Suc n) st1 ps = Some st2 \<and> rt_mem st2 h = None \<and>
     rt_calls st2 = rt_calls st @ [Deallocated h]"
proof -
  obtain d ds' where ds: "ds = d # ds'" using assms(2) by (cases ds) auto
  from byref_move[OF assms(1), of d al h n] assms(3,5-7) ds obtain st1 where
    st1: "Block_object_assign (Suc n) al st d a BLOCK_FIELD_IS_BYREF = Some st1" "moved st1 a h 2"
      "read_var st1 d = Some h" "rt_calls st1 = rt_calls st" "\<And>d'. block_dest st1 d' = block_dest st d'"
    by auto
  from assign_all_moved[OF st1(2), of ds' n al] assms(3,4) ds st1(5) obtain st2 where
    st2: "assign_all (Suc n) al st1 a ds' = Some st2" "moved st2 a h (2 + length ds')"
      "rt_calls st2 = rt_calls st1" "\<And>d. d \<in> set ds' \<Longrightarrow> read_var st2 d = Some h"
      "\<And>d. block_dest st1 d \<Longrightarrow> d \<notin> set ds' \<Longrightarrow> read_var st2 d = read_var st1 d"
    by auto
  have "block_dest st1 d" using st1(5)[of d] assms(3) ds by simp
  then have "read_var st2 d = Some h" using st2(4,5)[of d] st1(3) by (cases "d \<in> set ds'") simp_all
  then have rv: "\<forall>d \<in> set ds. read_var st2 d = Some h" using st2(4) ds by simp
  have len: "2 + length ds' = length ps" using assms(8) ds by simp
  have "ps \<noteq> []" "length ps < max_refs" using assms(4,8) by auto
  from dispose_all_moved[OF st2(2)[unfolded len] assms(9) this, of n] obtain st3 where
    "dispose_all (Suc n) st2 ps = Some st3" "rt_mem st3 h = None" "rt_calls st3 = rt_calls st2 @ [Deallocated h]"
    by blast
  moreover have "map_option br_forwarding (get_byref st2 a) = Some h" using st2(2) by (auto simp: moved_def)
  ultimately show ?thesis using st1(1,4) st2(1,3) rv ds by (intro exI[of _ st2] exI[of _ st3]) simp
qed

theorem byref_lifecycle_witness:
  "\<exists>st1 st2. assign_all 1 sample_allocators sample_runtime 0x2000 [(0x1000, 0), (0x1000, 1)] = Some st1 \<and>
     read_var st1 (0x1000, 0) = Some 0x9000 \<and> read_var st1 (0x1000, 1) = Some 0x9000 \<and>
     dispose_all 1 st1 [0x9000, 0x2000, 0x9000] = Some st2 \<and>
     rt_calls st2 = [Deallocated 0x9000]"
proof -
  have "on_stack sample_runtime 0x2000"
    by (simp add: on_stack_def get_byref_def sample_byref_def refs_def deallocating_def)
  moreover have "\<forall>d \<in> set [(0x1000, 0), (0x1000, 1)]. block_dest sample_runtime d"
    by (simp add: block_dest_def get_block_def) (simp add: sample_block_def)
  ultimately show ?thesis
    using byref_lifecycle[of sample_runtime "0x2000" "[(0x1000, 0), (0x1000, 1)]" sample_allocators
        "0x9000" "[0x9000, 0x2000, 0x9000]" 0]
    by (auto simp del: assign_all.simps dispose_all.simps)
qed

text \<open>
  \<^verbatim>\<open>_Block_tryRetain\<close> never resurrects: once the deallocating bit of a block is set it fails and
  leaves the block alone; on a live block it succeeds and the block stays live.
\<close>

theorem block_try_retain:
  assumes "get_block st p = Some b"
  shows "\<exists>w. Block_tryRetain st p = Some (put_block st p (b\<lparr>bl_flags := w\<rparr>), \<not> deallocating (bl_flags b)) \<and>
     deallocating w = deallocating (bl_flags b) \<and> upper w = upper (bl_flags b) \<and>
     refs w = (if deallocating (bl_flags b) \<or> refs (bl_flags b) = 32767 then refs (bl_flags b)
               else refs (bl_flags b) + 1)"
proof (cases "deallocating (bl_flags b) \<or> refs (bl_flags b) = max_refs")
  case True
  then show ?thesis
    using assms by (intro exI[of _ "bl_flags b"]) (auto simp: Block_tryRetain_def run_try_retain)
next
  case False
  then have "refs (bl_flags b) < max_refs" using refs_le[of "bl_flags b"] by simp
  with False show ?thesis
    using assms incr_fields[of "bl_flags b"]
    by (intro exI[of _ "bl_flags b + 2"]) (simp add: Block_tryRetain_def run_try_retain)
qed

theorem block_try_retain_witness:
  "\<exists>w. Block_tryRetain sample_runtime 0x1000 =
     Some (put_block sample_runtime 0x1000 (sample_block\<lparr>bl_flags := w\<rparr>), True)"
proof -
  have "\<not> deallocating (bl_flags sample_block)" by (simp add: sample_block_def deallocating_def)
  with block_try_retain[OF sample_block_ok(1)] show ?thesis by auto
qed

end
