(* ===== verification/CF_Sort.thy ===== *)
theory CF_Sort
  imports CF_Prelude
begin

text \<open>
  Sorting (\<^verbatim>\<open>CFSortFunctions.c\<close>, and \<^verbatim>\<open>CFArraySortValues\<close> of \<^verbatim>\<open>CFArray.c\<close>): an in-place merge sort of an
  array of indexes with a scratch buffer, and the sorting of values by their sorted indexes. The
  lemmas show that it sorts, that it is stable, and that every access stays inside the buffers.

  Not modelled: \<^verbatim>\<open>kCFSortConcurrent\<close>, which no caller in CoreFoundation passes.
\<close>

section \<open>Merging\<close>

text \<open>\<^verbatim>\<open>while (idx--) listp[idx] = tmp[idx]\<close>, where \<^verbatim>\<open>listp\<close> starts at \<open>base\<close>.\<close>

fun copy_tmp :: "nat \<Rightarrow> nat \<Rightarrow> 'v mem \<Rightarrow> 'v list \<Rightarrow> 'v list option" where
  "copy_tmp base 0 tmp listp = Some listp"
| "copy_tmp base (Suc idx) tmp listp = do {
     v \<leftarrow> rd tmp idx;
     listp1 \<leftarrow> aset listp (base + idx) v;
     copy_tmp base idx tmp listp1
   }"

text \<open>\<^verbatim>\<open>for (t = cnt1 + cnt2 - 1; idx <= t; t--) listp[t] = listp[t - cnt2]\<close>; \<open>t\<close> is one more than in C.\<close>

fun shift_up :: "nat \<Rightarrow> nat \<Rightarrow> nat \<Rightarrow> nat \<Rightarrow> 'v list \<Rightarrow> 'v list option" where
  "shift_up base cnt2 idx 0 listp = Some listp"
| "shift_up base cnt2 idx (Suc t) listp =
     (if idx \<le> t
      then do {
        v \<leftarrow> (if cnt2 \<le> base + t then aget listp (base + t - cnt2) else None);
        listp1 \<leftarrow> aset listp (base + t) v;
        shift_up base cnt2 idx t listp1
      }
      else Some listp)"

function merge_loop :: "('v \<Rightarrow> 'v \<Rightarrow> CFComparisonResult) \<Rightarrow> nat \<Rightarrow> nat \<Rightarrow> nat \<Rightarrow> nat \<Rightarrow> nat \<Rightarrow> nat \<Rightarrow>
    'v list \<Rightarrow> 'v mem \<Rightarrow> ('v list \<times> 'v mem) option" where
  "merge_loop cmp base cnt1 cnt2 idx idx1 idx2 listp tmp =
     (if cnt1 \<le> idx1 then map_option (\<lambda>l. (l, tmp)) (copy_tmp base idx tmp listp)
      else if cnt1 + cnt2 \<le> idx2
      then do {
        listp1 \<leftarrow> shift_up base cnt2 idx (cnt1 + cnt2) listp;
        map_option (\<lambda>l. (l, tmp)) (copy_tmp base idx tmp listp1)
      }
      else do {
        v1 \<leftarrow> aget listp (base + idx1);
        v2 \<leftarrow> aget listp (base + idx2);
        if cmp v1 v2 \<noteq> kCFCompareGreaterThan
        then do { tmp1 \<leftarrow> wr tmp idx v1; merge_loop cmp base cnt1 cnt2 (idx + 1) (idx1 + 1) idx2 listp tmp1 }
        else do { tmp1 \<leftarrow> wr tmp idx v2; merge_loop cmp base cnt1 cnt2 (idx + 1) idx1 (idx2 + 1) listp tmp1 }
      })"
  by pat_completeness auto
termination
  by (relation "measure (\<lambda>(cmp, base, cnt1, cnt2, idx, idx1, idx2, listp, tmp). (cnt1 - idx1) + (cnt1 + cnt2 - idx2))") auto

declare merge_loop.simps [simp del]

definition CFSimpleMerge :: "('v \<Rightarrow> 'v \<Rightarrow> CFComparisonResult) \<Rightarrow> nat \<Rightarrow> nat \<Rightarrow> nat \<Rightarrow> 'v list \<Rightarrow> 'v mem \<Rightarrow>
    ('v list \<times> 'v mem) option" where
  "CFSimpleMerge cmp base cnt1 cnt2 listp tmp =
     (if cnt1 = 0 \<or> cnt2 = 0 then Some (listp, tmp)
      else do {
        a \<leftarrow> aget listp (base + cnt1 - 1);
        b \<leftarrow> aget listp (base + cnt1);
        if 16 < cnt1 + cnt2 \<and> cmp a b \<noteq> kCFCompareGreaterThan then Some (listp, tmp)
        else merge_loop cmp base cnt1 cnt2 0 0 cnt1 listp tmp
      })"

text \<open>Three values, compared and exchanged the way the code does.\<close>

definition sort3 :: "('v \<Rightarrow> 'v \<Rightarrow> CFComparisonResult) \<Rightarrow> 'v \<Rightarrow> 'v \<Rightarrow> 'v \<Rightarrow> 'v \<times> 'v \<times> 'v" where
  "sort3 cmp x0 x1 x2 =
     (let (v0, v1) = (if cmp x0 x1 = kCFCompareGreaterThan then (x1, x0) else (x0, x1))
      in if cmp v1 x2 = kCFCompareGreaterThan
         then (let (u1, u2) = (x2, v1)
               in if cmp v0 u1 = kCFCompareGreaterThan then (u1, v0, u2) else (v0, u1, u2))
         else (v0, v1, x2))"

function CFSimpleMergeSort :: "('v \<Rightarrow> 'v \<Rightarrow> CFComparisonResult) \<Rightarrow> nat \<Rightarrow> nat \<Rightarrow> 'v list \<Rightarrow> 'v mem \<Rightarrow>
    ('v list \<times> 'v mem) option" where
  "CFSimpleMergeSort cmp base cnt listp tmp =
     (if cnt < 2 then Some (listp, tmp)
      else if cnt = 2
      then do {
        v0 \<leftarrow> aget listp base;
        v1 \<leftarrow> aget listp (base + 1);
        if cmp v0 v1 = kCFCompareGreaterThan
        then do { l1 \<leftarrow> aset listp base v1; l2 \<leftarrow> aset l1 (base + 1) v0; Some (l2, tmp) }
        else Some (listp, tmp)
      }
      else if cnt = 3
      then do {
        v0 \<leftarrow> aget listp base;
        v1 \<leftarrow> aget listp (base + 1);
        v2 \<leftarrow> aget listp (base + 2);
        let (u0, u1, u2) = sort3 cmp v0 v1 v2;
        l0 \<leftarrow> aset listp base u0;
        l1 \<leftarrow> aset l0 (base + 1) u1;
        l2 \<leftarrow> aset l1 (base + 2) u2;
        Some (l2, tmp)
      }
      else do {
        let half_cnt = cnt div 2;
        (l1, t1) \<leftarrow> CFSimpleMergeSort cmp base half_cnt listp tmp;
        (l2, t2) \<leftarrow> CFSimpleMergeSort cmp (base + half_cnt) (cnt - half_cnt) l1 t1;
        CFSimpleMerge cmp base half_cnt (cnt - half_cnt) l2 t2
      })"
  by pat_completeness auto
termination
  by (relation "measure (\<lambda>(cmp, base, cnt, listp, tmp). cnt)") auto

declare CFSimpleMergeSort.simps [simp del]

section \<open>Sorting arrays\<close>

text \<open>\<^verbatim>\<open>INTPTR_MAX / sizeof(CFIndex)\<close>.\<close>

abbreviation (input) MAX_INDEXES :: nat where "MAX_INDEXES \<equiv> 2 ^ 60 - 1"

text \<open>\<^verbatim>\<open>CFSortIndexes\<close> without \<^verbatim>\<open>kCFSortConcurrent\<close>: the new contents of the index buffer.\<close>

definition CFSortIndexes :: "nat mem \<Rightarrow> nat \<Rightarrow> (nat \<Rightarrow> nat \<Rightarrow> CFComparisonResult) \<Rightarrow> nat mem option" where
  "CFSortIndexes indexBuffer cnt cmp =
     (if cnt < 1 then Some indexBuffer
      else if MAX_INDEXES < cnt then Some indexBuffer
      else if length indexBuffer < cnt then None
      else do {
        (sorted, tmp) \<leftarrow> CFSimpleMergeSort cmp 0 cnt [0..<cnt] (mem_alloc cnt);
        Some (map Some sorted @ drop cnt indexBuffer)
      })"

text \<open>The gathering loop of \<^verbatim>\<open>CFQSortArray\<close>: \<^verbatim>\<open>store[idx] = list[indexes[idx]]\<close>.\<close>

fun gather :: "'a list \<Rightarrow> nat mem \<Rightarrow> nat \<Rightarrow> nat \<Rightarrow> 'a list option" where
  "gather list indexes idx 0 = Some []"
| "gather list indexes idx (Suc n) = do {
     i \<leftarrow> rd indexes idx;
     v \<leftarrow> aget list i;
     rest \<leftarrow> gather list indexes (idx + 1) n;
     Some (v # rest)
   }"

text \<open>The comparator answers for two indexes; it is only asked about indexes of the array.\<close>

definition CFQSortArray :: "('a \<Rightarrow> 'a \<Rightarrow> CFComparisonResult) \<Rightarrow> 'a list \<Rightarrow> 'a list option" where
  "CFQSortArray comparator list =
     (let cnt = length list in
      if cnt < 2 then Some list
      else do {
        indexes \<leftarrow> CFSortIndexes (mem_alloc cnt) cnt (\<lambda>a b. comparator (list ! a) (list ! b));
        gather list indexes 0 cnt
      })"

definition CFMergeSortArray :: "('a \<Rightarrow> 'a \<Rightarrow> CFComparisonResult) \<Rightarrow> 'a list \<Rightarrow> 'a list option" where
  "CFMergeSortArray comparator list =
     (let cnt = length list in
      if cnt < 2 then Some list
      else do {
        indexes \<leftarrow> CFSortIndexes (mem_alloc cnt) cnt (\<lambda>a b. comparator (list ! a) (list ! b));
        gather list indexes 0 cnt
      })"

text \<open>\<^verbatim>\<open>__CFZSort\<close>, used for arrays that retain or release their values but not both: bubble sort.\<close>

fun zsort_pass :: "('a \<Rightarrow> 'a \<Rightarrow> CFComparisonResult) \<Rightarrow> nat \<Rightarrow> nat \<Rightarrow> 'a list \<Rightarrow> 'a list option" where
  "zsort_pass comparator idx 0 array = Some array"
| "zsort_pass comparator idx (Suc n) array = do {
     a \<leftarrow> aget array idx;
     b \<leftarrow> aget array (idx + 1);
     array1 \<leftarrow> (if comparator b a = kCFCompareLessThan
       then do { x \<leftarrow> aset array idx b; aset x (idx + 1) a } else Some array);
     zsort_pass comparator (idx + 1) n array1
   }"

fun CFZSort :: "('a \<Rightarrow> 'a \<Rightarrow> CFComparisonResult) \<Rightarrow> nat \<Rightarrow> nat \<Rightarrow> 'a list \<Rightarrow> 'a list option" where
  "CFZSort comparator loc 0 array = Some array"
| "CFZSort comparator loc (Suc cnt) array =
     (if cnt = 0 then Some array
      else do { array1 \<leftarrow> zsort_pass comparator loc cnt array; CFZSort comparator loc cnt array1 })"

text \<open>
  \<^verbatim>\<open>CFArraySortValues\<close> on the values of an array: whether the array is immutable, and whether it has only
  one of the retain and release callbacks. A range outside the array halts.
\<close>

definition CFArraySortValues :: "bool \<Rightarrow> bool \<Rightarrow> ('a \<Rightarrow> 'a \<Rightarrow> CFComparisonResult) \<Rightarrow> CFRange \<Rightarrow> 'a list \<Rightarrow> 'a list option" where
  "CFArraySortValues immutable unpaired comparator rg array =
     (let loc = range_location rg; len = range_length rg in
      if length array < loc + len then None
      else if \<not> immutable \<and> unpaired then CFZSort comparator loc len array
      else if len < 2 then Some array
      else do {
        values \<leftarrow> CFQSortArray comparator (take len (drop loc array));
        Some (if immutable then array else take loc array @ values @ drop (loc + len) array)
      })"

section \<open>The loops\<close>

lemma copy_tmp_correct:
  assumes "take idx tmp = map Some P" "length P = idx" "base + idx \<le> length listp"
  shows "copy_tmp base idx tmp listp = Some (take base listp @ P @ drop (base + idx) listp)"
  using assms
proof (induction idx arbitrary: P listp)
  case (Suc idx)
  have len: "idx < length tmp" using arg_cong[OF Suc.prems(1), of length] Suc.prems(2) by simp
  have P: "P = take idx P @ [P ! idx]" using Suc.prems(2) by (metis lessI order_refl take_Suc_conv_app_nth take_all)
  have "take idx tmp @ [tmp ! idx] = map Some P" using Suc.prems(1) take_Suc_conv_app_nth[OF len] by simp
  also have "\<dots> = map Some (take idx P @ [P ! idx])" by (rule arg_cong[OF P])
  finally have T: "take idx tmp = map Some (take idx P)" "rd tmp idx = Some (P ! idx)"
    using len by (simp_all add: rd_def)
  let ?l = "listp[base + idx := P ! idx]"
  have in_range: "base + idx < length listp" using Suc.prems(3) by simp
  have "copy_tmp base idx tmp ?l = Some (take base ?l @ take idx P @ drop (base + idx) ?l)"
    by (rule Suc.IH[OF T(1)]) (use Suc.prems in simp_all)
  moreover have "drop (base + idx) ?l = P ! idx # drop (base + Suc idx) listp"
    using in_range by (simp add: drop_update_swap Cons_nth_drop_Suc[symmetric])
  moreover have "P @ X = take idx P @ P ! idx # X" for X
    using arg_cong[OF P, of "\<lambda>p. p @ X"] by simp
  ultimately show ?case using T(2) in_range by (simp add: aset_def)
qed simp

lemma shift_up_correct:
  assumes "idx \<le> t" "base + t \<le> length listp" "0 < cnt2" "cnt2 \<le> idx"
  shows "shift_up base cnt2 idx t listp =
    Some (take (base + idx) listp @ take (t - idx) (drop (base + idx - cnt2) listp) @ drop (base + t) listp)"
  using assms(1,2)
proof (induction t arbitrary: listp)
  case 0
  then show ?case using assms by simp
next
  case (Suc t)
  show ?case
  proof (cases "idx = Suc t")
    case False
    then have t: "idx \<le> t" using Suc.prems(1) by simp
    let ?v = "listp ! (base + t - cnt2)" and ?k = "base + idx - cnt2"
    let ?l = "listp[base + t := ?v]"
    have r: "base + t < length listp" using Suc.prems(2) by simp
    have "shift_up base cnt2 idx t ?l = Some (take (base + idx) ?l @ take (t - idx) (drop ?k ?l) @ drop (base + t) ?l)"
      by (rule Suc.IH[OF t]) (use Suc.prems in simp)
    moreover have "take (base + idx) ?l = take (base + idx) listp" using t by simp
    moreover have "take (t - idx) (drop ?k ?l) = take (t - idx) (drop ?k listp)"
      using t assms(3,4) by (simp add: drop_update_swap)
    moreover have "drop (base + t) ?l = ?v # drop (base + Suc t) listp"
      using r by (simp add: drop_update_swap Cons_nth_drop_Suc[symmetric])
    moreover have "take (Suc t - idx) (drop ?k listp) = take (t - idx) (drop ?k listp) @ [?v]"
      using t r assms(4) by (simp add: Suc_diff_le take_Suc_conv_app_nth)
    ultimately show ?thesis using t r assms(4) by (simp add: aget_def aset_def)
  qed (use Suc.prems in simp)
qed

section \<open>Stable sorting\<close>

text \<open>Reference: merging of lists, taking from the first list when the heads are equal.\<close>

fun merge_ref :: "('a \<Rightarrow> 'a \<Rightarrow> bool) \<Rightarrow> 'a list \<Rightarrow> 'a list \<Rightarrow> 'a list" where
  "merge_ref gt [] ys = ys"
| "merge_ref gt xs [] = xs"
| "merge_ref gt (x # xs) (y # ys) =
     (if \<not> gt x y then x # merge_ref gt xs (y # ys) else y # merge_ref gt (x # xs) ys)"

lemma merge_ref_Nil2 [simp]: "merge_ref gt xs [] = xs"
  by (cases xs) simp_all

lemma mset_merge_ref [simp]: "mset (merge_ref gt xs ys) = mset xs + mset ys"
  by (induction gt xs ys rule: merge_ref.induct) simp_all

lemma set_merge_ref [simp]: "set (merge_ref gt xs ys) = set xs \<union> set ys"
  by (metis mset_merge_ref set_mset_mset set_mset_union)

definition eqv :: "('a \<Rightarrow> 'a \<Rightarrow> bool) \<Rightarrow> 'a \<Rightarrow> 'a \<Rightarrow> bool" where
  "eqv gt x y \<longleftrightarrow> \<not> gt x y \<and> \<not> gt y x"

text \<open>A rearrangement that keeps equal values in their order, and a sorted one.\<close>

definition rearr :: "('a \<Rightarrow> 'a \<Rightarrow> bool) \<Rightarrow> 'a list \<Rightarrow> 'a list \<Rightarrow> bool" where
  "rearr gt xs ys \<longleftrightarrow> mset ys = mset xs \<and> (\<forall>z. filter (eqv gt z) ys = filter (eqv gt z) xs)"

definition stable_sorted :: "('a \<Rightarrow> 'a \<Rightarrow> bool) \<Rightarrow> 'a list \<Rightarrow> 'a list \<Rightarrow> bool" where
  "stable_sorted gt xs ys \<longleftrightarrow> rearr gt xs ys \<and> sorted_wrt (\<lambda>a b. \<not> gt a b) ys"

lemma rearr_refl [simp]: "rearr gt xs xs"
  by (simp add: rearr_def)

lemma rearr_trans: "rearr gt xs ys \<Longrightarrow> rearr gt ys zs \<Longrightarrow> rearr gt xs zs"
  by (simp add: rearr_def)

lemma rearr_append: "rearr gt xs xs' \<Longrightarrow> rearr gt ys ys' \<Longrightarrow> rearr gt (xs @ ys) (xs' @ ys')"
  by (simp add: rearr_def)

lemma rearr_Cons: "rearr gt xs xs' \<Longrightarrow> rearr gt (x # xs) (x # xs')"
  by (simp add: rearr_def)

lemma rearr_length: "rearr gt xs ys \<Longrightarrow> length ys = length xs"
  unfolding rearr_def by (metis size_mset)

lemma rearr_set: "rearr gt xs ys \<Longrightarrow> set ys = set xs"
  unfolding rearr_def by (metis set_mset_mset)

context cf_comparator
begin

lemma rearr_swap:
  assumes "gt a b"
  shows "rearr gt (a # b # xs) (b # a # xs)"
proof -
  have "\<not> (eqv gt z a \<and> eqv gt z b)" for z using assms gt_le_trans unfolding eqv_def by blast
  then show ?thesis by (auto simp: rearr_def)
qed

lemma merge_sorted:
  assumes "sorted_wrt (\<lambda>a b. \<not> gt a b) xs" "sorted_wrt (\<lambda>a b. \<not> gt a b) ys"
  shows "sorted_wrt (\<lambda>a b. \<not> gt a b) (merge_ref gt xs ys)"
  using assms
proof (induction xs arbitrary: ys)
  case outer: (Cons x xs)
  show ?case using outer.prems(2)
  proof (induction ys)
    case (Cons y ys)
    show ?case
    proof (cases "gt x y")
      case True
      have "\<not> gt y z" if "z \<in> set (x # xs)" for z
      proof -
        have "z = x \<or> \<not> gt x z" using that outer.prems(1) by auto
        then show ?thesis using gt_asym[OF True] le_trans by blast
      qed
      then show ?thesis using True Cons by auto
    next
      case False
      have "\<not> gt x z" if "z \<in> set (y # ys)" for z
      proof -
        have "z = y \<or> \<not> gt y z" using that Cons.prems by auto
        then show ?thesis using False le_trans by blast
      qed
      moreover have "sorted_wrt (\<lambda>a b. \<not> gt a b) (merge_ref gt xs (y # ys))"
        by (rule outer.IH) (use outer.prems(1) Cons.prems in simp_all)
      ultimately show ?thesis using False outer.prems(1) by auto
    qed
  qed (use outer.prems(1) in simp)
qed simp

lemma filter_merge:
  assumes "sorted_wrt (\<lambda>a b. \<not> gt a b) xs" "sorted_wrt (\<lambda>a b. \<not> gt a b) ys"
  shows "filter (eqv gt z) (merge_ref gt xs ys) = filter (eqv gt z) xs @ filter (eqv gt z) ys"
  using assms
proof (induction xs arbitrary: ys)
  case outer: (Cons x xs)
  show ?case using outer.prems(2)
  proof (induction ys)
    case (Cons y ys)
    show ?case
    proof (cases "gt x y")
      case True
      have "filter (eqv gt z) (x # xs) = []" if "eqv gt z y"
      proof -
        have "\<not> eqv gt z u" if "u \<in> set (x # xs)" for u
        proof -
          have "u = x \<or> \<not> gt x u" using that outer.prems(1) by auto
          moreover have "\<not> gt y z" "\<not> gt z y" using \<open>eqv gt z y\<close> by (simp_all add: eqv_def)
          ultimately show ?thesis using True gt_le_trans le_trans unfolding eqv_def by blast
        qed
        then show ?thesis by (simp add: filter_empty_conv)
      qed
      then show ?thesis using True Cons by auto
    next
      case False
      have "filter (eqv gt z) (merge_ref gt xs (y # ys)) = filter (eqv gt z) xs @ filter (eqv gt z) (y # ys)"
        by (rule outer.IH) (use outer.prems(1) Cons.prems in simp_all)
      then show ?thesis using False by simp
    qed
  qed (use outer.prems(1) in simp)
qed simp

lemma stable_merge:
  assumes "stable_sorted gt xs xs'" "stable_sorted gt ys ys'"
  shows "stable_sorted gt (xs @ ys) (merge_ref gt xs' ys')"
  using assms merge_sorted filter_merge by (simp add: stable_sorted_def rearr_def)

lemma stable_append:
  assumes "stable_sorted gt xs xs'" "stable_sorted gt ys ys'" "xs' \<noteq> []" "ys' \<noteq> []" "\<not> gt (last xs') (hd ys')"
  shows "stable_sorted gt (xs @ ys) (xs' @ ys')"
proof -
  have s: "sorted_wrt (\<lambda>a b. \<not> gt a b) xs'" "sorted_wrt (\<lambda>a b. \<not> gt a b) ys'" using assms(1,2) by (simp_all add: stable_sorted_def)
  have "\<not> gt a (last xs')" if "a \<in> set xs'" for a
  proof -
    have "xs' = butlast xs' @ [last xs']" using assms(3) by simp
    then have "a \<in> set (butlast xs') \<or> a = last xs'" "sorted_wrt (\<lambda>a b. \<not> gt a b) (butlast xs' @ [last xs'])"
      using that s(1) by (metis in_set_butlastD rotate1.simps(2) set_ConsD set_rotate1 Un_iff set_append)+
    then show ?thesis using gt_irrefl by (auto simp: sorted_wrt_append)
  qed
  moreover have "\<not> gt (hd ys') b" if "b \<in> set ys'" for b using that s(2) assms(4) gt_irrefl by (cases ys') auto
  ultimately have "\<not> gt a b" if "a \<in> set xs'" "b \<in> set ys'" for a b using that assms(5) le_trans by meson
  then show ?thesis using s assms(1,2) by (simp add: stable_sorted_def rearr_append sorted_wrt_append)
qed

lemma stable_unique:
  assumes "stable_sorted gt xs ys" "stable_sorted gt xs zs"
  shows "ys = zs"
proof -
  have "ys = zs" if "mset ys = mset zs" "sorted_wrt (\<lambda>a b. \<not> gt a b) ys" "sorted_wrt (\<lambda>a b. \<not> gt a b) zs"
    "\<And>z. filter (eqv gt z) ys = filter (eqv gt z) zs" for ys zs
    using that
  proof (induction ys arbitrary: zs)
    case (Cons y ys)
    then obtain z zs' where zs: "zs = z # zs'" by (cases zs) auto
    have "y \<in> set zs" "z \<in> set (y # ys)" using Cons.prems(1) zs by (metis list.set_intros(1) set_mset_mset)+
    then have "\<not> gt z y" "\<not> gt y z" using Cons.prems(2,3) zs gt_irrefl by auto
    then have "eqv gt y z" "eqv gt y y" by (simp_all add: eqv_def)
    then have yz: "y = z" using Cons.prems(4)[of y] zs by simp
    have "filter (eqv gt u) ys = filter (eqv gt u) zs'" for u using Cons.prems(4)[of u] zs yz by (cases "eqv gt u y") simp_all
    then have "ys = zs'" using Cons.prems zs yz by (intro Cons.IH) simp_all
    then show ?case using zs yz by simp
  qed simp
  then show ?thesis using assms by (simp add: stable_sorted_def rearr_def)
qed

lemma sort3_stable:
  assumes "\<And>a b. gt a b \<longleftrightarrow> cmp a b = kCFCompareGreaterThan" "sort3 cmp a b c = (x, y, z)"
  shows "stable_sorted gt [a, b, c] [x, y, z]"
proof -
  obtain u v where uv: "(if gt a b then (b, a) else (a, b)) = (u, v)" by fastforce
  have 1: "rearr gt [a, b, c] [u, v, c]" "\<not> gt u v" using uv rearr_swap gt_asym by (auto split: if_splits)
  have res: "(if gt v c then (if gt u c then (c, u, v) else (u, c, v)) else (u, v, c)) = (x, y, z)"
    using assms uv by (simp add: sort3_def Let_def split: prod.splits if_splits)
  show ?thesis
  proof (cases "gt v c")
    case False
    then have "sorted_wrt (\<lambda>a b. \<not> gt a b) [u, v, c]" using 1(2) le_trans by auto
    then show ?thesis using 1(1) res False by (auto simp: stable_sorted_def)
  next
    case vc: True
    have 2: "rearr gt [a, b, c] [u, c, v]" using rearr_trans[OF 1(1) rearr_Cons[OF rearr_swap[OF vc]]] .
    show ?thesis
    proof (cases "gt u c")
      case True
      have "rearr gt [a, b, c] [c, u, v]" by (rule rearr_trans[OF 2 rearr_swap[OF True]])
      moreover have "sorted_wrt (\<lambda>a b. \<not> gt a b) [c, u, v]" using 1(2) True vc gt_asym by auto
      ultimately show ?thesis using res vc True by (auto simp: stable_sorted_def)
    next
      case False
      have "sorted_wrt (\<lambda>a b. \<not> gt a b) [u, c, v]" using 1(2) False vc gt_asym by auto
      then show ?thesis using 2 res vc False by (auto simp: stable_sorted_def)
    qed
  qed
qed

end

section \<open>The merge sort\<close>

abbreviation (input) gt_of :: "('a \<Rightarrow> 'a \<Rightarrow> CFComparisonResult) \<Rightarrow> 'a \<Rightarrow> 'a \<Rightarrow> bool" where
  "gt_of cmp \<equiv> \<lambda>a b. cmp a b = kCFCompareGreaterThan"

lemma merge_ref_step:
  assumes "i < length A" "j < length B"
  shows "merge_ref gt (drop i A) (drop j B) =
    (if \<not> gt (A ! i) (B ! j) then A ! i # merge_ref gt (drop (Suc i) A) (drop j B)
     else B ! j # merge_ref gt (drop i A) (drop (Suc j) B))"
  using Cons_nth_drop_Suc[OF assms(1)] Cons_nth_drop_Suc[OF assms(2)] by (metis merge_ref.simps(3))

lemma merge_loop_correct:
  assumes "listp = pre @ A @ B @ post" "length pre = base" "length A = cnt1" "length B = cnt2" "0 < cnt2"
    "cnt1 + cnt2 \<le> length tmp" "i \<le> cnt1" "j \<le> cnt2" "take (i + j) tmp = map Some P" "length P = i + j"
    "merge_ref (gt_of cmp) A B = P @ merge_ref (gt_of cmp) (drop i A) (drop j B)"
  shows "\<exists>tmp'. merge_loop cmp base cnt1 cnt2 (i + j) i (cnt1 + j) listp tmp =
      Some (pre @ merge_ref (gt_of cmp) A B @ post, tmp') \<and> length tmp' = length tmp"
  using assms(6-)
proof (induction "(cnt1 - i) + (cnt2 - j)" arbitrary: i j P tmp rule: less_induct)
  case less
  note prems = less.prems
  have lens: "length listp = base + cnt1 + cnt2 + length post" using assms(1-4) by simp
  show ?case
  proof (cases "i = cnt1 \<or> j = cnt2")
    case True
    show ?thesis
    proof (cases "i = cnt1")
      case i: True
      have "copy_tmp base (i + j) tmp listp = Some (take base listp @ P @ drop (base + (i + j)) listp)"
        by (rule copy_tmp_correct[OF prems(4,5)]) (use lens prems(2,3) in simp)
      moreover have "drop (base + (i + j)) listp = drop j B @ post" "take base listp = pre"
        using assms(1-4) i prems(3) by simp_all
      moreover have "merge_ref (gt_of cmp) A B = P @ drop j B" using prems(6) i assms(3) by simp
      ultimately show ?thesis using i by (simp add: merge_loop.simps[of cmp])
    next
      case False
      then have i: "i < cnt1" and j: "j = cnt2" using True prems(2) by auto
      have "shift_up base cnt2 (i + j) (cnt1 + cnt2) listp = Some (take (base + (i + j)) listp @
          take (cnt1 + cnt2 - (i + j)) (drop (base + (i + j) - cnt2) listp) @ drop (base + (cnt1 + cnt2)) listp)"
        by (rule shift_up_correct) (use lens prems(2) j assms(5) in simp_all)
      moreover have "take (cnt1 + cnt2 - (i + j)) (drop (base + (i + j) - cnt2) listp) = drop i A"
        "drop (base + (cnt1 + cnt2)) listp = post"
        using assms(1-4) i j by simp_all
      moreover define l1 where "l1 = take (base + (i + j)) listp @ drop i A @ post"
      ultimately have shift: "shift_up base cnt2 (i + j) (cnt1 + cnt2) listp = Some l1" by simp
      have l1: "length l1 = length listp" "take base l1 = pre" "drop (base + (i + j)) l1 = drop i A @ post"
        using assms(1-4) i j lens by (simp_all add: l1_def)
      have "copy_tmp base (i + j) tmp l1 = Some (take base l1 @ P @ drop (base + (i + j)) l1)"
        by (rule copy_tmp_correct[OF prems(4,5)]) (use l1(1) lens prems(2,3) in simp)
      moreover have "merge_ref (gt_of cmp) A B = P @ drop i A" using prems(6) j assms(4) by simp
      ultimately show ?thesis using shift l1 i j by (simp add: merge_loop.simps[of cmp])
    qed
  next
    case False
    then have ij: "i < cnt1" "j < cnt2" using prems(2,3) by auto
    have get: "aget listp (base + i) = Some (A ! i)" "aget listp (base + (cnt1 + j)) = Some (B ! j)"
      using assms(1-4) ij lens by (simp_all add: aget_def nth_append)
    have room: "i + j < length tmp" using ij prems(1) by simp
    note ref = prems(6)[unfolded merge_ref_step[OF ij[folded assms(3,4)]]]
    show ?thesis
    proof (cases "cmp (A ! i) (B ! j) = kCFCompareGreaterThan")
      case True
      let ?tmp = "tmp[i + j := Some (B ! j)]"
      have "\<exists>tmp'. merge_loop cmp base cnt1 cnt2 (i + Suc j) i (cnt1 + Suc j) listp ?tmp =
          Some (pre @ merge_ref (gt_of cmp) A B @ post, tmp') \<and> length tmp' = length ?tmp"
        by (rule less.hyps[where P = "P @ [B ! j]"])
          (use ij prems room ref True in \<open>simp_all add: take_Suc_conv_app_nth\<close>)
      then show ?thesis using ij get room True by (simp add: merge_loop.simps[of cmp _ _ _ "i + j"] wr_def)
    next
      case False
      let ?tmp = "tmp[i + j := Some (A ! i)]"
      have "\<exists>tmp'. merge_loop cmp base cnt1 cnt2 (Suc i + j) (Suc i) (cnt1 + j) listp ?tmp =
          Some (pre @ merge_ref (gt_of cmp) A B @ post, tmp') \<and> length tmp' = length ?tmp"
        by (rule less.hyps[where P = "P @ [A ! i]"])
          (use ij prems room ref False in \<open>simp_all add: take_Suc_conv_app_nth\<close>)
      then show ?thesis using ij get room False by (simp add: merge_loop.simps[of cmp _ _ _ "i + j"] wr_def)
    qed
  qed
qed

lemma aset_aget_mid [simp]:
  "aget (pre @ x # post) (length pre) = Some x" "aset (pre @ x # post) (length pre) v = Some (pre @ v # post)"
  "aget (pre @ x # y # post) (Suc (length pre)) = Some y"
  "aset (pre @ x # y # post) (Suc (length pre)) v = Some (pre @ x # v # post)"
  "aget (pre @ x # y # z # post) (Suc (Suc (length pre))) = Some z"
  "aset (pre @ x # y # z # post) (Suc (Suc (length pre))) v = Some (pre @ x # y # v # post)"
  by (simp_all add: aget_def aset_def nth_append list_update_append)

lemma simple_merge_correct:
  assumes cmp: "cf_comparator (gt_of cmp)"
    and "listp = pre @ A @ B @ post" "length pre = base" "length A = cnt1" "length B = cnt2" "0 < cnt1" "0 < cnt2"
    "cnt1 + cnt2 \<le> length tmp" "stable_sorted (gt_of cmp) xs A" "stable_sorted (gt_of cmp) ys B"
  shows "\<exists>C tmp'. CFSimpleMerge cmp base cnt1 cnt2 listp tmp = Some (pre @ C @ post, tmp') \<and>
    stable_sorted (gt_of cmp) (xs @ ys) C \<and> length tmp' = length tmp"
proof -
  have ne: "A \<noteq> []" "B \<noteq> []" using assms(4-7) by auto
  have get: "aget listp (base + cnt1 - 1) = Some (last A)" "aget listp (base + cnt1) = Some (hd B)"
  proof -
    have "listp = (pre @ butlast A) @ last A # (B @ post)" "base + cnt1 - 1 = length (pre @ butlast A)"
      "listp = (pre @ A) @ hd B # (tl B @ post)" "base + cnt1 = length (pre @ A)"
      using assms(2-7) ne by (simp_all add: Suc_leI)
    then show "aget listp (base + cnt1 - 1) = Some (last A)" "aget listp (base + cnt1) = Some (hd B)"
      by (metis aset_aget_mid(1))+
  qed
  show ?thesis
  proof (cases "16 < cnt1 + cnt2 \<and> cmp (last A) (hd B) \<noteq> kCFCompareGreaterThan")
    case True
    then have "stable_sorted (gt_of cmp) (xs @ ys) (A @ B)"
      using cf_comparator.stable_append[OF cmp assms(9,10) ne] by simp
    moreover have "CFSimpleMerge cmp base cnt1 cnt2 listp tmp = Some (pre @ (A @ B) @ post, tmp)"
      using True get assms(2,6,7) by (simp add: CFSimpleMerge_def)
    ultimately show ?thesis by blast
  next
    case False
    have "\<exists>tmp'. merge_loop cmp base cnt1 cnt2 (0 + 0) 0 (cnt1 + 0) listp tmp =
        Some (pre @ merge_ref (gt_of cmp) A B @ post, tmp') \<and> length tmp' = length tmp"
      by (rule merge_loop_correct[OF assms(2-5,7,8)]) simp_all
    then show ?thesis
      using False get assms(6,7) cf_comparator.stable_merge[OF cmp assms(9,10)] by (auto simp: CFSimpleMerge_def)
  qed
qed

lemma merge_sort_correct:
  assumes cmp: "cf_comparator (gt_of cmp)"
    and "listp = pre @ xs @ post" "length pre = base" "length xs = cnt" "cnt \<le> length tmp"
  shows "\<exists>ys tmp'. CFSimpleMergeSort cmp base cnt listp tmp = Some (pre @ ys @ post, tmp') \<and>
    stable_sorted (gt_of cmp) xs ys \<and> length tmp' = length tmp"
  using assms(2-5)
proof (induction cnt arbitrary: pre xs post base listp tmp rule: less_induct)
  case (less cnt)
  note prems = less.prems
  consider "cnt < 2" | "cnt = 2" | "cnt = 3" | "4 \<le> cnt" by linarith
  then show ?case
  proof cases
    case 1
    then have "stable_sorted (gt_of cmp) xs xs" using prems(3) by (cases xs) (auto simp: stable_sorted_def)
    then show ?thesis using 1 prems(1) by (simp add: CFSimpleMergeSort.simps[of cmp])
  next
    case 2
    then obtain a b where xs: "xs = [a, b]" using prems(3) by (auto simp: length_Suc_conv numeral_2_eq_2)
    have "stable_sorted (gt_of cmp) [a, b] (if cmp a b = kCFCompareGreaterThan then [b, a] else [a, b])"
      using cf_comparator.rearr_swap[OF cmp] cf_comparator.gt_asym[OF cmp] by (simp add: stable_sorted_def)
    then show ?thesis using 2 prems(1,2) xs
      by (cases "cmp a b = kCFCompareGreaterThan") (auto simp: CFSimpleMergeSort.simps[of cmp])
  next
    case 3
    then obtain a b c where xs: "xs = [a, b, c]" using prems(3) by (auto simp: length_Suc_conv numeral_3_eq_3)
    obtain x y z where sorted: "sort3 cmp a b c = (x, y, z)" by (cases "sort3 cmp a b c")
    have "stable_sorted (gt_of cmp) [a, b, c] [x, y, z]"
      by (rule cf_comparator.sort3_stable[OF cmp _ sorted]) simp
    then show ?thesis using 3 prems(1,2) xs sorted by (auto simp: CFSimpleMergeSort.simps[of cmp])
  next
    case 4
    define h where "h = cnt div 2"
    have h: "h < cnt" "0 < h" "cnt - h < cnt" "0 < cnt - h" "h + (cnt - h) = cnt" using 4 by (auto simp: h_def)
    obtain A t1 where A: "CFSimpleMergeSort cmp base h listp tmp = Some (pre @ A @ (drop h xs @ post), t1)"
      "stable_sorted (gt_of cmp) (take h xs) A" "length t1 = length tmp"
      using less.IH[OF h(1), of listp pre "take h xs" "drop h xs @ post" base tmp] prems h(1) by auto
    have lA: "length A = h" using A(2) rearr_length h(1) prems(3) by (fastforce simp: stable_sorted_def)
    obtain B t2 where B: "CFSimpleMergeSort cmp (base + h) (cnt - h) (pre @ A @ (drop h xs @ post)) t1 = Some ((pre @ A) @ B @ post, t2)"
      "stable_sorted (gt_of cmp) (drop h xs) B" "length t2 = length tmp"
      using less.IH[OF h(3), of "pre @ A @ (drop h xs @ post)" "pre @ A" "drop h xs" post "base + h" t1] prems A(3) lA h by auto
    have lB: "length B = cnt - h" using B(2) rearr_length prems(3) by (fastforce simp: stable_sorted_def)
    have room: "h + (cnt - h) \<le> length t2" using prems(4) B(3) h(5) by simp
    obtain C t3 where C: "CFSimpleMerge cmp base h (cnt - h) (pre @ A @ B @ post) t2 = Some (pre @ C @ post, t3)"
      "stable_sorted (gt_of cmp) (take h xs @ drop h xs) C" "length t3 = length t2"
      using simple_merge_correct[OF cmp refl prems(2) lA lB h(2,4) room A(2) B(2)] by blast
    show ?thesis
      using A(1) B(1,3) C 4 by (simp add: CFSimpleMergeSort.simps[of cmp base cnt] h_def[symmetric])
  qed
qed

section \<open>Sorting arrays\<close>

lemma stable_sorted_map:
  assumes "cf_comparator gt" "stable_sorted (\<lambda>a b. gt (f a) (f b)) is js"
  shows "stable_sorted gt (map f is) (map f js)"
proof -
  let ?gt = "\<lambda>a b. gt (f a) (f b)"
  have re: "mset js = mset is" "\<And>z. filter (eqv ?gt z) js = filter (eqv ?gt z) is" and sorted: "sorted_wrt (\<lambda>a b. \<not> ?gt a b) js"
    using assms(2) by (simp_all add: stable_sorted_def rearr_def)
  have "filter (eqv gt z) (map f js) = filter (eqv gt z) (map f is)" for z
  proof (cases "\<exists>i \<in> set is. eqv gt z (f i)")
    case True
    then obtain i where i: "eqv gt z (f i)" by blast
    have "eqv gt z (f j) \<longleftrightarrow> eqv ?gt i j" for j
      using i cf_comparator.le_trans[OF assms(1)] unfolding eqv_def by blast
    then show ?thesis using re(2)[of i] by (simp add: filter_map comp_def)
  next
    case False
    moreover have "set js = set is" using re(1) by (metis set_mset_mset)
    ultimately have "filter (eqv gt z) (map f is) = []" "filter (eqv gt z) (map f js) = []"
      by (auto simp: filter_empty_conv)
    then show ?thesis by simp
  qed
  moreover have "sorted_wrt (\<lambda>a b. \<not> gt a b) (map f js)" using sorted by (simp add: sorted_wrt_map)
  ultimately show ?thesis using re(1) by (simp add: stable_sorted_def rearr_def)
qed

lemma gather_correct:
  assumes "idx + n \<le> length js" "\<forall>i \<in> set js. i < length list"
  shows "gather list (map Some js) idx n = Some (map ((!) list) (take n (drop idx js)))"
  using assms(1)
proof (induction n arbitrary: idx)
  case (Suc n)
  have "drop idx js = js ! idx # drop (Suc idx) js" using Suc.prems by (simp add: Cons_nth_drop_Suc)
  then show ?case using Suc assms(2) by (simp add: rd_def aget_def)
qed simp

lemma qsort_correct:
  assumes "cf_comparator (gt_of comparator)" "length list \<le> MAX_INDEXES"
  shows "\<exists>ys. CFQSortArray comparator list = Some ys \<and> stable_sorted (gt_of comparator) list ys"
proof (cases "length list < 2")
  case True
  then have "stable_sorted (gt_of comparator) list list" by (cases list) (auto simp: stable_sorted_def)
  then show ?thesis using True by (simp add: CFQSortArray_def)
next
  case False
  let ?n = "length list" and ?cmp = "\<lambda>a b. comparator (list ! a) (list ! b)"
  have cmp: "cf_comparator (gt_of ?cmp)"
    using cf_comparator.gt_asym[OF assms(1)] cf_comparator.le_trans[OF assms(1)] by unfold_locales blast+
  obtain js t where js: "CFSimpleMergeSort ?cmp 0 ?n [0..<?n] (mem_alloc ?n) = Some (js, t)"
    "stable_sorted (gt_of ?cmp) [0..<?n] js"
    using merge_sort_correct[OF cmp, of "[0..<?n]" "[]" "[0..<?n]" "[]" 0 ?n "mem_alloc ?n"] by auto
  have set: "set js = {0..<?n}" and len: "length js = ?n"
    using js(2) rearr_set[of _ "[0..<?n]" js] rearr_length[of _ "[0..<?n]" js] by (auto simp: stable_sorted_def)
  have "CFSortIndexes (mem_alloc ?n) ?n ?cmp = Some (map Some js)"
    using js(1) False assms(2) by (auto simp: CFSortIndexes_def)
  moreover have "gather list (map Some js) 0 ?n = Some (map ((!) list) js)"
    using gather_correct[of 0 ?n js list] set len by simp
  moreover have "stable_sorted (gt_of comparator) list (map ((!) list) js)"
    using stable_sorted_map[OF assms(1) js(2)] by (simp add: map_nth)
  ultimately show ?thesis using False by (simp add: CFQSortArray_def Let_def)
qed

lemma zsort_pass_correct:
  assumes cmp: "cf_comparator (gt_of c)" "\<And>a b. c b a = kCFCompareLessThan \<longleftrightarrow> c a b = kCFCompareGreaterThan"
    and "array = pre @ xs @ post" "length pre = idx" "length xs = Suc n"
  shows "\<exists>ys. zsort_pass c idx n array = Some (pre @ ys @ post) \<and> rearr (gt_of c) xs ys \<and>
    (\<forall>x \<in> set ys. \<not> gt_of c x (last ys))"
  using assms(3-)
proof (induction n arbitrary: pre xs idx array)
  case 0
  then obtain x where "xs = [x]" by (auto simp: length_Suc_conv)
  then show ?case using 0 cf_comparator.gt_irrefl[OF cmp(1)] by (intro exI[of _ xs]) auto
next
  case (Suc n)
  then obtain a b rest where xs: "xs = a # b # rest" by (auto simp: length_Suc_conv)
  define u v where "u = (if gt_of c a b then b else a)" and "v = (if gt_of c a b then a else b)"
  have uv: "\<not> gt_of c u v" "rearr (gt_of c) xs (u # v # rest)"
    using cf_comparator.gt_asym[OF cmp(1)] cf_comparator.rearr_swap[OF cmp(1)] xs by (auto simp: u_def v_def)
  obtain ys where ys: "zsort_pass c (idx + 1) n (pre @ u # v # rest @ post) = Some ((pre @ [u]) @ ys @ post)"
    "rearr (gt_of c) (v # rest) ys" "\<forall>x \<in> set ys. \<not> gt_of c x (last ys)"
    using Suc.IH[of "pre @ u # v # rest @ post" "pre @ [u]" "v # rest" "idx + 1"] Suc.prems xs by auto
  have "v \<in> set ys" "ys \<noteq> []" using rearr_set[OF ys(2)] by auto
  then have "\<not> gt_of c u (last ys)" using uv(1) ys(3) cf_comparator.le_trans[OF cmp(1)] by blast
  moreover have "rearr (gt_of c) xs (u # ys)" by (rule rearr_trans[OF uv(2) rearr_Cons[OF ys(2)]])
  moreover have "zsort_pass c idx (Suc n) array = Some (pre @ (u # ys) @ post)"
    using ys(1) Suc.prems(1,2) xs by (auto simp: cmp(2) u_def v_def)
  ultimately show ?case using ys(3) \<open>ys \<noteq> []\<close> by (intro exI[of _ "u # ys"]) auto
qed

lemma zsort_correct:
  assumes cmp: "cf_comparator (gt_of c)" "\<And>a b. c b a = kCFCompareLessThan \<longleftrightarrow> c a b = kCFCompareGreaterThan"
    and "array = pre @ xs @ post" "length pre = loc" "length xs = cnt"
  shows "\<exists>ys. CFZSort c loc cnt array = Some (pre @ ys @ post) \<and> stable_sorted (gt_of c) xs ys"
  using assms(3-)
proof (induction cnt arbitrary: xs post array)
  case (Suc cnt)
  show ?case
  proof (cases "cnt = 0")
    case True
    then obtain x where "xs = [x]" using Suc.prems(3) by (auto simp: length_Suc_conv)
    then show ?thesis using True Suc.prems by (auto simp: stable_sorted_def)
  next
    case False
    obtain ys where ys: "zsort_pass c loc cnt array = Some (pre @ ys @ post)" "rearr (gt_of c) xs ys"
      "\<forall>x \<in> set ys. \<not> gt_of c x (last ys)"
      using zsort_pass_correct[OF cmp Suc.prems] by blast
    have len: "length ys = Suc cnt" using rearr_length[OF ys(2)] Suc.prems(3) by simp
    define m where "m = last ys"
    have split: "ys = butlast ys @ [m]" using len by (cases ys) (simp_all add: m_def)
    have "\<exists>zs. CFZSort c loc cnt (pre @ ys @ post) = Some (pre @ zs @ (m # post)) \<and> stable_sorted (gt_of c) (butlast ys) zs"
      by (rule Suc.IH) (use split len Suc.prems(2) in \<open>simp_all add: m_def\<close>)
    then obtain zs where zs: "CFZSort c loc cnt (pre @ ys @ post) = Some (pre @ zs @ (m # post))"
      "rearr (gt_of c) (butlast ys) zs" "sorted_wrt (\<lambda>a b. \<not> gt_of c a b) zs"
      by (auto simp: stable_sorted_def)
    have "\<not> gt_of c z m" if "z \<in> set zs" for z
      using that ys(3) rearr_set[OF zs(2)] in_set_butlastD[of z ys] by (simp add: m_def)
    moreover have "rearr (gt_of c) xs (zs @ [m])"
      using rearr_trans[OF ys(2)] rearr_append[OF zs(2) rearr_refl, of "[m]"] split by simp
    ultimately have "stable_sorted (gt_of c) xs (zs @ [m])" using zs(3) by (simp add: stable_sorted_def sorted_wrt_append)
    then show ?thesis using zs(1) ys(1) False by (intro exI[of _ "zs @ [m]"]) simp
  qed
qed (simp add: stable_sorted_def)

lemma array_sort_values:
  assumes "cf_comparator (\<lambda>a b. c a b = kCFCompareGreaterThan)"
    and "\<forall>a b. c b a = kCFCompareLessThan \<longleftrightarrow> c a b = kCFCompareGreaterThan"
    and "loc + len \<le> length array" "len \<le> 2 ^ 60 - 1"
  shows "\<exists>values. stable_sorted (gt_of c) (take len (drop loc array)) values \<and>
    (\<forall>unpaired. CFArraySortValues False unpaired c (CFRangeMake loc len) array =
      Some (take loc array @ values @ drop (loc + len) array))"
proof -
  let ?seg = "take len (drop loc array)"
  have split: "array = take loc array @ ?seg @ drop (loc + len) array"
    by (metis add.commute append_take_drop_id drop_drop)
  have lens: "length (take loc array) = loc" "length ?seg = len" using assms(3) by simp_all
  obtain ys where ys: "CFQSortArray c ?seg = Some ys" "stable_sorted (gt_of c) ?seg ys"
    using qsort_correct[OF assms(1), of ?seg] assms(4) lens(2) by auto
  obtain zs where zs: "CFZSort c loc len array = Some (take loc array @ zs @ drop (loc + len) array)"
    "stable_sorted (gt_of c) ?seg zs"
    using zsort_correct[OF assms(1) _ split lens] assms(2) by blast
  have same: "zs = ys" by (rule cf_comparator.stable_unique[OF assms(1) zs(2) ys(2)])
  have "CFQSortArray c xs = Some xs" if "length xs < 2" for xs using that by (simp add: CFQSortArray_def)
  then have "len < 2 \<Longrightarrow> ys = ?seg" using ys(1) lens(2) by fastforce
  then have "CFArraySortValues False unpaired c (CFRangeMake loc len) array =
      Some (take loc array @ ys @ drop (loc + len) array)" for unpaired
    using assms(3) ys(1) zs(1) same split by (auto simp: CFArraySortValues_def CFRangeMake_def Let_def)
  then show ?thesis using ys(2) by blast
qed

text \<open>
  C28. \<^verbatim>\<open>CFArraySortValues\<close> on a mutable array returns without touching anything outside its buffers. The
  values of the range are rearranged into ascending order, values that compare equal stay in the
  order they were in, and the values outside the range stay where they are. The bubble sort that is
  used when only one of the retain and release callbacks is present gives the same array as the
  merge sort.
\<close>

theorem array_sort_stable:
  assumes "cf_comparator (\<lambda>a b. c a b = kCFCompareGreaterThan)"
    and "\<forall>a b. c b a = kCFCompareLessThan \<longleftrightarrow> c a b = kCFCompareGreaterThan"
    and "loc + len \<le> length array" "len \<le> 2 ^ 60 - 1"
  shows "\<exists>values. (\<forall>unpaired. CFArraySortValues False unpaired c (CFRangeMake loc len) array =
      Some (take loc array @ values @ drop (loc + len) array)) \<and>
    mset values = mset (take len (drop loc array)) \<and>
    sorted_wrt (\<lambda>a b. c a b \<noteq> kCFCompareGreaterThan) values \<and>
    (\<forall>z. filter (\<lambda>y. c z y \<noteq> kCFCompareGreaterThan \<and> c y z \<noteq> kCFCompareGreaterThan) values =
      filter (\<lambda>y. c z y \<noteq> kCFCompareGreaterThan \<and> c y z \<noteq> kCFCompareGreaterThan) (take len (drop loc array)))"
  using array_sort_values[OF assms] unfolding stable_sorted_def rearr_def eqv_def[abs_def] by blast

text \<open>Numbers compared by their tens.\<close>

definition tens :: "nat \<Rightarrow> nat \<Rightarrow> CFComparisonResult" where
  "tens a b = (if a div 10 < b div 10 then kCFCompareLessThan
     else if b div 10 < a div 10 then kCFCompareGreaterThan else kCFCompareEqualTo)"

theorem array_sort_stable_witness:
  "CFArraySortValues False False tens (CFRangeMake 1 4) [99, 31, 12, 30, 11] = Some [99, 12, 11, 31, 30] \<and>
   CFArraySortValues False True tens (CFRangeMake 1 4) [99, 31, 12, 30, 11] = Some [99, 12, 11, 31, 30]"
proof -
  have "cf_comparator (\<lambda>a b. tens a b = kCFCompareGreaterThan)"
    by unfold_locales (auto simp: tens_def split: if_splits)
  moreover have "\<forall>a b. tens b a = kCFCompareLessThan \<longleftrightarrow> tens a b = kCFCompareGreaterThan"
    by (auto simp: tens_def)
  ultimately have "CFArraySortValues False False tens (CFRangeMake 1 4) [99, 31, 12, 30, 11] =
      CFArraySortValues False True tens (CFRangeMake 1 4) [99, 31, 12, 30, 11]"
    using array_sort_stable[of tens 1 4 "[99, 31, 12, 30, 11]"] by auto
  moreover have "CFArraySortValues False True tens (CFRangeMake 1 4) [99, 31, 12, 30, 11] = Some [99, 12, 11, 31, 30]"
  proof -
    have four: "4 = Suc (Suc (Suc (Suc 0)))" by simp
    show ?thesis unfolding four by (simp add: CFArraySortValues_def CFRangeMake_def aget_def aset_def tens_def)
  qed
  ultimately show ?thesis by simp
qed

end
