(* ===== verification/CF_RunLoop_State.thy ===== *)
theory CF_RunLoop_State
  imports CF_Prelude Complex_Main "HOL-Library.AList"
begin

unbundle bit_operations_syntax

text \<open>
  The state of run loops (\<^verbatim>\<open>CFRunLoop.c\<close>): modes, sources, observers, timers, the queue of blocks, and
  the operations that look a mode up, create the objects and read or set their flags.

  The configuration is the one of macOS (dispatch timers and kernel timers). Objects live in stores
  indexed by address and stay allocated. A mode is addressed by its run loop and its name, since run
  loops never delete a mode. A set is the list of its members; the order in which an application
  visits them is a parameter. Locks are not state: an operation runs alone between its callouts, and
  what other threads do in the meantime is part of what a callout or a wait may change. Times in
  seconds are exact rationals.
\<close>

section \<open>Types\<close>

type_synonym mode_name = string
type_synonym port = "32 word"
type_synonym tsr = "64 word"

abbreviation MACH_PORT_NULL :: port where
  "MACH_PORT_NULL \<equiv> 0"

definition kCFRunLoopDefaultMode :: mode_name where
  "kCFRunLoopDefaultMode = ''kCFRunLoopDefaultMode''"

definition kCFRunLoopCommonModes :: mode_name where
  "kCFRunLoopCommonModes = ''kCFRunLoopCommonModes''"

abbreviation (input) kCFRunLoopEntry :: "64 word" where "kCFRunLoopEntry \<equiv> 1"
abbreviation (input) kCFRunLoopBeforeTimers :: "64 word" where "kCFRunLoopBeforeTimers \<equiv> 2"
abbreviation (input) kCFRunLoopBeforeSources :: "64 word" where "kCFRunLoopBeforeSources \<equiv> 4"
abbreviation (input) kCFRunLoopBeforeWaiting :: "64 word" where "kCFRunLoopBeforeWaiting \<equiv> 32"
abbreviation (input) kCFRunLoopAfterWaiting :: "64 word" where "kCFRunLoopAfterWaiting \<equiv> 64"
abbreviation (input) kCFRunLoopExit :: "64 word" where "kCFRunLoopExit \<equiv> 128"

text \<open>
  The last two fields of a mode are the settings of the kernel's timers: the deadline and the leeway
  (in nanoseconds) given to the dispatch source, and the deadline given to the kernel timer port.
\<close>

record CFRunLoopMode =
  rlm_name :: mode_name
  rlm_stopped :: bool
  rlm_sources0 :: "ptr list option"
  rlm_sources1 :: "ptr list option"
  rlm_observers :: "ptr list option"
  rlm_timers :: "ptr list option"
  rlm_portToV1SourceMap :: "(port \<rightharpoonup> ptr) option"
  rlm_portSet :: "port list"
  rlm_observerMask :: "64 word"
  rlm_queuePort :: port
  rlm_timerFired :: bool
  rlm_dispatchTimerArmed :: bool
  rlm_timerPort :: port
  rlm_mkTimerArmed :: bool
  rlm_timerSoftDeadline :: tsr
  rlm_timerHardDeadline :: tsr
  rlm_dispatchTimer :: "(64 word \<times> 64 word) option"
  rlm_mkTimer :: "tsr option"

text \<open>The mode of a queued block is a string or a set of strings.\<close>

datatype block_mode = ModeName mode_name | ModeSet "mode_name list"

record block_item =
  bi_next :: ptr
  bi_mode :: block_mode
  bi_block :: ptr

record per_run_data =
  prd_a :: "32 word"
  prd_b :: "32 word"
  prd_stopped :: "32 word"
  prd_ignoreWakeUps :: "32 word"

datatype rl_item = SourceItem ptr | ObserverItem ptr | TimerItem ptr

record CFRunLoop =
  rl_wakeUpPort :: port
  rl_perRunData :: per_run_data
  rl_commonModes :: "mode_name list"
  rl_commonModeItems :: "rl_item list option"
  rl_currentMode :: "mode_name option"
  rl_modes :: "(mode_name \<times> CFRunLoopMode) list"
  rl_blocks_head :: ptr
  rl_blocks_tail :: ptr
  rl_sleeping :: bool
  rl_deallocating :: bool

text \<open>
  The contexts keep whether an optional callback is present. \<^verbatim>\<open>getPort\<close> is kept as the port it answers
  for the context's \<^verbatim>\<open>info\<close>, and \<^verbatim>\<open>retain\<close> as the function it computes. Of the callbacks that sources are
  compared by, \<^verbatim>\<open>hash\<close> and \<^verbatim>\<open>perform\<close> are kept as addresses (\<^verbatim>\<open>NULL\<close> if absent) and \<^verbatim>\<open>equal\<close> as an address
  with the function it computes.
\<close>

record CFRunLoopSource =
  rls_valid :: bool
  rls_signaled :: bool
  rls_order :: int
  rls_runLoops :: "ptr list option"
  rls_version :: int
  rls_info :: ptr
  rls_schedule :: bool
  rls_cancel :: bool
  rls_perform :: ptr
  rls_getPort :: port
  rls_hash :: ptr
  rls_equal :: "(ptr \<times> (ptr \<Rightarrow> ptr \<Rightarrow> bool)) option"

record CFRunLoopObserver =
  rlo_valid :: bool
  rlo_firing :: bool
  rlo_repeats :: bool
  rlo_runLoop :: ptr
  rlo_rlCount :: int
  rlo_activities :: "64 word"
  rlo_order :: int
  rlo_callout :: bool
  rlo_info :: ptr
  rlo_release :: bool

record CFRunLoopTimer =
  rlt_valid :: bool
  rlt_firing :: bool
  rlt_runLoop :: ptr
  rlt_rlModes :: "mode_name list"
  rlt_nextFireDate :: rat
  rlt_interval :: rat
  rlt_tolerance :: rat
  rlt_fireTSR :: tsr
  rlt_order :: int
  rlt_callout :: bool
  rlt_info :: ptr
  rlt_retain :: "(ptr \<Rightarrow> ptr) option"
  rlt_release :: bool

text \<open>Calls that leave the run loop, in the order they are made.\<close>

datatype rl_call =
    ScheduleSource ptr ptr mode_name
  | CancelSource ptr ptr mode_name
  | PerformSource0 ptr
  | PerformSource1 ptr
  | CallObserver ptr "64 word"
  | CallTimer ptr ptr
  | CallBlock ptr
  | ReleaseBlock ptr
  | ReleaseInfo ptr
  | ServiceMainQueue

record world =
  w_loop :: "ptr \<Rightarrow> CFRunLoop"
  w_source :: "ptr \<Rightarrow> CFRunLoopSource"
  w_observer :: "ptr \<Rightarrow> CFRunLoopObserver"
  w_timer :: "ptr \<Rightarrow> CFRunLoopTimer"
  w_blocks :: "ptr \<rightharpoonup> block_item"
  w_calls :: "rl_call list"
  w_woken :: "port list"
  w_tsr :: tsr
  w_time :: rat
  w_inMainQ :: bool

text \<open>
  What the run loop takes from outside: the order in which a hash table's members are visited, the
  effect of a callout, the tick rate of the clock, the main and the current run loop, whether this is
  the main thread, the ports of a new mode (its queue's and its kernel timer's; none if no mode can be
  allocated), the port of the main queue, the allocator, what a wait for a message delivers (to a set of
  ports, with or without a timeout of zero), what draining a mode's private queue does, and whether the
  timeout handler of the running activation has run.
\<close>

datatype mach_ret = MsgSuccess port | RcvTimedOut | RcvTooLarge | RcvError

record env =
  ev_names :: "mode_name list \<Rightarrow> mode_name list"
  ev_items :: "rl_item list \<Rightarrow> rl_item list"
  ev_ptrs :: "ptr list \<Rightarrow> ptr list"
  ev_callout :: "rl_call \<Rightarrow> world \<Rightarrow> world option"
  ev_rate :: rat
  ev_main :: ptr
  ev_current :: ptr
  ev_mainThread :: bool
  ev_linkedOnLion :: bool
  ev_newMode :: "world \<Rightarrow> (port \<times> port) option"
  ev_mainQueuePort :: port
  ev_malloc :: "(ptr \<rightharpoonup> block_item) \<Rightarrow> ptr"
  ev_wait :: "port list \<Rightarrow> bool \<Rightarrow> world \<Rightarrow> world \<times> mach_ret"
  ev_drain :: "ptr \<Rightarrow> mode_name \<Rightarrow> world \<Rightarrow> world"
  ev_timeout :: "world \<Rightarrow> bool"

section \<open>Access to the stores\<close>

definition upd_loop :: "world \<Rightarrow> ptr \<Rightarrow> (CFRunLoop \<Rightarrow> CFRunLoop) \<Rightarrow> world" where
  "upd_loop w rl f = w\<lparr>w_loop := (w_loop w)(rl := f (w_loop w rl))\<rparr>"

definition upd_source :: "world \<Rightarrow> ptr \<Rightarrow> (CFRunLoopSource \<Rightarrow> CFRunLoopSource) \<Rightarrow> world" where
  "upd_source w s f = w\<lparr>w_source := (w_source w)(s := f (w_source w s))\<rparr>"

definition upd_observer :: "world \<Rightarrow> ptr \<Rightarrow> (CFRunLoopObserver \<Rightarrow> CFRunLoopObserver) \<Rightarrow> world" where
  "upd_observer w s f = w\<lparr>w_observer := (w_observer w)(s := f (w_observer w s))\<rparr>"

definition upd_timer :: "world \<Rightarrow> ptr \<Rightarrow> (CFRunLoopTimer \<Rightarrow> CFRunLoopTimer) \<Rightarrow> world" where
  "upd_timer w s f = w\<lparr>w_timer := (w_timer w)(s := f (w_timer w s))\<rparr>"

definition get_mode :: "world \<Rightarrow> ptr \<Rightarrow> mode_name \<Rightarrow> CFRunLoopMode option" where
  "get_mode w rl n = map_of (rl_modes (w_loop w rl)) n"

definition upd_mode ::
    "world \<Rightarrow> ptr \<Rightarrow> mode_name \<Rightarrow> (CFRunLoopMode \<Rightarrow> CFRunLoopMode) \<Rightarrow> world" where
  "upd_mode w rl n f = upd_loop w rl (\<lambda>l. l\<lparr>rl_modes := AList.map_entry n f (rl_modes l)\<rparr>)"

definition new_mode :: "world \<Rightarrow> ptr \<Rightarrow> mode_name \<Rightarrow> CFRunLoopMode \<Rightarrow> world" where
  "new_mode w rl n m = upd_loop w rl (\<lambda>l. l\<lparr>rl_modes := rl_modes l @ [(n, m)]\<rparr>)"

definition do_callout :: "env \<Rightarrow> rl_call \<Rightarrow> world \<Rightarrow> world option" where
  "do_callout E c w = ev_callout E c (w\<lparr>w_calls := w_calls w @ [c]\<rparr>)"

text \<open>A loop over a list, each turn of which changes the state and may fail.\<close>

fun ofold :: "('a \<Rightarrow> 'w \<Rightarrow> 'w option) \<Rightarrow> 'a list \<Rightarrow> 'w \<Rightarrow> 'w option" where
  "ofold f [] w = Some w"
| "ofold f (x # xs) w = do { w1 \<leftarrow> f x w; ofold f xs w1 }"

text \<open>Sets and bags as lists, \<^verbatim>\<open>NULL\<close> standing for an empty one when it is only read.\<close>

definition set_add :: "'a \<Rightarrow> 'a list \<Rightarrow> 'a list" where
  "set_add x xs = (if x \<in> set xs then xs else xs @ [x])"

definition members :: "'a list option \<Rightarrow> 'a list" where
  "members c = (case c of None \<Rightarrow> [] | Some xs \<Rightarrow> xs)"

text \<open>
  A set whose values are compared by a callback, as \<^verbatim>\<open>CFBasicHash\<close> searches it: a member is found if it is the
  same pointer as the value or compares equal to it. A hash callback is taken to agree with the
  equality. Where several members compare equal to the value, the first of the list is found unless
  the value itself is a member; in the hash table this depends on the order of its buckets.
\<close>

definition set_find :: "('a \<Rightarrow> 'a \<Rightarrow> bool) \<Rightarrow> 'a \<Rightarrow> 'a list \<Rightarrow> 'a option" where
  "set_find eq x xs = (if x \<in> set xs then Some x else find (\<lambda>y. eq y x) xs)"

definition set_insert :: "('a \<Rightarrow> 'a \<Rightarrow> bool) \<Rightarrow> 'a \<Rightarrow> 'a list \<Rightarrow> 'a list" where
  "set_insert eq x xs = (if set_find eq x xs = None then xs @ [x] else xs)"

definition set_remove :: "('a \<Rightarrow> 'a \<Rightarrow> bool) \<Rightarrow> 'a \<Rightarrow> 'a list \<Rightarrow> 'a list" where
  "set_remove eq x xs = (case set_find eq x xs of None \<Rightarrow> xs | Some y \<Rightarrow> removeAll y xs)"

section \<open>Ports\<close>

definition CFPortSetInsert :: "port \<Rightarrow> port list \<Rightarrow> bool \<times> port list" where
  "CFPortSetInsert p ps = (if p = MACH_PORT_NULL then (False, ps) else (True, set_add p ps))"

definition CFPortSetRemove :: "port \<Rightarrow> port list \<Rightarrow> bool \<times> port list" where
  "CFPortSetRemove p ps =
     (if p = MACH_PORT_NULL then (False, ps) else (p \<in> set ps, removeAll p ps))"

section \<open>Flags of a run loop\<close>

text \<open>The data of the previous activation is returned, to be restored when this one ends.\<close>

definition CFRunLoopPushPerRunData :: "CFRunLoop \<Rightarrow> CFRunLoop \<times> per_run_data" where
  "CFRunLoopPushPerRunData l =
     (l\<lparr>rl_perRunData := \<lparr>prd_a = 0x4346524C, prd_b = 0x4346524C, prd_stopped = 0,
        prd_ignoreWakeUps = 0\<rparr>\<rparr>, rl_perRunData l)"

definition CFRunLoopPopPerRunData :: "CFRunLoop \<Rightarrow> per_run_data \<Rightarrow> CFRunLoop" where
  "CFRunLoopPopPerRunData l previous = l\<lparr>rl_perRunData := previous\<rparr>"

definition CFRunLoopIsStopped :: "CFRunLoop \<Rightarrow> bool" where
  "CFRunLoopIsStopped l \<longleftrightarrow> prd_stopped (rl_perRunData l) \<noteq> 0"

definition CFRunLoopSetStopped :: "CFRunLoop \<Rightarrow> CFRunLoop" where
  "CFRunLoopSetStopped l = l\<lparr>rl_perRunData := (rl_perRunData l)\<lparr>prd_stopped := 0x53544F50\<rparr>\<rparr>"

definition CFRunLoopUnsetStopped :: "CFRunLoop \<Rightarrow> CFRunLoop" where
  "CFRunLoopUnsetStopped l = l\<lparr>rl_perRunData := (rl_perRunData l)\<lparr>prd_stopped := 0\<rparr>\<rparr>"

definition CFRunLoopIsIgnoringWakeUps :: "CFRunLoop \<Rightarrow> bool" where
  "CFRunLoopIsIgnoringWakeUps l \<longleftrightarrow> prd_ignoreWakeUps (rl_perRunData l) \<noteq> 0"

definition CFRunLoopSetIgnoreWakeUps :: "CFRunLoop \<Rightarrow> CFRunLoop" where
  "CFRunLoopSetIgnoreWakeUps l =
     l\<lparr>rl_perRunData := (rl_perRunData l)\<lparr>prd_ignoreWakeUps := 0x57414B45\<rparr>\<rparr>"

definition CFRunLoopUnsetIgnoreWakeUps :: "CFRunLoop \<Rightarrow> CFRunLoop" where
  "CFRunLoopUnsetIgnoreWakeUps l = l\<lparr>rl_perRunData := (rl_perRunData l)\<lparr>prd_ignoreWakeUps := 0\<rparr>\<rparr>"

section \<open>Modes\<close>

text \<open>A mode as \<^verbatim>\<open>__CFRunLoopFindMode\<close> creates it.\<close>

definition fresh_mode :: "mode_name \<Rightarrow> port \<Rightarrow> port \<Rightarrow> port list \<Rightarrow> CFRunLoopMode" where
  "fresh_mode name queuePort timerPort portSet =
     \<lparr>rlm_name = name, rlm_stopped = False, rlm_sources0 = None, rlm_sources1 = None,
      rlm_observers = None, rlm_timers = None, rlm_portToV1SourceMap = None, rlm_portSet = portSet,
      rlm_observerMask = 0, rlm_queuePort = queuePort, rlm_timerFired = False,
      rlm_dispatchTimerArmed = False, rlm_timerPort = timerPort, rlm_mkTimerArmed = False,
      rlm_timerSoftDeadline = - 1, rlm_timerHardDeadline = - 1,
      rlm_dispatchTimer = None, rlm_mkTimer = None\<rparr>"

text \<open>
  \<^verbatim>\<open>__CFRunLoopFindMode\<close>: the new state and whether a mode is returned. A port that cannot be
  inserted into the new mode's port set aborts the program.
\<close>

definition CFRunLoopFindMode ::
    "env \<Rightarrow> world \<Rightarrow> ptr \<Rightarrow> mode_name \<Rightarrow> bool \<Rightarrow> (world \<times> bool) option" where
  "CFRunLoopFindMode E w rl modeName create =
     (case get_mode w rl modeName of
        Some _ \<Rightarrow> Some (w, True)
      | None \<Rightarrow>
          if \<not> create then Some (w, False)
          else (case ev_newMode E w of
             None \<Rightarrow> Some (w, False)
           | Some (queuePort, timerPort) \<Rightarrow>
               if queuePort = MACH_PORT_NULL then None
               else
                 let (ok1, ps1) = CFPortSetInsert queuePort [];
                     (ok2, ps2) = CFPortSetInsert timerPort ps1;
                     (ok3, ps3) = CFPortSetInsert (rl_wakeUpPort (w_loop w rl)) ps2
                 in if ok1 \<and> ok2 \<and> ok3
                    then Some (new_mode w rl modeName (fresh_mode modeName queuePort timerPort ps3), True)
                    else None))"

text \<open>Whether a queued block is to run in mode \<open>cur\<close>.\<close>

fun block_applies :: "mode_name list \<Rightarrow> mode_name \<Rightarrow> block_mode \<Rightarrow> bool" where
  "block_applies commonModes cur (ModeName m) \<longleftrightarrow>
     m = cur \<or> m = kCFRunLoopCommonModes \<and> cur \<in> set commonModes"
| "block_applies commonModes cur (ModeSet ms) \<longleftrightarrow>
     cur \<in> set ms \<or> kCFRunLoopCommonModes \<in> set ms \<and> cur \<in> set commonModes"

text \<open>The walk of \<^verbatim>\<open>__CFRunLoopModeIsEmpty\<close> along the queue, looking for a block to run.\<close>

partial_function (option) block_pending ::
    "(ptr \<rightharpoonup> block_item) \<Rightarrow> mode_name list \<Rightarrow> mode_name \<Rightarrow> ptr \<Rightarrow> bool option" where
  "block_pending m commonModes cur item =
     (if item = NULL then Some False
      else do {
        curr \<leftarrow> m item;
        if block_applies commonModes cur (bi_mode curr) then Some True
        else block_pending m commonModes cur (bi_next curr)
      })"

text \<open>The main queue is served by a common mode of the main run loop, outside of the main queue itself.\<close>

definition serves_main_queue :: "env \<Rightarrow> world \<Rightarrow> ptr \<Rightarrow> mode_name \<Rightarrow> bool" where
  "serves_main_queue E w rl n \<longleftrightarrow> ev_mainThread E \<and> \<not> w_inMainQ w \<and> ev_main E = rl \<and>
     n \<in> set (rl_commonModes (w_loop w rl))"

text \<open>\<^verbatim>\<open>__CFRunLoopModeIsEmpty\<close>; a missing mode is empty.\<close>

definition CFRunLoopModeIsEmpty :: "env \<Rightarrow> world \<Rightarrow> ptr \<Rightarrow> mode_name \<Rightarrow> bool option" where
  "CFRunLoopModeIsEmpty E w rl n =
     (case get_mode w rl n of
        None \<Rightarrow> Some True
      | Some rlm \<Rightarrow>
          if serves_main_queue E w rl n then Some False
          else if members (rlm_sources0 rlm) \<noteq> [] then Some False
          else if members (rlm_sources1 rlm) \<noteq> [] then Some False
          else if members (rlm_timers rlm) \<noteq> [] then Some False
          else do {
            pending \<leftarrow> block_pending (w_blocks w) (rl_commonModes (w_loop w rl)) n
                        (rl_blocks_head (w_loop w rl));
            Some (\<not> pending)
          })"

definition CFRunLoopFinished :: "env \<Rightarrow> world \<Rightarrow> ptr \<Rightarrow> mode_name \<Rightarrow> bool option" where
  "CFRunLoopFinished E w rl modeName =
     (case get_mode w rl modeName of
        None \<Rightarrow> Some True
      | Some _ \<Rightarrow> CFRunLoopModeIsEmpty E w rl modeName)"

definition CFRunLoopCopyAllModes :: "env \<Rightarrow> world \<Rightarrow> ptr \<Rightarrow> mode_name list" where
  "CFRunLoopCopyAllModes E w rl = ev_names E (map fst (rl_modes (w_loop w rl)))"

definition CFRunLoopCopyCurrentMode :: "world \<Rightarrow> ptr \<Rightarrow> mode_name option" where
  "CFRunLoopCopyCurrentMode w rl = rl_currentMode (w_loop w rl)"

definition CFRunLoopIsWaiting :: "world \<Rightarrow> ptr \<Rightarrow> bool" where
  "CFRunLoopIsWaiting w rl = rl_sleeping (w_loop w rl)"

text \<open>\<^verbatim>\<open>CFRunLoopWakeUp\<close>: the wake-up port holds at most one message.\<close>

definition CFRunLoopWakeUp :: "world \<Rightarrow> ptr \<Rightarrow> world" where
  "CFRunLoopWakeUp w rl =
     (if CFRunLoopIsIgnoringWakeUps (w_loop w rl) then w
      else w\<lparr>w_woken := set_add (rl_wakeUpPort (w_loop w rl)) (w_woken w)\<rparr>)"

definition CFRunLoopStop :: "world \<Rightarrow> ptr \<Rightarrow> world" where
  "CFRunLoopStop w rl =
     (if rl_currentMode (w_loop w rl) \<noteq> None
      then CFRunLoopWakeUp (upd_loop w rl CFRunLoopSetStopped) rl else w)"

definition CFRunLoopStopMode :: "env \<Rightarrow> world \<Rightarrow> ptr \<Rightarrow> mode_name \<Rightarrow> world option" where
  "CFRunLoopStopMode E w rl modeName = do {
     (w1, found) \<leftarrow> CFRunLoopFindMode E w rl modeName True;
     let w2 = (if found then upd_mode w1 rl modeName (\<lambda>m. m\<lparr>rlm_stopped := True\<rparr>) else w1);
     Some (CFRunLoopWakeUp w2 rl)
   }"

text \<open>\<^verbatim>\<open>__CFRunLoopCreate\<close>, at address \<open>rl\<close> with a newly allocated wake-up port.\<close>

definition CFRunLoopCreate :: "env \<Rightarrow> world \<Rightarrow> ptr \<Rightarrow> port \<Rightarrow> world option" where
  "CFRunLoopCreate E w rl wakeUpPort =
     (if wakeUpPort = MACH_PORT_NULL then None
      else do {
        let l = \<lparr>rl_wakeUpPort = wakeUpPort,
          rl_perRunData = \<lparr>prd_a = 0x4346524C, prd_b = 0x4346524C, prd_stopped = 0, prd_ignoreWakeUps = 0\<rparr>,
          rl_commonModes = [kCFRunLoopDefaultMode], rl_commonModeItems = None, rl_currentMode = None,
          rl_modes = [], rl_blocks_head = NULL, rl_blocks_tail = NULL,
          rl_sleeping = False, rl_deallocating = False\<rparr>;
        (w1, _) \<leftarrow> CFRunLoopFindMode E (upd_loop w rl (\<lambda>_. CFRunLoopSetIgnoreWakeUps l)) rl
                    kCFRunLoopDefaultMode True;
        Some w1
      })"

section \<open>Sources, observers\<close>

definition CFRunLoopSourceSignal :: "world \<Rightarrow> ptr \<Rightarrow> world" where
  "CFRunLoopSourceSignal w rls =
     (if rls_valid (w_source w rls) then upd_source w rls (\<lambda>s. s\<lparr>rls_signaled := True\<rparr>) else w)"

definition CFRunLoopSourceIsSignalled :: "world \<Rightarrow> ptr \<Rightarrow> bool" where
  "CFRunLoopSourceIsSignalled w rls = rls_signaled (w_source w rls)"

definition CFRunLoopSourceWakeUpRunLoops :: "env \<Rightarrow> world \<Rightarrow> ptr \<Rightarrow> world" where
  "CFRunLoopSourceWakeUpRunLoops E w rls =
     (if rls_valid (w_source w rls) \<and> rls_runLoops (w_source w rls) \<noteq> None
      then fold (\<lambda>rl w. CFRunLoopWakeUp w rl) (ev_ptrs E (members (rls_runLoops (w_source w rls)))) w
      else w)"

text \<open>
  \<^verbatim>\<open>__CFRunLoopSourceEqual\<close>, which \<^verbatim>\<open>CFEqual\<close> calls for two sources and so the sets of sources and of common items
  do. The client's \<^verbatim>\<open>equal\<close> callback is taken to have no effect.
\<close>

definition CFRunLoopSourceEqual :: "(ptr \<Rightarrow> CFRunLoopSource) \<Rightarrow> ptr \<Rightarrow> ptr \<Rightarrow> bool" where
  "CFRunLoopSourceEqual S rls1 rls2 =
     (if rls1 = rls2 then True
      else if rls_valid (S rls1) \<noteq> rls_valid (S rls2) then False
      else if rls_order (S rls1) \<noteq> rls_order (S rls2) then False
      else if rls_version (S rls1) \<noteq> rls_version (S rls2) then False
      else if rls_hash (S rls1) \<noteq> rls_hash (S rls2) then False
      else if map_option fst (rls_equal (S rls1)) \<noteq> map_option fst (rls_equal (S rls2)) then False
      else if rls_version (S rls1) = 0 \<and> rls_perform (S rls1) \<noteq> rls_perform (S rls2) then False
      else if rls_version (S rls1) = 1 \<and> rls_perform (S rls1) \<noteq> rls_perform (S rls2) then False
      else (case rls_equal (S rls1) of
          Some (_, equal) \<Rightarrow> equal (rls_info (S rls1)) (rls_info (S rls2))
        | None \<Rightarrow> rls_info (S rls1) = rls_info (S rls2)))"

text \<open>\<^verbatim>\<open>CFEqual\<close> on the common items: objects of different types are different, and observers and timers are compared by address.\<close>

fun item_equal :: "(ptr \<Rightarrow> CFRunLoopSource) \<Rightarrow> rl_item \<Rightarrow> rl_item \<Rightarrow> bool" where
  "item_equal S (SourceItem a) (SourceItem b) = CFRunLoopSourceEqual S a b"
| "item_equal S x y = (x = y)"

text \<open>
  The constructors, for an object at a given address. Of a source's context nothing is copied into the
  zeroed memory when its version is neither 0 nor 1.
\<close>

definition zero_context :: CFRunLoopSource where
  "zero_context = \<lparr>rls_valid = False, rls_signaled = False, rls_order = 0, rls_runLoops = None, rls_version = 0,
     rls_info = NULL, rls_schedule = False, rls_cancel = False, rls_perform = NULL, rls_getPort = MACH_PORT_NULL,
     rls_hash = NULL, rls_equal = None\<rparr>"

definition CFRunLoopSourceCreate ::
    "world \<Rightarrow> ptr \<Rightarrow> int \<Rightarrow> CFRunLoopSource \<Rightarrow> (ptr \<Rightarrow> ptr) option \<Rightarrow> world" where
  "CFRunLoopSourceCreate w rls order ctx retain =
     (let memory = (if rls_version ctx = 0 \<or> rls_version ctx = 1 then ctx else zero_context)
      in upd_source w rls (\<lambda>_. memory\<lparr>rls_valid := True, rls_signaled := False, rls_order := order,
           rls_runLoops := None,
           rls_info := (case retain of None \<Rightarrow> rls_info memory | Some f \<Rightarrow> f (rls_info ctx))\<rparr>))"

definition CFRunLoopObserverCreate ::
    "world \<Rightarrow> ptr \<Rightarrow> 64 word \<Rightarrow> bool \<Rightarrow> int \<Rightarrow> bool \<Rightarrow> (ptr \<times> (ptr \<Rightarrow> ptr) option \<times> bool) option \<Rightarrow> world" where
  "CFRunLoopObserverCreate w rlo activities repeats order callout ctx =
     upd_observer w rlo (\<lambda>_. \<lparr>rlo_valid = True, rlo_firing = False, rlo_repeats = repeats,
       rlo_runLoop = NULL, rlo_rlCount = 0, rlo_activities = activities, rlo_order = order,
       rlo_callout = callout,
       rlo_info = (case ctx of None \<Rightarrow> NULL | Some (info, retain, _) \<Rightarrow>
          (case retain of None \<Rightarrow> info | Some f \<Rightarrow> f info)),
       rlo_release = (case ctx of None \<Rightarrow> False | Some (_, _, release) \<Rightarrow> release)\<rparr>)"

definition CFRunLoopObserverSchedule :: "CFRunLoopObserver \<Rightarrow> ptr \<Rightarrow> CFRunLoopObserver" where
  "CFRunLoopObserverSchedule rlo rl =
     (let rlo1 = (if rlo_rlCount rlo = 0 then rlo\<lparr>rlo_runLoop := rl\<rparr> else rlo)
      in rlo1\<lparr>rlo_rlCount := rlo_rlCount rlo1 + 1\<rparr>)"

definition CFRunLoopObserverCancel :: "CFRunLoopObserver \<Rightarrow> CFRunLoopObserver" where
  "CFRunLoopObserverCancel rlo =
     (let rlo1 = rlo\<lparr>rlo_rlCount := rlo_rlCount rlo - 1\<rparr>
      in if rlo_rlCount rlo1 = 0 then rlo1\<lparr>rlo_runLoop := NULL\<rparr> else rlo1)"

section \<open>Lemmas on the stores\<close>

lemma upd_loop_sel [simp]:
  "w_loop (upd_loop w rl f) = (w_loop w)(rl := f (w_loop w rl))"
  "w_source (upd_loop w rl f) = w_source w"
  "w_observer (upd_loop w rl f) = w_observer w"
  "w_timer (upd_loop w rl f) = w_timer w"
  "w_blocks (upd_loop w rl f) = w_blocks w"
  "w_calls (upd_loop w rl f) = w_calls w"
  "w_woken (upd_loop w rl f) = w_woken w"
  "w_tsr (upd_loop w rl f) = w_tsr w"
  "w_time (upd_loop w rl f) = w_time w"
  "w_inMainQ (upd_loop w rl f) = w_inMainQ w"
  by (simp_all add: upd_loop_def)

lemma upd_source_sel [simp]:
  "w_loop (upd_source w s f) = w_loop w"
  "w_source (upd_source w s f) = (w_source w)(s := f (w_source w s))"
  "w_observer (upd_source w s f) = w_observer w"
  "w_timer (upd_source w s f) = w_timer w"
  "w_blocks (upd_source w s f) = w_blocks w"
  "w_calls (upd_source w s f) = w_calls w"
  "w_woken (upd_source w s f) = w_woken w"
  "w_tsr (upd_source w s f) = w_tsr w"
  "w_time (upd_source w s f) = w_time w"
  "w_inMainQ (upd_source w s f) = w_inMainQ w"
  by (simp_all add: upd_source_def)

lemma upd_observer_sel [simp]:
  "w_loop (upd_observer w s f) = w_loop w"
  "w_source (upd_observer w s f) = w_source w"
  "w_observer (upd_observer w s f) = (w_observer w)(s := f (w_observer w s))"
  "w_timer (upd_observer w s f) = w_timer w"
  "w_blocks (upd_observer w s f) = w_blocks w"
  "w_calls (upd_observer w s f) = w_calls w"
  "w_woken (upd_observer w s f) = w_woken w"
  "w_tsr (upd_observer w s f) = w_tsr w"
  "w_time (upd_observer w s f) = w_time w"
  "w_inMainQ (upd_observer w s f) = w_inMainQ w"
  by (simp_all add: upd_observer_def)

lemma upd_timer_sel [simp]:
  "w_loop (upd_timer w s f) = w_loop w"
  "w_source (upd_timer w s f) = w_source w"
  "w_observer (upd_timer w s f) = w_observer w"
  "w_timer (upd_timer w s f) = (w_timer w)(s := f (w_timer w s))"
  "w_blocks (upd_timer w s f) = w_blocks w"
  "w_calls (upd_timer w s f) = w_calls w"
  "w_woken (upd_timer w s f) = w_woken w"
  "w_tsr (upd_timer w s f) = w_tsr w"
  "w_time (upd_timer w s f) = w_time w"
  "w_inMainQ (upd_timer w s f) = w_inMainQ w"
  by (simp_all add: upd_timer_def)

lemma upd_mode_sel [simp]:
  "w_loop (upd_mode w rl n f) = (w_loop w)(rl := (w_loop w rl)\<lparr>rl_modes := AList.map_entry n f (rl_modes (w_loop w rl))\<rparr>)"
  "w_source (upd_mode w rl n f) = w_source w"
  "w_observer (upd_mode w rl n f) = w_observer w"
  "w_timer (upd_mode w rl n f) = w_timer w"
  "w_blocks (upd_mode w rl n f) = w_blocks w"
  "w_calls (upd_mode w rl n f) = w_calls w"
  "w_woken (upd_mode w rl n f) = w_woken w"
  "w_tsr (upd_mode w rl n f) = w_tsr w"
  "w_time (upd_mode w rl n f) = w_time w"
  "w_inMainQ (upd_mode w rl n f) = w_inMainQ w"
  by (simp_all add: upd_mode_def)

lemma new_mode_sel [simp]:
  "w_loop (new_mode w rl n m) = (w_loop w)(rl := (w_loop w rl)\<lparr>rl_modes := rl_modes (w_loop w rl) @ [(n, m)]\<rparr>)"
  "w_source (new_mode w rl n m) = w_source w"
  "w_observer (new_mode w rl n m) = w_observer w"
  "w_timer (new_mode w rl n m) = w_timer w"
  "w_blocks (new_mode w rl n m) = w_blocks w"
  "w_calls (new_mode w rl n m) = w_calls w"
  "w_woken (new_mode w rl n m) = w_woken w"
  "w_tsr (new_mode w rl n m) = w_tsr w"
  "w_time (new_mode w rl n m) = w_time w"
  "w_inMainQ (new_mode w rl n m) = w_inMainQ w"
  by (simp_all add: new_mode_def)
lemma get_mode_upd_object [simp]:
  "get_mode (upd_source w s f) rl n = get_mode w rl n"
  "get_mode (upd_observer w s g) rl n = get_mode w rl n"
  "get_mode (upd_timer w s h) rl n = get_mode w rl n"
  "get_mode (w\<lparr>w_calls := cs\<rparr>) rl n = get_mode w rl n"
  "get_mode (w\<lparr>w_woken := ps\<rparr>) rl n = get_mode w rl n"
  "get_mode (w\<lparr>w_blocks := bs\<rparr>) rl n = get_mode w rl n"
  by (simp_all add: get_mode_def)

lemma get_mode_upd_loop:
  "get_mode (upd_loop w rl f) rl' n =
     (if rl = rl' then map_of (rl_modes (f (w_loop w rl))) n else get_mode w rl' n)"
  by (simp add: get_mode_def)

lemma get_mode_upd_mode [simp]:
  "get_mode (upd_mode w rl n f) rl' n' =
     (if rl = rl' \<and> n = n' then map_option f (get_mode w rl' n') else get_mode w rl' n')"
  by (auto simp: get_mode_def map_of_map_entry split: option.split)

lemma get_mode_new_mode:
  "get_mode w rl n = None \<Longrightarrow> get_mode (new_mode w rl n m) rl' n' =
     (if rl = rl' \<and> n = n' then Some m else get_mode w rl' n')"
  by (auto simp: get_mode_def map_add_def split: option.split)

lemma set_set_add [simp]: "set (set_add x xs) = insert x (set xs)"
  by (auto simp: set_add_def)

lemma distinct_set_add [simp]: "distinct xs \<Longrightarrow> distinct (set_add x xs)"
  by (auto simp: set_add_def)

text \<open>A set whose equality is identity on its members, and one in which a value meets only itself.\<close>

lemma set_find_None: "set_find eq x xs = None \<longleftrightarrow> x \<notin> set xs \<and> (\<forall>y \<in> set xs. \<not> eq y x)"
  by (auto simp: set_find_def find_None_iff)

lemma set_find_Some: "set_find eq x xs = Some y \<Longrightarrow> y \<in> set xs \<and> (y = x \<or> eq y x)"
  by (auto simp: set_find_def find_Some_iff split: if_splits)

lemma set_find_self: "x \<in> set xs \<Longrightarrow> set_find eq x xs = Some x"
  by (simp add: set_find_def)

lemma set_find_apart:
  "(\<And>y. y \<in> set xs \<Longrightarrow> eq y x \<Longrightarrow> y = x) \<Longrightarrow> set_find eq x xs = (if x \<in> set xs then Some x else None)"
  by (auto simp: set_find_def find_None_iff)

lemma set_insert_apart:
  "(\<And>y. y \<in> set xs \<Longrightarrow> eq y x \<Longrightarrow> y = x) \<Longrightarrow> set_insert eq x xs = set_add x xs"
  by (simp add: set_insert_def set_add_def set_find_apart)

lemma set_remove_apart:
  "(\<And>y. y \<in> set xs \<Longrightarrow> eq y x \<Longrightarrow> y = x) \<Longrightarrow> set_remove eq x xs = removeAll x xs"
  by (simp add: set_remove_def set_find_apart)

lemma set_insert_new: "set_find eq x xs = None \<Longrightarrow> set_insert eq x xs = xs @ [x]"
  by (simp add: set_insert_def)

lemma set_remove_distinct: "distinct xs \<Longrightarrow> distinct (set_remove eq x xs)"
  by (auto simp: set_remove_def distinct_removeAll split: option.split)

lemma set_remove_subset: "set (set_remove eq x xs) \<subseteq> set xs"
  by (auto simp: set_remove_def split: option.split)

text \<open>Observers and timers are compared by address.\<close>

lemma item_equal_simps [simp]:
  "item_equal S y (ObserverItem x) \<longleftrightarrow> y = ObserverItem x" "item_equal S y (TimerItem x) \<longleftrightarrow> y = TimerItem x"
  by (cases y; auto)+

lemma item_set_simps [simp]:
  "set_find (item_equal S) (ObserverItem x) xs = None \<longleftrightarrow> ObserverItem x \<notin> set xs"
  "set_insert (item_equal S) (ObserverItem x) xs = set_add (ObserverItem x) xs"
  "set_remove (item_equal S) (ObserverItem x) xs = removeAll (ObserverItem x) xs"
  "set_find (item_equal S) (TimerItem x) xs = None \<longleftrightarrow> TimerItem x \<notin> set xs"
  "set_insert (item_equal S) (TimerItem x) xs = set_add (TimerItem x) xs"
  "set_remove (item_equal S) (TimerItem x) xs = removeAll (TimerItem x) xs"
  by (fastforce simp: set_find_None | rule set_insert_apart set_remove_apart, simp)+

lemma members_simps [simp]: "members None = []" "members (Some xs) = xs"
  by (simp_all add: members_def)

lemma set_members_map_option: "members (map_option f c) = (case c of None \<Rightarrow> [] | Some xs \<Rightarrow> f xs)"
  by (cases c) simp_all

lemma ofold_invariant:
  assumes "ofold f xs w = Some w'" "P w" "\<And>x w w'. x \<in> set xs \<Longrightarrow> P w \<Longrightarrow> f x w = Some w' \<Longrightarrow> P w'"
  shows "P w'"
  using assms
proof (induction xs arbitrary: w)
  case (Cons x xs)
  from Cons.prems(1) obtain w1 where w1: "f x w = Some w1" "ofold f xs w1 = Some w'"
    by (auto simp: bind_eq_Some_conv)
  have "P w1" using Cons.prems(2,3) w1(1) by (meson list.set_intros(1))
  show ?case by (rule Cons.IH[OF w1(2) \<open>P w1\<close>]) (meson Cons.prems(3) list.set_intros(2))
qed simp

lemma ofold_total:
  assumes "P w" "\<And>x w. x \<in> set xs \<Longrightarrow> P w \<Longrightarrow> \<exists>w'. f x w = Some w' \<and> P w'"
  shows "\<exists>w'. ofold f xs w = Some w' \<and> P w'"
  using assms
proof (induction xs arbitrary: w)
  case (Cons x xs)
  then obtain w1 where "f x w = Some w1" "P w1" by (metis list.set_intros(1))
  moreover have "\<exists>w'. ofold f xs w1 = Some w' \<and> P w'"
    by (rule Cons.IH[OF \<open>P w1\<close>]) (meson Cons.prems(2) list.set_intros(2))
  ultimately show ?case by simp
qed simp

lemma ofold_append: "ofold f (xs @ ys) w = do { w1 \<leftarrow> ofold f xs w; ofold f ys w1 }"
proof (induction xs arbitrary: w)
  case (Cons x xs)
  then show ?case by (cases "f x w") simp_all
qed simp

section \<open>A concrete state\<close>

text \<open>Objects as their constructors leave them, for evaluating the model.\<close>

definition blank_loop :: CFRunLoop where
  "blank_loop = \<lparr>rl_wakeUpPort = 1,
     rl_perRunData = \<lparr>prd_a = 0x4346524C, prd_b = 0x4346524C, prd_stopped = 0, prd_ignoreWakeUps = 0\<rparr>,
     rl_commonModes = [kCFRunLoopDefaultMode], rl_commonModeItems = None, rl_currentMode = None,
     rl_modes = [], rl_blocks_head = NULL, rl_blocks_tail = NULL, rl_sleeping = False,
     rl_deallocating = False\<rparr>"

definition blank_source :: CFRunLoopSource where
  "blank_source = \<lparr>rls_valid = True, rls_signaled = False, rls_order = 0, rls_runLoops = None,
     rls_version = 0, rls_info = NULL, rls_schedule = True, rls_cancel = True, rls_perform = 1,
     rls_getPort = 0, rls_hash = NULL, rls_equal = None\<rparr>"

definition blank_observer :: CFRunLoopObserver where
  "blank_observer = \<lparr>rlo_valid = True, rlo_firing = False, rlo_repeats = True, rlo_runLoop = NULL,
     rlo_rlCount = 0, rlo_activities = kCFRunLoopBeforeTimers, rlo_order = 0, rlo_callout = True,
     rlo_info = NULL, rlo_release = False\<rparr>"

definition blank_timer :: CFRunLoopTimer where
  "blank_timer = \<lparr>rlt_valid = True, rlt_firing = False, rlt_runLoop = NULL, rlt_rlModes = [],
     rlt_nextFireDate = 0, rlt_interval = 1, rlt_tolerance = 0, rlt_fireTSR = 30, rlt_order = 0,
     rlt_callout = True, rlt_info = NULL, rlt_retain = None, rlt_release = False\<rparr>"

text \<open>The sources have different info pointers, so that no two of them compare equal.\<close>

definition blank_world :: world where
  "blank_world = \<lparr>w_loop = (\<lambda>_. blank_loop), w_source = (\<lambda>a. blank_source\<lparr>rls_info := a\<rparr>),
     w_observer = (\<lambda>_. blank_observer), w_timer = (\<lambda>_. blank_timer), w_blocks = Map.empty,
     w_calls = [], w_woken = [], w_tsr = 0, w_time = 0, w_inMainQ = False\<rparr>"

text \<open>Surroundings in which callouts return without touching the run loop, and waits find nothing.\<close>

definition quiet_env :: env where
  "quiet_env = \<lparr>ev_names = id, ev_items = id, ev_ptrs = id, ev_callout = (\<lambda>c w. Some w), ev_rate = 1,
     ev_main = 1, ev_current = 1, ev_mainThread = False, ev_linkedOnLion = True,
     ev_newMode = (\<lambda>w. Some (2, 3)), ev_mainQueuePort = 0, ev_malloc = (\<lambda>m. 100),
     ev_wait = (\<lambda>ps poll w. (w, RcvTimedOut)), ev_drain = (\<lambda>rl n w. w), ev_timeout = (\<lambda>w. False)\<rparr>"

end
