(* ===== verification/CF_RunLoop_Timers.thy ===== *)
theory CF_RunLoop_Timers
  imports CF_RunLoop_State
begin

unbundle bit_operations_syntax

text \<open>
  Timers (\<^verbatim>\<open>CFRunLoop.c\<close>, \<^verbatim>\<open>CFDate.c\<close>): conversions between seconds and clock ticks, the sorted array of
  a mode's timers, arming the kernel timers for the next deadline, and the next date of a repeating
  timer. A conversion of a floating-point number outside the range of the target type is undefined.
\<close>

section \<open>Clock ticks\<close>

definition CFTimeIntervalToTSR :: "rat \<Rightarrow> rat \<Rightarrow> tsr option" where
  "CFTimeIntervalToTSR rate ti =
     (if ti * rate > of_int ((2 ^ 63 - 1) div 2) then Some (word_of_int ((2 ^ 63 - 1) div 2))
      else if ti * rate \<le> - 1 then None
      else Some (word_of_int (if ti * rate < 0 then 0 else \<lfloor>ti * rate\<rfloor>)))"

definition CFTSRToTimeInterval :: "rat \<Rightarrow> tsr \<Rightarrow> rat" where
  "CFTSRToTimeInterval rate tsr = of_nat (unat tsr) * (1 / rate)"

definition CFTimeIntervalUntilTSR :: "rat \<Rightarrow> tsr \<Rightarrow> tsr \<Rightarrow> rat" where
  "CFTimeIntervalUntilTSR rate now tsr =
     (if now \<le> tsr then CFTSRToTimeInterval rate (tsr - now)
      else - CFTSRToTimeInterval rate (now - tsr))"

definition CFTSRToNanoseconds :: "rat \<Rightarrow> tsr \<Rightarrow> 64 word option" where
  "CFTSRToNanoseconds rate tsr =
     (let ns = \<lfloor>of_nat (unat tsr) * (1 / rate) * 1000000000\<rfloor>
      in if 0 \<le> ns \<and> ns < 2 ^ 64 then Some (word_of_int ns) else None)"

text \<open>\<^verbatim>\<open>__CFTSRToDispatchTime\<close>, up to the call of \<^verbatim>\<open>dispatch_time\<close>.\<close>

definition CFTSRToDispatchTime :: "rat \<Rightarrow> tsr \<Rightarrow> 64 word option" where
  "CFTSRToDispatchTime rate tsr = do {
     ns \<leftarrow> CFTSRToNanoseconds rate tsr;
     Some (if ns > 2 ^ 63 - 1 - 1 then 2 ^ 63 - 1 - 1 else ns)
   }"

section \<open>The array of timers\<close>

text \<open>One turn of the search: \<open>add\<close> is halved, and the index moves up if it stays below the date.\<close>

fun insertion_loop :: "('a \<Rightarrow> 'k::linorder) \<Rightarrow> 'a list \<Rightarrow> 'a \<Rightarrow> nat \<Rightarrow> nat \<Rightarrow> nat" where
  "insertion_loop fireTSR array rlt add idx =
     (let add' = add div 2;
          testIdx = idx + add';
          lastTestLEQ = (testIdx < length array \<and> fireTSR (array ! testIdx) \<le> fireTSR rlt);
          idx' = (if lastTestLEQ then testIdx else idx)
      in if 0 < add' then insertion_loop fireTSR array rlt add' idx'
         else if lastTestLEQ then idx' + 1 else idx')"

declare insertion_loop.simps [simp del]

text \<open>\<^verbatim>\<open>1 << flsl(cnt)\<close> and its double are computed as \<^verbatim>\<open>int\<close>.\<close>

definition CFRunLoopInsertionIndexInTimerArray ::
    "('a \<Rightarrow> 'k::linorder) \<Rightarrow> 'a list \<Rightarrow> 'a \<Rightarrow> nat option" where
  "CFRunLoopInsertionIndexInTimerArray fireTSR array rlt =
     (let cnt = length array in
      if cnt \<le> 0 then Some 0
      else if 256 < cnt \<and> fireTSR (array ! (cnt - 1)) \<le> fireTSR rlt then Some cnt
      else if 256 < cnt \<and> fireTSR rlt < fireTSR (array ! 0) then Some 0
      else if 30 \<le> flsl cnt then None
      else Some (insertion_loop fireTSR array rlt (2 ^ flsl cnt * 2) 0))"

text \<open>\<^verbatim>\<open>CFArrayInsertValueAtIndex\<close>.\<close>

definition insert_at :: "nat \<Rightarrow> 'a \<Rightarrow> 'a list \<Rightarrow> 'a list" where
  "insert_at i x xs = take i xs @ x # drop i xs"

section \<open>Arming\<close>

text \<open>The latest date a timer may fire; an overflowing sum is replaced by the largest date.\<close>

definition timer_hard_deadline :: "rat \<Rightarrow> CFRunLoopTimer \<Rightarrow> tsr option" where
  "timer_hard_deadline rate t = do {
     tol \<leftarrow> CFTimeIntervalToTSR rate (rlt_tolerance t);
     Some (if unat (rlt_fireTSR t) + unat tol < 2 ^ 64 then rlt_fireTSR t + tol else - 1)
   }"

text \<open>The scan of \<^verbatim>\<open>__CFArmNextTimerInMode\<close>: the next hard and the next soft deadline.\<close>

fun arm_scan :: "rat \<Rightarrow> (ptr \<Rightarrow> CFRunLoopTimer) \<Rightarrow> tsr \<Rightarrow> tsr \<Rightarrow> ptr list \<Rightarrow> (tsr \<times> tsr) option" where
  "arm_scan rate T hard soft [] = Some (hard, soft)"
| "arm_scan rate T hard soft (t # ts) =
     (if rlt_firing (T t) then arm_scan rate T hard soft ts
      else do {
        oneHard \<leftarrow> timer_hard_deadline rate (T t);
        let oneSoft = rlt_fireTSR (T t);
        if oneSoft > hard then Some (hard, soft)
        else arm_scan rate T (if oneHard < hard then oneHard else hard)
               (if oneSoft < soft then oneSoft else soft) ts
      })"

definition cancel_mk_timer :: "CFRunLoopMode \<Rightarrow> CFRunLoopMode" where
  "cancel_mk_timer rlm =
     (if rlm_mkTimerArmed rlm \<and> rlm_timerPort rlm \<noteq> MACH_PORT_NULL
      then rlm\<lparr>rlm_mkTimer := None, rlm_mkTimerArmed := False\<rparr> else rlm)"

definition cancel_dispatch_timer :: "CFRunLoopMode \<Rightarrow> CFRunLoopMode" where
  "cancel_dispatch_timer rlm =
     (if rlm_dispatchTimerArmed rlm
      then rlm\<lparr>rlm_dispatchTimer := None, rlm_dispatchTimerArmed := False\<rparr> else rlm)"

definition arm_kernel_timer :: "rat \<Rightarrow> tsr \<Rightarrow> tsr \<Rightarrow> CFRunLoopMode \<Rightarrow> CFRunLoopMode option" where
  "arm_kernel_timer rate hard soft rlm = do {
     leeway \<leftarrow> CFTSRToNanoseconds rate (hard - soft);
     deadline \<leftarrow> CFTSRToDispatchTime rate soft;
     Some (if leeway > 0
       then (cancel_mk_timer rlm)\<lparr>rlm_dispatchTimer := Some (deadline, leeway), rlm_dispatchTimerArmed := True\<rparr>
       else (let rlm1 = cancel_dispatch_timer rlm
             in if rlm_timerPort rlm1 \<noteq> MACH_PORT_NULL
                then rlm1\<lparr>rlm_mkTimer := Some soft, rlm_mkTimerArmed := True\<rparr> else rlm1))
   }"

text \<open>The kernel timers are left alone when the deadlines have not changed.\<close>

definition arm_step :: "rat \<Rightarrow> tsr \<Rightarrow> tsr \<Rightarrow> CFRunLoopMode \<Rightarrow> CFRunLoopMode option" where
  "arm_step rate hard soft rlm =
     (if soft < - 1 \<and> (hard \<noteq> rlm_timerHardDeadline rlm \<or> soft \<noteq> rlm_timerSoftDeadline rlm)
      then arm_kernel_timer rate hard soft rlm
      else if soft = - 1 then Some (cancel_dispatch_timer (cancel_mk_timer rlm))
      else Some rlm)"

definition set_deadlines :: "tsr \<Rightarrow> tsr \<Rightarrow> CFRunLoopMode \<Rightarrow> CFRunLoopMode" where
  "set_deadlines hard soft rlm = rlm\<lparr>rlm_timerHardDeadline := hard, rlm_timerSoftDeadline := soft\<rparr>"

definition CFArmNextTimerInMode ::
    "rat \<Rightarrow> (ptr \<Rightarrow> CFRunLoopTimer) \<Rightarrow> CFRunLoopMode \<Rightarrow> CFRunLoopMode option" where
  "CFArmNextTimerInMode rate T rlm =
     (case rlm_timers rlm of
        None \<Rightarrow> Some (set_deadlines (- 1) (- 1) rlm)
      | Some ts \<Rightarrow> do {
          (hard, soft) \<leftarrow> arm_scan rate T (- 1) (- 1) ts;
          rlm1 \<leftarrow> arm_step rate hard soft rlm;
          Some (set_deadlines hard soft rlm1)
        })"

definition CFRepositionTimerInMode ::
    "rat \<Rightarrow> (ptr \<Rightarrow> CFRunLoopTimer) \<Rightarrow> CFRunLoopMode \<Rightarrow> ptr \<Rightarrow> bool \<Rightarrow> CFRunLoopMode option" where
  "CFRepositionTimerInMode rate T rlm rlt isInArray =
     (if rlt = NULL then Some rlm
      else case rlm_timers rlm of
        None \<Rightarrow> Some rlm
      | Some ts \<Rightarrow>
          if isInArray \<and> rlt \<notin> set ts then Some rlm
          else do {
            let ts1 = (if isInArray then remove1 rlt ts else ts);
            newIdx \<leftarrow> CFRunLoopInsertionIndexInTimerArray (\<lambda>t. rlt_fireTSR (T t)) ts1 rlt;
            CFArmNextTimerInMode rate T (rlm\<lparr>rlm_timers := Some (insert_at newIdx rlt ts1)\<rparr>)
          })"

section \<open>Dates\<close>

abbreviation (input) TIMER_DATE_LIMIT :: rat where "TIMER_DATE_LIMIT \<equiv> 4039289856"
abbreviation (input) TIMER_INTERVAL_LIMIT :: rat where "TIMER_INTERVAL_LIMIT \<equiv> 504911232"

text \<open>The ticks of a date: now, if it is past, and never further away than the limit.\<close>

definition fire_date_TSR :: "rat \<Rightarrow> world \<Rightarrow> rat \<Rightarrow> tsr option" where
  "fire_date_TSR rate w fireDate =
     (if fireDate < w_time w then Some (w_tsr w)
      else if TIMER_INTERVAL_LIMIT < fireDate - w_time w
      then map_option (\<lambda>d. w_tsr w + d) (CFTimeIntervalToTSR rate TIMER_INTERVAL_LIMIT)
      else map_option (\<lambda>d. w_tsr w + d) (CFTimeIntervalToTSR rate (fireDate - w_time w)))"

definition CFRunLoopTimerCreate ::
    "env \<Rightarrow> world \<Rightarrow> ptr \<Rightarrow> rat \<Rightarrow> rat \<Rightarrow> int \<Rightarrow> bool \<Rightarrow>
     (ptr \<times> (ptr \<Rightarrow> ptr) option \<times> bool) option \<Rightarrow> world option" where
  "CFRunLoopTimerCreate E w rlt fireDate interval order callout ctx = do {
     let date = (if TIMER_DATE_LIMIT < fireDate then TIMER_DATE_LIMIT else fireDate);
     tsr \<leftarrow> fire_date_TSR (ev_rate E) w date;
     Some (upd_timer w rlt (\<lambda>_. \<lparr>rlt_valid = True, rlt_firing = False, rlt_runLoop = NULL,
       rlt_rlModes = [], rlt_nextFireDate = date,
       rlt_interval = (if interval < 0 then 0 else interval), rlt_tolerance = 0, rlt_fireTSR = tsr,
       rlt_order = order, rlt_callout = callout,
       rlt_info = (case ctx of None \<Rightarrow> NULL | Some (info, retain, _) \<Rightarrow>
          (case retain of None \<Rightarrow> info | Some f \<Rightarrow> f info)),
       rlt_retain = (case ctx of None \<Rightarrow> None | Some (_, retain, _) \<Rightarrow> retain),
       rlt_release = (case ctx of None \<Rightarrow> False | Some (_, _, release) \<Rightarrow> release)\<rparr>))
   }"

definition CFRunLoopTimerSetTolerance :: "world \<Rightarrow> ptr \<Rightarrow> rat \<Rightarrow> world" where
  "CFRunLoopTimerSetTolerance w rlt tolerance =
     upd_timer w rlt (\<lambda>t. t\<lparr>rlt_tolerance :=
       (if rlt_interval t > 0 then min tolerance (rlt_interval t / 2)
        else if tolerance < 0 then 0 else tolerance)\<rparr>)"

definition CFRunLoopTimerGetNextFireDate :: "world \<Rightarrow> ptr \<Rightarrow> rat" where
  "CFRunLoopTimerGetNextFireDate w rlt =
     (if rlt_valid (w_timer w rlt) then rlt_nextFireDate (w_timer w rlt) else 0)"

definition CFRunLoopGetNextTimerFireDate :: "world \<Rightarrow> ptr \<Rightarrow> mode_name \<Rightarrow> rat" where
  "CFRunLoopGetNextTimerFireDate w rl modeName =
     (case get_mode w rl modeName of
        None \<Rightarrow> 0
      | Some rlm \<Rightarrow> (case members (rlm_timers rlm) of
          [] \<Rightarrow> 0 | t # _ \<Rightarrow> CFRunLoopTimerGetNextFireDate w t))"

text \<open>The interval of a timer in ticks, as \<^verbatim>\<open>__CFRunLoopDoTimer\<close> computes it.\<close>

definition timer_interval_TSR :: "rat \<Rightarrow> CFRunLoopTimer \<Rightarrow> tsr option" where
  "timer_interval_TSR rate t =
     (if rlt_interval t \<le> 0 then Some 0
      else if TIMER_INTERVAL_LIMIT < rlt_interval t then CFTimeIntervalToTSR rate TIMER_INTERVAL_LIMIT
      else CFTimeIntervalToTSR rate (rlt_interval t))"

partial_function (option) next_fire_loop :: "tsr \<Rightarrow> tsr \<Rightarrow> tsr \<Rightarrow> tsr option" where
  "next_fire_loop interval current nextFire =
     (if nextFire \<le> current then next_fire_loop interval current (nextFire + interval)
      else Some nextFire)"

text \<open>The next date of a repeating timer; an interval of no ticks aborts the program.\<close>

definition next_fire_TSR :: "tsr \<Rightarrow> tsr \<Rightarrow> tsr \<Rightarrow> tsr option" where
  "next_fire_TSR intervalTSR oldFireTSR currentTSR =
     (if 2 ^ 63 - 1 - intervalTSR \<le> oldFireTSR then Some (2 ^ 63 - 1)
      else if intervalTSR = 0 then None
      else next_fire_loop intervalTSR currentTSR oldFireTSR)"

section \<open>Insertion into a sorted array\<close>

text \<open>
  The contract shared by the array of timers (sorted by fire date) and the array of observers (sorted
  by order): a new element goes after the last element that is not greater. The index is only
  promised for arrays shorter than \<open>bound\<close>.
\<close>

locale ordered_array =
  fixes index :: "('a \<Rightarrow> 'k::linorder) \<Rightarrow> 'a list \<Rightarrow> 'a \<Rightarrow> nat option"
    and bound :: "nat option"
  assumes index_sorted: "sorted (map key xs) \<Longrightarrow> index key xs x = Some i \<Longrightarrow>
      i = length (takeWhile (\<lambda>y. key y \<le> key x) xs)"
    and index_defined: "(\<And>b. bound = Some b \<Longrightarrow> length xs < b) \<Longrightarrow> index key xs x \<noteq> None"
begin

lemma insert_split:
  assumes "sorted (map key xs)" "index key xs x = Some i"
  shows "insert_at i x xs = takeWhile (\<lambda>y. key y \<le> key x) xs @ x # dropWhile (\<lambda>y. key y \<le> key x) xs"
  by (simp add: index_sorted[OF assms] insert_at_def takeWhile_eq_take[symmetric] dropWhile_eq_drop[symmetric])

lemma insert_keeps_sorted:
  assumes "sorted (map key xs)" "index key xs x = Some i"
  shows "sorted (map key (insert_at i x xs))"
proof -
  let ?P = "\<lambda>y. key y \<le> key x"
  have "sorted (map key (takeWhile ?P xs @ dropWhile ?P xs))" using assms(1) by simp
  then have s: "sorted (map key (takeWhile ?P xs))" "sorted (map key (dropWhile ?P xs))"
    by (simp_all add: sorted_append del: takeWhile_dropWhile_id)
  have d: "key x \<le> key y" if "y \<in> set (dropWhile ?P xs)" for y
  proof (cases "dropWhile ?P xs")
    case Nil
    then show ?thesis using that by (simp only: Nil list.set empty_iff)
  next
    case (Cons z zs)
    then have "key x < key z" using hd_dropWhile[of ?P xs] by auto
    moreover have "key z \<le> key y" using s(2) that Cons by auto
    ultimately show ?thesis by simp
  qed
  show ?thesis
    unfolding insert_split[OF assms] using s d
    by (auto simp: sorted_append dest: set_takeWhileD intro: order_trans)
qed

end

lemma set_insert_at [simp]: "set (insert_at i x xs) = insert x (set xs)"
  by (metis append_take_drop_id insert_at_def list.simps(15) set_append Un_insert_right)

lemma length_insert_at [simp]: "length (insert_at i x xs) = Suc (length xs)"
  by (simp add: insert_at_def)

lemma distinct_insert_at [simp]: "distinct (insert_at i x xs) \<longleftrightarrow> x \<notin> set xs \<and> distinct xs"
proof -
  have "mset (insert_at i x xs) = mset (x # xs)"
    unfolding insert_at_def by (metis append_take_drop_id mset.simps(2) mset_append union_mset_add_mset_right)
  then have "distinct (insert_at i x xs) \<longleftrightarrow> distinct (x # xs)"
    by (metis mset_eq_imp_distinct_iff)
  then show ?thesis by simp
qed

lemma filter_insert_at: "\<not> P x \<Longrightarrow> filter P (insert_at i x xs) = filter P xs"
  unfolding insert_at_def by (metis append_take_drop_id filter.simps(2) filter_append)

subsection \<open>The binary search of the timer array\<close>

lemma takeWhile_less_iff:
  assumes "sorted (map key xs)" "i < length xs"
  shows "i < length (takeWhile (\<lambda>y. key y \<le> x) xs) \<longleftrightarrow> key (xs ! i) \<le> (x :: 'k::linorder)"
proof
  assume "i < length (takeWhile (\<lambda>y. key y \<le> x) xs)"
  then show "key (xs ! i) \<le> x" by (metis nth_mem set_takeWhileD takeWhile_nth)
next
  assume le: "key (xs ! i) \<le> x"
  show "i < length (takeWhile (\<lambda>y. key y \<le> x) xs)"
  proof (rule ccontr)
    assume "\<not> i < length (takeWhile (\<lambda>y. key y \<le> x) xs)"
    then have p: "length (takeWhile (\<lambda>y. key y \<le> x) xs) \<le> i" by simp
    then have "\<not> key (xs ! length (takeWhile (\<lambda>y. key y \<le> x) xs)) \<le> x"
      using assms(2) nth_length_takeWhile[of "\<lambda>y. key y \<le> x" xs] by simp
    moreover have "key (xs ! length (takeWhile (\<lambda>y. key y \<le> x) xs)) \<le> key (xs ! i)"
      using sorted_nth_mono[OF assms(1) p] assms(2) p by simp
    ultimately show False using le by simp
  qed
qed

lemma insertion_loop_correct:
  assumes "sorted (map key xs)" "xs \<noteq> []"
    and "p = length (takeWhile (\<lambda>y. key y \<le> key x) xs)"
    and "idx = 0 \<or> idx < p" "p \<le> idx + 2 ^ k"
  shows "insertion_loop key xs x (2 ^ k) idx = p"
  using assms(4,5)
proof (induction k arbitrary: idx)
  case 0
  have "idx < length xs" using 0(1) assms(2,3) length_takeWhile_le[of "\<lambda>y. key y \<le> key x" xs] by auto
  then have "key (xs ! idx) \<le> key x \<longleftrightarrow> idx < p"
    using takeWhile_less_iff[OF assms(1)] assms(3) by auto
  then show ?case using 0 \<open>idx < length xs\<close> by (auto simp: insertion_loop.simps[of key xs x "Suc 0"] Let_def)
next
  case (Suc k)
  let ?t = "idx + 2 ^ k"
  have half: "2 ^ Suc k div 2 = (2 :: nat) ^ k" by simp
  have iff: "?t < length xs \<and> key (xs ! ?t) \<le> key x \<longleftrightarrow> ?t < p"
    using takeWhile_less_iff[OF assms(1), of ?t "key x"] assms(3)
      length_takeWhile_le[of "\<lambda>y. key y \<le> key x" xs] by (metis order_less_le_trans)
  have step: "insertion_loop key xs x (2 ^ Suc k) idx =
      insertion_loop key xs x (2 ^ k) (if ?t < p then ?t else idx)"
    unfolding insertion_loop.simps[of key xs x "2 ^ Suc k" idx] Let_def half iff by simp
  show ?case
  proof (cases "?t < p")
    case True
    then have "insertion_loop key xs x (2 ^ k) ?t = p" using Suc.IH[of ?t] Suc.prems(2) by simp
    then show ?thesis unfolding step using True by simp
  next
    case False
    then have "insertion_loop key xs x (2 ^ k) idx = p" using Suc.IH[of idx] Suc.prems(1) by simp
    then show ?thesis unfolding step using False by simp
  qed
qed

lemma insertion_index_correct:
  assumes s: "sorted (map key xs)" and i: "CFRunLoopInsertionIndexInTimerArray key xs x = Some i"
  shows "i = length (takeWhile (\<lambda>y. key y \<le> key x) xs)"
proof (cases "xs = []")
  case True
  then show ?thesis using i by (simp add: CFRunLoopInsertionIndexInTimerArray_def)
next
  case False
  let ?p = "length (takeWhile (\<lambda>y. key y \<le> key x) xs)"
  have ple: "?p \<le> length xs" by (rule length_takeWhile_le)
  have last: "?p = length xs" if "key (xs ! (length xs - 1)) \<le> key x"
    using takeWhile_less_iff[OF s, of "length xs - 1" "key x"] that False ple
    by (metis One_nat_def Suc_pred diff_less length_greater_0_conv le_antisym less_one Suc_leI)
  have first: "?p = 0" if "key x < key (xs ! 0)"
    using takeWhile_less_iff[OF s, of 0 "key x"] that False by force
  have "length xs < 2 ^ flsl (length xs)" by (rule flsl_upper)
  then have "insertion_loop key xs x (2 ^ Suc (flsl (length xs))) 0 = ?p"
    using insertion_loop_correct[OF s False refl, where idx = 0 and k = "Suc (flsl (length xs))"] ple by simp
  then show ?thesis
    using i last first False
    by (auto simp: CFRunLoopInsertionIndexInTimerArray_def Let_def mult.commute split: if_splits)
qed

lemma insertion_index_defined:
  assumes "length xs < 2 ^ 29"
  shows "CFRunLoopInsertionIndexInTimerArray key xs x \<noteq> None"
proof -
  have "flsl (length xs) \<le> 29" using assms by (simp add: flsl_le_iff)
  then show ?thesis by (simp add: CFRunLoopInsertionIndexInTimerArray_def Let_def)
qed

interpretation timer_array:
  ordered_array "CFRunLoopInsertionIndexInTimerArray :: ('a \<Rightarrow> 'k::linorder) \<Rightarrow> _" "Some (2 ^ 29)"
  by unfold_locales (erule (1) insertion_index_correct, rule insertion_index_defined, simp)

section \<open>The next deadlines\<close>

text \<open>Reference: the earliest soft and hard deadlines of the timers that are not firing.\<close>

definition waiting :: "(ptr \<Rightarrow> CFRunLoopTimer) \<Rightarrow> ptr list \<Rightarrow> ptr set" where
  "waiting T ts = {t \<in> set ts. \<not> rlt_firing (T t)}"

definition next_soft :: "(ptr \<Rightarrow> CFRunLoopTimer) \<Rightarrow> ptr list \<Rightarrow> tsr" where
  "next_soft T ts = Min (insert (- 1) ((\<lambda>t. rlt_fireTSR (T t)) ` waiting T ts))"

definition next_hard :: "rat \<Rightarrow> (ptr \<Rightarrow> CFRunLoopTimer) \<Rightarrow> ptr list \<Rightarrow> tsr" where
  "next_hard rate T ts = Min (insert (- 1) ((\<lambda>t. the (timer_hard_deadline rate (T t))) ` waiting T ts))"

lemma finite_waiting [simp]: "finite (waiting T ts)"
  by (simp add: waiting_def)

lemma waiting_Cons:
  "waiting T (t # ts) = (if rlt_firing (T t) then waiting T ts else insert t (waiting T ts))"
  by (auto simp: waiting_def)

lemma soft_le_hard:
  assumes "timer_hard_deadline rate t = Some h"
  shows "rlt_fireTSR t \<le> h"
proof -
  obtain tol where tol: "CFTimeIntervalToTSR rate (rlt_tolerance t) = Some tol"
    and h: "h = (if unat (rlt_fireTSR t) + unat tol < 2 ^ 64 then rlt_fireTSR t + tol else - 1)"
    using assms by (auto simp: timer_hard_deadline_def bind_eq_Some_conv)
  show ?thesis
  proof (cases "unat (rlt_fireTSR t) + unat tol < 2 ^ 64")
    case True
    then have "unat (rlt_fireTSR t + tol) = unat (rlt_fireTSR t) + unat tol"
      by (simp add: unat_word_ariths)
    then show ?thesis using True h by (simp add: word_le_nat_alt)
  qed (simp add: h)
qed

lemma arm_scan_correct:
  assumes "sorted (map (\<lambda>t. rlt_fireTSR (T t)) ts)"
    and "\<forall>t \<in> waiting T ts. timer_hard_deadline rate (T t) \<noteq> None"
    and "soft \<le> hard"
  shows "arm_scan rate T hard soft ts =
    Some (Min (insert hard ((\<lambda>t. the (timer_hard_deadline rate (T t))) ` waiting T ts)),
          Min (insert soft ((\<lambda>t. rlt_fireTSR (T t)) ` waiting T ts)))"
  using assms
proof (induction ts arbitrary: hard soft)
  case Nil
  then show ?case by (simp add: waiting_def)
next
  case (Cons t ts)
  let ?F = "\<lambda>t. rlt_fireTSR (T t)" and ?H = "\<lambda>t. the (timer_hard_deadline rate (T t))"
  have sorted: "sorted (map ?F ts)" "\<forall>u \<in> set ts. ?F t \<le> ?F u" using Cons.prems(1) by simp_all
  show ?case
  proof (cases "rlt_firing (T t)")
    case True
    then show ?thesis using Cons.IH[OF sorted(1) _ Cons.prems(3)] Cons.prems(2) by (simp add: waiting_Cons)
  next
    case False
    then obtain h where h: "timer_hard_deadline rate (T t) = Some h"
      using Cons.prems(2) by (auto simp: waiting_Cons)
    have ws: "waiting T ts \<subseteq> set ts" by (auto simp: waiting_def)
    have FH: "?F u \<le> ?H u" if "u \<in> waiting T ts" for u
      using Cons.prems(2) that False soft_le_hard by (fastforce simp: waiting_Cons)
    have Fh: "?F t \<le> h" using h by (rule soft_le_hard)
    show ?thesis
    proof (cases "?F t > hard")
      case True
      have late: "hard < ?F u" "hard < ?H u" if "u \<in> waiting T ts" for u
        using FH[OF that] sorted(2) ws that True by (force intro: less_le_trans)+
      have "Min (insert hard (?H ` insert t (waiting T ts))) = hard"
        using late(2) h Fh True by (intro Min_eqI) (auto intro: less_imp_le)
      moreover have "Min (insert soft (?F ` insert t (waiting T ts))) = soft"
        using late(1) True Cons.prems(3) by (intro Min_eqI) (auto intro: less_imp_le le_less_trans)
      ultimately show ?thesis using False True h by (simp add: waiting_Cons)
    next
      case early: False
      have "min soft (?F t) \<le> min hard h" using early Fh Cons.prems(3) by (auto simp: min_def)
      from Cons.IH[OF sorted(1) _ this]
      have IH: "arm_scan rate T (min hard h) (min soft (?F t)) ts =
        Some (Min (insert (min hard h) (?H ` waiting T ts)), Min (insert (min soft (?F t)) (?F ` waiting T ts)))"
        using Cons.prems(2) False by (simp add: waiting_Cons)
      have m: "min a (Min (insert b A)) = Min (insert (min a b) A)" if "finite A" for a b :: tsr and A
        using that by (cases "A = {}") (simp_all add: min.assoc)
      have "(if h < hard then h else hard) = min hard h" "(if ?F t < soft then ?F t else soft) = min soft (?F t)"
        by (auto simp: min_def)
      then show ?thesis using False early h IH by (simp add: waiting_Cons m)
    qed
  qed
qed

lemma arm_scan_next:
  assumes "sorted (map (\<lambda>t. rlt_fireTSR (T t)) ts)"
    and "\<forall>t \<in> waiting T ts. timer_hard_deadline rate (T t) \<noteq> None"
  shows "arm_scan rate T (- 1) (- 1) ts = Some (next_hard rate T ts, next_soft T ts)"
  using arm_scan_correct[OF assms, of "- 1" "- 1"] by (simp add: next_hard_def next_soft_def)

text \<open>What the kernel timers are set to: the dispatch source if there is any leeway, else the timer port.\<close>

definition armed_for :: "rat \<Rightarrow> tsr \<Rightarrow> tsr \<Rightarrow> CFRunLoopMode \<Rightarrow> bool" where
  "armed_for rate hard soft m \<longleftrightarrow>
     (case (CFTSRToNanoseconds rate (hard - soft), CFTSRToDispatchTime rate soft) of
        (Some leeway, Some deadline) \<Rightarrow>
          if leeway > 0 then rlm_dispatchTimer m = Some (deadline, leeway) \<and> rlm_mkTimer m = None
          else rlm_dispatchTimer m = None \<and> rlm_mkTimer m = Some soft
      | _ \<Rightarrow> False)"

definition disarmed :: "CFRunLoopMode \<Rightarrow> bool" where
  "disarmed m \<longleftrightarrow> rlm_dispatchTimer m = None \<and> rlm_mkTimer m = None"

text \<open>The flags tell which timer is set, and recorded deadlines are the ones the timers are set for.\<close>

definition arm_ok :: "rat \<Rightarrow> CFRunLoopMode \<Rightarrow> bool" where
  "arm_ok rate m \<longleftrightarrow> rlm_timerPort m \<noteq> MACH_PORT_NULL \<and>
     (rlm_mkTimerArmed m \<longleftrightarrow> rlm_mkTimer m \<noteq> None) \<and>
     (rlm_dispatchTimerArmed m \<longleftrightarrow> rlm_dispatchTimer m \<noteq> None) \<and>
     (rlm_timerSoftDeadline m \<noteq> - 1 \<longrightarrow>
        armed_for rate (rlm_timerHardDeadline m) (rlm_timerSoftDeadline m) m)"

lemmas arm_defs = arm_ok_def armed_for_def disarmed_def cancel_mk_timer_def cancel_dispatch_timer_def

lemma arm_kernel_timer_correct:
  assumes "arm_ok rate m"
    and "CFTSRToNanoseconds rate (hard - soft) = Some leeway" "CFTSRToDispatchTime rate soft = Some deadline"
  shows "\<exists>m'. arm_kernel_timer rate hard soft m = Some m' \<and>
    arm_ok rate (set_deadlines hard soft m') \<and> armed_for rate hard soft m'"
  using assms
  by (cases "leeway = 0") (auto simp: arm_kernel_timer_def arm_defs set_deadlines_def Let_def word_gt_0)

lemma arm_ok_unchanged:
  assumes "arm_ok rate m" "soft \<noteq> - 1"
    and "hard = rlm_timerHardDeadline m" "soft = rlm_timerSoftDeadline m"
  shows "arm_ok rate (set_deadlines hard soft m) \<and> armed_for rate hard soft m"
  using assms by (simp add: arm_ok_def set_deadlines_def)

lemma arm_disarm:
  assumes "arm_ok rate m"
  shows "arm_ok rate (set_deadlines hard (- 1) (cancel_dispatch_timer (cancel_mk_timer m))) \<and>
    disarmed (cancel_dispatch_timer (cancel_mk_timer m))"
  using assms by (auto simp: arm_defs set_deadlines_def)

lemma word_less_max: "(x :: 64 word) < - 1 \<longleftrightarrow> x \<noteq> - 1"
  by (metis order_less_le word_order.extremum)

lemma armed_disarmed_deadlines:
  "disarmed (set_deadlines h s m) \<longleftrightarrow> disarmed m"
  "armed_for rate h' s' (set_deadlines h s m) \<longleftrightarrow> armed_for rate h' s' m"
  by (simp_all add: disarmed_def armed_for_def set_deadlines_def split: option.split)

lemma arm_step_correct:
  assumes ok: "arm_ok rate m"
    and conv: "CFTSRToNanoseconds rate (h - s) = Some leeway" "CFTSRToDispatchTime rate s = Some deadline"
  shows "\<exists>m1. arm_step rate h s m = Some m1 \<and> arm_ok rate (set_deadlines h s m1) \<and>
    (if s = - 1 then disarmed m1 else armed_for rate h s m1)"
proof (cases "s = - 1")
  case True
  then show ?thesis using arm_disarm[OF ok, of h] by (simp add: arm_step_def)
next
  case False
  show ?thesis
  proof (cases "h \<noteq> rlm_timerHardDeadline m \<or> s \<noteq> rlm_timerSoftDeadline m")
    case True
    then show ?thesis using False arm_kernel_timer_correct[OF ok conv] by (simp add: arm_step_def word_less_max)
  next
    case same: False
    then show ?thesis using False arm_ok_unchanged[OF ok False, of h] by (simp add: arm_step_def)
  qed
qed

lemma arm_next_correct:
  assumes "rlm_timers m = Some ts" "sorted (map (\<lambda>t. rlt_fireTSR (T t)) ts)" "arm_ok rate m"
    and "\<forall>t \<in> waiting T ts. timer_hard_deadline rate (T t) \<noteq> None"
    and "CFTSRToNanoseconds rate (next_hard rate T ts - next_soft T ts) \<noteq> None"
    and "CFTSRToDispatchTime rate (next_soft T ts) \<noteq> None"
  shows "\<exists>m'. CFArmNextTimerInMode rate T m = Some m' \<and>
    rlm_timerSoftDeadline m' = next_soft T ts \<and> rlm_timerHardDeadline m' = next_hard rate T ts \<and>
    arm_ok rate m' \<and>
    (if next_soft T ts = - 1 then disarmed m'
     else armed_for rate (next_hard rate T ts) (next_soft T ts) m')"
proof -
  let ?h = "next_hard rate T ts" and ?s = "next_soft T ts"
  obtain m1 where m1: "arm_step rate ?h ?s m = Some m1" "arm_ok rate (set_deadlines ?h ?s m1)"
    "if ?s = - 1 then disarmed m1 else armed_for rate ?h ?s m1"
    using arm_step_correct[OF assms(3)] assms(5,6) by blast
  then have "CFArmNextTimerInMode rate T m = Some (set_deadlines ?h ?s m1)"
    by (simp add: CFArmNextTimerInMode_def assms(1) arm_scan_next[OF assms(2,4)])
  moreover have "rlm_timerSoftDeadline (set_deadlines ?h ?s m1) = ?s" "rlm_timerHardDeadline (set_deadlines ?h ?s m1) = ?h"
    by (simp_all add: set_deadlines_def)
  ultimately show ?thesis using m1(2,3) by (simp add: armed_disarmed_deadlines)
qed

text \<open>Arming changes nothing else of the mode.\<close>

definition unarmed :: "CFRunLoopMode \<Rightarrow> CFRunLoopMode" where
  "unarmed m = m\<lparr>rlm_timerHardDeadline := - 1, rlm_timerSoftDeadline := - 1, rlm_mkTimer := None,
     rlm_mkTimerArmed := False, rlm_dispatchTimer := None, rlm_dispatchTimerArmed := False\<rparr>"

lemma unarmed_upd [simp]:
  "unarmed (m\<lparr>rlm_mkTimer := a, rlm_mkTimerArmed := b\<rparr>) = unarmed m"
  "unarmed (m\<lparr>rlm_dispatchTimer := c, rlm_dispatchTimerArmed := d\<rparr>) = unarmed m"
  "unarmed (set_deadlines h s m) = unarmed m"
  by (simp_all add: unarmed_def set_deadlines_def)

lemma unarmed_cancel [simp]:
  "unarmed (cancel_mk_timer m) = unarmed m" "unarmed (cancel_dispatch_timer m) = unarmed m"
  by (simp_all add: cancel_mk_timer_def cancel_dispatch_timer_def)

lemma unarmed_kernel_timer:
  assumes "arm_kernel_timer rate h s m = Some m'"
  shows "unarmed m' = unarmed m"
proof -
  obtain leeway deadline where "m' = (if leeway > (0 :: 64 word)
       then (cancel_mk_timer m)\<lparr>rlm_dispatchTimer := Some (deadline, leeway), rlm_dispatchTimerArmed := True\<rparr>
       else (let m1 = cancel_dispatch_timer m
             in if rlm_timerPort m1 \<noteq> MACH_PORT_NULL
                then m1\<lparr>rlm_mkTimer := Some s, rlm_mkTimerArmed := True\<rparr> else m1))"
    using assms unfolding arm_kernel_timer_def bind_eq_Some_conv by blast
  then show ?thesis by (simp only: Let_def unarmed_upd unarmed_cancel if_distrib[of unarmed] if_cancel)
qed

lemma unarmed_arm_step: "arm_step rate h s m = Some m' \<Longrightarrow> unarmed m' = unarmed m"
  unfolding arm_step_def by (metis option.inject unarmed_cancel unarmed_kernel_timer)

lemma unarmed_arm_next:
  assumes "CFArmNextTimerInMode rate T m = Some m'"
  shows "unarmed m' = unarmed m"
proof (cases "rlm_timers m")
  case None
  then have "m' = set_deadlines (- 1) (- 1) m" using assms by (simp add: CFArmNextTimerInMode_def)
  then show ?thesis by (simp only: unarmed_upd)
next
  case (Some ts)
  then obtain h s m1 where m1: "arm_step rate h s m = Some m1" "m' = set_deadlines h s m1"
    using assms by (auto simp: CFArmNextTimerInMode_def bind_eq_Some_conv)
  show ?thesis unfolding m1(2) unarmed_upd by (rule unarmed_arm_step[OF m1(1)])
qed

lemma unarmed_sel:
  "rlm_name (unarmed m) = rlm_name m"
  "rlm_stopped (unarmed m) = rlm_stopped m"
  "rlm_sources0 (unarmed m) = rlm_sources0 m"
  "rlm_sources1 (unarmed m) = rlm_sources1 m"
  "rlm_observers (unarmed m) = rlm_observers m"
  "rlm_timers (unarmed m) = rlm_timers m"
  "rlm_portToV1SourceMap (unarmed m) = rlm_portToV1SourceMap m"
  "rlm_portSet (unarmed m) = rlm_portSet m"
  "rlm_observerMask (unarmed m) = rlm_observerMask m"
  "rlm_queuePort (unarmed m) = rlm_queuePort m"
  "rlm_timerPort (unarmed m) = rlm_timerPort m"
  by (simp_all add: unarmed_def)

lemma unarmed_fields:
  assumes "unarmed m' = unarmed m"
  shows "rlm_name m' = rlm_name m" "rlm_stopped m' = rlm_stopped m" "rlm_sources0 m' = rlm_sources0 m"
    "rlm_sources1 m' = rlm_sources1 m" "rlm_observers m' = rlm_observers m" "rlm_timers m' = rlm_timers m"
    "rlm_portToV1SourceMap m' = rlm_portToV1SourceMap m" "rlm_portSet m' = rlm_portSet m"
    "rlm_observerMask m' = rlm_observerMask m" "rlm_queuePort m' = rlm_queuePort m"
    "rlm_timerPort m' = rlm_timerPort m"
  by (metis assms unarmed_sel)+

lemmas arm_next_fields = unarmed_fields [OF unarmed_arm_next]

section \<open>The next date of a repeating timer\<close>

lemma next_fire_loop_correct:
  assumes "0 < unat i" "unat cur + unat i < 2 ^ 64"
  shows "\<exists>r. next_fire_loop i cur nx = Some r \<and>
    unat r = unat nx + (if cur < nx then 0 else (unat cur - unat nx) div unat i + 1) * unat i"
proof (induction "unat cur + 1 - unat nx" arbitrary: nx rule: less_induct)
  case less
  show ?case
  proof (cases "cur < nx")
    case True
    then have "\<not> nx \<le> cur" by simp
    then show ?thesis using True by (subst next_fire_loop.simps) simp
  next
    case False
    then have le: "unat nx \<le> unat cur" by (simp add: word_le_nat_alt not_less)
    then have nx': "unat (nx + i) = unat nx + unat i"
      using assms(2) by (simp add: unat_word_ariths)
    have "unat cur + 1 - unat (nx + i) < unat cur + 1 - unat nx" using nx' le assms(1) by simp
    from less[OF this] obtain r where r: "next_fire_loop i cur (nx + i) = Some r"
      "unat r = unat (nx + i) + (if cur < nx + i then 0 else (unat cur - unat (nx + i)) div unat i + 1) * unat i"
      by blast
    have "unat r = unat nx + ((unat cur - unat nx) div unat i + 1) * unat i"
    proof (cases "cur < nx + i")
      case True
      then have "unat cur - unat nx < unat i" using nx' le by (simp add: word_less_nat_alt)
      then show ?thesis using r(2) nx' True by simp
    next
      case late: False
      then have "unat i \<le> unat cur - unat nx" using nx' le by (simp add: word_less_nat_alt)
      then have "(unat cur - unat nx) div unat i = Suc ((unat cur - unat nx - unat i) div unat i)"
        using assms(1) by (simp add: le_div_geq)
      then show ?thesis using r(2) nx' late by (simp add: diff_diff_add)
    qed
    then show ?thesis using r(1) False by (subst next_fire_loop.simps) (auto simp: not_less)
  qed
qed

section \<open>Properties\<close>

text \<open>
  C19. The search for the place of a timer in the array of its mode (halving steps, with shortcuts for
  more than 256 timers) finds, in an array sorted by fire date, the place after all timers that are
  due no later; inserting there keeps the array sorted. It neither reads outside the array nor
  overflows with fewer than \<open>2 ^ 29\<close> timers.
\<close>

theorem timer_insertion_index:
  assumes "sorted (map fireTSR array)" "length array < 2 ^ 29"
  shows "\<exists>i. CFRunLoopInsertionIndexInTimerArray fireTSR array rlt = Some i \<and>
    insert_at i rlt array = takeWhile (\<lambda>t. fireTSR t \<le> fireTSR rlt) array @
      rlt # dropWhile (\<lambda>t. fireTSR t \<le> fireTSR rlt) array \<and>
    sorted (map fireTSR (insert_at i rlt array))"
proof -
  obtain i where i: "CFRunLoopInsertionIndexInTimerArray fireTSR array rlt = Some i"
    using insertion_index_defined[OF assms(2)] by blast
  then show ?thesis
    using timer_array.insert_split[OF assms(1) i] timer_array.insert_keeps_sorted[OF assms(1) i] by simp
qed

theorem timer_insertion_index_witness:
  "\<exists>i. CFRunLoopInsertionIndexInTimerArray (\<lambda>t. t div 10) [11, 25, 28, 40 :: nat] 23 = Some i \<and>
    insert_at i 23 [11, 25, 28, 40 :: nat] = [11, 25, 28, 23, 40]"
  using timer_insertion_index[of "\<lambda>t. t div 10" "[11, 25, 28, 40 :: nat]" 23] by auto

text \<open>
  C17. Arming the next timer of a mode whose timers are sorted records as soft deadline the earliest
  fire date, and as hard deadline the earliest date at which a timer runs out of its tolerance, over
  all timers that are not firing, although the scan stops early; and afterwards exactly one kernel
  timer is set, for these deadlines (the dispatch source when there is leeway, else the timer port),
  or none when no timer is waiting.
\<close>

theorem arm_next_timer:
  assumes "rlm_timers m = Some ts" "sorted (map (\<lambda>t. rlt_fireTSR (T t)) ts)" "arm_ok rate m"
    and "\<forall>t \<in> waiting T ts. timer_hard_deadline rate (T t) \<noteq> None"
    and "CFTSRToNanoseconds rate (next_hard rate T ts - next_soft T ts) \<noteq> None"
    and "CFTSRToDispatchTime rate (next_soft T ts) \<noteq> None"
  shows "\<exists>m'. CFArmNextTimerInMode rate T m = Some m' \<and>
    rlm_timerSoftDeadline m' = next_soft T ts \<and> rlm_timerHardDeadline m' = next_hard rate T ts \<and>
    arm_ok rate m' \<and> rlm_timers m' = rlm_timers m \<and>
    (if next_soft T ts = - 1 then disarmed m'
     else armed_for rate (next_hard rate T ts) (next_soft T ts) m')"
  using arm_next_correct[OF assms] arm_next_fields(6) by blast

text \<open>Two timers due at 30 and 50 with tolerances of 40 and 10 ticks, and one that is firing.\<close>

definition sample_timer :: CFRunLoopTimer where
  "sample_timer = \<lparr>rlt_valid = True, rlt_firing = False, rlt_runLoop = NULL, rlt_rlModes = [],
     rlt_nextFireDate = 0, rlt_interval = 1, rlt_tolerance = 40, rlt_fireTSR = 30, rlt_order = 0,
     rlt_callout = True, rlt_info = NULL, rlt_retain = None, rlt_release = False\<rparr>"

definition sample_timers :: "ptr \<Rightarrow> CFRunLoopTimer" where
  "sample_timers t =
     (if t = 1 then sample_timer\<lparr>rlt_firing := True, rlt_fireTSR := 10\<rparr>
      else if t = 2 then sample_timer
      else sample_timer\<lparr>rlt_fireTSR := 50, rlt_tolerance := 10\<rparr>)"

lemma sample_waiting: "waiting sample_timers [1, 2, 3] = {2, 3}"
  by (auto simp: waiting_def sample_timers_def sample_timer_def)

lemma sample_hard:
  "timer_hard_deadline 1 (sample_timers 2) = Some 70" "timer_hard_deadline 1 (sample_timers 3) = Some 60"
  by (simp_all add: timer_hard_deadline_def CFTimeIntervalToTSR_def sample_timers_def sample_timer_def)

lemma sample_next:
  "next_soft sample_timers [1, 2, 3] = 30" "next_hard 1 sample_timers [1, 2, 3] = 60"
proof -
  have min: "min (- 1) x = x" for x :: tsr by (simp add: min_absorb2)
  show "next_hard 1 sample_timers [1, 2, 3] = 60"
    unfolding next_hard_def sample_waiting by (simp add: sample_hard min)
  show "next_soft sample_timers [1, 2, 3] = 30"
    unfolding next_soft_def sample_waiting by (simp add: sample_timers_def sample_timer_def min)
qed

theorem arm_next_timer_witness:
  "\<exists>m'. CFArmNextTimerInMode 1 sample_timers ((fresh_mode ''m'' 1 2 [])\<lparr>rlm_timers := Some [1, 2, 3]\<rparr>) = Some m' \<and>
    rlm_timerSoftDeadline m' = 30 \<and> rlm_timerHardDeadline m' = 60 \<and>
    rlm_dispatchTimer m' = Some (30000000000, 30000000000) \<and> rlm_mkTimer m' = None"
proof -
  let ?m = "(fresh_mode ''m'' 1 2 [])\<lparr>rlm_timers := Some [1, 2, 3]\<rparr>"
  have ns: "CFTSRToNanoseconds 1 30 = Some 30000000000" by (simp add: CFTSRToNanoseconds_def)
  then have dt: "CFTSRToDispatchTime 1 30 = Some 30000000000" by (simp add: CFTSRToDispatchTime_def)
  have "sorted (map (\<lambda>t. rlt_fireTSR (sample_timers t)) [1, 2, 3])"
    by (simp add: sample_timers_def sample_timer_def)
  moreover have "arm_ok 1 ?m" by (simp add: arm_ok_def fresh_mode_def)
  moreover have "\<forall>t \<in> waiting sample_timers [1, 2, 3]. timer_hard_deadline 1 (sample_timers t) \<noteq> None"
    by (simp add: sample_waiting sample_hard)
  ultimately have "\<exists>m'. CFArmNextTimerInMode 1 sample_timers ?m = Some m' \<and>
      rlm_timerSoftDeadline m' = 30 \<and> rlm_timerHardDeadline m' = 60 \<and> armed_for 1 60 30 m'"
    using arm_next_timer[of ?m "[1, 2, 3]" sample_timers 1] ns dt by (auto simp: sample_next)
  then show ?thesis using ns dt by (auto simp: armed_for_def)
qed

lemma next_fire_TSR_correct:
  assumes "0 < unat intervalTSR" "unat intervalTSR \<le> 2 ^ 62" "unat currentTSR < 2 ^ 63"
  shows "if 2 ^ 63 - 1 \<le> unat oldFireTSR + unat intervalTSR
    then next_fire_TSR intervalTSR oldFireTSR currentTSR = Some (2 ^ 63 - 1)
    else \<exists>r k. next_fire_TSR intervalTSR oldFireTSR currentTSR = Some r \<and> currentTSR < r \<and>
      unat r = unat oldFireTSR + k * unat intervalTSR \<and>
      (k = 0 \<or> unat oldFireTSR + (k - 1) * unat intervalTSR \<le> unat currentTSR)"
proof -
  have i: "unat (2 ^ 63 - 1 - intervalTSR :: 64 word) = 2 ^ 63 - 1 - unat intervalTSR"
    using assms(2) by (simp add: unat_sub word_le_nat_alt)
  have guard: "2 ^ 63 - 1 - intervalTSR \<le> oldFireTSR \<longleftrightarrow> 2 ^ 63 - 1 \<le> unat oldFireTSR + unat intervalTSR"
    unfolding word_le_nat_alt i by linarith
  show ?thesis
  proof (cases "2 ^ 63 - 1 \<le> unat oldFireTSR + unat intervalTSR")
    case True
    then show ?thesis using guard by (simp add: next_fire_TSR_def)
  next
    case False
    define k where "k = (if currentTSR < oldFireTSR then 0
      else (unat currentTSR - unat oldFireTSR) div unat intervalTSR + 1)"
    obtain r where r: "next_fire_loop intervalTSR currentTSR oldFireTSR = Some r"
      "unat r = unat oldFireTSR + k * unat intervalTSR"
      using next_fire_loop_correct[of intervalTSR currentTSR oldFireTSR] assms unfolding k_def by auto
    have "currentTSR < r \<and> (k = 0 \<or> unat oldFireTSR + (k - 1) * unat intervalTSR \<le> unat currentTSR)"
    proof (cases "currentTSR < oldFireTSR")
      case True
      then show ?thesis using r(2) by (simp add: k_def word_less_nat_alt)
    next
      case late: False
      let ?d = "unat currentTSR - unat oldFireTSR"
      have le: "unat oldFireTSR \<le> unat currentTSR" using late by (simp add: word_less_nat_alt)
      define q where "q = ?d div unat intervalTSR * unat intervalTSR"
      have q: "q \<le> ?d" "?d < q + unat intervalTSR"
        using assms(1) div_times_less_eq_dividend[of ?d "unat intervalTSR"]
          dividend_less_div_times[of "unat intervalTSR" ?d] by (simp_all add: q_def)
      have "unat r = unat oldFireTSR + (q + unat intervalTSR)" "(k - 1) * unat intervalTSR = q"
        using r(2) late by (simp_all add: k_def q_def algebra_simps)
      then show ?thesis using q le unfolding word_less_nat_alt by linarith
    qed
    moreover have "next_fire_TSR intervalTSR oldFireTSR currentTSR = Some r"
      using False guard r(1) assms(1) by (auto simp: next_fire_TSR_def)
    ultimately show ?thesis using False r(2) by auto
  qed
qed

text \<open>
  C20. The next date of a repeating timer: the loop ends, and the timer keeps its phase. Its next date
  is the first later than the current time among its last date plus multiples of the interval (or the
  last date itself, if that lies ahead), and no addition wraps around. Only when the date would pass
  the largest signed number of ticks is it set to that number instead.
\<close>

theorem next_fire_time:
  assumes "0 < unat intervalTSR" "unat intervalTSR \<le> 2 ^ 62" "unat currentTSR < 2 ^ 63"
  shows "if 2 ^ 63 - 1 \<le> unat oldFireTSR + unat intervalTSR
    then next_fire_TSR intervalTSR oldFireTSR currentTSR = Some (2 ^ 63 - 1)
    else \<exists>r k. next_fire_TSR intervalTSR oldFireTSR currentTSR = Some r \<and> currentTSR < r \<and>
      unat r = unat oldFireTSR + k * unat intervalTSR \<and>
      (k = 0 \<or> unat oldFireTSR + (k - 1) * unat intervalTSR \<le> unat currentTSR)"
  by (rule next_fire_TSR_correct[OF assms])

theorem next_fire_time_witness:
  "\<exists>r k. next_fire_TSR 7 100 130 = Some r \<and> 130 < r \<and> unat r = 100 + k * 7 \<and>
    (k = 0 \<or> 100 + (k - 1) * 7 \<le> (130 :: nat))"
  using next_fire_time[of 7 130 100] by simp

text \<open>
  C40. A negative tolerance given to a repeating timer is stored as it is (only the one of a timer that
  fires once is raised to zero), and when that timer is the first of its mode, arming converts the
  negative number to an unsigned one, which is undefined.
\<close>

theorem timer_negative_tolerance:
  assumes "0 < rlt_interval (w_timer w rlt)" "tolerance * rate \<le> - 1" "0 < rate"
    and "rlm_timers m = Some (rlt # ts)" "\<not> rlt_firing (w_timer w rlt)"
  shows "rlt_tolerance (w_timer (CFRunLoopTimerSetTolerance w rlt tolerance) rlt) = tolerance \<and>
    CFArmNextTimerInMode rate (w_timer (CFRunLoopTimerSetTolerance w rlt tolerance)) m = None"
proof -
  have neg: "tolerance < 0"
    using assms(2,3) by (metis le_less_trans less_minus_one_simps(1) mult_nonneg_nonneg not_le order_less_imp_le)
  then have tol: "rlt_tolerance (w_timer (CFRunLoopTimerSetTolerance w rlt tolerance) rlt) = tolerance"
    using assms(1) by (simp add: CFRunLoopTimerSetTolerance_def min_def)
  have "(0 :: rat) \<le> of_int ((2 ^ 63 - 1) div 2)" by simp
  then have "\<not> of_int ((2 ^ 63 - 1) div 2) < tolerance * rate" using assms(2) by linarith
  then have "timer_hard_deadline rate (w_timer (CFRunLoopTimerSetTolerance w rlt tolerance) rlt) = None"
    unfolding timer_hard_deadline_def tol CFTimeIntervalToTSR_def using assms(2) by simp
  then have "CFArmNextTimerInMode rate (w_timer (CFRunLoopTimerSetTolerance w rlt tolerance)) m = None"
    using assms(4,5) by (simp add: CFArmNextTimerInMode_def CFRunLoopTimerSetTolerance_def)
  with tol show ?thesis ..
qed

definition sample_world :: world where
  "sample_world = blank_world\<lparr>w_timer := sample_timers\<rparr>"

theorem timer_negative_tolerance_witness:
  "rlt_tolerance (w_timer (CFRunLoopTimerSetTolerance sample_world 2 (- 5)) 2) = - 5 \<and>
   CFArmNextTimerInMode 1 (w_timer (CFRunLoopTimerSetTolerance sample_world 2 (- 5)))
     ((fresh_mode ''m'' 1 2 [])\<lparr>rlm_timers := Some [2, 3]\<rparr>) = None"
  using timer_negative_tolerance[of sample_world 2 "- 5" 1
      "(fresh_mode ''m'' 1 2 [])\<lparr>rlm_timers := Some [2, 3]\<rparr>" "[3]"]
  by (simp add: sample_world_def blank_world_def sample_timers_def sample_timer_def)

end
