(* ===== verification/CF_RunLoop_Items.thy ===== *)
theory CF_RunLoop_Items
  imports CF_RunLoop_Timers
begin

unbundle bit_operations_syntax

text \<open>
  Adding sources, observers and timers to the modes of a run loop, removing and invalidating them
  (\<^verbatim>\<open>CFRunLoop.c\<close>), the invariant these operations keep, and what they do to the membership of modes.

  The operations on \<^verbatim>\<open>kCFRunLoopCommonModes\<close> call themselves once for every common mode. This recursion
  is written with the recursive call as an argument of each operation, and tied in \<open>add_item\<close> and
  \<open>remove_item\<close>, whose fuel bounds its depth: when no common mode is called
  \<^verbatim>\<open>kCFRunLoopCommonModes\<close> itself, a depth of two is enough. \<open>None\<close> also stands for a null pointer that is
  dereferenced.
\<close>

section \<open>Adding\<close>

type_synonym item_op = "rl_item \<Rightarrow> mode_name \<Rightarrow> world \<Rightarrow> world option"

text \<open>The common part of the three operations for \<^verbatim>\<open>kCFRunLoopCommonModes\<close>.\<close>

definition add_to_common_modes :: "item_op \<Rightarrow> env \<Rightarrow> world \<Rightarrow> ptr \<Rightarrow> rl_item \<Rightarrow> world option" where
  "add_to_common_modes add E w rl item =
     (let names = ev_names E (rl_commonModes (w_loop w rl));
          w1 = upd_loop w rl (\<lambda>l. l\<lparr>rl_commonModeItems :=
                 Some (set_insert (item_equal (w_source w)) item (members (rl_commonModeItems l)))\<rparr>)
      in ofold (\<lambda>name. add item name) names w1)"

text \<open>
  A source is put into the set of its version; the port of a version 1 source is watched. The sets compare sources by
  \<^verbatim>\<open>CFEqual\<close>, so a mode that has an equal source counts as having the source.
\<close>

definition mode_add_source :: "(ptr \<Rightarrow> CFRunLoopSource) \<Rightarrow> ptr \<Rightarrow> CFRunLoopMode \<Rightarrow> CFRunLoopMode" where
  "mode_add_source S rls rlm =
     (if rls_version (S rls) = 0
      then rlm\<lparr>rlm_sources0 := map_option (set_insert (CFRunLoopSourceEqual S) rls) (rlm_sources0 rlm)\<rparr>
      else if rls_version (S rls) = 1
      then (let rlm1 = rlm\<lparr>rlm_sources1 := map_option (set_insert (CFRunLoopSourceEqual S) rls) (rlm_sources1 rlm)\<rparr>;
                src_port = rls_getPort (S rls)
            in if src_port \<noteq> MACH_PORT_NULL
               then rlm1\<lparr>rlm_portToV1SourceMap := map_option (\<lambda>m. m(src_port \<mapsto> rls)) (rlm_portToV1SourceMap rlm1),
                         rlm_portSet := snd (CFPortSetInsert src_port (rlm_portSet rlm1))\<rparr>
               else rlm1)
      else rlm)"

definition mode_has_source :: "(ptr \<Rightarrow> CFRunLoopSource) \<Rightarrow> CFRunLoopMode \<Rightarrow> ptr \<Rightarrow> bool" where
  "mode_has_source S rlm rls \<longleftrightarrow> set_find (CFRunLoopSourceEqual S) rls (members (rlm_sources0 rlm)) \<noteq> None \<or>
     set_find (CFRunLoopSourceEqual S) rls (members (rlm_sources1 rlm)) \<noteq> None"

definition add_source_to_mode :: "env \<Rightarrow> world \<Rightarrow> ptr \<Rightarrow> ptr \<Rightarrow> mode_name \<Rightarrow> world option" where
  "add_source_to_mode E w rl rls modeName = do {
    (w1, found) \<leftarrow> CFRunLoopFindMode E w rl modeName True;
    if \<not> found then Some w1
    else do {
      let w2 = upd_mode w1 rl modeName (\<lambda>m. if rlm_sources0 m = None
            then m\<lparr>rlm_sources0 := Some [], rlm_sources1 := Some [],
                   rlm_portToV1SourceMap := Some Map.empty\<rparr> else m);
      rlm \<leftarrow> get_mode w2 rl modeName;
      if mode_has_source (w_source w2) rlm rls then Some w2
      else do {
        let w3 = upd_mode w2 rl modeName (mode_add_source (w_source w2) rls);
        let w4 = upd_source w3 rls (\<lambda>s. s\<lparr>rls_runLoops := Some (members (rls_runLoops s) @ [rl])\<rparr>);
        if rls_version (w_source w4 rls) = 0 \<and> rls_schedule (w_source w4 rls)
        then do_callout E (ScheduleSource rls rl modeName) w4
        else Some w4
      }
    }
  }"

definition CFRunLoopAddSource ::
    "item_op \<Rightarrow> env \<Rightarrow> world \<Rightarrow> ptr \<Rightarrow> ptr \<Rightarrow> mode_name \<Rightarrow> world option" where
  "CFRunLoopAddSource add E w rl rls modeName =
     (if rl = NULL then None
      else if rl_deallocating (w_loop w rl) then Some w
      else if rls = NULL then None
      else if \<not> rls_valid (w_source w rls) then Some w
      else if modeName = kCFRunLoopCommonModes then add_to_common_modes add E w rl (SourceItem rls)
      else add_source_to_mode E w rl rls modeName)"

text \<open>The place of an observer is searched from the end of the array.\<close>

fun observer_loop :: "('a \<Rightarrow> 'k::linorder) \<Rightarrow> 'a list \<Rightarrow> 'a \<Rightarrow> nat \<Rightarrow> nat" where
  "observer_loop order observers rlo 0 = 0"
| "observer_loop order observers rlo (Suc idx) =
     (if order (observers ! idx) \<le> order rlo then idx + 1
      else observer_loop order observers rlo idx)"

definition observer_index :: "('a \<Rightarrow> 'k::linorder) \<Rightarrow> 'a list \<Rightarrow> 'a \<Rightarrow> nat option" where
  "observer_index order observers rlo = Some (observer_loop order observers rlo (length observers))"

definition add_observer_to_mode :: "env \<Rightarrow> world \<Rightarrow> ptr \<Rightarrow> ptr \<Rightarrow> mode_name \<Rightarrow> world option" where
  "add_observer_to_mode E w rl rlo modeName = do {
    (w1, found) \<leftarrow> CFRunLoopFindMode E w rl modeName True;
    if \<not> found then Some w1
    else do {
      let w2 = upd_mode w1 rl modeName (\<lambda>m. m\<lparr>rlm_observers := Some (members (rlm_observers m))\<rparr>);
      rlm \<leftarrow> get_mode w2 rl modeName;
      if rlo \<in> set (members (rlm_observers rlm)) then Some w2
      else do {
        idx \<leftarrow> observer_index (\<lambda>x. rlo_order (w_observer w2 x)) (members (rlm_observers rlm)) rlo;
        let w3 = upd_mode w2 rl modeName (\<lambda>m. m\<lparr>
              rlm_observers := Some (insert_at idx rlo (members (rlm_observers m))),
              rlm_observerMask := rlm_observerMask m OR rlo_activities (w_observer w2 rlo)\<rparr>);
        Some (upd_observer w3 rlo (\<lambda>x. CFRunLoopObserverSchedule x rl))
      }
    }
  }"

definition CFRunLoopAddObserver ::
    "item_op \<Rightarrow> env \<Rightarrow> world \<Rightarrow> ptr \<Rightarrow> ptr \<Rightarrow> mode_name \<Rightarrow> world option" where
  "CFRunLoopAddObserver add E w rl rlo modeName =
     (if rl = NULL then None
      else if rl_deallocating (w_loop w rl) then Some w
      else if rlo = NULL then None
      else if \<not> rlo_valid (w_observer w rlo) \<or>
              rlo_runLoop (w_observer w rlo) \<noteq> NULL \<and> rlo_runLoop (w_observer w rlo) \<noteq> rl then Some w
      else if modeName = kCFRunLoopCommonModes then add_to_common_modes add E w rl (ObserverItem rlo)
      else add_observer_to_mode E w rl rlo modeName)"

definition add_timer_to_mode :: "env \<Rightarrow> world \<Rightarrow> ptr \<Rightarrow> ptr \<Rightarrow> mode_name \<Rightarrow> world option" where
  "add_timer_to_mode E w rl rlt modeName = do {
    (w1, found) \<leftarrow> CFRunLoopFindMode E w rl modeName True;
    if \<not> found then Some w1
    else do {
      let w2 = upd_mode w1 rl modeName (\<lambda>m. m\<lparr>rlm_timers := Some (members (rlm_timers m))\<rparr>);
      if modeName \<in> set (rlt_rlModes (w_timer w2 rlt)) then Some w2
      else if rlt_runLoop (w_timer w2 rlt) \<noteq> NULL \<and> rlt_runLoop (w_timer w2 rlt) \<noteq> rl then Some w2
      else do {
        let w3 = upd_timer w2 rlt (\<lambda>t. t\<lparr>rlt_runLoop := rl,
              rlt_rlModes := set_add modeName (rlt_rlModes t)\<rparr>);
        rlm \<leftarrow> get_mode w3 rl modeName;
        rlm' \<leftarrow> CFRepositionTimerInMode (ev_rate E) (w_timer w3) rlm rlt False;
        let w4 = upd_mode w3 rl modeName (\<lambda>_. rlm');
        Some (if \<not> ev_linkedOnLion E \<and> rl \<noteq> ev_current E then CFRunLoopWakeUp w4 rl else w4)
      }
    }
  }"

definition CFRunLoopAddTimer ::
    "item_op \<Rightarrow> env \<Rightarrow> world \<Rightarrow> ptr \<Rightarrow> ptr \<Rightarrow> mode_name \<Rightarrow> world option" where
  "CFRunLoopAddTimer add E w rl rlt modeName =
     (if rl = NULL then None
      else if rl_deallocating (w_loop w rl) then Some w
      else if rlt = NULL then None
      else if \<not> rlt_valid (w_timer w rlt) \<or>
              rlt_runLoop (w_timer w rlt) \<noteq> NULL \<and> rlt_runLoop (w_timer w rlt) \<noteq> rl then Some w
      else if modeName = kCFRunLoopCommonModes then add_to_common_modes add E w rl (TimerItem rlt)
      else add_timer_to_mode E w rl rlt modeName)"

text \<open>
  \<^verbatim>\<open>__CFRunLoopAddItemToCommonModes\<close> and \<^verbatim>\<open>__CFRunLoopAddItemsToCommonMode\<close>: the operation for the type
  of the item.
\<close>

fun add_item :: "nat \<Rightarrow> env \<Rightarrow> ptr \<Rightarrow> item_op" where
  "add_item 0 E rl item name w = None"
| "add_item (Suc n) E rl (SourceItem rls) name w = CFRunLoopAddSource (add_item n E rl) E w rl rls name"
| "add_item (Suc n) E rl (ObserverItem rlo) name w = CFRunLoopAddObserver (add_item n E rl) E w rl rlo name"
| "add_item (Suc n) E rl (TimerItem rlt) name w = CFRunLoopAddTimer (add_item n E rl) E w rl rlt name"

definition CFRunLoopAddCommonMode :: "nat \<Rightarrow> env \<Rightarrow> world \<Rightarrow> ptr \<Rightarrow> mode_name \<Rightarrow> world option" where
  "CFRunLoopAddCommonMode n E w rl modeName =
     (if rl = NULL then None
      else if rl_deallocating (w_loop w rl) then Some w
      else if modeName \<in> set (rl_commonModes (w_loop w rl)) then Some w
      else
        let items = rl_commonModeItems (w_loop w rl);
            w1 = upd_loop w rl (\<lambda>l. l\<lparr>rl_commonModes := set_add modeName (rl_commonModes l)\<rparr>)
        in case items of
             None \<Rightarrow> Some w1
           | Some xs \<Rightarrow> ofold (\<lambda>item. add_item n E rl item modeName) (ev_items E xs) w1)"

section \<open>Removing\<close>

definition remove_from_common_modes :: "item_op \<Rightarrow> env \<Rightarrow> world \<Rightarrow> ptr \<Rightarrow> rl_item \<Rightarrow> world option" where
  "remove_from_common_modes remove E w rl item =
     (if set_find (item_equal (w_source w)) item (members (rl_commonModeItems (w_loop w rl))) \<noteq> None
      then let names = ev_names E (rl_commonModes (w_loop w rl));
               w1 = upd_loop w rl (\<lambda>l. l\<lparr>rl_commonModeItems :=
                      map_option (set_remove (item_equal (w_source w)) item) (rl_commonModeItems l)\<rparr>)
           in ofold (\<lambda>name. remove item name) names w1
      else Some w)"

text \<open>The port is the one of the given source, the member that is taken out of the sets is one equal to it.\<close>

definition mode_remove_source :: "(ptr \<Rightarrow> CFRunLoopSource) \<Rightarrow> ptr \<Rightarrow> CFRunLoopMode \<Rightarrow> CFRunLoopMode" where
  "mode_remove_source S rls rlm =
     (let rlm1 = (if rls_version (S rls) = 1 \<and> rls_getPort (S rls) \<noteq> MACH_PORT_NULL
            then rlm\<lparr>rlm_portToV1SourceMap := map_option (\<lambda>m. m(rls_getPort (S rls) := None)) (rlm_portToV1SourceMap rlm),
                     rlm_portSet := snd (CFPortSetRemove (rls_getPort (S rls)) (rlm_portSet rlm))\<rparr>
            else rlm)
      in rlm1\<lparr>rlm_sources0 := map_option (set_remove (CFRunLoopSourceEqual S) rls) (rlm_sources0 rlm1),
              rlm_sources1 := map_option (set_remove (CFRunLoopSourceEqual S) rls) (rlm_sources1 rlm1)\<rparr>)"

definition remove_source_from_mode :: "env \<Rightarrow> world \<Rightarrow> ptr \<Rightarrow> ptr \<Rightarrow> mode_name \<Rightarrow> world option" where
  "remove_source_from_mode E w rl rls modeName = (case get_mode w rl modeName of
    None \<Rightarrow> Some w
  | Some rlm \<Rightarrow>
      if \<not> mode_has_source (w_source w) rlm rls then Some w
      else
        let w1 = upd_mode w rl modeName (mode_remove_source (w_source w) rls);
            w2 = upd_source w1 rls (\<lambda>s. s\<lparr>rls_runLoops := map_option (remove1 rl) (rls_runLoops s)\<rparr>)
        in if rls_version (w_source w2 rls) = 0 \<and> rls_cancel (w_source w2 rls)
           then do_callout E (CancelSource rls rl modeName) w2
           else Some w2)"

definition CFRunLoopRemoveSource ::
    "item_op \<Rightarrow> env \<Rightarrow> world \<Rightarrow> ptr \<Rightarrow> ptr \<Rightarrow> mode_name \<Rightarrow> world option" where
  "CFRunLoopRemoveSource remove E w rl rls modeName =
     (if rl = NULL then None
      else if modeName = kCFRunLoopCommonModes then remove_from_common_modes remove E w rl (SourceItem rls)
      else remove_source_from_mode E w rl rls modeName)"

definition remove_observer_from_mode :: "env \<Rightarrow> world \<Rightarrow> ptr \<Rightarrow> ptr \<Rightarrow> mode_name \<Rightarrow> world option" where
  "remove_observer_from_mode E w rl rlo modeName = (case get_mode w rl modeName of
    None \<Rightarrow> Some w
  | Some rlm \<Rightarrow>
      if rlo \<in> set (members (rlm_observers rlm))
      then Some (upd_observer
             (upd_mode w rl modeName (\<lambda>m. m\<lparr>rlm_observers := map_option (remove1 rlo) (rlm_observers m)\<rparr>))
             rlo CFRunLoopObserverCancel)
      else Some w)"

definition CFRunLoopRemoveObserver ::
    "item_op \<Rightarrow> env \<Rightarrow> world \<Rightarrow> ptr \<Rightarrow> ptr \<Rightarrow> mode_name \<Rightarrow> world option" where
  "CFRunLoopRemoveObserver remove E w rl rlo modeName =
     (if rl = NULL then None
      else if modeName = kCFRunLoopCommonModes then remove_from_common_modes remove E w rl (ObserverItem rlo)
      else remove_observer_from_mode E w rl rlo modeName)"

text \<open>A timer that is taken out of its last mode leaves the run loop.\<close>

definition timer_leave_mode :: "mode_name \<Rightarrow> CFRunLoopTimer \<Rightarrow> CFRunLoopTimer" where
  "timer_leave_mode modeName t =
     (let t1 = t\<lparr>rlt_rlModes := removeAll modeName (rlt_rlModes t)\<rparr>
      in if rlt_rlModes t1 = [] then t1\<lparr>rlt_runLoop := NULL\<rparr> else t1)"

definition remove_timer_from_mode :: "env \<Rightarrow> world \<Rightarrow> ptr \<Rightarrow> ptr \<Rightarrow> mode_name \<Rightarrow> world option" where
  "remove_timer_from_mode E w rl rlt modeName = (case get_mode w rl modeName of
    None \<Rightarrow> Some w
  | Some rlm \<Rightarrow>
      if rlt \<in> set (members (rlm_timers rlm))
      then do {
        let w1 = upd_timer w rlt (timer_leave_mode modeName);
        rlm' \<leftarrow> CFArmNextTimerInMode (ev_rate E) (w_timer w1)
                  (rlm\<lparr>rlm_timers := map_option (remove1 rlt) (rlm_timers rlm)\<rparr>);
        Some (upd_mode w1 rl modeName (\<lambda>_. rlm'))
      }
      else Some w)"

definition CFRunLoopRemoveTimer ::
    "item_op \<Rightarrow> env \<Rightarrow> world \<Rightarrow> ptr \<Rightarrow> ptr \<Rightarrow> mode_name \<Rightarrow> world option" where
  "CFRunLoopRemoveTimer remove E w rl rlt modeName =
     (if rl = NULL then None
      else if modeName = kCFRunLoopCommonModes then remove_from_common_modes remove E w rl (TimerItem rlt)
      else remove_timer_from_mode E w rl rlt modeName)"

text \<open>\<^verbatim>\<open>__CFRunLoopRemoveItemFromCommonModes\<close>.\<close>

fun remove_item :: "nat \<Rightarrow> env \<Rightarrow> ptr \<Rightarrow> item_op" where
  "remove_item 0 E rl item name w = None"
| "remove_item (Suc n) E rl (SourceItem rls) name w = CFRunLoopRemoveSource (remove_item n E rl) E w rl rls name"
| "remove_item (Suc n) E rl (ObserverItem rlo) name w = CFRunLoopRemoveObserver (remove_item n E rl) E w rl rlo name"
| "remove_item (Suc n) E rl (TimerItem rlt) name w = CFRunLoopRemoveTimer (remove_item n E rl) E w rl rlt name"

text \<open>\<open>None\<close> also stands for a common mode that is called \<^verbatim>\<open>kCFRunLoopCommonModes\<close>, when the fuel ends.\<close>

fun CFRunLoopRemoveAllSources :: "nat \<Rightarrow> env \<Rightarrow> ptr \<Rightarrow> mode_name \<Rightarrow> world \<Rightarrow> world option" where
  "CFRunLoopRemoveAllSources 0 E rl modeName w = None"
| "CFRunLoopRemoveAllSources (Suc n) E rl modeName w =
     (if rl = NULL then None
      else if modeName = kCFRunLoopCommonModes
      then (if rl_commonModeItems (w_loop w rl) \<noteq> None
            then ofold (CFRunLoopRemoveAllSources n E rl) (ev_names E (rl_commonModes (w_loop w rl))) w
            else Some w)
      else case get_mode w rl modeName of
        None \<Rightarrow> Some w
      | Some rlm \<Rightarrow> do {
          w1 \<leftarrow> ofold (\<lambda>s. remove_item (Suc n) E rl (SourceItem s) modeName)
                  (ev_ptrs E (members (rlm_sources0 rlm))) w;
          rlm1 \<leftarrow> get_mode w1 rl modeName;
          ofold (\<lambda>s. remove_item (Suc n) E rl (SourceItem s) modeName)
            (ev_ptrs E (members (rlm_sources1 rlm1))) w1
        })"

section \<open>Membership\<close>

definition CFRunLoopContainsSource :: "world \<Rightarrow> ptr \<Rightarrow> ptr \<Rightarrow> mode_name \<Rightarrow> bool" where
  "CFRunLoopContainsSource w rl rls modeName =
     (if modeName = kCFRunLoopCommonModes
      then set_find (item_equal (w_source w)) (SourceItem rls) (members (rl_commonModeItems (w_loop w rl))) \<noteq> None
      else case get_mode w rl modeName of None \<Rightarrow> False | Some rlm \<Rightarrow> mode_has_source (w_source w) rlm rls)"

definition CFRunLoopContainsObserver :: "world \<Rightarrow> ptr \<Rightarrow> ptr \<Rightarrow> mode_name \<Rightarrow> bool" where
  "CFRunLoopContainsObserver w rl rlo modeName =
     (if modeName = kCFRunLoopCommonModes
      then ObserverItem rlo \<in> set (members (rl_commonModeItems (w_loop w rl)))
      else case get_mode w rl modeName of None \<Rightarrow> False
           | Some rlm \<Rightarrow> rlo \<in> set (members (rlm_observers rlm)))"

definition CFRunLoopContainsTimer :: "world \<Rightarrow> ptr \<Rightarrow> ptr \<Rightarrow> mode_name \<Rightarrow> bool" where
  "CFRunLoopContainsTimer w rl rlt modeName =
     (if rlt_runLoop (w_timer w rlt) = NULL \<or> rl \<noteq> rlt_runLoop (w_timer w rlt) then False
      else if modeName = kCFRunLoopCommonModes
      then TimerItem rlt \<in> set (members (rl_commonModeItems (w_loop w rl)))
      else case get_mode w rl modeName of None \<Rightarrow> False
           | Some rlm \<Rightarrow> rlt \<in> set (members (rlm_timers rlm)))"

section \<open>Invalidating\<close>

text \<open>The modes are visited from the last to the first, then the common modes.\<close>

definition remove_everywhere :: "nat \<Rightarrow> env \<Rightarrow> rl_item \<Rightarrow> ptr \<Rightarrow> world \<Rightarrow> world option" where
  "remove_everywhere n E item rl w = do {
     w1 \<leftarrow> ofold (remove_item n E rl item) (rev (CFRunLoopCopyAllModes E w rl)) w;
     remove_item n E rl item kCFRunLoopCommonModes w1
   }"

text \<open>\<^verbatim>\<open>__CFRunLoopSourceRemoveFromRunLoop\<close> over the bag of run loops: repeated loops are skipped.\<close>

fun source_remove_from_loops :: "nat \<Rightarrow> env \<Rightarrow> ptr \<Rightarrow> ptr option \<Rightarrow> ptr list \<Rightarrow> world \<Rightarrow> world option" where
  "source_remove_from_loops n E rls prev [] w = Some w"
| "source_remove_from_loops n E rls prev (rl # rls') w =
     (if Some rl = prev then source_remove_from_loops n E rls prev rls' w
      else do {
        w1 \<leftarrow> remove_everywhere n E (SourceItem rls) rl w;
        source_remove_from_loops n E rls (Some rl) rls' w1
      })"

definition CFRunLoopSourceInvalidate :: "nat \<Rightarrow> env \<Rightarrow> world \<Rightarrow> ptr \<Rightarrow> world option" where
  "CFRunLoopSourceInvalidate n E w rls =
     (if rls = NULL then None
      else if rls_valid (w_source w rls)
      then let rloops = rls_runLoops (w_source w rls);
               w1 = upd_source w rls (\<lambda>s. s\<lparr>rls_valid := False, rls_signaled := False\<rparr>)
           in case rloops of
                None \<Rightarrow> Some w1
              | Some ls \<Rightarrow> source_remove_from_loops n E rls None (ev_ptrs E ls)
                  (upd_source w1 rls (\<lambda>s. s\<lparr>rls_runLoops := None\<rparr>))
      else Some w)"

definition CFRunLoopObserverInvalidate :: "nat \<Rightarrow> env \<Rightarrow> world \<Rightarrow> ptr \<Rightarrow> world option" where
  "CFRunLoopObserverInvalidate n E w rlo =
     (if rlo = NULL then None
      else if rlo_valid (w_observer w rlo)
      then do {
        let rl = rlo_runLoop (w_observer w rlo);
        let info = rlo_info (w_observer w rlo);
        let w1 = upd_observer w rlo (\<lambda>x. x\<lparr>rlo_info := NULL, rlo_valid := False\<rparr>);
        w2 \<leftarrow> (if rl \<noteq> NULL then remove_everywhere n E (ObserverItem rlo) rl w1 else Some w1);
        if rlo_release (w_observer w2 rlo) then do_callout E (ReleaseInfo info) w2 else Some w2
      }
      else Some w)"

definition CFRunLoopTimerInvalidate :: "nat \<Rightarrow> env \<Rightarrow> world \<Rightarrow> ptr \<Rightarrow> world option" where
  "CFRunLoopTimerInvalidate n E w rlt =
     (if rlt = NULL then None
      else if rlt_valid (w_timer w rlt)
      then do {
        let rl = rlt_runLoop (w_timer w rlt);
        let info = rlt_info (w_timer w rlt);
        let w1 = upd_timer w rlt (\<lambda>t. t\<lparr>rlt_info := NULL, rlt_valid := False\<rparr>);
        w2 \<leftarrow> (if rl \<noteq> NULL
          then do {
            w2 \<leftarrow> ofold (remove_item n E rl (TimerItem rlt)) (ev_names E (rlt_rlModes (w_timer w1 rlt))) w1;
            remove_item n E rl (TimerItem rlt) kCFRunLoopCommonModes w2
          }
          else Some w1);
        if rlt_release (w_timer w2 rlt) then do_callout E (ReleaseInfo info) w2 else Some w2
      }
      else Some w)"

section \<open>Setting the date of a timer\<close>

text \<open>The timer is moved to its new place in each of the given modes.\<close>

definition reposition_in_modes :: "env \<Rightarrow> ptr \<Rightarrow> ptr \<Rightarrow> mode_name list \<Rightarrow> world \<Rightarrow> world option" where
  "reposition_in_modes E rl rlt = ofold (\<lambda>name w.
     case get_mode w rl name of
       None \<Rightarrow> Some w
     | Some rlm \<Rightarrow> map_option (\<lambda>m. upd_mode w rl name (\<lambda>_. m))
                     (CFRepositionTimerInMode (ev_rate E) (w_timer w) rlm rlt True))"

definition CFRunLoopTimerSetNextFireDate :: "env \<Rightarrow> world \<Rightarrow> ptr \<Rightarrow> rat \<Rightarrow> world option" where
  "CFRunLoopTimerSetNextFireDate E w rlt fireDate =
     (if rlt = NULL then None
      else if \<not> rlt_valid (w_timer w rlt) then Some w
      else do {
        let date = (if TIMER_DATE_LIMIT < fireDate then TIMER_DATE_LIMIT else fireDate);
        nextFireTSR \<leftarrow> fire_date_TSR (ev_rate E) w date;
        let w1 = upd_timer w rlt (\<lambda>t. t\<lparr>rlt_fireTSR := nextFireTSR, rlt_nextFireDate := date\<rparr>);
        let rl = rlt_runLoop (w_timer w rlt);
        if rl \<noteq> NULL
        then do {
          w2 \<leftarrow> reposition_in_modes E rl rlt (ev_names E (rlt_rlModes (w_timer w rlt))) w1;
          Some (if rl \<noteq> ev_current E then CFRunLoopWakeUp w2 rl else w2)
        }
        else Some w1
      })"

section \<open>The members of a mode\<close>

definition observers_of :: "world \<Rightarrow> ptr \<Rightarrow> mode_name \<Rightarrow> ptr list" where
  "observers_of w rl n = (case get_mode w rl n of None \<Rightarrow> [] | Some m \<Rightarrow> members (rlm_observers m))"

definition timers_of :: "world \<Rightarrow> ptr \<Rightarrow> mode_name \<Rightarrow> ptr list" where
  "timers_of w rl n = (case get_mode w rl n of None \<Rightarrow> [] | Some m \<Rightarrow> members (rlm_timers m))"

definition sources_of :: "world \<Rightarrow> ptr \<Rightarrow> mode_name \<Rightarrow> ptr list" where
  "sources_of w rl n = (case get_mode w rl n of None \<Rightarrow> []
     | Some m \<Rightarrow> members (rlm_sources0 m) @ members (rlm_sources1 m))"

definition mask_of :: "world \<Rightarrow> ptr \<Rightarrow> mode_name \<Rightarrow> 64 word" where
  "mask_of w rl n = (case get_mode w rl n of None \<Rightarrow> 0 | Some m \<Rightarrow> rlm_observerMask m)"

lemmas view_defs = observers_of_def timers_of_def sources_of_def mask_of_def

text \<open>Two states with the same modes have the same members.\<close>

lemma view_cong:
  assumes "get_mode w' = get_mode w"
  shows "observers_of w' = observers_of w" "timers_of w' = timers_of w" "sources_of w' = sources_of w"
    "mask_of w' = mask_of w"
  using assms by (simp_all add: view_defs fun_eq_iff)

lemma view_upd_object [simp]:
  "observers_of (upd_observer w x f) = observers_of w" "timers_of (upd_observer w x f) = timers_of w"
  "sources_of (upd_observer w x f) = sources_of w" "mask_of (upd_observer w x f) = mask_of w"
  "observers_of (upd_timer w x g) = observers_of w" "timers_of (upd_timer w x g) = timers_of w"
  "sources_of (upd_timer w x g) = sources_of w" "mask_of (upd_timer w x g) = mask_of w"
  "observers_of (upd_source w x h) = observers_of w" "timers_of (upd_source w x h) = timers_of w"
  "sources_of (upd_source w x h) = sources_of w" "mask_of (upd_source w x h) = mask_of w"
  by (simp_all add: view_defs fun_eq_iff)

lemma view_new_mode:
  assumes "get_mode w rl n = None"
  shows "observers_of (new_mode w rl n (fresh_mode n p q ps)) = observers_of w"
    "timers_of (new_mode w rl n (fresh_mode n p q ps)) = timers_of w"
    "sources_of (new_mode w rl n (fresh_mode n p q ps)) = sources_of w"
    "mask_of (new_mode w rl n (fresh_mode n p q ps)) = mask_of w"
  using assms by (auto simp: view_defs fun_eq_iff get_mode_new_mode fresh_mode_def)

text \<open>Looking a mode up changes nothing but possibly the set of modes of the run loop.\<close>

definition same_objects :: "world \<Rightarrow> world \<Rightarrow> bool" where
  "same_objects w w' \<longleftrightarrow> w_source w' = w_source w \<and> w_observer w' = w_observer w \<and>
     w_timer w' = w_timer w \<and> w_blocks w' = w_blocks w \<and> w_calls w' = w_calls w"

lemma find_mode_cases:
  assumes "CFRunLoopFindMode E w rl n create = Some (w', found)"
  obtains "w' = w" "found \<longleftrightarrow> get_mode w rl n \<noteq> None"
  | p q ps where "get_mode w rl n = None" "create" "found" "w' = new_mode w rl n (fresh_mode n p q ps)"
  using assms by (auto simp: CFRunLoopFindMode_def Let_def split: option.splits if_splits prod.splits)

lemma find_mode_views:
  assumes "CFRunLoopFindMode E w rl n create = Some (w', found)"
  shows "observers_of w' = observers_of w" "timers_of w' = timers_of w" "sources_of w' = sources_of w"
    "mask_of w' = mask_of w"
  by (rule find_mode_cases[OF assms]; simp add: view_new_mode)+

lemma find_mode_frame:
  assumes "CFRunLoopFindMode E w rl n create = Some (w', found)"
  shows "same_objects w w'" "w_tsr w' = w_tsr w" "w_time w' = w_time w" "w_woken w' = w_woken w"
  by (rule find_mode_cases[OF assms]; simp add: same_objects_def)+

lemma find_mode_found:
  assumes "CFRunLoopFindMode E w rl n create = Some (w', found)"
  shows "get_mode w' rl n \<noteq> None \<longleftrightarrow> found"
  by (rule find_mode_cases[OF assms]) (auto simp: get_mode_new_mode)

lemma find_mode_loops:
  assumes "CFRunLoopFindMode E w rl n create = Some (w', found)"
  shows "rl_commonModes (w_loop w' l) = rl_commonModes (w_loop w l)"
    "rl_commonModeItems (w_loop w' l) = rl_commonModeItems (w_loop w l)"
    "rl_deallocating (w_loop w' l) = rl_deallocating (w_loop w l)"
    "rl_currentMode (w_loop w' l) = rl_currentMode (w_loop w l)"
  by (rule find_mode_cases[OF assms]; simp)+

lemma view_upd_mode:
  assumes "get_mode w rl n = Some m"
  shows "observers_of (upd_mode w rl n f) = (\<lambda>l k. if l = rl \<and> k = n then members (rlm_observers (f m)) else observers_of w l k)"
    "timers_of (upd_mode w rl n f) = (\<lambda>l k. if l = rl \<and> k = n then members (rlm_timers (f m)) else timers_of w l k)"
    "sources_of (upd_mode w rl n f) = (\<lambda>l k. if l = rl \<and> k = n
       then members (rlm_sources0 (f m)) @ members (rlm_sources1 (f m)) else sources_of w l k)"
    "mask_of (upd_mode w rl n f) = (\<lambda>l k. if l = rl \<and> k = n then rlm_observerMask (f m) else mask_of w l k)"
  using assms by (auto simp: view_defs fun_eq_iff)

lemma finite_modes: "finite {n. get_mode w rl n \<noteq> None}"
proof -
  have "{n. get_mode w rl n \<noteq> None} = dom (map_of (rl_modes (w_loop w rl)))" by (auto simp: get_mode_def)
  then show ?thesis by (simp add: finite_dom_map_of)
qed

lemma view_None:
  assumes "get_mode w rl n = None"
  shows "observers_of w rl n = []" "timers_of w rl n = []" "sources_of w rl n = []" "mask_of w rl n = 0"
  by (simp_all add: view_defs assms)

lemma finite_member_modes [simp]:
  "finite {n. x \<in> set (observers_of w rl n)}" "finite {n. x \<in> set (timers_of w rl n)}"
  "finite {n. x \<in> set (sources_of w rl n)}"
  by (rule finite_subset[OF _ finite_modes[of w rl]]; metis (mono_tags, lifting) empty_iff list.set(1)
      mem_Collect_eq subsetI view_None)+

section \<open>The invariant\<close>

text \<open>
  Observers: each mode's array has no duplicates and is sorted by order, its members belong to the
  run loop, and the mode's mask has all their activities; an observer counts the modes it is in, and
  belongs to a run loop exactly while it is in one. A mode that is called \<^verbatim>\<open>kCFRunLoopCommonModes\<close>, which
  \<^verbatim>\<open>CFRunLoopPerformBlock\<close> can create, has no observers.
\<close>

definition observers_inv :: "world \<Rightarrow> bool" where
  "observers_inv w \<longleftrightarrow>
     (\<forall>rl n. distinct (observers_of w rl n) \<and>
        sorted (map (\<lambda>x. rlo_order (w_observer w x)) (observers_of w rl n)) \<and>
        (\<forall>x \<in> set (observers_of w rl n). rlo_runLoop (w_observer w x) = rl \<and>
           rlo_activities (w_observer w x) AND mask_of w rl n = rlo_activities (w_observer w x))) \<and>
     (\<forall>x. rlo_rlCount (w_observer w x) =
            int (card {n. x \<in> set (observers_of w (rlo_runLoop (w_observer w x)) n)}) \<and>
          (rlo_rlCount (w_observer w x) = 0 \<longleftrightarrow> rlo_runLoop (w_observer w x) = NULL)) \<and>
     (\<forall>rl. observers_of w rl kCFRunLoopCommonModes = [])"

text \<open>
  Timers: each mode's array has no duplicates and is sorted by fire date; a timer is in the arrays of
  exactly the modes it lists, of the run loop it belongs to, and belongs to none when it lists none.
\<close>

definition timers_inv :: "world \<Rightarrow> bool" where
  "timers_inv w \<longleftrightarrow>
     (\<forall>rl n. distinct (timers_of w rl n) \<and>
        sorted (map (\<lambda>t. rlt_fireTSR (w_timer w t)) (timers_of w rl n)) \<and>
        (\<forall>t. t \<in> set (timers_of w rl n) \<longleftrightarrow>
           rlt_runLoop (w_timer w t) = rl \<and> n \<in> set (rlt_rlModes (w_timer w t)))) \<and>
     (\<forall>t. distinct (rlt_rlModes (w_timer w t)) \<and>
          (rlt_runLoop (w_timer w t) = NULL \<longleftrightarrow> rlt_rlModes (w_timer w t) = []))"

text \<open>
  Two sources that would compare equal if both were valid; nothing but its validity changes in what a source is
  compared by. No two sources of a program are alike when each is created with an info pointer of its own,
  and no \<^verbatim>\<open>equal\<close> callback says otherwise. The store has a source at every address; one that the program has not
  created can be taken to differ from all others, as in \<open>blank_world\<close>.
\<close>

definition source_alike :: "(ptr \<Rightarrow> CFRunLoopSource) \<Rightarrow> ptr \<Rightarrow> ptr \<Rightarrow> bool" where
  "source_alike S = CFRunLoopSourceEqual (\<lambda>s. (S s)\<lparr>rls_valid := True\<rparr>)"

definition sources_apart :: "world \<Rightarrow> bool" where
  "sources_apart w \<longleftrightarrow> (\<forall>a b. source_alike (w_source w) a b \<longrightarrow> a = b)"

text \<open>A valid source holds each run loop as often as it is in modes of it.\<close>

definition source_refs_exact :: "world \<Rightarrow> bool" where
  "source_refs_exact w \<longleftrightarrow> (\<forall>s rl. rls_valid (w_source w s) \<longrightarrow>
     count_list (members (rls_runLoops (w_source w s))) rl = card {n. s \<in> set (sources_of w rl n)})"

text \<open>
  Sources: no source is twice in a mode, and, unless different sources compare equal, the references to run loops
  are exact. When two are equal, removing the one takes the other out of its mode (\<open>equal_source_orphaned\<close>).
\<close>

definition sources_inv :: "world \<Rightarrow> bool" where
  "sources_inv w \<longleftrightarrow>
     (\<forall>rl n. distinct (sources_of w rl n)) \<and> (sources_apart w \<longrightarrow> source_refs_exact w) \<and>
     (\<forall>s. rls_version (w_source w s) \<in> {0, 1})"

text \<open>Modes are filed under their names, and the three collections for sources are created together.\<close>

definition mode_ok :: "mode_name \<Rightarrow> CFRunLoopMode \<Rightarrow> bool" where
  "mode_ok n m \<longleftrightarrow> rlm_name m = n \<and> (rlm_sources0 m = None \<longleftrightarrow> rlm_sources1 m = None) \<and>
     (rlm_sources0 m = None \<longleftrightarrow> rlm_portToV1SourceMap m = None)"

definition modes_inv :: "world \<Rightarrow> bool" where
  "modes_inv w \<longleftrightarrow>
     (\<forall>rl. distinct (map fst (rl_modes (w_loop w rl)))) \<and>
     (\<forall>rl n m. get_mode w rl n = Some m \<longrightarrow> mode_ok n m)"

definition rl_inv :: "world \<Rightarrow> bool" where
  "rl_inv w \<longleftrightarrow> modes_inv w \<and> observers_inv w \<and> timers_inv w \<and> sources_inv w"

subsection \<open>Parts of the state the invariant depends on\<close>

lemma observers_inv_cong:
  "observers_of w' = observers_of w \<Longrightarrow> mask_of w' = mask_of w \<Longrightarrow> w_observer w' = w_observer w \<Longrightarrow>
   observers_inv w' \<longleftrightarrow> observers_inv w"
  by (simp add: observers_inv_def)

lemma timers_inv_cong:
  "timers_of w' = timers_of w \<Longrightarrow> w_timer w' = w_timer w \<Longrightarrow> timers_inv w' \<longleftrightarrow> timers_inv w"
  by (simp add: timers_inv_def)

lemma sources_inv_cong:
  "sources_of w' = sources_of w \<Longrightarrow> w_source w' = w_source w \<Longrightarrow> sources_inv w' \<longleftrightarrow> sources_inv w"
  by (simp add: sources_inv_def sources_apart_def source_refs_exact_def)

lemma modes_inv_cong: "(\<And>l. rl_modes (w_loop w' l) = rl_modes (w_loop w l)) \<Longrightarrow> modes_inv w' \<longleftrightarrow> modes_inv w"
  by (simp add: modes_inv_def get_mode_def)

lemma rl_inv_cong:
  assumes "\<And>l. rl_modes (w_loop w' l) = rl_modes (w_loop w l)"
    and "w_observer w' = w_observer w" "w_timer w' = w_timer w" "w_source w' = w_source w"
  shows "rl_inv w' \<longleftrightarrow> rl_inv w"
proof -
  have g: "get_mode w' = get_mode w" by (simp add: get_mode_def assms(1) fun_eq_iff)
  show ?thesis
    using modes_inv_cong[OF assms(1)] observers_inv_cong[of w' w] timers_inv_cong[of w' w]
      sources_inv_cong[of w' w] view_cong[OF g] assms(2-)
    by (simp add: rl_inv_def)
qed

lemma rl_inv_calls [simp]: "rl_inv (w\<lparr>w_calls := cs\<rparr>) \<longleftrightarrow> rl_inv w"
  by (rule rl_inv_cong) simp_all

lemma rl_inv_woken [simp]: "rl_inv (w\<lparr>w_woken := ps\<rparr>) \<longleftrightarrow> rl_inv w"
  by (rule rl_inv_cong) simp_all

lemma rl_inv_wakeup [simp]: "rl_inv (CFRunLoopWakeUp w rl) \<longleftrightarrow> rl_inv w"
  by (simp add: CFRunLoopWakeUp_def)

lemma rl_inv_upd_loop:
  "(\<And>l. rl_modes (f l) = rl_modes l) \<Longrightarrow> rl_inv (upd_loop w rl f) \<longleftrightarrow> rl_inv w"
  by (rule rl_inv_cong) simp_all

lemma modes_inv_upd_mode:
  assumes "modes_inv w" "\<And>m. get_mode w rl n = Some m \<Longrightarrow> mode_ok n m \<Longrightarrow> mode_ok n (f m)"
  shows "modes_inv (upd_mode w rl n f)"
proof -
  have "map fst (AList.map_entry n f xs) = map fst xs" for xs :: "(mode_name \<times> CFRunLoopMode) list"
    by (induction xs) auto
  then show ?thesis using assms by (auto simp: modes_inv_def)
qed

lemma modes_inv_upd_object [simp]:
  "modes_inv (upd_observer w x f) \<longleftrightarrow> modes_inv w" "modes_inv (upd_timer w x g) \<longleftrightarrow> modes_inv w"
  "modes_inv (upd_source w x h) \<longleftrightarrow> modes_inv w"
  by (rule modes_inv_cong, simp)+

lemma mode_ok_upd [simp]:
  "mode_ok n (m\<lparr>rlm_observers := a\<rparr>) = mode_ok n m" "mode_ok n (m\<lparr>rlm_timers := b\<rparr>) = mode_ok n m"
  "mode_ok n (m\<lparr>rlm_observerMask := c\<rparr>) = mode_ok n m" "mode_ok n (m\<lparr>rlm_stopped := d\<rparr>) = mode_ok n m"
  by (simp_all add: mode_ok_def)

lemma mode_ok_fresh: "mode_ok n (fresh_mode n p q ps)"
  by (simp add: mode_ok_def fresh_mode_def)

lemma modes_inv_new_mode:
  assumes "modes_inv w" "get_mode w rl n = None"
  shows "modes_inv (new_mode w rl n (fresh_mode n p q ps))"
  using assms mode_ok_fresh
  by (auto simp: modes_inv_def get_mode_new_mode map_of_eq_None_iff get_mode_def[of w rl n])

lemma find_mode_inv:
  assumes "CFRunLoopFindMode E w rl n create = Some (w', found)" "rl_inv w"
  shows "rl_inv w'"
proof (rule find_mode_cases[OF assms(1)])
  fix p q ps
  assume new: "get_mode w rl n = None" "w' = new_mode w rl n (fresh_mode n p q ps)"
  show "rl_inv w'"
    using assms(2) modes_inv_new_mode[of w rl n p q ps] observers_inv_cong[of w' w] timers_inv_cong[of w' w]
      sources_inv_cong[of w' w]
    by (simp add: rl_inv_def new view_new_mode)
qed (use assms(2) in simp)

subsection \<open>Observers\<close>

lemma observer_loop_correct:
  assumes "sorted (map key xs)" "k \<le> length xs" "length (takeWhile (\<lambda>y. key y \<le> key x) xs) \<le> k"
  shows "observer_loop key xs x k = length (takeWhile (\<lambda>y. key y \<le> key x) xs)"
  using assms(2,3)
proof (induction k)
  case (Suc k)
  then show ?case using takeWhile_less_iff[OF assms(1), of k "key x"] by auto
qed simp

interpretation observer_array:
  ordered_array "observer_index :: ('a \<Rightarrow> 'k::linorder) \<Rightarrow> _" None
proof
  fix key :: "'a \<Rightarrow> 'k" and xs x i
  assume "sorted (map key xs)" "observer_index key xs x = Some i"
  then show "i = length (takeWhile (\<lambda>y. key y \<le> key x) xs)"
    using observer_loop_correct[of key xs "length xs" x] length_takeWhile_le by (auto simp: observer_index_def)
qed (simp add: observer_index_def)

lemma observer_schedule_fields [simp]:
  "rlo_order (CFRunLoopObserverSchedule x rl) = rlo_order x"
  "rlo_activities (CFRunLoopObserverSchedule x rl) = rlo_activities x"
  "rlo_rlCount (CFRunLoopObserverSchedule x rl) = rlo_rlCount x + 1"
  "rlo_runLoop (CFRunLoopObserverSchedule x rl) = (if rlo_rlCount x = 0 then rl else rlo_runLoop x)"
  "rlo_valid (CFRunLoopObserverSchedule x rl) = rlo_valid x"
  by (simp_all add: CFRunLoopObserverSchedule_def Let_def)

lemma observer_cancel_fields [simp]:
  "rlo_order (CFRunLoopObserverCancel x) = rlo_order x"
  "rlo_activities (CFRunLoopObserverCancel x) = rlo_activities x"
  "rlo_rlCount (CFRunLoopObserverCancel x) = rlo_rlCount x - 1"
  "rlo_runLoop (CFRunLoopObserverCancel x) = (if rlo_rlCount x = 1 then NULL else rlo_runLoop x)"
  "rlo_valid (CFRunLoopObserverCancel x) = rlo_valid x"
  by (simp_all add: CFRunLoopObserverCancel_def Let_def)

text \<open>Adding an observer to one mode, and removing it.\<close>

lemma and_or_same: "a AND (b OR a) = (a :: 64 word)"
  by (simp add: bit_eq_iff bit_simps)

lemma and_or_mono: "a AND b = a \<Longrightarrow> a AND (b OR c) = (a :: 64 word)"
  by (simp add: bit_eq_iff bit_simps) blast

lemma observers_invD:
  assumes "observers_inv w"
  shows "distinct (observers_of w l k)" "sorted (map (\<lambda>x. rlo_order (w_observer w x)) (observers_of w l k))"
    "y \<in> set (observers_of w l k) \<Longrightarrow> rlo_runLoop (w_observer w y) = l"
    "y \<in> set (observers_of w l k) \<Longrightarrow>
       rlo_activities (w_observer w y) AND mask_of w l k = rlo_activities (w_observer w y)"
    "rlo_rlCount (w_observer w y) = int (card {k. y \<in> set (observers_of w (rlo_runLoop (w_observer w y)) k)})"
    "rlo_rlCount (w_observer w y) = 0 \<longleftrightarrow> rlo_runLoop (w_observer w y) = NULL"
    "observers_of w l kCFRunLoopCommonModes = []"
  using assms unfolding observers_inv_def by blast+

lemma observers_invI:
  assumes "\<And>l k. distinct (observers_of w l k)"
    "\<And>l k. sorted (map (\<lambda>x. rlo_order (w_observer w x)) (observers_of w l k))"
    "\<And>y l k. y \<in> set (observers_of w l k) \<Longrightarrow> rlo_runLoop (w_observer w y) = l"
    "\<And>y l k. y \<in> set (observers_of w l k) \<Longrightarrow>
       rlo_activities (w_observer w y) AND mask_of w l k = rlo_activities (w_observer w y)"
    "\<And>y. rlo_rlCount (w_observer w y) = int (card {k. y \<in> set (observers_of w (rlo_runLoop (w_observer w y)) k)}) \<and>
      (rlo_rlCount (w_observer w y) = 0 \<longleftrightarrow> rlo_runLoop (w_observer w y) = NULL)"
    "\<And>l. observers_of w l kCFRunLoopCommonModes = []"
  shows "observers_inv w"
  using assms unfolding observers_inv_def by blast

lemma observers_inv_NULL:
  assumes "observers_inv w"
  shows "x \<notin> set (observers_of w NULL k)"
proof
  assume x: "x \<in> set (observers_of w NULL k)"
  then have "rlo_runLoop (w_observer w x) = NULL" by (rule observers_invD(3)[OF assms])
  then have "card {k. x \<in> set (observers_of w NULL k)} = 0" using observers_invD(5,6)[OF assms, of x] by simp
  then show False using x by auto
qed

lemma observers_inv_insert:
  assumes inv: "observers_inv w" and rl: "rl \<noteq> NULL" and n: "n \<noteq> kCFRunLoopCommonModes"
    and new: "x \<notin> set (observers_of w rl n)" "rlo_runLoop (w_observer w x) \<in> {NULL, rl}"
    and idx: "observer_index (\<lambda>x. rlo_order (w_observer w x)) (observers_of w rl n) x = Some i"
    and obs: "observers_of w' = (\<lambda>l k. if l = rl \<and> k = n then insert_at i x (observers_of w rl n) else observers_of w l k)"
    and mask: "mask_of w' = (\<lambda>l k. if l = rl \<and> k = n then mask_of w rl n OR rlo_activities (w_observer w x) else mask_of w l k)"
    and objs: "w_observer w' = (w_observer w)(x := CFRunLoopObserverSchedule (w_observer w x) rl)"
  shows "observers_inv w'"
proof -
  note arr = observers_invD(1-4)[OF inv] and cnt = observers_invD(5,6)[OF inv]
  have loop: "rlo_runLoop (w_observer w' x) = rl" using new(2) cnt(2)[of x] rl by (auto simp: objs)
  have keep: "rlo_order (w_observer w' y) = rlo_order (w_observer w y)"
    "rlo_activities (w_observer w' y) = rlo_activities (w_observer w y)"
    "y \<noteq> x \<Longrightarrow> w_observer w' y = w_observer w y" for y
    by (simp_all add: objs)
  have loops: "rlo_runLoop (w_observer w' y) = l" if "y \<in> set (observers_of w' l k)" for y l k
  proof (cases "y = x")
    case True
    show ?thesis
    proof (cases "x \<in> set (observers_of w l k)")
      case old: True
      then have "l \<noteq> NULL" using observers_inv_NULL[OF inv] by blast
      then show ?thesis using arr(3)[OF old] new(2) loop True by simp
    qed (use that True loop in \<open>simp add: obs split: if_splits\<close>)
  next
    case False
    then have "y \<in> set (observers_of w l k)" using that by (simp add: obs split: if_splits)
    then show ?thesis using arr(3) keep(3)[OF False] by simp
  qed
  have masks: "rlo_activities (w_observer w y) AND mask_of w' l k = rlo_activities (w_observer w y)"
    if "y \<in> set (observers_of w' l k)" for y l k
  proof (cases "l = rl \<and> k = n")
    case True
    then have "y = x \<or> y \<in> set (observers_of w rl n)" using that by (simp add: obs)
    then consider "y = x" | "y \<in> set (observers_of w rl n)" by blast
    then show ?thesis
    proof cases
      case 2
      then show ?thesis using True arr(4)[OF 2] by (simp add: mask and_or_mono)
    qed (simp add: mask True and_or_same)
  next
    case False
    then have "y \<in> set (observers_of w l k)" "mask_of w' l k = mask_of w l k" using that by (auto simp: obs mask)
    then show ?thesis using arr(4) by simp
  qed
  have sorted: "sorted (map (\<lambda>x. rlo_order (w_observer w' x)) (observers_of w' l k))" for l k
    using arr(2)[of l k] observer_array.insert_keeps_sorted[OF arr(2) idx] by (simp add: obs keep)
  have dist: "distinct (observers_of w' l k)" for l k using arr(1)[of l k] new(1) arr(1)[of rl n] by (simp add: obs)
  have count: "rlo_rlCount (w_observer w' y) = int (card {k. y \<in> set (observers_of w' (rlo_runLoop (w_observer w' y)) k)}) \<and>
      (rlo_rlCount (w_observer w' y) = 0 \<longleftrightarrow> rlo_runLoop (w_observer w' y) = NULL)" for y
  proof (cases "y = x")
    case True
    have in_rl: "{k. x \<in> set (observers_of w' rl k)} = insert n {k. x \<in> set (observers_of w rl k)}"
      by (auto simp: obs)
    have "rlo_rlCount (w_observer w x) = int (card {k. x \<in> set (observers_of w rl k)})"
    proof (cases "rlo_runLoop (w_observer w x) = NULL")
      case True
      then have "{k. x \<in> set (observers_of w rl k)} = {}" using arr(3)[of x rl] rl by auto
      then show ?thesis using True cnt(2)[of x] by simp
    qed (use new(2) cnt(1)[of x] in auto)
    then have "rlo_rlCount (w_observer w' x) = int (card {k. x \<in> set (observers_of w' rl k)})"
      using new(1) by (simp add: in_rl objs)
    moreover have "rlo_rlCount (w_observer w' x) \<noteq> 0" using cnt(1)[of x] by (simp add: objs)
    ultimately show ?thesis using True loop rl by simp
  next
    case False
    then have "{k. y \<in> set (observers_of w' l k)} = {k. y \<in> set (observers_of w l k)}" for l by (auto simp: obs)
    then show ?thesis using keep(3)[OF False] cnt[of y] by simp
  qed
  show ?thesis by (rule observers_invI[OF dist sorted loops _ count]) (use observers_invD(7)[OF inv] n in \<open>simp_all add: masks keep(2) obs\<close>)
qed

lemma observers_inv_remove:
  assumes inv: "observers_inv w" and x: "x \<in> set (observers_of w rl n)" and rl: "rl \<noteq> NULL"
    and obs: "observers_of w' = (\<lambda>l k. if l = rl \<and> k = n then remove1 x (observers_of w rl n) else observers_of w l k)"
    and mask: "mask_of w' = mask_of w"
    and objs: "w_observer w' = (w_observer w)(x := CFRunLoopObserverCancel (w_observer w x))"
  shows "observers_inv w'"
proof -
  note arr = observers_invD(1-4)[OF inv] and cnt = observers_invD(5,6)[OF inv]
  have xl: "rlo_runLoop (w_observer w x) = rl" using arr(3)[OF x] by simp
  have sub: "set (observers_of w' l k) \<subseteq> set (observers_of w l k)" for l k
    using set_remove1_subset[of x] by (auto simp: obs)
  have in_rl: "{k. x \<in> set (observers_of w rl k)} = insert n {k. x \<in> set (observers_of w' rl k)}"
    using x arr(1)[of rl n] by (auto simp: obs)
  have n: "x \<notin> set (observers_of w' rl n)" using arr(1)[of rl n] by (simp add: obs)
  have keep: "rlo_order (w_observer w' y) = rlo_order (w_observer w y)"
    "rlo_activities (w_observer w' y) = rlo_activities (w_observer w y)"
    "y \<noteq> x \<Longrightarrow> w_observer w' y = w_observer w y" for y
    by (simp_all add: objs)
  have c': "rlo_rlCount (w_observer w' x) = int (card {k. x \<in> set (observers_of w' rl k)})"
    using cnt(1)[of x] n by (simp add: objs xl in_rl)
  have others: "x \<notin> set (observers_of w' l k)" if "rlo_rlCount (w_observer w' x) = 0" for l k
  proof (cases "l = rl")
    case True
    then show ?thesis using that c' by (auto simp: card_eq_0_iff)
  qed (use sub[of l k] arr(3)[of x l k] xl in auto)
  have loops: "rlo_runLoop (w_observer w' y) = l" if "y \<in> set (observers_of w' l k)" for y l k
    using that sub[of l k] arr(3)[of y l k] keep(3)[of y] others[of l k]
    by (cases "y = x") (auto simp: objs split: if_splits)
  have masks: "rlo_activities (w_observer w y) AND mask_of w' l k = rlo_activities (w_observer w y)"
    if "y \<in> set (observers_of w' l k)" for y l k using that sub[of l k] arr(4)[of y l k] by (auto simp: mask)
  have sorted: "sorted (map (\<lambda>x. rlo_order (w_observer w' x)) (observers_of w' l k))" for l k
    using arr(2)[of l k] sorted_map_remove1[OF arr(2)[of rl n]] by (simp add: obs keep)
  have dist: "distinct (observers_of w' l k)" for l k using arr(1)[of l k] arr(1)[of rl n] by (simp add: obs)
  have count: "rlo_rlCount (w_observer w' y) = int (card {k. y \<in> set (observers_of w' (rlo_runLoop (w_observer w' y)) k)}) \<and>
      (rlo_rlCount (w_observer w' y) = 0 \<longleftrightarrow> rlo_runLoop (w_observer w' y) = NULL)" for y
  proof (cases "y = x")
    case True
    show ?thesis
    proof (cases "rlo_rlCount (w_observer w' x) = 0")
      case z: True
      then have "rlo_runLoop (w_observer w' x) = NULL" by (simp add: objs)
      then show ?thesis using True z others[OF z] by simp
    next
      case z: False
      then have "rlo_runLoop (w_observer w' x) = rl" using xl by (simp add: objs)
      then show ?thesis using True z c' rl by simp
    qed
  next
    case False
    then have "{k. y \<in> set (observers_of w' l k)} = {k. y \<in> set (observers_of w l k)}" for l by (auto simp: obs)
    then show ?thesis using keep(3)[OF False] cnt[of y] by simp
  qed
  show ?thesis by (rule observers_invI[OF dist sorted loops _ count]) (use observers_invD(7)[OF inv] in \<open>simp_all add: masks keep(2) obs\<close>)
qed

subsection \<open>Steps that keep the members\<close>

lemma view_upd_mode_same:
  assumes "\<And>m. get_mode w rl n = Some m \<Longrightarrow> members (rlm_observers (f m)) = members (rlm_observers m) \<and>
      members (rlm_timers (f m)) = members (rlm_timers m) \<and>
      members (rlm_sources0 (f m)) = members (rlm_sources0 m) \<and>
      members (rlm_sources1 (f m)) = members (rlm_sources1 m) \<and> rlm_observerMask (f m) = rlm_observerMask m"
  shows "observers_of (upd_mode w rl n f) = observers_of w" "timers_of (upd_mode w rl n f) = timers_of w"
    "sources_of (upd_mode w rl n f) = sources_of w" "mask_of (upd_mode w rl n f) = mask_of w"
  using assms by (auto simp: view_defs fun_eq_iff split: option.splits)

lemma rl_inv_upd_mode_same:
  assumes "rl_inv w"
    and "\<And>m. get_mode w rl n = Some m \<Longrightarrow> members (rlm_observers (f m)) = members (rlm_observers m) \<and>
      members (rlm_timers (f m)) = members (rlm_timers m) \<and>
      members (rlm_sources0 (f m)) = members (rlm_sources0 m) \<and>
      members (rlm_sources1 (f m)) = members (rlm_sources1 m) \<and> rlm_observerMask (f m) = rlm_observerMask m"
    and "\<And>m. mode_ok n m \<Longrightarrow> mode_ok n (f m)"
  shows "rl_inv (upd_mode w rl n f)"
  using assms(1) modes_inv_upd_mode[of w rl n f] assms(3) view_upd_mode_same[OF assms(2)]
    observers_inv_cong[of "upd_mode w rl n f" w] timers_inv_cong[of "upd_mode w rl n f" w]
    sources_inv_cong[of "upd_mode w rl n f" w]
  by (simp add: rl_inv_def)

lemma add_to_common_modes_inv:
  assumes "add_to_common_modes add E w rl item = Some w'" "rl_inv w"
    and "\<And>name w w'. rl_inv w \<Longrightarrow> add item name w = Some w' \<Longrightarrow> rl_inv w'"
  shows "rl_inv w'"
  using assms(1) unfolding add_to_common_modes_def Let_def
  by (rule ofold_invariant[where P = rl_inv]) (auto simp: rl_inv_upd_loop assms(2) intro: assms(3))

lemma remove_from_common_modes_inv:
  assumes "remove_from_common_modes rem E w rl item = Some w'" "rl_inv w"
    and "\<And>name w w'. rl_inv w \<Longrightarrow> rem item name w = Some w' \<Longrightarrow> rl_inv w'"
  shows "rl_inv w'"
proof (cases "set_find (item_equal (w_source w)) item (members (rl_commonModeItems (w_loop w rl))) = None")
  case False
  then have "ofold (rem item) (ev_names E (rl_commonModes (w_loop w rl))) (upd_loop w rl (\<lambda>l. l\<lparr>rl_commonModeItems :=
      map_option (set_remove (item_equal (w_source w)) item) (rl_commonModeItems l)\<rparr>)) = Some w'"
    using assms(1) by (simp add: remove_from_common_modes_def)
  then show ?thesis
    by (rule ofold_invariant[where P = rl_inv]) (auto simp: rl_inv_upd_loop assms(2) intro: assms(3))
qed (use assms in \<open>simp add: remove_from_common_modes_def\<close>)

lemma do_callout_inv:
  assumes "do_callout E c w = Some w'" "rl_inv w"
    and "\<And>c w w'. rl_inv w \<Longrightarrow> ev_callout E c w = Some w' \<Longrightarrow> rl_inv w'"
  shows "rl_inv w'"
  using assms(1) unfolding do_callout_def by (rule assms(3)[rotated]) (simp add: assms(2))

subsection \<open>Adding and removing an observer\<close>

text \<open>What the operations on one mode leave alone besides the members of the mode.\<close>

definition same_loops :: "world \<Rightarrow> world \<Rightarrow> bool" where
  "same_loops w w' \<longleftrightarrow> (\<forall>l. rl_commonModes (w_loop w' l) = rl_commonModes (w_loop w l) \<and>
     rl_commonModeItems (w_loop w' l) = rl_commonModeItems (w_loop w l) \<and>
     rl_deallocating (w_loop w' l) = rl_deallocating (w_loop w l) \<and>
     rl_currentMode (w_loop w' l) = rl_currentMode (w_loop w l))"

lemma same_loopsD:
  assumes "same_loops w w'"
  shows "rl_commonModes (w_loop w' l) = rl_commonModes (w_loop w l)"
    "rl_commonModeItems (w_loop w' l) = rl_commonModeItems (w_loop w l)"
    "rl_deallocating (w_loop w' l) = rl_deallocating (w_loop w l)"
    "rl_currentMode (w_loop w' l) = rl_currentMode (w_loop w l)"
  using assms by (simp_all add: same_loops_def)

lemma same_loops_refl [simp]: "same_loops w w"
  by (simp add: same_loops_def)

lemma same_loops_trans: "same_loops w w1 \<Longrightarrow> same_loops w1 w2 \<Longrightarrow> same_loops w w2"
  by (simp add: same_loops_def)

lemma same_loops_upd [simp]:
  "same_loops w (upd_mode w1 rl n f) \<longleftrightarrow> same_loops w w1" "same_loops w (upd_observer w1 x g) \<longleftrightarrow> same_loops w w1"
  "same_loops w (upd_timer w1 x h) \<longleftrightarrow> same_loops w w1" "same_loops w (upd_source w1 x k) \<longleftrightarrow> same_loops w w1"
  "same_loops w (w1\<lparr>w_calls := cs\<rparr>) \<longleftrightarrow> same_loops w w1" "same_loops w (CFRunLoopWakeUp w1 rl) \<longleftrightarrow> same_loops w w1"
  by (auto simp: same_loops_def CFRunLoopWakeUp_def)

lemma find_mode_same_loops:
  "CFRunLoopFindMode E w rl n create = Some (w', found) \<Longrightarrow> same_loops w w'"
  by (simp add: same_loops_def find_mode_loops)

lemma wakeup_frame [simp]:
  "w_source (CFRunLoopWakeUp w rl) = w_source w" "w_observer (CFRunLoopWakeUp w rl) = w_observer w"
  "w_timer (CFRunLoopWakeUp w rl) = w_timer w" "w_calls (CFRunLoopWakeUp w rl) = w_calls w"
  "w_loop (CFRunLoopWakeUp w rl) = w_loop w" "get_mode (CFRunLoopWakeUp w rl) = get_mode w"
  by (simp_all add: CFRunLoopWakeUp_def fun_eq_iff)

lemma add_observer_effect:
  assumes "add_observer_to_mode E w rl x n = Some w'"
  shows "timers_of w' = timers_of w" "sources_of w' = sources_of w" "w_timer w' = w_timer w"
    "w_source w' = w_source w" "w_calls w' = w_calls w" "same_loops w w'" "modes_inv w \<Longrightarrow> modes_inv w'"
    "get_mode w' rl n = None \<or> x \<in> set (observers_of w rl n) \<Longrightarrow>
       observers_of w' = observers_of w \<and> mask_of w' = mask_of w \<and> w_observer w' = w_observer w"
    "get_mode w' rl n \<noteq> None \<Longrightarrow> x \<notin> set (observers_of w rl n) \<Longrightarrow> \<exists>i.
       observer_index (\<lambda>y. rlo_order (w_observer w y)) (observers_of w rl n) x = Some i \<and>
       observers_of w' = (\<lambda>l k. if l = rl \<and> k = n then insert_at i x (observers_of w rl n) else observers_of w l k) \<and>
       mask_of w' = (\<lambda>l k. if l = rl \<and> k = n then mask_of w rl n OR rlo_activities (w_observer w x) else mask_of w l k) \<and>
       w_observer w' = (w_observer w)(x := CFRunLoopObserverSchedule (w_observer w x) rl)"
proof -
  let ?init = "\<lambda>m. m\<lparr>rlm_observers := Some (members (rlm_observers m))\<rparr>"
  obtain w1 found where w1: "CFRunLoopFindMode E w rl n True = Some (w1, found)"
    using assms by (auto simp: add_observer_to_mode_def bind_eq_Some_conv)
  note v1 = find_mode_views[OF w1] and f1 = find_mode_frame(1)[OF w1, unfolded same_objects_def]
  note l1 = find_mode_same_loops[OF w1]
  have mi1: "modes_inv w1" if "modes_inv w"
    by (rule find_mode_cases[OF w1]) (use that modes_inv_new_mode in auto)
  define w2 where "w2 = upd_mode w1 rl n ?init"
  have v2: "observers_of w2 = observers_of w" "timers_of w2 = timers_of w" "sources_of w2 = sources_of w"
    "mask_of w2 = mask_of w" unfolding w2_def v1[symmetric] by (rule view_upd_mode_same; simp)+
  have f2: "w_observer w2 = w_observer w" "w_timer w2 = w_timer w" "w_source w2 = w_source w" "w_calls w2 = w_calls w"
    using f1 by (simp_all add: w2_def)
  have mi2: "modes_inv w2" if "modes_inv w" unfolding w2_def by (rule modes_inv_upd_mode[OF mi1[OF that]]) simp
  define i where "i = observer_loop (\<lambda>y. rlo_order (w_observer w y)) (observers_of w rl n) x (length (observers_of w rl n))"
  let ?f = "\<lambda>m. m\<lparr>rlm_observers := Some (insert_at i x (members (rlm_observers m))),
          rlm_observerMask := rlm_observerMask m OR rlo_activities (w_observer w x)\<rparr>"
  define w3 where "w3 = upd_observer (upd_mode w2 rl n ?f) x (\<lambda>y. CFRunLoopObserverSchedule y rl)"
  have w': "w' = (if \<not> found then w1 else if x \<in> set (observers_of w rl n) then w2 else w3)"
  proof (cases found)
    case True
    then obtain m where m: "get_mode w1 rl n = Some m" using find_mode_found[OF w1] by auto
    then have m2: "get_mode w2 rl n = Some (?init m)" by (simp add: w2_def)
    then have "members (rlm_observers (?init m)) = observers_of w rl n" unfolding v2[symmetric] by (simp add: observers_of_def)
    then show ?thesis using assms w1 True m2
      by (auto simp: add_observer_to_mode_def w2_def[symmetric] w3_def Let_def observer_index_def f2 i_def
          split: if_splits)
  qed (use assms w1 in \<open>simp add: add_observer_to_mode_def\<close>)
  have mode: "get_mode w' rl n \<noteq> None \<longleftrightarrow> found"
    using find_mode_found[OF w1] by (auto simp: w' w2_def w3_def)
  have v3: "timers_of w3 = timers_of w" "sources_of w3 = sources_of w"
    unfolding w3_def v2[symmetric] by (simp_all add: view_defs fun_eq_iff split: option.split)
  show "timers_of w' = timers_of w" "sources_of w' = sources_of w" "w_timer w' = w_timer w"
    "w_source w' = w_source w" "w_calls w' = w_calls w" "same_loops w w'"
    using v1 v2 v3 f1 f2 l1 by (simp_all add: w' w3_def w2_def)
  show "modes_inv w'" if "modes_inv w"
    using mi1[OF that] mi2[OF that] by (auto simp: w' w3_def intro!: modes_inv_upd_mode)
  show "observers_of w' = observers_of w \<and> mask_of w' = mask_of w \<and> w_observer w' = w_observer w"
    if "get_mode w' rl n = None \<or> x \<in> set (observers_of w rl n)"
    using that mode v1 v2 f1 f2 by (auto simp: w')
  assume found: "get_mode w' rl n \<noteq> None" and new: "x \<notin> set (observers_of w rl n)"
  then obtain m where m: "get_mode w2 rl n = Some m" using mode find_mode_found[OF w1] by (auto simp: w2_def)
  have mem: "members (rlm_observers m) = observers_of w rl n" "rlm_observerMask m = mask_of w rl n"
    unfolding v2[symmetric] using m by (simp_all add: observers_of_def mask_of_def)
  have "w' = w3" using found mode new by (simp add: w')
  moreover have "observers_of w3 = (\<lambda>l k. if l = rl \<and> k = n then insert_at i x (observers_of w rl n) else observers_of w l k)"
    "mask_of w3 = (\<lambda>l k. if l = rl \<and> k = n then mask_of w rl n OR rlo_activities (w_observer w x) else mask_of w l k)"
    by (simp_all add: w3_def view_upd_mode[OF m] v2 mem fun_eq_iff)
  ultimately show "\<exists>i. observer_index (\<lambda>y. rlo_order (w_observer w y)) (observers_of w rl n) x = Some i \<and>
       observers_of w' = (\<lambda>l k. if l = rl \<and> k = n then insert_at i x (observers_of w rl n) else observers_of w l k) \<and>
       mask_of w' = (\<lambda>l k. if l = rl \<and> k = n then mask_of w rl n OR rlo_activities (w_observer w x) else mask_of w l k) \<and>
       w_observer w' = (w_observer w)(x := CFRunLoopObserverSchedule (w_observer w x) rl)"
    by (simp add: observer_index_def i_def[symmetric] w3_def f2)
qed

lemma add_observer_inv:
  assumes "CFRunLoopAddObserver add E w rl x n = Some w'" "rl_inv w"
    and "\<And>name w w'. rl_inv w \<Longrightarrow> add (ObserverItem x) name w = Some w' \<Longrightarrow> rl_inv w'"
  shows "rl_inv w'"
proof -
  have rl: "rl \<noteq> NULL" using assms(1) by (auto simp: CFRunLoopAddObserver_def)
  consider "w' = w" | "add_to_common_modes add E w rl (ObserverItem x) = Some w'"
    | "add_observer_to_mode E w rl x n = Some w'" "rlo_runLoop (w_observer w x) \<in> {NULL, rl}" "n \<noteq> kCFRunLoopCommonModes"
    using assms(1) unfolding CFRunLoopAddObserver_def by (metis insertI1 insertI2 option.distinct(1) option.inject)
  then show ?thesis
  proof cases
    case 3
    note eff = add_observer_effect[OF 3(1)]
    have "observers_inv w'"
    proof (cases "get_mode w' rl n = None \<or> x \<in> set (observers_of w rl n)")
      case True
      then show ?thesis using eff(8)[OF True] assms(2) observers_inv_cong[of w' w] by (simp add: rl_inv_def)
    next
      case False
      then obtain i where i: "observer_index (\<lambda>y. rlo_order (w_observer w y)) (observers_of w rl n) x = Some i"
        "observers_of w' = (\<lambda>l k. if l = rl \<and> k = n then insert_at i x (observers_of w rl n) else observers_of w l k)"
        "mask_of w' = (\<lambda>l k. if l = rl \<and> k = n then mask_of w rl n OR rlo_activities (w_observer w x) else mask_of w l k)"
        "w_observer w' = (w_observer w)(x := CFRunLoopObserverSchedule (w_observer w x) rl)"
        using eff(9) by blast
      have "observers_inv w" "x \<notin> set (observers_of w rl n)" using assms(2) False by (simp_all add: rl_inv_def)
      from observers_inv_insert[OF this(1) rl 3(3) this(2) 3(2) i] show ?thesis .
    qed
    then show ?thesis
      using assms(2) eff(1-7) timers_inv_cong[of w' w] sources_inv_cong[of w' w] by (simp add: rl_inv_def)
  next
    case 2
    then show ?thesis by (rule add_to_common_modes_inv[OF _ assms(2,3)])
  qed (simp add: assms(2))
qed

lemma remove_observer_effect:
  assumes "remove_observer_from_mode E w rl x n = Some w'"
  shows "timers_of w' = timers_of w" "sources_of w' = sources_of w" "w_timer w' = w_timer w"
    "w_source w' = w_source w" "w_calls w' = w_calls w" "same_loops w w'" "modes_inv w \<Longrightarrow> modes_inv w'"
    "mask_of w' = mask_of w"
    "observers_of w' = (\<lambda>l k. if l = rl \<and> k = n then remove1 x (observers_of w rl n) else observers_of w l k)"
    "w_observer w' = (if x \<in> set (observers_of w rl n)
       then (w_observer w)(x := CFRunLoopObserverCancel (w_observer w x)) else w_observer w)"
proof -
  let ?f = "\<lambda>m. m\<lparr>rlm_observers := map_option (remove1 x) (rlm_observers m)\<rparr>"
  define w1 where "w1 = upd_observer (upd_mode w rl n ?f) x CFRunLoopObserverCancel"
  have w': "w' = (if x \<in> set (observers_of w rl n) then w1 else w)"
    using assms by (auto simp: remove_observer_from_mode_def observers_of_def w1_def split: option.splits if_splits)
  have v: "timers_of w1 = timers_of w" "sources_of w1 = sources_of w" "mask_of w1 = mask_of w"
    "observers_of w1 = (\<lambda>l k. if l = rl \<and> k = n then remove1 x (observers_of w rl n) else observers_of w l k)"
    by (auto simp: w1_def view_defs fun_eq_iff members_def split: option.split)
  show "observers_of w' = (\<lambda>l k. if l = rl \<and> k = n then remove1 x (observers_of w rl n) else observers_of w l k)"
    using v(4) by (auto simp: w' fun_eq_iff remove1_idem)
  show "modes_inv w \<Longrightarrow> modes_inv w'" by (auto simp: w' w1_def intro!: modes_inv_upd_mode)
  show "timers_of w' = timers_of w" "sources_of w' = sources_of w" "w_timer w' = w_timer w"
    "w_source w' = w_source w" "w_calls w' = w_calls w" "same_loops w w'" "mask_of w' = mask_of w"
    "w_observer w' = (if x \<in> set (observers_of w rl n)
       then (w_observer w)(x := CFRunLoopObserverCancel (w_observer w x)) else w_observer w)"
    using v by (simp_all add: w' w1_def)
qed

lemma remove_observer_inv:
  assumes "CFRunLoopRemoveObserver rem E w rl x n = Some w'" "rl_inv w"
    and "\<And>name w w'. rl_inv w \<Longrightarrow> rem (ObserverItem x) name w = Some w' \<Longrightarrow> rl_inv w'"
  shows "rl_inv w'"
proof -
  have rl: "rl \<noteq> NULL" using assms(1) by (auto simp: CFRunLoopRemoveObserver_def)
  consider "remove_from_common_modes rem E w rl (ObserverItem x) = Some w'"
    | "remove_observer_from_mode E w rl x n = Some w'"
    using assms(1) unfolding CFRunLoopRemoveObserver_def by (metis option.distinct(1))
  then show ?thesis
  proof cases
    case 2
    note eff = remove_observer_effect[OF 2]
    have "observers_inv w'"
    proof (cases "x \<in> set (observers_of w rl n)")
      case True
      then show ?thesis
        using observers_inv_remove[OF _ True rl eff(9,8)] eff(10) assms(2) by (simp add: rl_inv_def)
    next
      case False
      then have "observers_of w' = observers_of w" by (simp add: eff(9) fun_eq_iff remove1_idem)
      then show ?thesis using observers_inv_cong[of w' w] eff(8,10) False assms(2) by (simp add: rl_inv_def)
    qed
    then show ?thesis
      using assms(2) eff(1-7) timers_inv_cong[of w' w] sources_inv_cong[of w' w] by (simp add: rl_inv_def)
  next
    case 1
    then show ?thesis by (rule remove_from_common_modes_inv[OF _ assms(2,3)])
  qed
qed

subsection \<open>Adding and removing a timer\<close>

lemma timers_invD:
  assumes "timers_inv w"
  shows "distinct (timers_of w l k)" "sorted (map (\<lambda>t. rlt_fireTSR (w_timer w t)) (timers_of w l k))"
    "t \<in> set (timers_of w l k) \<longleftrightarrow> rlt_runLoop (w_timer w t) = l \<and> k \<in> set (rlt_rlModes (w_timer w t))"
    "distinct (rlt_rlModes (w_timer w t))" "rlt_runLoop (w_timer w t) = NULL \<longleftrightarrow> rlt_rlModes (w_timer w t) = []"
  using assms unfolding timers_inv_def by blast+

lemma timers_invI:
  assumes "\<And>l k. distinct (timers_of w l k)"
    "\<And>l k. sorted (map (\<lambda>t. rlt_fireTSR (w_timer w t)) (timers_of w l k))"
    "\<And>t l k. t \<in> set (timers_of w l k) \<longleftrightarrow> rlt_runLoop (w_timer w t) = l \<and> k \<in> set (rlt_rlModes (w_timer w t))"
    "\<And>t. distinct (rlt_rlModes (w_timer w t))" "\<And>t. rlt_runLoop (w_timer w t) = NULL \<longleftrightarrow> rlt_rlModes (w_timer w t) = []"
  shows "timers_inv w"
  using assms unfolding timers_inv_def by blast

lemma timers_inv_insert:
  assumes inv: "timers_inv w" and rl: "rl \<noteq> NULL"
    and new: "n \<notin> set (rlt_rlModes (w_timer w x))" "rlt_runLoop (w_timer w x) \<in> {NULL, rl}"
    and idx: "CFRunLoopInsertionIndexInTimerArray (\<lambda>t. rlt_fireTSR (w_timer w t)) (timers_of w rl n) x = Some i"
    and arr: "timers_of w' = (\<lambda>l k. if l = rl \<and> k = n then insert_at i x (timers_of w rl n) else timers_of w l k)"
    and objs: "w_timer w' = (w_timer w)(x := (w_timer w x)\<lparr>rlt_runLoop := rl,
        rlt_rlModes := set_add n (rlt_rlModes (w_timer w x))\<rparr>)"
  shows "timers_inv w'"
proof (rule timers_invI)
  note D = timers_invD[OF inv]
  have fire: "rlt_fireTSR (w_timer w' t) = rlt_fireTSR (w_timer w t)" for t by (simp add: objs)
  have out: "x \<notin> set (timers_of w rl n)" using D(3) new(1) by blast
  fix l k t
  show "distinct (timers_of w' l k)" using D(1) out by (simp add: arr)
  show "sorted (map (\<lambda>t. rlt_fireTSR (w_timer w' t)) (timers_of w' l k))"
    using D(2)[of l k] timer_array.insert_keeps_sorted[OF D(2) idx] by (simp add: arr fire)
  show "distinct (rlt_rlModes (w_timer w' t))" using D(4) by (simp add: objs)
  show "rlt_runLoop (w_timer w' t) = NULL \<longleftrightarrow> rlt_rlModes (w_timer w' t) = []"
    using D(5)[of t] rl by (auto simp: objs set_add_def)
  show "t \<in> set (timers_of w' l k) \<longleftrightarrow> rlt_runLoop (w_timer w' t) = l \<and> k \<in> set (rlt_rlModes (w_timer w' t))"
  proof (cases "t = x")
    case True
    have "x \<in> set (timers_of w' l k) \<longleftrightarrow> (l = rl \<and> k = n) \<or> x \<in> set (timers_of w l k)" by (auto simp: arr)
    also have "\<dots> \<longleftrightarrow> l = rl \<and> (k = n \<or> k \<in> set (rlt_rlModes (w_timer w x)))"
      using D(3)[of x l k] D(5)[of x] new(2) by auto
    finally show ?thesis using True by (auto simp: objs)
  qed (use D(3)[of t l k] in \<open>auto simp: arr objs\<close>)
qed

lemma timer_leave_mode_fields [simp]:
  "rlt_fireTSR (timer_leave_mode n t) = rlt_fireTSR t" "rlt_valid (timer_leave_mode n t) = rlt_valid t"
  "rlt_rlModes (timer_leave_mode n t) = removeAll n (rlt_rlModes t)"
  "rlt_runLoop (timer_leave_mode n t) = (if removeAll n (rlt_rlModes t) = [] then NULL else rlt_runLoop t)"
  by (simp_all add: timer_leave_mode_def Let_def)

lemma timers_inv_remove:
  assumes inv: "timers_inv w" and x: "x \<in> set (timers_of w rl n)"
    and arr: "timers_of w' = (\<lambda>l k. if l = rl \<and> k = n then remove1 x (timers_of w rl n) else timers_of w l k)"
    and objs: "w_timer w' = (w_timer w)(x := timer_leave_mode n (w_timer w x))"
  shows "timers_inv w'"
proof (rule timers_invI)
  note D = timers_invD[OF inv]
  have fire: "rlt_fireTSR (w_timer w' t) = rlt_fireTSR (w_timer w t)" for t by (simp add: objs)
  have xl: "rlt_runLoop (w_timer w x) = rl" using D(3) x by blast
  have modes: "rlt_rlModes (w_timer w' x) = removeAll n (rlt_rlModes (w_timer w x))"
    "rlt_runLoop (w_timer w' x) = (if removeAll n (rlt_rlModes (w_timer w x)) = [] then NULL else rl)"
    by (simp_all add: objs xl)
  fix l k t
  show "distinct (timers_of w' l k)" using D(1) by (simp add: arr)
  show "sorted (map (\<lambda>t. rlt_fireTSR (w_timer w' t)) (timers_of w' l k))"
    using D(2)[of l k] sorted_map_remove1[OF D(2)[of rl n]] by (simp add: arr fire)
  show "distinct (rlt_rlModes (w_timer w' t))" using D(4)[of t] by (cases "t = x") (simp_all add: objs distinct_removeAll)
  show "rlt_runLoop (w_timer w' t) = NULL \<longleftrightarrow> rlt_rlModes (w_timer w' t) = []"
  proof (cases "t = x")
    case True
    have "rl \<noteq> NULL" using D(3)[of x rl n] D(5)[of x] x by auto
    then show ?thesis using True by (simp add: modes)
  qed (use D(5)[of t] in \<open>simp add: objs\<close>)
  show "t \<in> set (timers_of w' l k) \<longleftrightarrow> rlt_runLoop (w_timer w' t) = l \<and> k \<in> set (rlt_rlModes (w_timer w' t))"
  proof (cases "t = x")
    case True
    have "x \<in> set (timers_of w' l k) \<longleftrightarrow> \<not> (l = rl \<and> k = n) \<and> x \<in> set (timers_of w l k)"
      using D(1)[of rl n] by (auto simp: arr)
    then show ?thesis using True D(3)[of x l k] xl by (auto simp: modes removeAll_filter_not_eq filter_empty_conv)
  qed (use D(3)[of t l k] in \<open>auto simp: arr objs\<close>)
qed

lemma reposition_new_effect:
  assumes "CFRepositionTimerInMode rate T m x False = Some m'" "x \<noteq> NULL" "rlm_timers m = Some ts"
  obtains i where "CFRunLoopInsertionIndexInTimerArray (\<lambda>t. rlt_fireTSR (T t)) ts x = Some i"
    "unarmed m' = unarmed (m\<lparr>rlm_timers := Some (insert_at i x ts)\<rparr>)"
  using assms unarmed_arm_next by (auto simp: CFRepositionTimerInMode_def bind_eq_Some_conv)

lemma mode_ok_unarmed:
  assumes "unarmed m' = unarmed m"
  shows "mode_ok n m' \<longleftrightarrow> mode_ok n m"
  using unarmed_fields[OF assms] by (simp add: mode_ok_def)

text \<open>Finding the mode and giving it an array of timers.\<close>

definition prepared :: "world \<Rightarrow> world \<Rightarrow> bool" where
  "prepared w w' \<longleftrightarrow> observers_of w' = observers_of w \<and> timers_of w' = timers_of w \<and> sources_of w' = sources_of w \<and>
     mask_of w' = mask_of w \<and> w_observer w' = w_observer w \<and> w_timer w' = w_timer w \<and>
     w_source w' = w_source w \<and> w_calls w' = w_calls w \<and> same_loops w w' \<and> (modes_inv w \<longrightarrow> modes_inv w')"

lemma preparedD:
  assumes "prepared w w'"
  shows "observers_of w' = observers_of w" "timers_of w' = timers_of w" "sources_of w' = sources_of w"
    "mask_of w' = mask_of w" "w_observer w' = w_observer w" "w_timer w' = w_timer w"
    "w_source w' = w_source w" "w_calls w' = w_calls w" "same_loops w w'" "modes_inv w \<Longrightarrow> modes_inv w'"
  using assms by (simp_all add: prepared_def)

lemma find_mode_prepared:
  assumes "CFRunLoopFindMode E w rl n create = Some (w', found)"
  shows "prepared w w'"
proof -
  have "modes_inv w'" if "modes_inv w"
    by (rule find_mode_cases[OF assms]) (use that modes_inv_new_mode in auto)
  then show ?thesis
    using find_mode_views[OF assms] find_mode_frame(1)[OF assms] find_mode_same_loops[OF assms]
    by (simp add: prepared_def same_objects_def)
qed

lemma upd_mode_prepared:
  assumes "prepared w w1"
    and "\<And>m. get_mode w1 rl n = Some m \<Longrightarrow> members (rlm_observers (f m)) = members (rlm_observers m) \<and>
      members (rlm_timers (f m)) = members (rlm_timers m) \<and>
      members (rlm_sources0 (f m)) = members (rlm_sources0 m) \<and>
      members (rlm_sources1 (f m)) = members (rlm_sources1 m) \<and> rlm_observerMask (f m) = rlm_observerMask m"
    and "\<And>m. mode_ok n m \<Longrightarrow> mode_ok n (f m)"
  shows "prepared w (upd_mode w1 rl n f)"
  using preparedD[OF assms(1)] view_upd_mode_same[OF assms(2)] modes_inv_upd_mode[of w1 rl n f] assms(3)
  by (simp add: prepared_def)

lemma add_timer_cases:
  assumes "add_timer_to_mode E w rl x n = Some w'"
  obtains (same) "prepared w w'" "get_mode w' rl n = None \<or> n \<in> set (rlt_rlModes (w_timer w x)) \<or>
      rlt_runLoop (w_timer w x) \<notin> {NULL, rl}"
  | (add) w2 m m' where "prepared w w2" "n \<notin> set (rlt_rlModes (w_timer w x))" "rlt_runLoop (w_timer w x) \<in> {NULL, rl}"
      "get_mode w2 rl n = Some m" "rlm_timers m = Some (timers_of w rl n)"
      "CFRepositionTimerInMode (ev_rate E) ((w_timer w)(x := (w_timer w x)\<lparr>rlt_runLoop := rl,
         rlt_rlModes := set_add n (rlt_rlModes (w_timer w x))\<rparr>)) m x False = Some m'"
      "w' \<in> {upd_mode (upd_timer w2 x (\<lambda>t. t\<lparr>rlt_runLoop := rl, rlt_rlModes := set_add n (rlt_rlModes t)\<rparr>)) rl n (\<lambda>_. m'),
         CFRunLoopWakeUp (upd_mode (upd_timer w2 x (\<lambda>t. t\<lparr>rlt_runLoop := rl, rlt_rlModes := set_add n (rlt_rlModes t)\<rparr>)) rl n (\<lambda>_. m')) rl}"
proof -
  let ?init = "\<lambda>m. m\<lparr>rlm_timers := Some (members (rlm_timers m))\<rparr>"
  let ?t = "\<lambda>t. t\<lparr>rlt_runLoop := rl, rlt_rlModes := set_add n (rlt_rlModes t)\<rparr>"
  obtain w1 found where w1: "CFRunLoopFindMode E w rl n True = Some (w1, found)"
    using assms by (auto simp: add_timer_to_mode_def bind_eq_Some_conv)
  note p1 = find_mode_prepared[OF w1]
  define w2 where "w2 = upd_mode w1 rl n ?init"
  have p2: "prepared w w2" unfolding w2_def by (rule upd_mode_prepared[OF p1]) simp_all
  show thesis
  proof (cases "found \<and> n \<notin> set (rlt_rlModes (w_timer w x)) \<and> rlt_runLoop (w_timer w x) \<in> {NULL, rl}")
    case False
    then have "w' = w1 \<and> \<not> found \<or> w' = w2 \<and> found"
      using assms w1 preparedD(6)[OF p2]
      by (auto simp: add_timer_to_mode_def w2_def[symmetric] Let_def split: if_splits)
    then show thesis using same p1 p2 False find_mode_found[OF w1] by blast
  next
    case True
    then obtain m where m: "get_mode w1 rl n = Some m" using find_mode_found[OF w1] by auto
    then have m2: "get_mode w2 rl n = Some (?init m)" by (simp add: w2_def)
    then have mem: "rlm_timers (?init m) = Some (timers_of w rl n)"
      unfolding preparedD(2)[OF p2, symmetric] by (simp add: timers_of_def)
    obtain m' where m': "CFRepositionTimerInMode (ev_rate E) (w_timer (upd_timer w2 x ?t)) (?init m) x False = Some m'"
      "w' = (if \<not> ev_linkedOnLion E \<and> rl \<noteq> ev_current E
         then CFRunLoopWakeUp (upd_mode (upd_timer w2 x ?t) rl n (\<lambda>_. m')) rl
         else upd_mode (upd_timer w2 x ?t) rl n (\<lambda>_. m'))"
      using assms w1 True m2 preparedD(6)[OF p2]
      by (auto simp: add_timer_to_mode_def w2_def[symmetric] Let_def bind_eq_Some_conv split: if_split_asm)
    show thesis
      by (rule add[OF p2 _ _ m2 mem, of m']) (use True m' preparedD(6)[OF p2] in auto)
  qed
qed

lemma add_timer_effect:
  assumes "add_timer_to_mode E w rl x n = Some w'" "x \<noteq> NULL"
  shows "observers_of w' = observers_of w \<and> sources_of w' = sources_of w \<and> mask_of w' = mask_of w \<and>
      w_observer w' = w_observer w \<and> w_source w' = w_source w \<and> w_calls w' = w_calls w \<and> same_loops w w' \<and>
      (modes_inv w \<longrightarrow> modes_inv w')" (is ?frame)
    and "timers_of w' = timers_of w \<and> w_timer w' = w_timer w \<and> (get_mode w' rl n = None \<or>
        n \<in> set (rlt_rlModes (w_timer w x)) \<or> rlt_runLoop (w_timer w x) \<notin> {NULL, rl}) \<or>
      get_mode w' rl n \<noteq> None \<and> n \<notin> set (rlt_rlModes (w_timer w x)) \<and> rlt_runLoop (w_timer w x) \<in> {NULL, rl} \<and>
      (\<exists>i. CFRunLoopInsertionIndexInTimerArray (\<lambda>t. rlt_fireTSR (w_timer w t)) (timers_of w rl n) x = Some i \<and>
       timers_of w' = (\<lambda>l k. if l = rl \<and> k = n then insert_at i x (timers_of w rl n) else timers_of w l k) \<and>
       w_timer w' = (w_timer w)(x := (w_timer w x)\<lparr>rlt_runLoop := rl,
         rlt_rlModes := set_add n (rlt_rlModes (w_timer w x))\<rparr>))" (is ?timers)
proof -
  have both: "?frame \<and> ?timers"
    using assms(1)
  proof (cases rule: add_timer_cases)
    case same
    then show ?thesis by (auto simp: prepared_def)
  next
    case (add w2 m m')
    let ?T = "(w_timer w)(x := (w_timer w x)\<lparr>rlt_runLoop := rl, rlt_rlModes := set_add n (rlt_rlModes (w_timer w x))\<rparr>)"
    define w3 where "w3 = upd_timer w2 x (\<lambda>t. t\<lparr>rlt_runLoop := rl, rlt_rlModes := set_add n (rlt_rlModes t)\<rparr>)"
    note p = preparedD[OF add(1)]
    obtain i where i: "CFRunLoopInsertionIndexInTimerArray (\<lambda>t. rlt_fireTSR (?T t)) (timers_of w rl n) x = Some i"
      "unarmed m' = unarmed (m\<lparr>rlm_timers := Some (insert_at i x (timers_of w rl n))\<rparr>)"
      by (rule reposition_new_effect[OF add(6) assms(2) add(5)])
    have fire: "(\<lambda>t. rlt_fireTSR (?T t)) = (\<lambda>t. rlt_fireTSR (w_timer w t))" by (simp add: fun_eq_iff)
    note fields = unarmed_fields[OF i(2)]
    have g3: "get_mode w3 rl n = Some m" using add(4) by (simp add: w3_def)
    have v: "observers_of w3 = observers_of w" "timers_of w3 = timers_of w" "sources_of w3 = sources_of w"
      "mask_of w3 = mask_of w" using p by (simp_all add: w3_def)
    have mem: "members (rlm_observers m) = observers_of w rl n" "rlm_observerMask m = mask_of w rl n"
      "members (rlm_sources0 m) @ members (rlm_sources1 m) = sources_of w rl n"
      unfolding p(1,3,4)[symmetric] using add(4) by (simp_all add: view_defs)
    define w4 where "w4 = upd_mode w3 rl n (\<lambda>_. m')"
    have v4: "observers_of w4 = observers_of w" "sources_of w4 = sources_of w" "mask_of w4 = mask_of w"
      "timers_of w4 = (\<lambda>l k. if l = rl \<and> k = n then insert_at i x (timers_of w rl n) else timers_of w l k)"
      by (auto simp: w4_def view_upd_mode[OF g3] v fields mem fun_eq_iff)
    have mi: "modes_inv w4" if "modes_inv w"
      unfolding w4_def
    proof (rule modes_inv_upd_mode)
      show "modes_inv w3" using p(10)[OF that] by (simp add: w3_def)
      show "mode_ok n m'" if "get_mode w3 rl n = Some ma" "mode_ok n ma" for ma
        using that g3 mode_ok_unarmed[OF i(2), of n] by simp
    qed
    have f4: "w_observer w4 = w_observer w" "w_source w4 = w_source w" "w_calls w4 = w_calls w" "same_loops w w4"
      "w_timer w4 = ?T" "get_mode w4 rl n \<noteq> None"
      using p g3 by (simp_all add: w4_def w3_def)
    have "w' = w4 \<or> w' = CFRunLoopWakeUp w4 rl" using add(7) by (simp add: w4_def w3_def)
    moreover have "observers_of (CFRunLoopWakeUp w4 rl) = observers_of w4" "timers_of (CFRunLoopWakeUp w4 rl) = timers_of w4"
      "sources_of (CFRunLoopWakeUp w4 rl) = sources_of w4" "mask_of (CFRunLoopWakeUp w4 rl) = mask_of w4"
      by (rule view_cong; simp)+
    moreover have "modes_inv (CFRunLoopWakeUp w4 rl) \<longleftrightarrow> modes_inv w4" by (rule modes_inv_cong) simp
    ultimately show ?thesis using v4 f4 mi add(2,3) i(1) fire by (elim disjE) (simp_all add: fire)
  qed
  show ?frame by (rule conjunct1[OF both])
  show ?timers by (rule conjunct2[OF both])
qed

lemma add_timer_inv:
  assumes "CFRunLoopAddTimer add E w rl x n = Some w'" "rl_inv w"
    and "\<And>name w w'. rl_inv w \<Longrightarrow> add (TimerItem x) name w = Some w' \<Longrightarrow> rl_inv w'"
  shows "rl_inv w'"
proof -
  have rl: "rl \<noteq> NULL" using assms(1) by (auto simp: CFRunLoopAddTimer_def)
  consider "w' = w" | "add_to_common_modes add E w rl (TimerItem x) = Some w'" | "add_timer_to_mode E w rl x n = Some w'" "x \<noteq> NULL"
    using assms(1) unfolding CFRunLoopAddTimer_def by (metis option.distinct(1) option.inject)
  then show ?thesis
  proof cases
    case 3
    note frame = add_timer_effect(1)[OF 3] and timers = add_timer_effect(2)[OF 3]
    have inv: "timers_inv w" using assms(2) by (simp add: rl_inv_def)
    from timers have "timers_inv w'"
    proof (elim disjE conjE exE)
      fix i
      assume "n \<notin> set (rlt_rlModes (w_timer w x))" "rlt_runLoop (w_timer w x) \<in> {NULL, rl}"
        "CFRunLoopInsertionIndexInTimerArray (\<lambda>t. rlt_fireTSR (w_timer w t)) (timers_of w rl n) x = Some i"
        "timers_of w' = (\<lambda>l k. if l = rl \<and> k = n then insert_at i x (timers_of w rl n) else timers_of w l k)"
        "w_timer w' = (w_timer w)(x := (w_timer w x)\<lparr>rlt_runLoop := rl,
         rlt_rlModes := set_add n (rlt_rlModes (w_timer w x))\<rparr>)"
      then show ?thesis by (rule timers_inv_insert[OF inv rl])
    qed (use inv timers_inv_cong[of w' w] in simp_all)
    then show ?thesis
      using assms(2) frame observers_inv_cong[of w' w] sources_inv_cong[of w' w] by (simp add: rl_inv_def)
  next
    case 2
    then show ?thesis by (rule add_to_common_modes_inv[OF _ assms(2,3)])
  qed (simp add: assms(2))
qed

lemma remove_timer_effect:
  assumes "remove_timer_from_mode E w rl x n = Some w'"
  shows "observers_of w' = observers_of w \<and> sources_of w' = sources_of w \<and> mask_of w' = mask_of w \<and>
      w_observer w' = w_observer w \<and> w_source w' = w_source w \<and> w_calls w' = w_calls w \<and> same_loops w w' \<and>
      (modes_inv w \<longrightarrow> modes_inv w')" (is ?frame)
    and "timers_of w' = (\<lambda>l k. if l = rl \<and> k = n then remove1 x (timers_of w rl n) else timers_of w l k) \<and>
      w_timer w' = (if x \<in> set (timers_of w rl n)
       then (w_timer w)(x := timer_leave_mode n (w_timer w x)) else w_timer w)" (is ?timers)
proof -
  have both: "?frame \<and> ?timers"
  proof (cases "x \<in> set (timers_of w rl n)")
    case False
    then have "w' = w" using assms by (auto simp: remove_timer_from_mode_def timers_of_def split: option.splits)
    moreover have "timers_of w = (\<lambda>l k. if l = rl \<and> k = n then remove1 x (timers_of w rl n) else timers_of w l k)"
      using False by (auto simp: fun_eq_iff remove1_idem)
    ultimately show ?thesis using False by simp
  next
    case True
    then obtain m where m: "get_mode w rl n = Some m" by (cases "get_mode w rl n") (auto simp: view_None)
    define w1 where "w1 = upd_timer w x (timer_leave_mode n)"
    obtain m' where m': "CFArmNextTimerInMode (ev_rate E) (w_timer w1)
        (m\<lparr>rlm_timers := map_option (remove1 x) (rlm_timers m)\<rparr>) = Some m'" "w' = upd_mode w1 rl n (\<lambda>_. m')"
      using assms True m by (auto simp: remove_timer_from_mode_def timers_of_def w1_def[symmetric] Let_def
          bind_eq_Some_conv)
    note fields = arm_next_fields[OF m'(1)]
    have g1: "get_mode w1 rl n = Some m" using m by (simp add: w1_def)
    have v: "observers_of w1 = observers_of w" "timers_of w1 = timers_of w" "sources_of w1 = sources_of w"
      "mask_of w1 = mask_of w" by (simp_all add: w1_def)
    have mem: "members (rlm_observers m) = observers_of w rl n" "rlm_observerMask m = mask_of w rl n"
      "members (rlm_sources0 m) @ members (rlm_sources1 m) = sources_of w rl n"
      "members (map_option (remove1 x) (rlm_timers m)) = remove1 x (timers_of w rl n)"
      using m by (simp_all add: view_defs members_def split: option.split)
    have v': "observers_of w' = observers_of w" "sources_of w' = sources_of w" "mask_of w' = mask_of w"
      "timers_of w' = (\<lambda>l k. if l = rl \<and> k = n then remove1 x (timers_of w rl n) else timers_of w l k)"
      by (auto simp: m'(2) view_upd_mode[OF g1] v fields mem fun_eq_iff)
    have mi: "modes_inv w'" if "modes_inv w"
      unfolding m'(2)
    proof (rule modes_inv_upd_mode)
      show "modes_inv w1" using that by (simp add: w1_def)
      show "mode_ok n m'" if "get_mode w1 rl n = Some ma" "mode_ok n ma" for ma
        using that g1 mode_ok_unarmed[OF unarmed_arm_next[OF m'(1)], of n] by simp
    qed
    have f: "w_observer w' = w_observer w" "w_source w' = w_source w" "w_calls w' = w_calls w" "same_loops w w'"
      "w_timer w' = (w_timer w)(x := timer_leave_mode n (w_timer w x))"
      by (simp_all add: m'(2) w1_def)
    show ?thesis using v' f mi True by simp
  qed
  show ?frame by (rule conjunct1[OF both])
  show ?timers by (rule conjunct2[OF both])
qed

lemma remove_timer_inv:
  assumes "CFRunLoopRemoveTimer rem E w rl x n = Some w'" "rl_inv w"
    and "\<And>name w w'. rl_inv w \<Longrightarrow> rem (TimerItem x) name w = Some w' \<Longrightarrow> rl_inv w'"
  shows "rl_inv w'"
proof -
  consider "remove_from_common_modes rem E w rl (TimerItem x) = Some w'" | "remove_timer_from_mode E w rl x n = Some w'"
    using assms(1) unfolding CFRunLoopRemoveTimer_def by (metis option.distinct(1))
  then show ?thesis
  proof cases
    case 2
    note frame = remove_timer_effect(1)[OF 2] and timers = remove_timer_effect(2)[OF 2]
    have inv: "timers_inv w" using assms(2) by (simp add: rl_inv_def)
    have "timers_inv w'"
    proof (cases "x \<in> set (timers_of w rl n)")
      case True
      then show ?thesis by (rule timers_inv_remove[OF inv]) (use timers True in simp_all)
    next
      case False
      then have "timers_of w' = timers_of w" using timers by (simp add: fun_eq_iff remove1_idem)
      then show ?thesis using timers_inv_cong[of w' w] timers False inv by simp
    qed
    then show ?thesis
      using assms(2) frame observers_inv_cong[of w' w] sources_inv_cong[of w' w] by (simp add: rl_inv_def)
  next
    case 1
    then show ?thesis by (rule remove_from_common_modes_inv[OF _ assms(2,3)])
  qed
qed

subsection \<open>Adding and removing a source\<close>

text \<open>What sources are compared by, apart from their validity.\<close>

definition source_key :: "CFRunLoopSource \<Rightarrow> CFRunLoopSource" where
  "source_key s = s\<lparr>rls_valid := True, rls_signaled := False, rls_runLoops := None\<rparr>"

lemma source_key_fields:
  assumes "source_key x = source_key y"
  shows "rls_order x = rls_order y" "rls_version x = rls_version y" "rls_hash x = rls_hash y" "rls_equal x = rls_equal y"
    "rls_perform x = rls_perform y" "rls_info x = rls_info y"
  using arg_cong[OF assms, of rls_order] arg_cong[OF assms, of rls_version] arg_cong[OF assms, of rls_hash]
    arg_cong[OF assms, of rls_equal] arg_cong[OF assms, of rls_perform] arg_cong[OF assms, of rls_info]
  by (simp_all add: source_key_def)

lemma source_alike_cong:
  assumes "source_key (S' a) = source_key (S a)" "source_key (S' b) = source_key (S b)"
  shows "source_alike S' a b \<longleftrightarrow> source_alike S a b"
  by (simp add: source_alike_def CFRunLoopSourceEqual_def source_key_fields[OF assms(1)] source_key_fields[OF assms(2)]
      split: option.split)

lemma sources_apart_cong:
  "(\<And>s. source_key (w_source w' s) = source_key (w_source w s)) \<Longrightarrow> sources_apart w' \<longleftrightarrow> sources_apart w"
  using source_alike_cong[of "w_source w'" _ "w_source w"] by (simp add: sources_apart_def)

lemma sources_apart_calls [simp]: "sources_apart (w\<lparr>w_calls := cs\<rparr>) \<longleftrightarrow> sources_apart w"
  by (simp add: sources_apart_def)

lemma source_equal_alike: "CFRunLoopSourceEqual S a b \<Longrightarrow> source_alike S a b"
  by (auto simp: source_alike_def CFRunLoopSourceEqual_def split: if_splits option.splits)

lemma source_equal_refl [simp]: "CFRunLoopSourceEqual S a a"
  by (simp add: CFRunLoopSourceEqual_def)

lemma source_equal_apart: "sources_apart w \<Longrightarrow> CFRunLoopSourceEqual (w_source w) a b \<Longrightarrow> a = b"
  using source_equal_alike by (auto simp: sources_apart_def)

lemma sources_invD:
  assumes "sources_inv w"
  shows "distinct (sources_of w l k)" "rls_version (w_source w s) = 0 \<or> rls_version (w_source w s) = 1"
    "sources_apart w \<Longrightarrow> rls_valid (w_source w s) \<Longrightarrow>
       count_list (members (rls_runLoops (w_source w s))) l = card {k. s \<in> set (sources_of w l k)}"
  using assms unfolding sources_inv_def source_refs_exact_def by blast+

lemma sources_invI:
  assumes "\<And>l k. distinct (sources_of w l k)" "\<And>s. rls_version (w_source w s) \<in> {0, 1}"
    "\<And>s l. sources_apart w \<Longrightarrow> rls_valid (w_source w s) \<Longrightarrow>
       count_list (members (rls_runLoops (w_source w s))) l = card {k. s \<in> set (sources_of w l k)}"
  shows "sources_inv w"
  using assms unfolding sources_inv_def source_refs_exact_def by blast

lemma count_list_remove1: "count_list (remove1 x xs) y = (if x = y then count_list xs y - 1 else count_list xs y)"
  by (induction xs) auto

lemma sources_inv_insert:
  assumes inv: "sources_inv w" and new: "s \<notin> set (sources_of w rl n)"
    and mem: "set (sources_of w' rl n) = insert s (set (sources_of w rl n))" "distinct (sources_of w' rl n)"
      "\<And>l k. \<not> (l = rl \<and> k = n) \<Longrightarrow> sources_of w' l k = sources_of w l k"
    and objs: "w_source w' = (w_source w)(s := (w_source w s)\<lparr>rls_runLoops := Some (members (rls_runLoops (w_source w s)) @ [rl])\<rparr>)"
  shows "sources_inv w'"
proof (rule sources_invI)
  note D = sources_invD[OF inv]
  have sets: "t \<in> set (sources_of w' l k) \<longleftrightarrow> t = s \<and> l = rl \<and> k = n \<or> t \<in> set (sources_of w l k)" for t l k
    using mem(1,3) by (cases "l = rl \<and> k = n") auto
  have apart: "sources_apart w' \<longleftrightarrow> sources_apart w" by (rule sources_apart_cong) (simp add: objs source_key_def)
  fix l k t
  show "distinct (sources_of w' l k)" using D(1) mem(2,3) by (cases "l = rl \<and> k = n") auto
  show "rls_version (w_source w' t) \<in> {0, 1}" using D(2)[of t] D(2)[of s] by (auto simp: objs)
  assume "sources_apart w'" and valid: "rls_valid (w_source w' t)"
  then have D3: "rls_valid (w_source w t) \<Longrightarrow> count_list (members (rls_runLoops (w_source w t))) l =
      card {k. t \<in> set (sources_of w l k)}" for t l using D(3) apart by blast
  show "count_list (members (rls_runLoops (w_source w' t))) l = card {k. t \<in> set (sources_of w' l k)}"
  proof (cases "t = s \<and> l = rl")
    case True
    then have "{k. t \<in> set (sources_of w' l k)} = insert n {k. s \<in> set (sources_of w rl k)}" by (auto simp: sets)
    then show ?thesis using D3[of s rl] valid True new by (simp add: objs)
  next
    case False
    then have "{k. t \<in> set (sources_of w' l k)} = {k. t \<in> set (sources_of w l k)}" by (auto simp: sets)
    then show ?thesis using D3[of t l] valid False by (auto simp: objs split: if_splits)
  qed
qed

lemma sources_inv_remove:
  assumes inv: "sources_inv w" and s: "sources_apart w \<Longrightarrow> s \<in> set (sources_of w rl n)"
    and mem: "sources_apart w \<Longrightarrow> sources_of w' = (\<lambda>l k. if l = rl \<and> k = n then removeAll s (sources_of w rl n) else sources_of w l k)"
    and dist: "distinct (sources_of w' rl n)" and rest: "\<And>l k. \<not> (l = rl \<and> k = n) \<Longrightarrow> sources_of w' l k = sources_of w l k"
    and objs: "w_source w' = (w_source w)(s := (w_source w s)\<lparr>rls_runLoops := map_option (remove1 rl) (rls_runLoops (w_source w s))\<rparr>)"
  shows "sources_inv w'"
proof (rule sources_invI)
  note D = sources_invD[OF inv]
  have apart: "sources_apart w' \<longleftrightarrow> sources_apart w" by (rule sources_apart_cong) (simp add: objs source_key_def)
  fix l k t
  show "distinct (sources_of w' l k)" using D(1) dist rest by (cases "l = rl \<and> k = n") auto
  show "rls_version (w_source w' t) \<in> {0, 1}" using D(2)[of t] D(2)[of s] by (auto simp: objs)
  assume "sources_apart w'" and valid: "rls_valid (w_source w' t)"
  then have ap: "sources_apart w" using apart by simp
  note D3 = D(3)[OF ap] and s = s[OF ap]
  have sets: "t \<in> set (sources_of w' l k) \<longleftrightarrow> \<not> (t = s \<and> l = rl \<and> k = n) \<and> t \<in> set (sources_of w l k)" for t l k
    by (auto simp: mem[OF ap])
  have loops: "members (rls_runLoops (w_source w' s)) = remove1 rl (members (rls_runLoops (w_source w s)))"
    by (cases "rls_runLoops (w_source w s)") (simp_all add: objs)
  show "count_list (members (rls_runLoops (w_source w' t))) l = card {k. t \<in> set (sources_of w' l k)}"
  proof (cases "t = s \<and> l = rl")
    case True
    have "{k. s \<in> set (sources_of w rl k)} = insert n {k. s \<in> set (sources_of w' rl k)}" "n \<notin> {k. s \<in> set (sources_of w' rl k)}"
      using s by (auto simp: sets)
    then have "card {k. s \<in> set (sources_of w rl k)} = Suc (card {k. s \<in> set (sources_of w' rl k)})" by simp
    then show ?thesis using D3[of s rl] valid True loops by (simp add: objs count_list_remove1)
  next
    case False
    then have "{k. t \<in> set (sources_of w' l k)} = {k. t \<in> set (sources_of w l k)}" by (auto simp: sets)
    then show ?thesis using D3[of t l] valid False loops by (cases "t = s") (auto simp: objs count_list_remove1)
  qed
qed

lemma mode_add_source_fields [simp]:
  "rlm_observers (mode_add_source S s m) = rlm_observers m" "rlm_timers (mode_add_source S s m) = rlm_timers m"
  "rlm_observerMask (mode_add_source S s m) = rlm_observerMask m" "rlm_name (mode_add_source S s m) = rlm_name m"
  "rlm_sources0 (mode_add_source S s m) = (if rls_version (S s) = 0
     then map_option (set_insert (CFRunLoopSourceEqual S) s) (rlm_sources0 m) else rlm_sources0 m)"
  "rlm_sources1 (mode_add_source S s m) = (if rls_version (S s) = 1
     then map_option (set_insert (CFRunLoopSourceEqual S) s) (rlm_sources1 m) else rlm_sources1 m)"
  "rlm_portToV1SourceMap (mode_add_source S s m) = None \<longleftrightarrow> rlm_portToV1SourceMap m = None"
  by (auto simp: mode_add_source_def Let_def)

lemma mode_remove_source_fields [simp]:
  "rlm_observers (mode_remove_source S s m) = rlm_observers m" "rlm_timers (mode_remove_source S s m) = rlm_timers m"
  "rlm_observerMask (mode_remove_source S s m) = rlm_observerMask m" "rlm_name (mode_remove_source S s m) = rlm_name m"
  "rlm_sources0 (mode_remove_source S s m) = map_option (set_remove (CFRunLoopSourceEqual S) s) (rlm_sources0 m)"
  "rlm_sources1 (mode_remove_source S s m) = map_option (set_remove (CFRunLoopSourceEqual S) s) (rlm_sources1 m)"
  "rlm_portToV1SourceMap (mode_remove_source S s m) = None \<longleftrightarrow> rlm_portToV1SourceMap m = None"
  by (auto simp: mode_remove_source_def Let_def)

lemma mode_has_source_iff:
  "get_mode w rl n = Some m \<Longrightarrow>
   mode_has_source S m s \<longleftrightarrow> s \<in> set (sources_of w rl n) \<or> (\<exists>x \<in> set (sources_of w rl n). CFRunLoopSourceEqual S x s)"
  by (auto simp: mode_has_source_def sources_of_def set_find_None)

text \<open>Adding a source, up to the callout at the end.\<close>

lemma add_source_cases:
  assumes "add_source_to_mode E w rl s n = Some w'" "rls_version (w_source w s) \<in> {0, 1}" "modes_inv w"
  obtains (same) "prepared w w'" "get_mode w' rl n = None \<or>
      (\<exists>x \<in> set (sources_of w rl n). CFRunLoopSourceEqual (w_source w) x s)"
  | (add) w4 where "s \<notin> set (sources_of w rl n)" "get_mode w4 rl n \<noteq> None"
      "observers_of w4 = observers_of w" "timers_of w4 = timers_of w" "mask_of w4 = mask_of w"
      "w_observer w4 = w_observer w" "w_timer w4 = w_timer w" "w_calls w4 = w_calls w" "same_loops w w4" "modes_inv w4"
      "set (sources_of w4 rl n) = insert s (set (sources_of w rl n))"
      "distinct (sources_of w rl n) \<Longrightarrow> distinct (sources_of w4 rl n)"
      "\<And>l k. \<not> (l = rl \<and> k = n) \<Longrightarrow> sources_of w4 l k = sources_of w l k"
      "w_source w4 = (w_source w)(s := (w_source w s)\<lparr>rls_runLoops := Some (members (rls_runLoops (w_source w s)) @ [rl])\<rparr>)"
      "(if rls_version (w_source w s) = 0 \<and> rls_schedule (w_source w s)
        then do_callout E (ScheduleSource s rl n) w4 else Some w4) = Some w'"
proof -
  let ?init = "\<lambda>m. if rlm_sources0 m = None
      then m\<lparr>rlm_sources0 := Some [], rlm_sources1 := Some [], rlm_portToV1SourceMap := Some Map.empty\<rparr> else m"
  obtain w1 found where w1: "CFRunLoopFindMode E w rl n True = Some (w1, found)"
    using assms by (auto simp: add_source_to_mode_def bind_eq_Some_conv)
  note p1 = find_mode_prepared[OF w1]
  have mi1: "modes_inv w1" using preparedD(10)[OF p1] assms(3) by simp
  define w2 where "w2 = upd_mode w1 rl n ?init"
  have p2: "prepared w w2" unfolding w2_def
  proof (rule upd_mode_prepared[OF p1])
    show "mode_ok n (?init m)" if "mode_ok n m" for m using that by (auto simp: mode_ok_def)
    fix m
    assume "get_mode w1 rl n = Some m"
    then have "mode_ok n m" using mi1 by (simp add: modes_inv_def)
    then have "rlm_sources0 m = None \<Longrightarrow> rlm_sources1 m = None" by (simp add: mode_ok_def)
    then show "members (rlm_observers (?init m)) = members (rlm_observers m) \<and>
      members (rlm_timers (?init m)) = members (rlm_timers m) \<and>
      members (rlm_sources0 (?init m)) = members (rlm_sources0 m) \<and>
      members (rlm_sources1 (?init m)) = members (rlm_sources1 m) \<and> rlm_observerMask (?init m) = rlm_observerMask m"
      by simp
  qed
  note p = preparedD[OF p2]
  let ?has = "\<exists>x \<in> set (sources_of w rl n). CFRunLoopSourceEqual (w_source w) x s"
  have has_iff: "mode_has_source (w_source w) m s \<longleftrightarrow> ?has" if "get_mode w2 rl n = Some m" for m
    using mode_has_source_iff[OF that, of "w_source w" s] p(3) source_equal_refl by metis
  show thesis
  proof (cases "found \<and> \<not> ?has")
    case False
    have "w' = w1 \<and> \<not> found \<or> w' = w2 \<and> found"
    proof (cases found)
      case True
      then obtain m where m: "get_mode w2 rl n = Some m" using find_mode_found[OF w1] by (auto simp: w2_def)
      then have "mode_has_source (w_source w) m s" using False True has_iff by simp
      then show ?thesis using assms(1) w1 True m p(7) by (simp add: add_source_to_mode_def w2_def[symmetric] Let_def)
    qed (use assms(1) w1 in \<open>simp add: add_source_to_mode_def\<close>)
    then show thesis using same p1 p2 False find_mode_found[OF w1] by blast
  next
    case True
    then obtain m1 where "get_mode w1 rl n = Some m1" using find_mode_found[OF w1] by auto
    then have "get_mode w2 rl n = Some (?init m1)" "rlm_sources0 (?init m1) \<noteq> None" by (simp_all add: w2_def)
    then obtain m where m: "get_mode w2 rl n = Some m" and s0: "rlm_sources0 m \<noteq> None" by blast
    have has: "\<not> mode_has_source (w_source w) m s" using True has_iff[OF m] by simp
    define w3 where "w3 = upd_mode w2 rl n (mode_add_source (w_source w) s)"
    define w4 where "w4 = upd_source w3 s (\<lambda>x. x\<lparr>rls_runLoops := Some (members (rls_runLoops x) @ [rl])\<rparr>)"
    have res: "(if rls_version (w_source w s) = 0 \<and> rls_schedule (w_source w s)
        then do_callout E (ScheduleSource s rl n) w4 else Some w4) = Some w'"
      using assms(1) w1 True m has p(7)
      by (cases "rls_version (w_source w s) = 0 \<and> rls_schedule (w_source w s)")
        (auto simp: add_source_to_mode_def w2_def[symmetric] w3_def w4_def Let_def)
    have "modes_inv w2" using p(10) assms(3) by simp
    then have ok: "mode_ok n m" using m by (simp add: modes_inv_def)
    have some: "\<exists>a b. rlm_sources0 m = Some a \<and> rlm_sources1 m = Some b"
      using ok s0 by (auto simp: mode_ok_def)
    then obtain a b where ab: "rlm_sources0 m = Some a" "rlm_sources1 m = Some b" by blast
    have src: "sources_of w rl n = a @ b" unfolding p(3)[symmetric] using m ab by (simp add: sources_of_def)
    have mem: "members (rlm_observers m) = observers_of w rl n" "rlm_observerMask m = mask_of w rl n"
      "members (rlm_timers m) = timers_of w rl n"
      unfolding p(1,2,4)[symmetric] using m by (simp_all add: view_defs)
    have src4: "sources_of w4 = (\<lambda>l k. if l = rl \<and> k = n then
        (if rls_version (w_source w s) = 0 then (a @ [s]) @ b else a @ b @ [s]) else sources_of w l k)"
    proof -
      have "set_insert (CFRunLoopSourceEqual (w_source w)) s a = a @ [s]" "set_insert (CFRunLoopSourceEqual (w_source w)) s b = b @ [s]"
        using has ab by (simp_all add: mode_has_source_def set_insert_new)
      then show ?thesis using ab assms(2) by (auto simp: w4_def w3_def view_upd_mode[OF m] p fun_eq_iff)
    qed
    have out: "s \<notin> set (sources_of w rl n)" using True source_equal_refl by blast
    show thesis
    proof (rule add[of w4, OF _ _ _ _ _ _ _ _ _ _ _ _ _ _ res])
      show "s \<notin> set (sources_of w rl n)" by (rule out)
      show "get_mode w4 rl n \<noteq> None" using m by (simp add: w4_def w3_def)
      show "observers_of w4 = observers_of w" "timers_of w4 = timers_of w" "mask_of w4 = mask_of w"
        by (auto simp: w4_def w3_def view_upd_mode[OF m] p mem fun_eq_iff)
      show "w_observer w4 = w_observer w" "w_timer w4 = w_timer w" "w_calls w4 = w_calls w" "same_loops w w4"
        "w_source w4 = (w_source w)(s := (w_source w s)\<lparr>rls_runLoops := Some (members (rls_runLoops (w_source w s)) @ [rl])\<rparr>)"
        using p by (simp_all add: w4_def w3_def)
      show "modes_inv w4" using \<open>modes_inv w2\<close>
        by (auto simp: w4_def w3_def mode_ok_def intro!: modes_inv_upd_mode)
      show "set (sources_of w4 rl n) = insert s (set (sources_of w rl n))" by (auto simp: src4 src)
      show "distinct (sources_of w4 rl n)" if "distinct (sources_of w rl n)"
        using that out by (auto simp: src4 src)
      show "sources_of w4 l k = sources_of w l k" if "\<not> (l = rl \<and> k = n)" for l k
        using that by (auto simp: src4)
    qed
  qed
qed

lemma add_source_inv:
  assumes "CFRunLoopAddSource add E w rl s n = Some w'" "rl_inv w"
    and "\<And>name w w'. rl_inv w \<Longrightarrow> add (SourceItem s) name w = Some w' \<Longrightarrow> rl_inv w'"
    and "\<And>c w w'. rl_inv w \<Longrightarrow> ev_callout E c w = Some w' \<Longrightarrow> rl_inv w'"
  shows "rl_inv w'"
proof -
  consider "w' = w" | "add_to_common_modes add E w rl (SourceItem s) = Some w'" | "add_source_to_mode E w rl s n = Some w'"
    using assms(1) unfolding CFRunLoopAddSource_def by (metis option.distinct(1) option.inject)
  then show ?thesis
  proof cases
    case 3
    have inv: "modes_inv w" "sources_inv w" "observers_inv w" "timers_inv w" using assms(2) by (simp_all add: rl_inv_def)
    have "rls_version (w_source w s) \<in> {0, 1}" using sources_invD(2)[OF inv(2)] by auto
    from 3 this inv(1) show ?thesis
    proof (cases rule: add_source_cases)
      case same
      then show ?thesis
        using preparedD[OF same(1)] inv observers_inv_cong[of w' w] timers_inv_cong[of w' w] sources_inv_cong[of w' w]
        by (simp add: rl_inv_def)
    next
      case (add w4)
      have "sources_inv w4"
        by (rule sources_inv_insert[OF inv(2) add(1) add(11) add(12)[OF sources_invD(1)[OF inv(2)]] add(13,14)])
      then have "rl_inv w4"
        using add(3-7,10) inv observers_inv_cong[of w4 w] timers_inv_cong[of w4 w] by (simp add: rl_inv_def)
      then show ?thesis using add(15) do_callout_inv[OF _ _ assms(4)] by (auto split: if_splits)
    qed
  next
    case 2
    then show ?thesis by (rule add_to_common_modes_inv[OF _ assms(2,3)])
  qed (simp add: assms(2))
qed

lemma remove_source_cases:
  assumes "remove_source_from_mode E w rl s n = Some w'" "modes_inv w" "distinct (sources_of w rl n)"
  obtains (same) "w' = w" "\<not> (\<exists>x \<in> set (sources_of w rl n). CFRunLoopSourceEqual (w_source w) x s)"
  | (remove) w2 where "\<exists>x \<in> set (sources_of w rl n). CFRunLoopSourceEqual (w_source w) x s"
      "observers_of w2 = observers_of w" "timers_of w2 = timers_of w" "mask_of w2 = mask_of w"
      "w_observer w2 = w_observer w" "w_timer w2 = w_timer w" "w_calls w2 = w_calls w" "same_loops w w2" "modes_inv w2"
      "sources_apart w \<Longrightarrow> sources_of w2 = (\<lambda>l k. if l = rl \<and> k = n then removeAll s (sources_of w rl n) else sources_of w l k)"
      "distinct (sources_of w2 rl n)" "\<And>l k. \<not> (l = rl \<and> k = n) \<Longrightarrow> sources_of w2 l k = sources_of w l k"
      "w_source w2 = (w_source w)(s := (w_source w s)\<lparr>rls_runLoops := map_option (remove1 rl) (rls_runLoops (w_source w s))\<rparr>)"
      "(if rls_version (w_source w s) = 0 \<and> rls_cancel (w_source w s)
        then do_callout E (CancelSource s rl n) w2 else Some w2) = Some w'"
proof (cases "\<exists>x \<in> set (sources_of w rl n). CFRunLoopSourceEqual (w_source w) x s")
  case False
  then have "s \<notin> set (sources_of w rl n)" using source_equal_refl by blast
  then have "w' = w" using assms(1) False
    by (auto simp: remove_source_from_mode_def mode_has_source_iff split: option.splits)
  then show thesis using same False by simp
next
  case True
  then obtain m where m: "get_mode w rl n = Some m" by (cases "get_mode w rl n") (auto simp: sources_of_def)
  have has: "mode_has_source (w_source w) m s" using True by (simp add: mode_has_source_iff[OF m])
  define w1 where "w1 = upd_mode w rl n (mode_remove_source (w_source w) s)"
  define w2 where "w2 = upd_source w1 s (\<lambda>x. x\<lparr>rls_runLoops := map_option (remove1 rl) (rls_runLoops x)\<rparr>)"
  let ?rem = "set_remove (CFRunLoopSourceEqual (w_source w)) s"
  have res: "(if rls_version (w_source w s) = 0 \<and> rls_cancel (w_source w s)
        then do_callout E (CancelSource s rl n) w2 else Some w2) = Some w'"
    using assms(1) m has
    by (cases "rls_version (w_source w s) = 0 \<and> rls_cancel (w_source w s)")
      (auto simp: remove_source_from_mode_def w1_def w2_def Let_def)
  have views: "members (rlm_observers m) = observers_of w rl n" "members (rlm_timers m) = timers_of w rl n"
    "rlm_observerMask m = mask_of w rl n" "members (rlm_sources0 m) @ members (rlm_sources1 m) = sources_of w rl n"
    using m by (simp_all add: view_defs)
  have mapped: "members (map_option ?rem c) = ?rem (members c)" for c
    by (cases c) (simp_all add: set_remove_def set_find_def)
  have src2: "sources_of w2 = (\<lambda>l k. if l = rl \<and> k = n then ?rem (members (rlm_sources0 m)) @ ?rem (members (rlm_sources1 m))
      else sources_of w l k)"
    by (simp add: w2_def w1_def view_upd_mode[OF m] mapped fun_eq_iff)
  show thesis
  proof (rule remove[of w2, OF True _ _ _ _ _ _ _ _ _ _ _ _ res])
    show "observers_of w2 = observers_of w" "timers_of w2 = timers_of w" "mask_of w2 = mask_of w"
      by (auto simp: w2_def w1_def view_upd_mode[OF m] views fun_eq_iff)
    show "sources_of w2 = (\<lambda>l k. if l = rl \<and> k = n then removeAll s (sources_of w rl n) else sources_of w l k)"
      if "sources_apart w"
      unfolding src2 views(4)[symmetric] using source_equal_apart[OF that] by (simp add: set_remove_apart fun_eq_iff)
    show "distinct (sources_of w2 rl n)"
      using assms(3) set_remove_subset[of "CFRunLoopSourceEqual (w_source w)" s] unfolding src2 views(4)[symmetric]
      by (simp add: set_remove_distinct) blast
    show "sources_of w2 l k = sources_of w l k" if "\<not> (l = rl \<and> k = n)" for l k using that by (auto simp: src2)
    show "w_observer w2 = w_observer w" "w_timer w2 = w_timer w" "w_calls w2 = w_calls w" "same_loops w w2"
      "w_source w2 = (w_source w)(s := (w_source w s)\<lparr>rls_runLoops := map_option (remove1 rl) (rls_runLoops (w_source w s))\<rparr>)"
      by (simp_all add: w2_def w1_def)
    show "modes_inv w2" using assms(2) by (auto simp: w2_def w1_def mode_ok_def intro!: modes_inv_upd_mode)
  qed
qed

lemma remove_source_inv:
  assumes "CFRunLoopRemoveSource remove E w rl s n = Some w'" "rl_inv w"
    and "\<And>name w w'. rl_inv w \<Longrightarrow> remove (SourceItem s) name w = Some w' \<Longrightarrow> rl_inv w'"
    and "\<And>c w w'. rl_inv w \<Longrightarrow> ev_callout E c w = Some w' \<Longrightarrow> rl_inv w'"
  shows "rl_inv w'"
proof -
  consider "remove_from_common_modes remove E w rl (SourceItem s) = Some w'" | "remove_source_from_mode E w rl s n = Some w'"
    using assms(1) unfolding CFRunLoopRemoveSource_def by (metis option.distinct(1))
  then show ?thesis
  proof cases
    case 1
    then show ?thesis by (rule remove_from_common_modes_inv[OF _ assms(2,3)])
  next
    case 2
    have inv: "modes_inv w" "sources_inv w" "observers_inv w" "timers_inv w" using assms(2) by (simp_all add: rl_inv_def)
    from 2 inv(1) sources_invD(1)[OF inv(2)] show ?thesis
    proof (cases rule: remove_source_cases)
      case same
      then show ?thesis using assms(2) by simp
    next
      case (remove w2)
      have "s \<in> set (sources_of w rl n)" if "sources_apart w" using remove(1) source_equal_apart[OF that] by blast
      then have "sources_inv w2" by (rule sources_inv_remove[OF inv(2) _ remove(10-13)])
      then have "rl_inv w2"
        using remove(2-6,9) inv observers_inv_cong[of w2 w] timers_inv_cong[of w2 w] by (simp add: rl_inv_def)
      then show ?thesis using remove(14) do_callout_inv[OF _ _ assms(4)] by (auto split: if_splits)
    qed
  qed
qed

end
