(* ===== verification/CF_RunLoop_API.thy ===== *)
theory CF_RunLoop_API
  imports CF_RunLoop_Items
begin

unbundle bit_operations_syntax

text \<open>
  What the operations of \<^verbatim>\<open>CFRunLoop.c\<close> on sources, observers and timers guarantee together: each of
  them keeps the invariant (\<open>api_step\<close>), an item that is added is found and one that is removed or
  invalidated is gone, the items of the common modes are in every common mode, and the date of a timer
  can be changed while it is scheduled. Sources that compare equal are confused with each other.
\<close>

section \<open>What is assumed of the surroundings\<close>

text \<open>
  Callouts keep the invariant (they may call the run loop, but only through its functions), and the
  enumeration of a hash set lists its members.
\<close>

definition env_ok :: "env \<Rightarrow> bool" where
  "env_ok E \<longleftrightarrow> (\<forall>c w w'. rl_inv w \<longrightarrow> ev_callout E c w = Some w' \<longrightarrow> rl_inv w') \<and>
     (\<forall>xs. set (ev_names E xs) = set xs) \<and> (\<forall>xs. set (ev_items E xs) = set xs) \<and>
     (\<forall>xs. set (ev_ptrs E xs) = set xs)"

lemma env_okD:
  assumes "env_ok E"
  shows "rl_inv w \<Longrightarrow> ev_callout E c w = Some w' \<Longrightarrow> rl_inv w'" "set (ev_names E xs) = set xs"
    "set (ev_items E ys) = set ys" "set (ev_ptrs E zs) = set zs"
  using assms unfolding env_ok_def by blast+

lemma callout_inv: "env_ok E \<Longrightarrow> do_callout E c w = Some w' \<Longrightarrow> rl_inv w \<Longrightarrow> rl_inv w'"
  by (rule do_callout_inv) (blast dest: env_okD(1))+

lemma quiet_env_ok: "env_ok quiet_env"
  by (simp add: env_ok_def quiet_env_def)

text \<open>A state without modes in which no source knows a run loop.\<close>

lemma blank_sources_inv:
  assumes "\<And>s. rls_runLoops (S s) = None" "\<And>s. rls_version (S s) \<in> {0, 1}"
  shows "rl_inv (blank_world\<lparr>w_source := S\<rparr>)"
proof -
  let ?w = "blank_world\<lparr>w_source := S\<rparr>"
  have modes: "get_mode ?w = (\<lambda>l k. None)" by (simp add: blank_world_def blank_loop_def get_mode_def fun_eq_iff)
  have objs: "w_observer ?w = (\<lambda>_. blank_observer)" "w_timer ?w = (\<lambda>_. blank_timer)" "rl_modes (w_loop blank_world l) = []" for l
    by (simp_all add: blank_world_def blank_loop_def)
  have views: "observers_of ?w l k = []" "timers_of ?w l k = []" "sources_of ?w l k = []" for l k
    by (simp_all add: view_defs modes)
  have "modes_inv ?w" by (simp add: modes_inv_def modes objs)
  moreover have "observers_inv ?w"
    by (rule observers_invI) (simp_all add: views objs blank_observer_def)
  moreover have "timers_inv ?w" by (rule timers_invI) (simp_all add: views objs blank_timer_def)
  moreover have "sources_inv ?w" by (rule sources_invI) (use assms in \<open>simp_all add: views\<close>)
  ultimately show ?thesis by (simp add: rl_inv_def)
qed

lemma blank_world_inv: "rl_inv blank_world"
proof -
  have "blank_world = blank_world\<lparr>w_source := \<lambda>a. blank_source\<lparr>rls_info := a\<rparr>\<rparr>" by (simp add: blank_world_def)
  also have "rl_inv \<dots>" by (rule blank_sources_inv) (simp_all add: blank_source_def)
  finally show ?thesis .
qed

lemma blank_apart: "sources_apart blank_world"
  by (simp add: sources_apart_def source_alike_def CFRunLoopSourceEqual_def blank_world_def blank_source_def)

section \<open>The invariant\<close>

lemma add_item_inv:
  assumes "env_ok E" "add_item k E rl item name w = Some w'" "rl_inv w"
  shows "rl_inv w'"
  using assms(2,3)
proof (induction k arbitrary: name w w')
  case (Suc k)
  show ?case
  proof (cases item)
    case (SourceItem s)
    then have "CFRunLoopAddSource (add_item k E rl) E w rl s name = Some w'" using Suc.prems(1) by simp
    then show ?thesis
      by (rule add_source_inv[OF _ Suc.prems(2)]) (use Suc.IH SourceItem env_okD(1)[OF assms(1)] in blast)+
  next
    case (ObserverItem s)
    then have "CFRunLoopAddObserver (add_item k E rl) E w rl s name = Some w'" using Suc.prems(1) by simp
    then show ?thesis by (rule add_observer_inv[OF _ Suc.prems(2)]) (use Suc.IH ObserverItem in blast)
  next
    case (TimerItem s)
    then have "CFRunLoopAddTimer (add_item k E rl) E w rl s name = Some w'" using Suc.prems(1) by simp
    then show ?thesis by (rule add_timer_inv[OF _ Suc.prems(2)]) (use Suc.IH TimerItem in blast)
  qed
qed simp

lemma remove_item_inv:
  assumes "env_ok E" "remove_item k E rl item name w = Some w'" "rl_inv w"
  shows "rl_inv w'"
  using assms(2,3)
proof (induction k arbitrary: name w w')
  case (Suc k)
  show ?case
  proof (cases item)
    case (SourceItem s)
    then have "CFRunLoopRemoveSource (remove_item k E rl) E w rl s name = Some w'" using Suc.prems(1) by simp
    then show ?thesis
      by (rule remove_source_inv[OF _ Suc.prems(2)]) (use Suc.IH SourceItem env_okD(1)[OF assms(1)] in blast)+
  next
    case (ObserverItem s)
    then have "CFRunLoopRemoveObserver (remove_item k E rl) E w rl s name = Some w'" using Suc.prems(1) by simp
    then show ?thesis by (rule remove_observer_inv[OF _ Suc.prems(2)]) (use Suc.IH ObserverItem in blast)
  next
    case (TimerItem s)
    then have "CFRunLoopRemoveTimer (remove_item k E rl) E w rl s name = Some w'" using Suc.prems(1) by simp
    then show ?thesis by (rule remove_timer_inv[OF _ Suc.prems(2)]) (use Suc.IH TimerItem in blast)
  qed
qed simp

lemma add_common_mode_inv:
  assumes "env_ok E" "CFRunLoopAddCommonMode k E w rl name = Some w'" "rl_inv w"
  shows "rl_inv w'"
proof -
  let ?w1 = "upd_loop w rl (\<lambda>l. l\<lparr>rl_commonModes := set_add name (rl_commonModes l)\<rparr>)"
  have w1: "rl_inv ?w1" using assms(3) by (simp add: rl_inv_upd_loop)
  show ?thesis
  proof (cases "rl_deallocating (w_loop w rl) \<or> name \<in> set (rl_commonModes (w_loop w rl))")
    case True
    then have "w' = w" using assms(2) by (auto simp: CFRunLoopAddCommonMode_def split: if_splits)
    then show ?thesis using assms(3) by simp
  next
    case False
    then have step: "(case rl_commonModeItems (w_loop w rl) of None \<Rightarrow> Some ?w1
        | Some xs \<Rightarrow> ofold (\<lambda>item. add_item k E rl item name) (ev_items E xs) ?w1) = Some w'"
      using assms(2) by (simp add: CFRunLoopAddCommonMode_def Let_def split: if_split_asm)
    show ?thesis
    proof (cases "rl_commonModeItems (w_loop w rl)")
      case (Some xs)
      then have "ofold (\<lambda>item. add_item k E rl item name) (ev_items E xs) ?w1 = Some w'" using step by simp
      then show ?thesis by (rule ofold_invariant[where P = rl_inv]) (use w1 add_item_inv[OF assms(1)] in blast)+
    qed (use step w1 in simp)
  qed
qed

lemma remove_all_sources_inv:
  assumes "env_ok E" "CFRunLoopRemoveAllSources k E rl name w = Some w'" "rl_inv w"
  shows "rl_inv w'"
  using assms(2,3)
proof (induction k arbitrary: name w w')
  case (Suc k)
  let ?del = "\<lambda>s. remove_item (Suc k) E rl (SourceItem s) name"
  show ?case
  proof (cases "name = kCFRunLoopCommonModes")
    case True
    then have "w' = w \<or> ofold (CFRunLoopRemoveAllSources k E rl) (ev_names E (rl_commonModes (w_loop w rl))) w = Some w'"
      using Suc.prems(1) by (simp split: if_split_asm)
    then show ?thesis
    proof
      assume "ofold (CFRunLoopRemoveAllSources k E rl) (ev_names E (rl_commonModes (w_loop w rl))) w = Some w'"
      then show ?thesis by (rule ofold_invariant[where P = rl_inv]) (use Suc in blast)+
    qed (simp add: Suc.prems(2))
  next
    case False
    show ?thesis
    proof (cases "get_mode w rl name")
      case None
      then show ?thesis using Suc.prems False by (simp split: if_split_asm)
    next
      case (Some m)
      then obtain w1 ys where 3: "ofold ?del (ev_ptrs E (members (rlm_sources0 m))) w = Some w1" "ofold ?del ys w1 = Some w'"
        using Suc.prems(1) False by (simp add: bind_eq_Some_conv del: remove_item.simps split: if_split_asm) blast
      have "rl_inv w1" using 3(1)
        by (rule ofold_invariant[where P = rl_inv]) (use Suc.prems(2) remove_item_inv[OF assms(1)] in blast)+
      with 3(2) show ?thesis by (rule ofold_invariant[where P = rl_inv]) (use remove_item_inv[OF assms(1)] in blast)
    qed
  qed
qed simp

text \<open>Updates of an object that leave alone what the invariant reads.\<close>

lemma rl_inv_upd_observer:
  assumes "rl_inv w" "\<And>y. rlo_order (f y) = rlo_order y" "\<And>y. rlo_activities (f y) = rlo_activities y"
    "\<And>y. rlo_runLoop (f y) = rlo_runLoop y" "\<And>y. rlo_rlCount (f y) = rlo_rlCount y"
  shows "rl_inv (upd_observer w x f)"
proof -
  have inv: "observers_inv w" "modes_inv w" "timers_inv w" "sources_inv w" using assms(1) by (simp_all add: rl_inv_def)
  note D = observers_invD[OF inv(1)]
  have f: "rlo_order (w_observer (upd_observer w x f) y) = rlo_order (w_observer w y)"
    "rlo_activities (w_observer (upd_observer w x f) y) = rlo_activities (w_observer w y)"
    "rlo_runLoop (w_observer (upd_observer w x f) y) = rlo_runLoop (w_observer w y)"
    "rlo_rlCount (w_observer (upd_observer w x f) y) = rlo_rlCount (w_observer w y)" for y
    by (simp_all add: assms(2-))
  have "observers_inv (upd_observer w x f)"
    unfolding observers_inv_def f view_upd_object using inv(1) unfolding observers_inv_def .
  then show ?thesis
    using inv timers_inv_cong[of "upd_observer w x f" w] sources_inv_cong[of "upd_observer w x f" w]
    by (simp add: rl_inv_def)
qed

lemma rl_inv_upd_timer:
  assumes "rl_inv w" "\<And>y. rlt_fireTSR (f y) = rlt_fireTSR y" "\<And>y. rlt_runLoop (f y) = rlt_runLoop y"
    "\<And>y. rlt_rlModes (f y) = rlt_rlModes y"
  shows "rl_inv (upd_timer w x f)"
proof -
  have inv: "observers_inv w" "modes_inv w" "timers_inv w" "sources_inv w" using assms(1) by (simp_all add: rl_inv_def)
  have f: "rlt_fireTSR (w_timer (upd_timer w x f) y) = rlt_fireTSR (w_timer w y)"
    "rlt_runLoop (w_timer (upd_timer w x f) y) = rlt_runLoop (w_timer w y)"
    "rlt_rlModes (w_timer (upd_timer w x f) y) = rlt_rlModes (w_timer w y)" for y
    by (simp_all add: assms(2-))
  have "timers_inv (upd_timer w x f)"
    unfolding timers_inv_def f view_upd_object using inv(3) unfolding timers_inv_def .
  then show ?thesis
    using inv observers_inv_cong[of "upd_timer w x f" w] sources_inv_cong[of "upd_timer w x f" w]
    by (simp add: rl_inv_def)
qed

lemma rl_inv_upd_source:
  assumes "rl_inv w" "\<And>y. source_key (f y) = source_key y"
    "\<And>y. rls_valid (f y) \<Longrightarrow> rls_valid y \<and> rls_runLoops (f y) = rls_runLoops y"
  shows "rl_inv (upd_source w x f)"
proof -
  have inv: "observers_inv w" "modes_inv w" "timers_inv w" "sources_inv w" using assms(1) by (simp_all add: rl_inv_def)
  have apart: "sources_apart (upd_source w x f) \<longleftrightarrow> sources_apart w" by (rule sources_apart_cong) (simp add: assms(2))
  have "rls_version (f y) = rls_version y" for y using source_key_fields(2)[OF assms(2)] .
  then have "sources_inv (upd_source w x f)"
    by (intro sources_invI) (use sources_invD[OF inv(4)] assms(3) apart in \<open>auto split: if_splits\<close>)
  then show ?thesis
    using inv observers_inv_cong[of "upd_source w x f" w] timers_inv_cong[of "upd_source w x f" w]
    by (simp add: rl_inv_def)
qed

lemma remove_everywhere_inv:
  assumes "env_ok E" "remove_everywhere k E item rl w = Some w'" "rl_inv w"
  shows "rl_inv w'"
proof -
  obtain w1 where w1: "ofold (remove_item k E rl item) (rev (CFRunLoopCopyAllModes E w rl)) w = Some w1"
    "remove_item k E rl item kCFRunLoopCommonModes w1 = Some w'"
    using assms(2) by (auto simp: remove_everywhere_def bind_eq_Some_conv)
  have "rl_inv w1" using w1(1)
    by (rule ofold_invariant[where P = rl_inv]) (use assms(3) remove_item_inv[OF assms(1)] in blast)+
  then show ?thesis by (rule remove_item_inv[OF assms(1) w1(2)])
qed

lemma source_remove_from_loops_inv:
  assumes "env_ok E" "source_remove_from_loops k E x prev ls w = Some w'" "rl_inv w"
  shows "rl_inv w'"
  using assms(2,3)
proof (induction ls arbitrary: prev w)
  case (Cons l ls)
  show ?case
  proof (cases "Some l = prev")
    case True
    then show ?thesis using Cons.IH Cons.prems by simp
  next
    case False
    then obtain w1 where "remove_everywhere k E (SourceItem x) l w = Some w1"
      "source_remove_from_loops k E x (Some l) ls w1 = Some w'"
      using Cons.prems(1) by (auto simp: bind_eq_Some_conv)
    then show ?thesis using Cons.IH remove_everywhere_inv[OF assms(1) _ Cons.prems(2)] by blast
  qed
qed simp

lemma source_invalidate_inv:
  assumes "env_ok E" "CFRunLoopSourceInvalidate k E w x = Some w'" "rl_inv w"
  shows "rl_inv w'"
proof -
  define w1 where "w1 = upd_source w x (\<lambda>s. s\<lparr>rls_valid := False, rls_signaled := False\<rparr>)"
  define w2 where "w2 = upd_source w1 x (\<lambda>s. s\<lparr>rls_runLoops := None\<rparr>)"
  have inv1: "rl_inv w1" unfolding w1_def by (rule rl_inv_upd_source[OF assms(3)]) (simp_all add: source_key_def)
  have w2: "w2 = upd_source w x (\<lambda>s. s\<lparr>rls_valid := False, rls_signaled := False, rls_runLoops := None\<rparr>)"
    by (simp add: w2_def w1_def upd_source_def)
  have inv2: "rl_inv w2" unfolding w2 by (rule rl_inv_upd_source[OF assms(3)]) (simp_all add: source_key_def)
  have "w' = w \<or> w' = w1 \<or> (\<exists>ls. source_remove_from_loops k E x None ls w2 = Some w')"
    using assms(2) by (auto simp: CFRunLoopSourceInvalidate_def w1_def[symmetric] w2_def[symmetric] Let_def
        split: if_splits option.splits)
  then show ?thesis using inv1 inv2 assms(3) source_remove_from_loops_inv[OF assms(1)] by blast
qed

lemma observer_invalidate_inv:
  assumes "env_ok E" "CFRunLoopObserverInvalidate k E w x = Some w'" "rl_inv w"
  shows "rl_inv w'"
proof (cases "rlo_valid (w_observer w x)")
  case True
  define w1 where "w1 = upd_observer w x (\<lambda>x. x\<lparr>rlo_info := NULL, rlo_valid := False\<rparr>)"
  obtain w2 where w2: "(if rlo_runLoop (w_observer w x) \<noteq> NULL
      then remove_everywhere k E (ObserverItem x) (rlo_runLoop (w_observer w x)) w1 else Some w1) = Some w2"
    "w' = w2 \<or> do_callout E (ReleaseInfo (rlo_info (w_observer w x))) w2 = Some w'"
    using assms(2) True unfolding CFRunLoopObserverInvalidate_def w1_def[symmetric] Let_def
    by (auto simp: bind_eq_Some_conv split: if_split_asm)
  have "rl_inv w1" unfolding w1_def by (rule rl_inv_upd_observer[OF assms(3)]) simp_all
  then have "rl_inv w2" using w2(1) remove_everywhere_inv[OF assms(1)] by (auto split: if_splits)
  then show ?thesis using w2(2) callout_inv[OF assms(1)] by blast
qed (use assms in \<open>auto simp: CFRunLoopObserverInvalidate_def split: if_splits\<close>)

lemma timer_invalidate_inv:
  assumes "env_ok E" "CFRunLoopTimerInvalidate k E w x = Some w'" "rl_inv w"
  shows "rl_inv w'"
proof (cases "rlt_valid (w_timer w x)")
  case True
  define w1 where "w1 = upd_timer w x (\<lambda>x. x\<lparr>rlt_info := NULL, rlt_valid := False\<rparr>)"
  let ?rl = "rlt_runLoop (w_timer w x)"
  obtain w2 where w2: "(if ?rl \<noteq> NULL then do {
        w2 \<leftarrow> ofold (remove_item k E ?rl (TimerItem x)) (ev_names E (rlt_rlModes (w_timer w1 x))) w1;
        remove_item k E ?rl (TimerItem x) kCFRunLoopCommonModes w2 }
      else Some w1) = Some w2"
    "w' = w2 \<or> do_callout E (ReleaseInfo (rlt_info (w_timer w x))) w2 = Some w'"
    using assms(2) True unfolding CFRunLoopTimerInvalidate_def w1_def[symmetric] Let_def
    by (auto simp: bind_eq_Some_conv[of "If _ _ _"] split: if_split_asm)
  have inv1: "rl_inv w1" unfolding w1_def by (rule rl_inv_upd_timer[OF assms(3)]) simp_all
  have "rl_inv w2"
  proof (cases "?rl = NULL")
    case False
    then obtain w3 where w3: "ofold (remove_item k E ?rl (TimerItem x)) (ev_names E (rlt_rlModes (w_timer w1 x))) w1 = Some w3"
      "remove_item k E ?rl (TimerItem x) kCFRunLoopCommonModes w3 = Some w2"
      using w2(1) by (auto simp: bind_eq_Some_conv)
    have "rl_inv w3" using w3(1)
      by (rule ofold_invariant[where P = rl_inv]) (use inv1 remove_item_inv[OF assms(1)] in blast)+
    then show ?thesis by (rule remove_item_inv[OF assms(1) w3(2)])
  qed (use w2 inv1 in simp)
  then show ?thesis using w2(2) callout_inv[OF assms(1)] by blast
qed (use assms in \<open>auto simp: CFRunLoopTimerInvalidate_def split: if_splits\<close>)

subsection \<open>Changing the date of a timer\<close>

lemma remove1_insert_at: "x \<notin> set xs \<Longrightarrow> remove1 x (insert_at i x xs) = xs"
  using in_set_takeD[of x i xs] by (auto simp: insert_at_def remove1_append)

text \<open>While a timer is moved to its new places, the other timers are in order everywhere.\<close>

definition dates_sorted :: "world \<Rightarrow> ptr list \<Rightarrow> bool" where
  "dates_sorted w ts \<longleftrightarrow> sorted (map (\<lambda>t. rlt_fireTSR (w_timer w t)) ts)"

definition moving :: "ptr \<Rightarrow> world \<Rightarrow> bool" where
  "moving x w \<longleftrightarrow> modes_inv w \<and> observers_inv w \<and> sources_inv w \<and>
     (\<forall>l k. distinct (timers_of w l k) \<and> dates_sorted w (remove1 x (timers_of w l k)) \<and>
        (\<forall>t. t \<in> set (timers_of w l k) \<longleftrightarrow>
           rlt_runLoop (w_timer w t) = l \<and> k \<in> set (rlt_rlModes (w_timer w t)))) \<and>
     (\<forall>t. distinct (rlt_rlModes (w_timer w t)) \<and>
          (rlt_runLoop (w_timer w t) = NULL \<longleftrightarrow> rlt_rlModes (w_timer w t) = []))"

lemma movingD:
  assumes "moving x w"
  shows "modes_inv w" "observers_inv w" "sources_inv w" "distinct (timers_of w l k)"
    "dates_sorted w (remove1 x (timers_of w l k))"
    "t \<in> set (timers_of w l k) \<longleftrightarrow> rlt_runLoop (w_timer w t) = l \<and> k \<in> set (rlt_rlModes (w_timer w t))"
    "distinct (rlt_rlModes (w_timer w t))" "rlt_runLoop (w_timer w t) = NULL \<longleftrightarrow> rlt_rlModes (w_timer w t) = []"
  using assms unfolding moving_def by blast+

lemma moving_done:
  assumes "moving x w" "\<And>l k. x \<in> set (timers_of w l k) \<Longrightarrow> dates_sorted w (timers_of w l k)"
  shows "rl_inv w"
proof -
  note D = movingD[OF assms(1)]
  have "timers_inv w"
  proof (rule timers_invI)
    show "sorted (map (\<lambda>t. rlt_fireTSR (w_timer w t)) (timers_of w l k))" for l k
      using assms(2)[of l k] D(5)[of l k]
      by (cases "x \<in> set (timers_of w l k)") (simp_all add: dates_sorted_def remove1_idem)
  qed (use D in blast)+
  then show ?thesis using D by (simp add: rl_inv_def)
qed

lemma moving_start:
  assumes "rl_inv w" "\<And>y. rlt_runLoop (f y) = rlt_runLoop y" "\<And>y. rlt_rlModes (f y) = rlt_rlModes y"
  shows "moving x (upd_timer w x f)"
proof -
  let ?w = "upd_timer w x f"
  have inv: "observers_inv w" "modes_inv w" "timers_inv w" "sources_inv w" using assms(1) by (simp_all add: rl_inv_def)
  note D = timers_invD[OF inv(3)]
  have f: "rlt_runLoop (w_timer ?w y) = rlt_runLoop (w_timer w y)" "rlt_rlModes (w_timer ?w y) = rlt_rlModes (w_timer w y)" for y
    by (simp_all add: assms(2,3))
  have "dates_sorted ?w (remove1 x (timers_of ?w l k))" for l k
  proof -
    have "sorted (map (\<lambda>t. rlt_fireTSR (w_timer w t)) (filter (\<lambda>t. t \<noteq> x) (timers_of w l k)))"
      using D(2)[of l k] by (rule sorted_filter)
    moreover have "remove1 x (timers_of w l k) = filter (\<lambda>t. t \<noteq> x) (timers_of w l k)"
      using distinct_remove1_removeAll[OF D(1)] by (simp add: removeAll_filter_not_eq eq_commute)
    moreover have "map (\<lambda>t. rlt_fireTSR (w_timer ?w t)) (filter (\<lambda>t. t \<noteq> x) (timers_of w l k)) =
        map (\<lambda>t. rlt_fireTSR (w_timer w t)) (filter (\<lambda>t. t \<noteq> x) (timers_of w l k))" by auto
    ultimately show ?thesis unfolding dates_sorted_def view_upd_object by metis
  qed
  moreover have "observers_inv ?w" "sources_inv ?w"
    using observers_inv_cong[of ?w w] sources_inv_cong[of ?w w] inv by simp_all
  ultimately show ?thesis unfolding moving_def f view_upd_object using D inv by (simp add: f)
qed

lemma reposition_step:
  assumes "(case get_mode w rl n of None \<Rightarrow> Some w
     | Some m \<Rightarrow> map_option (\<lambda>m. upd_mode w rl n (\<lambda>_. m)) (CFRepositionTimerInMode rate (w_timer w) m x True)) = Some w'"
    and mv: "moving x w" and x: "x \<noteq> NULL"
  shows "moving x w' \<and> w_timer w' = w_timer w \<and> dates_sorted w' (timers_of w' rl n) \<and>
    (\<forall>l k. dates_sorted w (timers_of w l k) \<longrightarrow> dates_sorted w' (timers_of w' l k))"
proof (cases "x \<in> set (timers_of w rl n)")
  case False
  have sorted: "dates_sorted w (timers_of w rl n)" using movingD(5)[OF mv, of rl n] False by (simp add: remove1_idem)
  have "w' = w \<or> (\<exists>m. get_mode w rl n = Some m \<and> w' = upd_mode w rl n (\<lambda>_. m))"
    using assms(1) False x
    by (cases "get_mode w rl n")
      (auto simp: CFRepositionTimerInMode_def timers_of_def split: option.splits)
  then show ?thesis
  proof
    assume "\<exists>m. get_mode w rl n = Some m \<and> w' = upd_mode w rl n (\<lambda>_. m)"
    then obtain m where m: "get_mode w rl n = Some m" "w' = upd_mode w rl n (\<lambda>_. m)" by blast
    have v: "observers_of w' = observers_of w" "timers_of w' = timers_of w" "sources_of w' = sources_of w"
      "mask_of w' = mask_of w" unfolding m(2) by (rule view_upd_mode_same; use m in simp)+
    have "modes_inv w'" unfolding m(2) by (rule modes_inv_upd_mode[OF movingD(1)[OF mv]]) (use m in auto)
    moreover have o: "w_observer w' = w_observer w" "w_source w' = w_source w" "w_timer w' = w_timer w"
      by (simp_all add: m(2))
    ultimately have "moving x w'"
      using mv observers_inv_cong[OF v(1,4) o(1)] sources_inv_cong[OF v(3) o(2)]
      unfolding moving_def v(2) o(3) dates_sorted_def by simp
    then show ?thesis using sorted v(2) o(3) by (simp add: dates_sorted_def)
  qed (use mv sorted in simp)
next
  case True
  then obtain m where m: "get_mode w rl n = Some m" by (cases "get_mode w rl n") (simp_all add: view_None)
  then have ts: "rlm_timers m = Some (timers_of w rl n)" using True
    by (cases "rlm_timers m") (simp_all add: timers_of_def)
  let ?rest = "remove1 x (timers_of w rl n)"
  obtain i m' where i: "CFRunLoopInsertionIndexInTimerArray (\<lambda>t. rlt_fireTSR (w_timer w t)) ?rest x = Some i"
    "CFArmNextTimerInMode rate (w_timer w) (m\<lparr>rlm_timers := Some (insert_at i x ?rest)\<rparr>) = Some m'"
    "w' = upd_mode w rl n (\<lambda>_. m')"
    using assms(1) m ts True x by (auto simp: CFRepositionTimerInMode_def Let_def bind_eq_Some_conv)
  note fields = arm_next_fields[OF i(2)]
  note D = movingD[OF mv]
  have v: "timers_of w' = (\<lambda>l k. if l = rl \<and> k = n then insert_at i x ?rest else timers_of w l k)"
    by (simp add: i(3) view_upd_mode[OF m] fields fun_eq_iff)
  have views: "members (rlm_observers m) = observers_of w rl n" "rlm_observerMask m = mask_of w rl n"
    "members (rlm_sources0 m) @ members (rlm_sources1 m) = sources_of w rl n" using m by (simp_all add: view_defs)
  have v': "observers_of w' = observers_of w" "mask_of w' = mask_of w" "sources_of w' = sources_of w"
    by (auto simp: i(3) view_upd_mode[OF m] fields views fun_eq_iff)
  have o: "w_observer w' = w_observer w" "w_source w' = w_source w" "w_timer w' = w_timer w" by (simp_all add: i(3))
  have mi: "modes_inv w'" unfolding i(3)
    by (rule modes_inv_upd_mode[OF D(1)]) (use m mode_ok_unarmed[OF unarmed_arm_next[OF i(2)], of n] in simp)
  have sorted: "sorted (map (\<lambda>t. rlt_fireTSR (w_timer w t)) (insert_at i x ?rest))"
    by (rule timer_array.insert_keeps_sorted[OF _ i(1)]) (use D(5) in \<open>simp add: dates_sorted_def\<close>)
  have out: "x \<notin> set ?rest" using D(4) by simp
  have rest: "remove1 x (insert_at i x ?rest) = ?rest"
    by (rule remove1_insert_at[OF out])
  have "moving x w'"
    unfolding moving_def o(3) dates_sorted_def
    using mi D observers_inv_cong[OF v'(1,2) o(1)] sources_inv_cong[OF v'(3) o(2)] True out
    by (auto simp: v rest dates_sorted_def)
  then show ?thesis using o(3) sorted by (simp add: v dates_sorted_def)
qed

lemma reposition_moves:
  assumes "reposition_in_modes E rl x names w = Some w'" "moving x w" "x \<noteq> NULL"
  shows "moving x w' \<and> w_timer w' = w_timer w \<and> (\<forall>n \<in> set names. dates_sorted w' (timers_of w' rl n)) \<and>
    (\<forall>l k. dates_sorted w (timers_of w l k) \<longrightarrow> dates_sorted w' (timers_of w' l k))"
  using assms(1,2)
proof (induction names arbitrary: w)
  case (Cons n names)
  from Cons.prems(1) obtain w1 where w1: "(case get_mode w rl n of None \<Rightarrow> Some w
     | Some m \<Rightarrow> map_option (\<lambda>m. upd_mode w rl n (\<lambda>_. m)) (CFRepositionTimerInMode (ev_rate E) (w_timer w) m x True)) = Some w1"
    "reposition_in_modes E rl x names w1 = Some w'"
    by (auto simp: reposition_in_modes_def bind_eq_Some_conv)
  note step = reposition_step[OF w1(1) Cons.prems(2) assms(3)]
  have "moving x w1" using step by blast
  note rest = Cons.IH[OF w1(2) this]
  show ?case using step rest by (metis set_ConsD)
qed (simp add: reposition_in_modes_def)

lemma set_next_fire_date_inv:
  assumes "env_ok E" "CFRunLoopTimerSetNextFireDate E w x date = Some w'" "rl_inv w"
  shows "rl_inv w'"
proof (cases "rlt_valid (w_timer w x)")
  case True
  let ?rl = "rlt_runLoop (w_timer w x)"
  let ?date = "if TIMER_DATE_LIMIT < date then TIMER_DATE_LIMIT else date"
  obtain tsr where tsr: "fire_date_TSR (ev_rate E) w ?date = Some tsr" and x: "x \<noteq> NULL"
    using assms(2) True by (auto simp: CFRunLoopTimerSetNextFireDate_def Let_def bind_eq_Some_conv split: if_split_asm)
  define w1 where "w1 = upd_timer w x (\<lambda>t. t\<lparr>rlt_fireTSR := tsr, rlt_nextFireDate := ?date\<rparr>)"
  have mv: "moving x w1" unfolding w1_def by (rule moving_start[OF assms(3)]) simp_all
  have same: "rlt_runLoop (w_timer w1 x) = ?rl" "rlt_rlModes (w_timer w1 x) = rlt_rlModes (w_timer w x)"
    by (simp_all add: w1_def)
  have res: "(if ?rl \<noteq> NULL then do {
      w2 \<leftarrow> reposition_in_modes E ?rl x (ev_names E (rlt_rlModes (w_timer w x))) w1;
      Some (if ?rl \<noteq> ev_current E then CFRunLoopWakeUp w2 ?rl else w2) } else Some w1) = Some w'"
    using assms(2) True tsr x unfolding CFRunLoopTimerSetNextFireDate_def Let_def w1_def by simp
  show ?thesis
  proof (cases "?rl = NULL")
    case True
    then have "w' = w1" using res by simp
    moreover have "x \<notin> set (timers_of w1 l k)" for l k using movingD(6,8)[OF mv] same True by fastforce
    ultimately show ?thesis using moving_done[OF mv] by blast
  next
    case False
    then obtain w2 where w2: "reposition_in_modes E ?rl x (ev_names E (rlt_rlModes (w_timer w x))) w1 = Some w2"
      "w' = (if ?rl \<noteq> ev_current E then CFRunLoopWakeUp w2 ?rl else w2)"
      using res by (auto simp: bind_eq_Some_conv)
    note mv2 = reposition_moves[OF w2(1) mv x]
    have "rl_inv w2"
    proof (rule moving_done[OF conjunct1[OF mv2]])
      fix l k
      assume "x \<in> set (timers_of w2 l k)"
      then have "l = ?rl" "k \<in> set (rlt_rlModes (w_timer w x))"
        using movingD(6)[OF conjunct1[OF mv2]] mv2 same by simp_all
      then show "dates_sorted w2 (timers_of w2 l k)" using mv2 env_okD(2)[OF assms(1)] by simp
    qed
    then show ?thesis by (simp add: w2(2))
  qed
qed (use assms in \<open>auto simp: CFRunLoopTimerSetNextFireDate_def split: if_splits\<close>)

subsection \<open>Sequences of calls\<close>

text \<open>
  One call on a source, an observer, a timer or a run loop that exists, with any depth of the recursion on common
  modes. Creating objects, queueing blocks, running and deallocating are added to these in \<open>loop_step\<close>.
\<close>

inductive api_step :: "env \<Rightarrow> world \<Rightarrow> world \<Rightarrow> bool" for E where
  AddItem: "add_item k E rl item name w = Some w' \<Longrightarrow> api_step E w w'"
| RemoveItem: "remove_item k E rl item name w = Some w' \<Longrightarrow> api_step E w w'"
| AddCommonMode: "CFRunLoopAddCommonMode k E w rl name = Some w' \<Longrightarrow> api_step E w w'"
| RemoveAllSources: "CFRunLoopRemoveAllSources k E rl name w = Some w' \<Longrightarrow> api_step E w w'"
| SourceInvalidate: "CFRunLoopSourceInvalidate k E w s = Some w' \<Longrightarrow> api_step E w w'"
| ObserverInvalidate: "CFRunLoopObserverInvalidate k E w x = Some w' \<Longrightarrow> api_step E w w'"
| TimerInvalidate: "CFRunLoopTimerInvalidate k E w t = Some w' \<Longrightarrow> api_step E w w'"
| SetNextFireDate: "CFRunLoopTimerSetNextFireDate E w t date = Some w' \<Longrightarrow> api_step E w w'"
| SetTolerance: "api_step E w (CFRunLoopTimerSetTolerance w t tolerance)"
| SourceSignal: "api_step E w (CFRunLoopSourceSignal w s)"
| SourceWakeUp: "api_step E w (CFRunLoopSourceWakeUpRunLoops E w s)"
| Stop: "api_step E w (CFRunLoopStop w rl)"
| StopMode: "CFRunLoopStopMode E w rl name = Some w' \<Longrightarrow> api_step E w w'"
| WakeUp: "api_step E w (CFRunLoopWakeUp w rl)"

lemma stop_mode_inv:
  assumes "CFRunLoopStopMode E w rl name = Some w'" "rl_inv w"
  shows "rl_inv w'"
proof -
  obtain w1 found where w1: "CFRunLoopFindMode E w rl name True = Some (w1, found)"
    using assms(1) by (auto simp: CFRunLoopStopMode_def bind_eq_Some_conv)
  have inv: "rl_inv w1" by (rule find_mode_inv[OF w1 assms(2)])
  have "w' = CFRunLoopWakeUp w1 rl \<or> w' = CFRunLoopWakeUp (upd_mode w1 rl name (\<lambda>m. m\<lparr>rlm_stopped := True\<rparr>)) rl"
    using assms(1) w1 by (auto simp: CFRunLoopStopMode_def split: if_splits)
  moreover have "rl_inv (upd_mode w1 rl name (\<lambda>m. m\<lparr>rlm_stopped := True\<rparr>))"
    by (rule rl_inv_upd_mode_same[OF inv]) (auto simp: mode_ok_def)
  ultimately show ?thesis using inv by auto
qed

lemma wake_up_loops_inv: "rl_inv (fold (\<lambda>rl w. CFRunLoopWakeUp w rl) rls w) \<longleftrightarrow> rl_inv w"
  by (induction rls arbitrary: w) simp_all

lemma api_step_inv:
  assumes "api_step E w w'" "env_ok E" "rl_inv w"
  shows "rl_inv w'"
  using assms(1)
proof cases
  case AddItem
  then show ?thesis by (rule add_item_inv[OF assms(2) _ assms(3)])
next
  case RemoveItem
  then show ?thesis by (rule remove_item_inv[OF assms(2) _ assms(3)])
next
  case AddCommonMode
  then show ?thesis by (rule add_common_mode_inv[OF assms(2) _ assms(3)])
next
  case RemoveAllSources
  then show ?thesis by (rule remove_all_sources_inv[OF assms(2) _ assms(3)])
next
  case SourceInvalidate
  then show ?thesis by (rule source_invalidate_inv[OF assms(2) _ assms(3)])
next
  case ObserverInvalidate
  then show ?thesis by (rule observer_invalidate_inv[OF assms(2) _ assms(3)])
next
  case TimerInvalidate
  then show ?thesis by (rule timer_invalidate_inv[OF assms(2) _ assms(3)])
next
  case SetNextFireDate
  then show ?thesis by (rule set_next_fire_date_inv[OF assms(2) _ assms(3)])
next
  case StopMode
  then show ?thesis by (rule stop_mode_inv[OF _ assms(3)])
next
  case (SetTolerance t tolerance)
  show ?thesis unfolding SetTolerance CFRunLoopTimerSetTolerance_def by (rule rl_inv_upd_timer[OF assms(3)]) simp_all
next
  case (SourceSignal s)
  have "rl_inv (upd_source w s (\<lambda>x. x\<lparr>rls_signaled := True\<rparr>))" by (rule rl_inv_upd_source[OF assms(3)]) (simp_all add: source_key_def)
  then show ?thesis using assms(3) unfolding SourceSignal CFRunLoopSourceSignal_def by simp
next
  case (Stop rl)
  show ?thesis using assms(3) unfolding Stop by (simp add: CFRunLoopStop_def rl_inv_upd_loop CFRunLoopSetStopped_def)
next
  case (WakeUp rl)
  then show ?thesis using assms(3) by simp
next
  case (SourceWakeUp s)
  then show ?thesis using assms(3) by (simp add: CFRunLoopSourceWakeUpRunLoops_def wake_up_loops_inv)
qed

section \<open>Adding and removing\<close>

lemma contains_observer_iff:
  "n \<noteq> kCFRunLoopCommonModes \<Longrightarrow> CFRunLoopContainsObserver w rl x n \<longleftrightarrow> x \<in> set (observers_of w rl n)"
  by (simp add: CFRunLoopContainsObserver_def observers_of_def split: option.split)

lemma remove_observer_total: "\<exists>w'. remove_observer_from_mode E w rl x n = Some w'"
  by (simp add: remove_observer_from_mode_def split: option.split)

lemma cancel_schedule:
  assumes "rlo_rlCount y = 0 \<longleftrightarrow> rlo_runLoop y = NULL" "rlo_runLoop y \<in> {NULL, rl}"
  shows "CFRunLoopObserverCancel (CFRunLoopObserverSchedule y rl) = y"
  using assms by (auto simp: CFRunLoopObserverCancel_def CFRunLoopObserverSchedule_def Let_def)

text \<open>
  An observer that is added to a mode goes behind all observers of at most its order and before
  the others, and is found there; when it is removed again, every mode has the observers it had before
  and every observer, the removed one included, is as it was.
\<close>

theorem observer_add_remove:
  assumes "rl_inv w" "CFRunLoopAddObserver add E w rl x n = Some w'" "n \<noteq> kCFRunLoopCommonModes"
    and "\<not> rl_deallocating (w_loop w rl)" "rlo_valid (w_observer w x)" "rlo_runLoop (w_observer w x) \<in> {NULL, rl}"
    and "x \<notin> set (observers_of w rl n)" "get_mode w' rl n \<noteq> None"
  shows "observers_of w' rl n =
      takeWhile (\<lambda>y. rlo_order (w_observer w y) \<le> rlo_order (w_observer w x)) (observers_of w rl n) @
      x # dropWhile (\<lambda>y. rlo_order (w_observer w y) \<le> rlo_order (w_observer w x)) (observers_of w rl n) \<and>
    CFRunLoopContainsObserver w' rl x n \<and>
    (\<exists>w''. CFRunLoopRemoveObserver remove E w' rl x n = Some w'' \<and> \<not> CFRunLoopContainsObserver w'' rl x n \<and>
      observers_of w'' = observers_of w \<and> w_observer w'' = w_observer w)"
proof -
  have inv: "observers_inv w" using assms(1) by (simp add: rl_inv_def)
  have add: "add_observer_to_mode E w rl x n = Some w'" "rl \<noteq> NULL"
    using assms(2-6) by (auto simp: CFRunLoopAddObserver_def split: if_splits)
  obtain i where i: "observer_index (\<lambda>y. rlo_order (w_observer w y)) (observers_of w rl n) x = Some i"
    "observers_of w' = (\<lambda>l k. if l = rl \<and> k = n then insert_at i x (observers_of w rl n) else observers_of w l k)"
    "w_observer w' = (w_observer w)(x := CFRunLoopObserverSchedule (w_observer w x) rl)"
    using add_observer_effect(9)[OF add(1) assms(8,7)] by blast
  obtain w'' where w'': "remove_observer_from_mode E w' rl x n = Some w''" using remove_observer_total by blast
  note eff = remove_observer_effect[OF w'']
  have "observers_of w'' = observers_of w"
    unfolding eff(9) i(2) using remove1_insert_at[OF assms(7)] by (simp add: fun_eq_iff)
  moreover have "w_observer w'' = w_observer w"
    unfolding eff(10) i(2,3) using cancel_schedule[OF observers_invD(6)[OF inv] assms(6)] by simp
  ultimately show ?thesis
    using w'' add(2) assms(3,7) observer_array.insert_split[OF observers_invD(2)[OF inv] i(1)]
    by (simp add: contains_observer_iff CFRunLoopRemoveObserver_def i(2))
qed

text \<open>A run loop with an observer in its default mode.\<close>

definition one_observer :: world where
  "one_observer = the (add_item 1 quiet_env 1 (ObserverItem 5) kCFRunLoopDefaultMode blank_world)"

lemma one_observer_facts:
  "add_item 1 quiet_env 1 (ObserverItem 5) kCFRunLoopDefaultMode blank_world = Some one_observer"
  "observers_of one_observer 1 kCFRunLoopDefaultMode = [5]" "rl_deallocating (w_loop one_observer 1) = False"
  "rlo_valid (w_observer one_observer 6)" "rlo_runLoop (w_observer one_observer 6) = NULL"
proof -
  have "map_option (\<lambda>w. (observers_of w 1 kCFRunLoopDefaultMode, rl_deallocating (w_loop w 1),
      rlo_valid (w_observer w 6), rlo_runLoop (w_observer w 6)))
      (add_item 1 quiet_env 1 (ObserverItem 5) kCFRunLoopDefaultMode blank_world) = Some ([5], False, True, NULL)"
    by code_simp
  then show "add_item 1 quiet_env 1 (ObserverItem 5) kCFRunLoopDefaultMode blank_world = Some one_observer"
    "observers_of one_observer 1 kCFRunLoopDefaultMode = [5]" "rl_deallocating (w_loop one_observer 1) = False"
    "rlo_valid (w_observer one_observer 6)" "rlo_runLoop (w_observer one_observer 6) = NULL"
    by (auto simp: one_observer_def)
qed

lemma one_observer_inv: "rl_inv one_observer"
  by (rule add_item_inv[OF quiet_env_ok one_observer_facts(1) blank_world_inv])

text \<open>A second observer of the same order goes behind the first.\<close>

theorem observer_add_remove_witness:
  "\<exists>w' w''. CFRunLoopAddObserver (\<lambda>_ _ _. None) quiet_env one_observer 1 6 kCFRunLoopDefaultMode = Some w' \<and>
     observers_of w' 1 kCFRunLoopDefaultMode = [5, 6] \<and>
     CFRunLoopRemoveObserver (\<lambda>_ _ _. None) quiet_env w' 1 6 kCFRunLoopDefaultMode = Some w'' \<and>
     observers_of w'' 1 kCFRunLoopDefaultMode = [5]"
proof -
  let ?add = "\<lambda>w. CFRunLoopAddObserver (\<lambda>_ _ _. None) quiet_env w 1 6 kCFRunLoopDefaultMode"
  have "map_option (\<lambda>w. (observers_of w 1 kCFRunLoopDefaultMode, get_mode w 1 kCFRunLoopDefaultMode = None))
      (Option.bind (add_item 1 quiet_env 1 (ObserverItem 5) kCFRunLoopDefaultMode blank_world) ?add) = Some ([5, 6], False)"
    by code_simp
  then have "map_option (\<lambda>w. (observers_of w 1 kCFRunLoopDefaultMode, get_mode w 1 kCFRunLoopDefaultMode = None))
      (?add one_observer) = Some ([5, 6], False)"
    unfolding one_observer_facts(1) bind.bind_lunit .
  then obtain w' where w': "?add one_observer = Some w'" "observers_of w' 1 kCFRunLoopDefaultMode = [5, 6]"
    "get_mode w' 1 kCFRunLoopDefaultMode \<noteq> None"
    by auto
  have names: "kCFRunLoopDefaultMode \<noteq> kCFRunLoopCommonModes" by code_simp
  show ?thesis
    using observer_add_remove[OF one_observer_inv w'(1) names _ _ _ _ w'(3), where remove = "\<lambda>_ _ _. None"]
      one_observer_facts w'(1,2) by auto
qed

section \<open>Sources that compare equal\<close>

lemma set_remove_hits:
  assumes "distinct (a @ b)" "\<exists>y \<in> set (a @ b). eq y x" "x \<notin> set (a @ b)"
  shows "\<exists>y \<in> set (a @ b). y \<notin> set (set_remove eq x a @ set_remove eq x b) \<and> eq y x"
proof -
  have hit: "\<exists>y \<in> set c. y \<notin> set (set_remove eq x c) \<and> eq y x" if h: "\<exists>y \<in> set c. eq y x" "x \<notin> set c" for c
  proof -
    obtain y where y: "set_find eq x c = Some y" using h(1) set_find_None[of eq x c] by (cases "set_find eq x c") auto
    then show ?thesis using set_find_Some[OF y] h(2) by (auto simp: set_remove_def)
  qed
  show ?thesis
  proof (cases "\<exists>y \<in> set a. eq y x")
    case True
    then obtain y where "y \<in> set a" "y \<notin> set (set_remove eq x a)" "eq y x" using hit[of a] assms(3) by auto
    then show ?thesis using assms(1) set_remove_subset[of eq x b] by (intro bexI[of _ y]) auto
  next
    case False
    then have "\<exists>y \<in> set b. eq y x" using assms(2) by auto
    then obtain y where "y \<in> set b" "y \<notin> set (set_remove eq x b)" "eq y x" using hit[of b] assms(3) by auto
    then show ?thesis using assms(1) set_remove_subset[of eq x a] by (intro bexI[of _ y]) auto
  qed
qed

text \<open>
  The sets of a mode compare sources by \<^verbatim>\<open>__CFRunLoopSourceEqual\<close>, but \<^verbatim>\<open>CFRunLoopRemoveSource\<close> goes on with the source it
  was given. Removing a valid source from a mode that has not this source but an equal one takes a source \<open>y\<close> that was never
  mentioned out of the mode, while \<open>y\<close> keeps its reference to the run loop; \<open>y\<close> is no longer called, the run loop is never given back,
  and it is the given source that is told that it was cancelled.
\<close>

theorem equal_source_orphaned:
  assumes "rl_inv w" "source_refs_exact w" "rl \<noteq> NULL" "n \<noteq> kCFRunLoopCommonModes" "rls_valid (w_source w s)"
    and "s \<notin> set (sources_of w rl n)" "\<exists>y \<in> set (sources_of w rl n). CFRunLoopSourceEqual (w_source w) y s"
  shows "\<exists>w' y. CFRunLoopRemoveSource remove E w rl s n = (if rls_version (w_source w s) = 0 \<and> rls_cancel (w_source w s)
      then do_callout E (CancelSource s rl n) w' else Some w') \<and>
    y \<noteq> s \<and> y \<in> set (sources_of w rl n) \<and> y \<notin> set (sources_of w' rl n) \<and> w_source w' y = w_source w y \<and>
    rl \<in> set (members (rls_runLoops (w_source w' y))) \<and> \<not> source_refs_exact w'"
proof -
  obtain m where m: "get_mode w rl n = Some m" using assms(7) by (cases "get_mode w rl n") (auto simp: sources_of_def)
  let ?a = "members (rlm_sources0 m)" and ?b = "members (rlm_sources1 m)" and ?eq = "CFRunLoopSourceEqual (w_source w)"
  let ?w1 = "upd_mode w rl n (mode_remove_source (w_source w) s)"
  define w2 where "w2 = upd_source ?w1 s (\<lambda>x. x\<lparr>rls_runLoops := map_option (remove1 rl) (rls_runLoops x)\<rparr>)"
  have ab: "sources_of w rl n = ?a @ ?b" using m by (simp add: sources_of_def)
  have mapped: "members (map_option (set_remove ?eq s) c) = set_remove ?eq s (members c)" for c
    by (cases c) (simp_all add: set_remove_def set_find_def)
  have src2: "sources_of w2 = (\<lambda>l k. if l = rl \<and> k = n then set_remove ?eq s ?a @ set_remove ?eq s ?b else sources_of w l k)"
    by (simp add: w2_def view_upd_mode[OF m] mapped fun_eq_iff)
  have "distinct (?a @ ?b)" using assms(1) sources_invD(1)[of w rl n] ab by (simp add: rl_inv_def)
  then obtain y where y: "y \<in> set (sources_of w rl n)" "y \<notin> set (sources_of w2 rl n)" "?eq y s"
    using set_remove_hits[of ?a ?b ?eq s] assms(6,7) unfolding ab src2 by auto
  have ys: "y \<noteq> s" using y(1) assms(6) by blast
  then have "rls_valid (w_source w y)" using y(3) assms(5) by (simp add: CFRunLoopSourceEqual_def split: if_splits)
  then have count: "count_list (members (rls_runLoops (w_source w y))) rl = card {k. y \<in> set (sources_of w rl k)}"
    using assms(2) by (simp add: source_refs_exact_def)
  have "y \<in> set (sources_of w rl k) \<longleftrightarrow> k = n \<or> y \<in> set (sources_of w2 rl k)" for k
    using y(1) by (cases "k = n") (simp_all add: src2)
  then have "{k. y \<in> set (sources_of w rl k)} = insert n {k. y \<in> set (sources_of w2 rl k)}" "n \<notin> {k. y \<in> set (sources_of w2 rl k)}"
    using y(2) by auto
  then have more: "card {k. y \<in> set (sources_of w rl k)} = Suc (card {k. y \<in> set (sources_of w2 rl k)})" by simp
  have same: "w_source w2 y = w_source w y" using ys by (simp add: w2_def)
  have "count_list (members (rls_runLoops (w_source w y))) rl \<noteq> 0" using count more by simp
  then have "rl \<in> set (members (rls_runLoops (w_source w y)))" by (simp add: count_list_0_iff)
  moreover have "\<not> source_refs_exact w2" unfolding source_refs_exact_def
  proof
    assume "\<forall>t l. rls_valid (w_source w2 t) \<longrightarrow>
      count_list (members (rls_runLoops (w_source w2 t))) l = card {k. t \<in> set (sources_of w2 l k)}"
    then have "count_list (members (rls_runLoops (w_source w y))) rl = card {k. y \<in> set (sources_of w2 rl k)}"
      using \<open>rls_valid (w_source w y)\<close> same by metis
    then show False using count more by simp
  qed
  moreover have "mode_has_source (w_source w) m s" using assms(7) by (simp add: mode_has_source_iff[OF m])
  then have "CFRunLoopRemoveSource remove E w rl s n = (if rls_version (w_source w s) = 0 \<and> rls_cancel (w_source w s)
      then do_callout E (CancelSource s rl n) w2 else Some w2)"
    using assms(3,4) m by (simp add: CFRunLoopRemoveSource_def remove_source_from_mode_def Let_def w2_def)
  ultimately show ?thesis using y(1,2) ys same by (intro exI[of _ w2] exI[of _ y]) simp
qed

text \<open>Two version 0 sources with the same info pointer; the first is added to a mode, then the second is removed from it.\<close>

theorem equal_source_orphaned_example:
  "map_option (\<lambda>w. (sources_of w 1 kCFRunLoopDefaultMode, rls_runLoops (w_source w 6), w_calls w))
     (do { w1 \<leftarrow> add_item 1 quiet_env 1 (SourceItem 6) kCFRunLoopDefaultMode (upd_source blank_world 7 (\<lambda>s. s\<lparr>rls_info := 6\<rparr>));
           remove_item 1 quiet_env 1 (SourceItem 7) kCFRunLoopDefaultMode w1 }) =
   Some ([], Some [1], [ScheduleSource 6 1 kCFRunLoopDefaultMode, CancelSource 7 1 kCFRunLoopDefaultMode])"
  by code_simp

section \<open>Invalidating an observer\<close>

lemma remove_observer_item:
  assumes "rl \<noteq> NULL" "n \<noteq> kCFRunLoopCommonModes"
  shows "remove_item (Suc k) E rl (ObserverItem x) n w = remove_observer_from_mode E w rl x n"
  using assms by (simp add: CFRunLoopRemoveObserver_def)

lemma remove_observer_common:
  assumes "rl \<noteq> NULL"
  shows "remove_item (Suc k) E rl (ObserverItem x) kCFRunLoopCommonModes w =
    remove_from_common_modes (remove_item k E rl) E w rl (ObserverItem x)"
  using assms by (simp add: CFRunLoopRemoveObserver_def)

text \<open>
  A run loop from which an observer was taken: out of the modes of a set, and out of the common items if \<open>c\<close> says so.
  Nothing else of the run loop changes.
\<close>

definition strip_observer :: "ptr \<Rightarrow> CFRunLoopMode \<Rightarrow> CFRunLoopMode" where
  "strip_observer x m = m\<lparr>rlm_observers := map_option (removeAll x) (rlm_observers m)\<rparr>"

definition loop_out :: "ptr \<Rightarrow> mode_name set \<Rightarrow> bool \<Rightarrow> CFRunLoop \<Rightarrow> CFRunLoop" where
  "loop_out x S c l = l\<lparr>rl_modes := map (\<lambda>(n, m). (n, if n \<in> S then strip_observer x m else m)) (rl_modes l),
     rl_commonModeItems := (if c then map_option (removeAll (ObserverItem x)) else id) (rl_commonModeItems l)\<rparr>"

text \<open>The state after an observer was taken out: only the run loop and the observer's count and owner differ.\<close>

definition observer_out :: "ptr \<Rightarrow> ptr \<Rightarrow> mode_name set \<Rightarrow> bool \<Rightarrow> world \<Rightarrow> world \<Rightarrow> bool" where
  "observer_out x rl S c w w' \<longleftrightarrow> (\<exists>k own. w' = w\<lparr>w_loop := (w_loop w)(rl := loop_out x S c (w_loop w rl)),
     w_observer := (w_observer w)(x := (w_observer w x)\<lparr>rlo_rlCount := k, rlo_runLoop := own\<rparr>)\<rparr>)"

lemma map_option_removeAll_id: "x \<notin> set (members c) \<Longrightarrow> map_option (removeAll x) c = c"
  by (cases c) simp_all

lemma strip_observer_id: "x \<notin> set (members (rlm_observers m)) \<Longrightarrow> strip_observer x m = m"
  by (simp add: strip_observer_def map_option_removeAll_id)

lemma strip_observer_twice [simp]: "strip_observer x (strip_observer x m) = strip_observer x m"
  by (simp add: strip_observer_def option.map_comp comp_def)

lemma loop_out_id:
  assumes "\<And>n m. (n, m) \<in> set (rl_modes l) \<Longrightarrow> n \<in> S \<Longrightarrow> x \<notin> set (members (rlm_observers m))"
    "c \<Longrightarrow> ObserverItem x \<notin> set (members (rl_commonModeItems l))"
  shows "loop_out x S c l = l"
proof -
  have "map (\<lambda>(n, m). (n, if n \<in> S then strip_observer x m else m)) (rl_modes l) = rl_modes l"
    by (rule map_idI) (use assms(1) strip_observer_id in auto)
  then show ?thesis using assms(2) by (simp add: loop_out_def map_option_removeAll_id)
qed

lemma loop_out_out: "loop_out x T d (loop_out x S c l) = loop_out x (S \<union> T) (c \<or> d) l"
proof -
  have "map_option (removeAll (ObserverItem x)) (map_option (removeAll (ObserverItem x)) i) =
      map_option (removeAll (ObserverItem x)) i" for i
    by (simp add: option.map_comp comp_def)
  moreover have "map (\<lambda>(n, m). (n, if n \<in> T then strip_observer x m else m))
      (map (\<lambda>(n, m). (n, if n \<in> S then strip_observer x m else m)) ms) =
      map (\<lambda>(n, m). (n, if n \<in> S \<union> T then strip_observer x m else m)) ms" for ms
    by (simp add: comp_def split_beta)
  ultimately show ?thesis by (simp add: loop_out_def del: map_map)
qed

lemma observer_out_same: "loop_out x S c (w_loop w rl) = w_loop w rl \<Longrightarrow> observer_out x rl S c w w"
  unfolding observer_out_def
  by (rule exI[of _ "rlo_rlCount (w_observer w x)"], rule exI[of _ "rlo_runLoop (w_observer w x)"]) simp

lemma observer_out_refl: "observer_out x rl {} False w w"
  by (rule observer_out_same, rule loop_out_id) simp_all

lemma observer_out_no_item:
  "ObserverItem x \<notin> set (members (rl_commonModeItems (w_loop w rl))) \<Longrightarrow> observer_out x rl {} True w w"
  by (rule observer_out_same, rule loop_out_id) simp_all

lemma observer_out_trans:
  assumes "observer_out x rl S c w w1" "observer_out x rl T d w1 w2"
  shows "observer_out x rl (S \<union> T) (c \<or> d) w w2"
proof -
  obtain k own k' own' where
    "w1 = w\<lparr>w_loop := (w_loop w)(rl := loop_out x S c (w_loop w rl)),
       w_observer := (w_observer w)(x := (w_observer w x)\<lparr>rlo_rlCount := k, rlo_runLoop := own\<rparr>)\<rparr>"
    "w2 = w1\<lparr>w_loop := (w_loop w1)(rl := loop_out x T d (w_loop w1 rl)),
       w_observer := (w_observer w1)(x := (w_observer w1 x)\<lparr>rlo_rlCount := k', rlo_runLoop := own'\<rparr>)\<rparr>"
    using assms unfolding observer_out_def by blast
  then show ?thesis unfolding observer_out_def
    by (intro exI[of _ k'] exI[of _ own']) (simp add: loop_out_out)
qed

lemma map_entry_distinct:
  "distinct (map fst xs) \<Longrightarrow> AList.map_entry n f xs = map (\<lambda>(k, v). (k, if k = n then f v else v)) xs"
proof (induction xs)
  case (Cons y xs)
  obtain k v where y: "y = (k, v)" by (cases y)
  have "map (\<lambda>(k, v). (k, if k = n then f v else v)) xs = xs" if "k = n"
    by (rule map_idI) (use Cons.prems that y in force)
  then show ?case using Cons y by auto
qed simp

lemma mode_of_entry:
  assumes "modes_inv w" "(n, m) \<in> set (rl_modes (w_loop w rl))"
  shows "get_mode w rl n = Some m"
  using assms by (simp add: get_mode_def modes_inv_def)

lemma remove_observer_out:
  assumes "rl_inv w" "remove_observer_from_mode E w rl x n = Some w'"
  shows "observer_out x rl {n} False w w'"
proof (cases "x \<in> set (observers_of w rl n)")
  case False
  have m: "get_mode w rl k = Some m" if "(k, m) \<in> set (rl_modes (w_loop w rl))" for k m
    by (rule mode_of_entry[OF _ that]) (use assms(1) in \<open>simp add: rl_inv_def\<close>)
  have "loop_out x {n} False (w_loop w rl) = w_loop w rl"
    by (rule loop_out_id) (use False m in \<open>auto simp: observers_of_def\<close>)
  moreover have "w' = w" using assms(2) False
    by (auto simp: remove_observer_from_mode_def observers_of_def split: option.splits)
  ultimately show ?thesis by (simp add: observer_out_same)
next
  case True
  then obtain m where m: "get_mode w rl n = Some m" "x \<in> set (members (rlm_observers m))"
    by (cases "get_mode w rl n") (simp_all add: observers_of_def)
  let ?f = "\<lambda>m. m\<lparr>rlm_observers := map_option (remove1 x) (rlm_observers m)\<rparr>"
  have w': "w' = upd_observer (upd_mode w rl n ?f) x CFRunLoopObserverCancel"
    using assms(2) m by (simp add: remove_observer_from_mode_def)
  have dist: "distinct (map fst (rl_modes (w_loop w rl)))" "distinct (members (rlm_observers m))"
    using assms(1) observers_invD(1)[of w rl n] m(1) by (simp_all add: rl_inv_def modes_inv_def observers_of_def)
  have f: "?f m' = strip_observer x m'" if "(n, m') \<in> set (rl_modes (w_loop w rl))" for m'
  proof -
    have "m' = m" using mode_of_entry[OF _ that] assms(1) m(1) by (simp add: rl_inv_def)
    then show ?thesis using dist(2)
      by (cases "rlm_observers m") (simp_all add: strip_observer_def distinct_remove1_removeAll)
  qed
  have "AList.map_entry n ?f (rl_modes (w_loop w rl)) =
      map (\<lambda>(k, v). (k, if k \<in> {n} then strip_observer x v else v)) (rl_modes (w_loop w rl))"
    unfolding map_entry_distinct[OF dist(1)] by (rule map_cong) (use f in auto)
  moreover have "\<exists>k own. CFRunLoopObserverCancel y = y\<lparr>rlo_rlCount := k, rlo_runLoop := own\<rparr>" for y
    by (rule exI[of _ "rlo_rlCount (CFRunLoopObserverCancel y)"], rule exI[of _ "rlo_runLoop (CFRunLoopObserverCancel y)"])
      (simp add: CFRunLoopObserverCancel_def Let_def)
  then obtain k own where "CFRunLoopObserverCancel (w_observer w x) = (w_observer w x)\<lparr>rlo_rlCount := k, rlo_runLoop := own\<rparr>"
    by blast
  ultimately show ?thesis unfolding w' observer_out_def loop_out_def
    by (intro exI[of _ k] exI[of _ own]) (simp add: upd_observer_def upd_mode_def upd_loop_def)
qed

text \<open>Removing an observer that is no common item from a list of modes.\<close>

lemma remove_observer_items:
  assumes "env_ok E" "rl \<noteq> NULL" "rl_inv w" "ObserverItem x \<notin> set (members (rl_commonModeItems (w_loop w rl)))"
  shows "\<exists>w'. ofold (remove_item (Suc k) E rl (ObserverItem x)) names w = Some w' \<and> rl_inv w' \<and>
    observer_out x rl (set names - {kCFRunLoopCommonModes}) False w w'"
  using assms(3,4)
proof (induction names arbitrary: w)
  case Nil
  then show ?case by (simp add: observer_out_refl)
next
  case (Cons n names)
  have step: "\<exists>w1. remove_item (Suc k) E rl (ObserverItem x) n w = Some w1 \<and>
      observer_out x rl ({n} - {kCFRunLoopCommonModes}) False w w1"
  proof (cases "n = kCFRunLoopCommonModes")
    case True
    then show ?thesis using Cons.prems(2) assms(2)
      by (simp add: CFRunLoopRemoveObserver_def remove_from_common_modes_def observer_out_refl)
  next
    case False
    obtain w1 where w1: "remove_observer_from_mode E w rl x n = Some w1" using remove_observer_total by blast
    then show ?thesis
      using remove_observer_item[OF assms(2) False] remove_observer_out[OF Cons.prems(1) w1] False by auto
  qed
  then obtain w1 where w1: "remove_item (Suc k) E rl (ObserverItem x) n w = Some w1"
    "observer_out x rl ({n} - {kCFRunLoopCommonModes}) False w w1" by blast
  have inv: "rl_inv w1" by (rule remove_item_inv[OF assms(1) w1(1) Cons.prems(1)])
  have items: "rl_commonModeItems (w_loop w1 rl) = rl_commonModeItems (w_loop w rl)"
    using w1(2) by (auto simp: observer_out_def loop_out_def)
  obtain w' where w': "ofold (remove_item (Suc k) E rl (ObserverItem x)) names w1 = Some w'" "rl_inv w'"
    "observer_out x rl (set names - {kCFRunLoopCommonModes}) False w1 w'"
    using Cons.IH[OF inv] Cons.prems(2) items by metis
  have "set (n # names) - {kCFRunLoopCommonModes} =
      ({n} - {kCFRunLoopCommonModes}) \<union> (set names - {kCFRunLoopCommonModes})" by auto
  then have "observer_out x rl (set (n # names) - {kCFRunLoopCommonModes}) False w w'"
    using observer_out_trans[OF w1(2) w'(3)] by simp
  moreover have "ofold (remove_item (Suc k) E rl (ObserverItem x)) (n # names) w = Some w'"
    unfolding ofold.simps w1(1) bind.bind_lunit by (rule w'(1))
  ultimately show ?case using w'(2) by blast
qed

text \<open>Removing an observer from the common modes.\<close>

lemma item_remove_fun: "set_remove (item_equal S) (ObserverItem x) = removeAll (ObserverItem x)"
  by (rule ext) simp

lemma remove_observer_from_common:
  assumes "env_ok E" "rl \<noteq> NULL" "rl_inv w"
  shows "\<exists>w' S. remove_item (Suc (Suc k)) E rl (ObserverItem x) kCFRunLoopCommonModes w = Some w' \<and> rl_inv w' \<and>
    observer_out x rl S True w w'"
proof (cases "ObserverItem x \<in> set (members (rl_commonModeItems (w_loop w rl)))")
  case False
  then have "remove_item (Suc (Suc k)) E rl (ObserverItem x) kCFRunLoopCommonModes w = Some w"
    unfolding remove_observer_common[OF assms(2)] by (simp add: remove_from_common_modes_def)
  moreover have "observer_out x rl {} True w w" by (rule observer_out_no_item[OF False])
  ultimately show ?thesis using assms(3) by blast
next
  case True
  let ?it = "ObserverItem x" and ?names = "ev_names E (rl_commonModes (w_loop w rl))"
  let ?w1 = "upd_loop w rl (\<lambda>l. l\<lparr>rl_commonModeItems := map_option (removeAll ?it) (rl_commonModeItems l)\<rparr>)"
  have "rl_inv ?w1" "?it \<notin> set (members (rl_commonModeItems (w_loop ?w1 rl)))"
    using assms(3) by (simp add: rl_inv_upd_loop, cases "rl_commonModeItems (w_loop w rl)") simp_all
  then obtain w' where w': "ofold (remove_item (Suc k) E rl ?it) ?names ?w1 = Some w'" "rl_inv w'"
    "observer_out x rl (set ?names - {kCFRunLoopCommonModes}) False ?w1 w'"
    using remove_observer_items[OF assms(1,2)] by blast
  have "loop_out x {} True l = l\<lparr>rl_commonModeItems := map_option (removeAll ?it) (rl_commonModeItems l)\<rparr>" for l
    by (simp add: loop_out_def case_prod_eta)
  then have "observer_out x rl {} True w ?w1" unfolding observer_out_def
    by (intro exI[of _ "rlo_rlCount (w_observer w x)"] exI[of _ "rlo_runLoop (w_observer w x)"]) (simp add: upd_loop_def)
  note all = observer_out_trans[OF this w'(3)]
  have "remove_item (Suc (Suc k)) E rl ?it kCFRunLoopCommonModes w = Some w'"
    using True w'(1) unfolding remove_observer_common[OF assms(2)] by (simp add: remove_from_common_modes_def Let_def item_remove_fun)
  then show ?thesis using w'(2) all by auto
qed

lemma remove_observer_modes:
  assumes "env_ok E" "rl \<noteq> NULL" "rl_inv w"
  shows "\<exists>w' S c. ofold (remove_item (Suc (Suc k)) E rl (ObserverItem x)) names w = Some w' \<and> rl_inv w' \<and>
    set names - {kCFRunLoopCommonModes} \<subseteq> S \<and> observer_out x rl S c w w'"
  using assms(3)
proof (induction names arbitrary: w)
  case Nil
  have "observer_out x rl {} False w w" by (rule observer_out_refl)
  then show ?case using Nil by auto
next
  case (Cons n names)
  have "\<exists>w1 S c. remove_item (Suc (Suc k)) E rl (ObserverItem x) n w = Some w1 \<and> rl_inv w1 \<and>
      {n} - {kCFRunLoopCommonModes} \<subseteq> S \<and> observer_out x rl S c w w1"
  proof (cases "n = kCFRunLoopCommonModes")
    case True
    then show ?thesis using remove_observer_from_common[OF assms(1,2) Cons.prems] by blast
  next
    case False
    obtain w1 where w1: "remove_observer_from_mode E w rl x n = Some w1" using remove_observer_total by blast
    then have "remove_item (Suc (Suc k)) E rl (ObserverItem x) n w = Some w1"
      using remove_observer_item[OF assms(2) False] by simp
    then show ?thesis
      using remove_observer_out[OF Cons.prems w1] remove_item_inv[OF assms(1) _ Cons.prems] by blast
  qed
  then obtain w1 S c where w1: "remove_item (Suc (Suc k)) E rl (ObserverItem x) n w = Some w1" "rl_inv w1"
    "{n} - {kCFRunLoopCommonModes} \<subseteq> S" "observer_out x rl S c w w1" by blast
  obtain w' T d where w': "ofold (remove_item (Suc (Suc k)) E rl (ObserverItem x)) names w1 = Some w'" "rl_inv w'"
    "set names - {kCFRunLoopCommonModes} \<subseteq> T" "observer_out x rl T d w1 w'"
    using Cons.IH[OF w1(2)] by blast
  have "ofold (remove_item (Suc (Suc k)) E rl (ObserverItem x)) (n # names) w = Some w'"
    unfolding ofold.simps w1(1) bind.bind_lunit by (rule w'(1))
  moreover have "set (n # names) - {kCFRunLoopCommonModes} \<subseteq> S \<union> T" using w1(3) w'(3) by auto
  ultimately show ?case using w'(2) observer_out_trans[OF w1(4) w'(4)] by blast
qed

lemma remove_observer_everywhere:
  assumes "env_ok E" "rl \<noteq> NULL" "rl_inv w"
  shows "\<exists>w'. remove_everywhere (Suc (Suc k)) E (ObserverItem x) rl w = Some w' \<and> rl_inv w' \<and> observer_out x rl UNIV True w w'"
proof -
  let ?names = "rev (CFRunLoopCopyAllModes E w rl)"
  obtain w1 S c where w1: "ofold (remove_item (Suc (Suc k)) E rl (ObserverItem x)) ?names w = Some w1" "rl_inv w1"
    "set ?names - {kCFRunLoopCommonModes} \<subseteq> S" "observer_out x rl S c w w1"
    using remove_observer_modes[OF assms] by blast
  obtain w' T where w': "remove_item (Suc (Suc k)) E rl (ObserverItem x) kCFRunLoopCommonModes w1 = Some w'" "rl_inv w'"
    "observer_out x rl T True w1 w'"
    using remove_observer_from_common[OF assms(1,2) w1(2)] by blast
  have "loop_out x (S \<union> T) True (w_loop w rl) = loop_out x UNIV True (w_loop w rl)"
  proof -
    have "(if n \<in> S \<union> T then strip_observer x m else m) = strip_observer x m" if nm: "(n, m) \<in> set (rl_modes (w_loop w rl))" for n m
    proof (cases "n \<in> S")
      case False
      have "n \<in> set ?names" using nm by (force simp: CFRunLoopCopyAllModes_def env_okD(2)[OF assms(1)])
      then have n: "n = kCFRunLoopCommonModes" using False w1(3) by blast
      have "members (rlm_observers m) = []"
        using observers_invD(7)[of w rl] mode_of_entry[OF _ nm] assms(3) n by (simp add: rl_inv_def observers_of_def)
      then show ?thesis by (simp add: strip_observer_id)
    qed simp
    then have "map (\<lambda>(n, m). (n, if n \<in> S \<union> T then strip_observer x m else m)) (rl_modes (w_loop w rl)) =
        map (\<lambda>(n, m). (n, if n \<in> UNIV then strip_observer x m else m)) (rl_modes (w_loop w rl))"
      by (intro map_cong) (auto split del: if_split)
    then show ?thesis unfolding loop_out_def by simp
  qed
  then have "observer_out x rl UNIV True w w'"
    using observer_out_trans[OF w1(4) w'(3)] by (simp add: observer_out_def)
  moreover have "remove_everywhere (Suc (Suc k)) E (ObserverItem x) rl w = Some w'"
    unfolding remove_everywhere_def w1(1) bind.bind_lunit by (rule w'(1))
  ultimately show ?thesis using w'(2) by blast
qed

text \<open>What invalidating an observer is to leave of the run loop, and of the observer itself.\<close>

definition without_observer :: "ptr \<Rightarrow> CFRunLoop \<Rightarrow> CFRunLoop" where
  "without_observer x l = l\<lparr>
     rl_modes := map (\<lambda>(n, m). (n, m\<lparr>rlm_observers := map_option (removeAll x) (rlm_observers m)\<rparr>)) (rl_modes l),
     rl_commonModeItems := map_option (removeAll (ObserverItem x)) (rl_commonModeItems l)\<rparr>"

definition invalidated_observer :: "CFRunLoopObserver \<Rightarrow> CFRunLoopObserver" where
  "invalidated_observer y = y\<lparr>rlo_info := NULL, rlo_valid := False, rlo_rlCount := 0, rlo_runLoop := NULL\<rparr>"

lemma observers_of_out:
  assumes "observer_out x rl UNIV True w w'"
  shows "observers_of w' l k = (if l = rl then removeAll x (observers_of w l k) else observers_of w l k)"
proof -
  have "map_of (map (\<lambda>(n, m). (n, strip_observer x m)) ms) k = map_option (strip_observer x) (map_of ms k)" for ms
    by (induction ms) auto
  moreover have "members (map_option (removeAll x) c) = removeAll x (members c)" for c by (cases c) simp_all
  ultimately show ?thesis
    using assms by (auto simp: observer_out_def loop_out_def observers_of_def get_mode_def strip_observer_def split: option.split)
qed

text \<open>
  C5. Invalidating a valid observer that belongs to a run loop always comes to the point where its release callback is
  called, if it has one. The state then differs from the one before in exactly this: the observer is marked invalid, its
  info pointer is cleared, its count is zero and it belongs to no run loop; the arrays of all modes of its
  run loop have lost it, their other observers staying in order; and it is no common item any more. All other
  observers, every timer, source, run loop and block, the masks, ports and timers of the modes, the other common items and
  the trace of calls are as before. The observer is in no mode of any run loop.
\<close>

theorem observer_invalidate:
  assumes "env_ok E" "rl_inv w" "x \<noteq> NULL" "rlo_valid (w_observer w x)" "rlo_runLoop (w_observer w x) = rl" "rl \<noteq> NULL"
  shows "\<exists>w'. CFRunLoopObserverInvalidate 2 E w x =
      (if rlo_release (w_observer w x) then do_callout E (ReleaseInfo (rlo_info (w_observer w x))) w' else Some w') \<and>
    w' = w\<lparr>w_loop := (w_loop w)(rl := without_observer x (w_loop w rl)),
           w_observer := (w_observer w)(x := invalidated_observer (w_observer w x))\<rparr> \<and>
    (\<forall>l k. observers_of w' l k = removeAll x (observers_of w l k))"
proof -
  define w1 where "w1 = upd_observer w x (\<lambda>y. y\<lparr>rlo_info := NULL, rlo_valid := False\<rparr>)"
  have inv1: "rl_inv w1" unfolding w1_def by (rule rl_inv_upd_observer[OF assms(2)]) simp_all
  from remove_observer_everywhere[OF assms(1,6) inv1, of 0]
  obtain w' where w': "remove_everywhere 2 E (ObserverItem x) rl w1 = Some w'" "rl_inv w'" "observer_out x rl UNIV True w1 w'"
    unfolding numeral_2_eq_2 by blast
  have inv: "observers_inv w" "observers_inv w'" using assms(2) w'(2) by (simp_all add: rl_inv_def)
  have gone: "observers_of w' l k = removeAll x (observers_of w l k)" for l k
  proof -
    have "observers_of w1 = observers_of w" by (simp add: w1_def)
    moreover have "x \<notin> set (observers_of w l k)" if "l \<noteq> rl" using observers_invD(3)[OF inv(1)] that assms(5) by blast
    ultimately show ?thesis using observers_of_out[OF w'(3), of l k] by simp
  qed
  have zero: "rlo_rlCount (w_observer w' x) = 0" "rlo_runLoop (w_observer w' x) = NULL"
    using observers_invD(5,6)[OF inv(2), of x] by (simp_all add: gone)
  obtain k own where out: "w' = w1\<lparr>w_loop := (w_loop w1)(rl := loop_out x UNIV True (w_loop w1 rl)),
      w_observer := (w_observer w1)(x := (w_observer w1 x)\<lparr>rlo_rlCount := k, rlo_runLoop := own\<rparr>)\<rparr>"
    using w'(3) unfolding observer_out_def by blast
  then have "k = 0" "own = NULL" using zero by simp_all
  then have eq: "w' = w\<lparr>w_loop := (w_loop w)(rl := without_observer x (w_loop w rl)),
      w_observer := (w_observer w)(x := invalidated_observer (w_observer w x))\<rparr>"
    unfolding out by (simp add: w1_def upd_observer_def loop_out_def without_observer_def strip_observer_def invalidated_observer_def)
  have "rlo_release (w_observer w' x) = rlo_release (w_observer w x)" by (simp add: eq invalidated_observer_def)
  then have "CFRunLoopObserverInvalidate 2 E w x =
      (if rlo_release (w_observer w x) then do_callout E (ReleaseInfo (rlo_info (w_observer w x))) w' else Some w')"
    using assms(3-6) w'(1) by (simp add: CFRunLoopObserverInvalidate_def w1_def[symmetric] Let_def)
  then show ?thesis using eq gone by blast
qed

theorem observer_invalidate_witness:
  "\<exists>w'. CFRunLoopObserverInvalidate 2 quiet_env one_observer 5 = Some w' \<and>
     observers_of w' 1 kCFRunLoopDefaultMode = [] \<and> rlo_runLoop (w_observer w' 5) = NULL"
proof -
  have "map_option (\<lambda>w. (rlo_valid (w_observer w 5), rlo_runLoop (w_observer w 5), rlo_release (w_observer w 5)))
      (add_item 1 quiet_env 1 (ObserverItem 5) kCFRunLoopDefaultMode blank_world) = Some (True, 1, False)"
    by code_simp
  then have "rlo_valid (w_observer one_observer 5)" "rlo_runLoop (w_observer one_observer 5) = 1"
    "\<not> rlo_release (w_observer one_observer 5)"
    unfolding one_observer_facts(1) by simp_all
  then show ?thesis
    using observer_invalidate[OF quiet_env_ok one_observer_inv, of 5] one_observer_facts(2)
    by (auto simp: invalidated_observer_def)
qed

section \<open>The common modes\<close>

text \<open>An observer the run loop takes.\<close>

definition can_add_observer :: "world \<Rightarrow> ptr \<Rightarrow> ptr \<Rightarrow> bool" where
  "can_add_observer w rl x \<longleftrightarrow> rl \<noteq> NULL \<and> x \<noteq> NULL \<and> \<not> rl_deallocating (w_loop w rl) \<and>
     rlo_valid (w_observer w x) \<and> rlo_runLoop (w_observer w x) \<in> {NULL, rl}"

lemma add_observer_item:
  assumes "can_add_observer w rl x"
  shows "add_item (Suc k) E rl (ObserverItem x) n w =
    (if n = kCFRunLoopCommonModes then add_to_common_modes (add_item k E rl) E w rl (ObserverItem x)
     else add_observer_to_mode E w rl x n)"
  using assms by (auto simp: CFRunLoopAddObserver_def can_add_observer_def)

declare add_item.simps [simp del] remove_item.simps [simp del]

lemma add_observer_can:
  assumes "can_add_observer w rl x" "add_observer_to_mode E w rl x n = Some w'"
  shows "can_add_observer w' rl x" "same_loops w w'"
    "\<not> (l = rl \<and> k = n) \<Longrightarrow> observers_of w' l k = observers_of w l k"
    "filter (\<lambda>y. y \<noteq> x) (observers_of w' l k) = filter (\<lambda>y. y \<noteq> x) (observers_of w l k)"
    "x \<in> set (observers_of w l k) \<Longrightarrow> x \<in> set (observers_of w' l k)"
    "get_mode w' rl n \<noteq> None \<Longrightarrow> x \<in> set (observers_of w' rl n)"
proof -
  note eff = add_observer_effect[OF assms(2)]
  have "can_add_observer w' rl x \<and> (\<not> (l = rl \<and> k = n) \<longrightarrow> observers_of w' l k = observers_of w l k) \<and>
    filter (\<lambda>y. y \<noteq> x) (observers_of w' l k) = filter (\<lambda>y. y \<noteq> x) (observers_of w l k) \<and>
    (x \<in> set (observers_of w l k) \<longrightarrow> x \<in> set (observers_of w' l k)) \<and>
    (get_mode w' rl n \<noteq> None \<longrightarrow> x \<in> set (observers_of w' rl n))"
  proof (cases "get_mode w' rl n = None \<or> x \<in> set (observers_of w rl n)")
    case True
    then show ?thesis using eff(8)[OF True] assms(1) same_loopsD(3)[OF eff(6)] by (auto simp: can_add_observer_def)
  next
    case False
    then obtain i where i: "observers_of w' = (\<lambda>l k. if l = rl \<and> k = n then insert_at i x (observers_of w rl n) else observers_of w l k)"
      "w_observer w' = (w_observer w)(x := CFRunLoopObserverSchedule (w_observer w x) rl)"
      using eff(9) by blast
    have "can_add_observer w' rl x" using assms(1) same_loopsD(3)[OF eff(6)] by (auto simp: can_add_observer_def i(2))
    then show ?thesis by (simp add: i(1) filter_insert_at)
  qed
  then show "can_add_observer w' rl x" "same_loops w w'"
    "\<not> (l = rl \<and> k = n) \<Longrightarrow> observers_of w' l k = observers_of w l k"
    "filter (\<lambda>y. y \<noteq> x) (observers_of w' l k) = filter (\<lambda>y. y \<noteq> x) (observers_of w l k)"
    "x \<in> set (observers_of w l k) \<Longrightarrow> x \<in> set (observers_of w' l k)"
    "get_mode w' rl n \<noteq> None \<Longrightarrow> x \<in> set (observers_of w' rl n)"
    using eff(6) by blast+
qed

lemma add_observer_total:
  assumes "get_mode w rl n \<noteq> None"
  shows "\<exists>w'. add_observer_to_mode E w rl x n = Some w' \<and> (\<forall>l k. get_mode w l k \<noteq> None \<longrightarrow> get_mode w' l k \<noteq> None)"
  using assms
  by (auto simp: add_observer_to_mode_def CFRunLoopFindMode_def observer_index_def Let_def split: if_splits)

lemma add_observer_items:
  assumes "\<And>n. n \<in> set names \<Longrightarrow> n \<noteq> kCFRunLoopCommonModes \<and> get_mode w rl n \<noteq> None" "can_add_observer w rl x"
  shows "\<exists>w'. ofold (add_item (Suc k) E rl (ObserverItem x)) names w = Some w' \<and> same_loops w w' \<and>
    (\<forall>l k. \<not> (l = rl \<and> k \<in> set names) \<longrightarrow> observers_of w' l k = observers_of w l k) \<and>
    (\<forall>l k. filter (\<lambda>y. y \<noteq> x) (observers_of w' l k) = filter (\<lambda>y. y \<noteq> x) (observers_of w l k)) \<and>
    (\<forall>l k. x \<in> set (observers_of w l k) \<or> l = rl \<and> k \<in> set names \<longrightarrow> x \<in> set (observers_of w' l k))"
  using assms
proof (induction names arbitrary: w)
  case (Cons n names)
  have n: "n \<noteq> kCFRunLoopCommonModes" "get_mode w rl n \<noteq> None" using Cons.prems(1) by simp_all
  obtain w1 where w1: "add_observer_to_mode E w rl x n = Some w1" "\<forall>l k. get_mode w l k \<noteq> None \<longrightarrow> get_mode w1 l k \<noteq> None"
    using add_observer_total[OF n(2)] by blast
  note step = add_observer_can[OF Cons.prems(2) w1(1)]
  have prems: "\<And>n. n \<in> set names \<Longrightarrow> n \<noteq> kCFRunLoopCommonModes \<and> get_mode w1 rl n \<noteq> None"
    using Cons.prems(1)[OF list.set_intros(2)] w1(2) by blast
  obtain w' where w': "ofold (add_item (Suc k) E rl (ObserverItem x)) names w1 = Some w'" "same_loops w1 w'"
    "\<forall>l k. \<not> (l = rl \<and> k \<in> set names) \<longrightarrow> observers_of w' l k = observers_of w1 l k"
    "\<forall>l k. filter (\<lambda>y. y \<noteq> x) (observers_of w' l k) = filter (\<lambda>y. y \<noteq> x) (observers_of w1 l k)"
    "\<forall>l k. x \<in> set (observers_of w1 l k) \<or> l = rl \<and> k \<in> set names \<longrightarrow> x \<in> set (observers_of w' l k)"
    using Cons.IH[OF prems step(1)] by blast
  have "add_item (Suc k) E rl (ObserverItem x) n w = Some w1"
    using add_observer_item[OF Cons.prems(2)] n(1) w1(1) by simp
  then have "ofold (add_item (Suc k) E rl (ObserverItem x)) (n # names) w = Some w'"
    using w'(1) by simp
  moreover have "x \<in> set (observers_of w1 rl n)" using step(6) w1(2) n(2) by blast
  ultimately show ?case using w' step same_loops_trans[OF step(2) w'(2)] by (intro exI[of _ w']) auto
qed simp

text \<open>
  Adding an observer to the common modes of a run loop returns, puts it into every common mode and
  remembers it as a common item, and changes the order of no other observer and the observers of no
  mode that is not a common one.
\<close>

theorem common_modes_observer:
  assumes "env_ok E" "can_add_observer w rl x" "kCFRunLoopCommonModes \<notin> set (rl_commonModes (w_loop w rl))"
    and "\<forall>n \<in> set (rl_commonModes (w_loop w rl)). get_mode w rl n \<noteq> None"
  shows "\<exists>w'. add_item 2 E rl (ObserverItem x) kCFRunLoopCommonModes w = Some w' \<and>
    CFRunLoopContainsObserver w' rl x kCFRunLoopCommonModes \<and>
    (\<forall>n \<in> set (rl_commonModes (w_loop w rl)). CFRunLoopContainsObserver w' rl x n) \<and>
    (\<forall>l k. \<not> (l = rl \<and> k \<in> set (rl_commonModes (w_loop w rl))) \<longrightarrow> observers_of w' l k = observers_of w l k) \<and>
    (\<forall>l k. filter (\<lambda>y. y \<noteq> x) (observers_of w' l k) = filter (\<lambda>y. y \<noteq> x) (observers_of w l k))"
proof -
  let ?w1 = "upd_loop w rl (\<lambda>l. l\<lparr>rl_commonModeItems := Some (set_add (ObserverItem x) (members (rl_commonModeItems l)))\<rparr>)"
  let ?names = "ev_names E (rl_commonModes (w_loop w rl))"
  have g: "get_mode ?w1 = get_mode w" by (simp add: get_mode_def fun_eq_iff)
  note v = view_cong[OF g]
  have can: "can_add_observer ?w1 rl x" using assms(2) by (simp add: can_add_observer_def)
  have names: "set ?names = set (rl_commonModes (w_loop w rl))" by (rule env_okD(2)[OF assms(1)])
  have pre: "n \<noteq> kCFRunLoopCommonModes \<and> get_mode ?w1 rl n \<noteq> None" if "n \<in> set ?names" for n
    using that assms(3,4) names g by metis
  obtain w' where w': "ofold (add_item (Suc 0) E rl (ObserverItem x)) ?names ?w1 = Some w'" "same_loops ?w1 w'"
    "\<forall>l k. \<not> (l = rl \<and> k \<in> set ?names) \<longrightarrow> observers_of w' l k = observers_of ?w1 l k"
    "\<forall>l k. filter (\<lambda>y. y \<noteq> x) (observers_of w' l k) = filter (\<lambda>y. y \<noteq> x) (observers_of ?w1 l k)"
    "\<forall>l k. x \<in> set (observers_of ?w1 l k) \<or> l = rl \<and> k \<in> set ?names \<longrightarrow> x \<in> set (observers_of w' l k)"
    using add_observer_items[OF pre can] by blast
  have "add_item 2 E rl (ObserverItem x) kCFRunLoopCommonModes w = Some w'"
    using w'(1) unfolding numeral_2_eq_2 add_observer_item[OF assms(2)] add_to_common_modes_def Let_def by simp
  moreover have "CFRunLoopContainsObserver w' rl x kCFRunLoopCommonModes"
    using same_loopsD(2)[OF w'(2), of rl] by (simp add: CFRunLoopContainsObserver_def)
  moreover have "CFRunLoopContainsObserver w' rl x n" if "n \<in> set (rl_commonModes (w_loop w rl))" for n
  proof -
    have "x \<in> set (observers_of w' rl n)" "n \<noteq> kCFRunLoopCommonModes" using w'(5) that names assms(3) by blast+
    then show ?thesis by (simp add: contains_observer_iff)
  qed
  ultimately show ?thesis using w'(3,4) names v(1) by auto
qed

theorem common_modes_observer_witness:
  "\<exists>w'. add_item 2 quiet_env 1 (ObserverItem 6) kCFRunLoopCommonModes one_observer = Some w' \<and>
     CFRunLoopContainsObserver w' 1 6 kCFRunLoopDefaultMode"
proof -
  have "map_option (\<lambda>w. (rl_commonModes (w_loop w 1), get_mode w 1 kCFRunLoopDefaultMode = None))
      (add_item 1 quiet_env 1 (ObserverItem 5) kCFRunLoopDefaultMode blank_world) = Some ([kCFRunLoopDefaultMode], False)"
    by code_simp
  then have facts: "rl_commonModes (w_loop one_observer 1) = [kCFRunLoopDefaultMode]"
    "get_mode one_observer 1 kCFRunLoopDefaultMode \<noteq> None"
    unfolding one_observer_facts(1) by simp_all
  have names: "kCFRunLoopDefaultMode \<noteq> kCFRunLoopCommonModes" by code_simp
  have "can_add_observer one_observer 1 6" using one_observer_facts by (simp add: can_add_observer_def)
  from common_modes_observer[OF quiet_env_ok this] facts names show ?thesis by auto
qed

lemma ofold_None:
  assumes "y \<in> set ys" "P w" "\<And>w. P w \<Longrightarrow> f y w = None" "\<And>z w w'. P w \<Longrightarrow> f z w = Some w' \<Longrightarrow> P w'"
  shows "ofold f ys w = None"
  using assms(1,2)
proof (induction ys arbitrary: w)
  case (Cons z ys)
  show ?case
  proof (cases "f z w")
    case (Some w1)
    then have "y \<in> set ys" using Cons.prems assms(3) by fastforce
    then show ?thesis using Cons.IH assms(4)[OF Cons.prems(2) Some] Some by simp
  qed simp
qed simp

text \<open>
  C37. A run loop accepts \<^verbatim>\<open>kCFRunLoopCommonModes\<close> as the name of a common mode. From then on
  adding an observer to the common modes never returns: however deep the recursion may go, it does not
  end.
\<close>

theorem common_modes_recursion:
  assumes "env_ok E" "can_add_observer w rl x" "kCFRunLoopCommonModes \<in> set (rl_commonModes (w_loop w rl))"
  shows "add_item k E rl (ObserverItem x) kCFRunLoopCommonModes w = None"
  using assms(2,3)
proof (induction k arbitrary: w)
  case (Suc k)
  let ?P = "\<lambda>w. can_add_observer w rl x \<and> kCFRunLoopCommonModes \<in> set (rl_commonModes (w_loop w rl))"
  let ?w1 = "upd_loop w rl (\<lambda>l. l\<lparr>rl_commonModeItems := Some (set_add (ObserverItem x) (members (rl_commonModeItems l)))\<rparr>)"
  have "ofold (add_item k E rl (ObserverItem x)) (ev_names E (rl_commonModes (w_loop w rl))) ?w1 = None"
  proof (rule ofold_None[where P = ?P and y = kCFRunLoopCommonModes])
    show "kCFRunLoopCommonModes \<in> set (ev_names E (rl_commonModes (w_loop w rl)))"
      using Suc.prems(2) env_okD(2)[OF assms(1)] by simp
    show "?P ?w1" using Suc.prems by (simp add: can_add_observer_def)
    show "add_item k E rl (ObserverItem x) kCFRunLoopCommonModes w = None" if "?P w" for w using Suc.IH that by blast
    show "?P w'" if P: "?P w" and step: "add_item k E rl (ObserverItem x) n w = Some w'" for n w w'
    proof -
      obtain j where k: "k = Suc j" using step by (cases k) (simp_all add: add_item.simps(1))
      have "n \<noteq> kCFRunLoopCommonModes" using Suc.IH P step by fastforce
      then have "add_observer_to_mode E w rl x n = Some w'" using step P k by (simp add: add_observer_item)
      from add_observer_can(1,2)[OF conjunct1[OF P] this] show ?thesis using P same_loopsD(1) by metis
    qed
  qed
  then show ?case unfolding add_observer_item[OF Suc.prems(1)] add_to_common_modes_def Let_def by simp
qed (simp add: add_item.simps(1))

theorem common_modes_recursion_witness:
  "\<exists>w. CFRunLoopAddCommonMode 1 quiet_env blank_world 1 kCFRunLoopCommonModes = Some w \<and>
     (\<forall>k. add_item k quiet_env 1 (ObserverItem 5) kCFRunLoopCommonModes w = None)"
proof -
  let ?w = "upd_loop blank_world 1 (\<lambda>l. l\<lparr>rl_commonModes := set_add kCFRunLoopCommonModes (rl_commonModes l)\<rparr>)"
  have "kCFRunLoopCommonModes \<noteq> kCFRunLoopDefaultMode" by code_simp
  then have "CFRunLoopAddCommonMode 1 quiet_env blank_world 1 kCFRunLoopCommonModes = Some ?w"
    by (simp add: CFRunLoopAddCommonMode_def blank_world_def blank_loop_def)
  moreover have "can_add_observer ?w 1 5"
    by (simp add: can_add_observer_def blank_world_def blank_loop_def blank_observer_def)
  ultimately show ?thesis using common_modes_recursion[OF quiet_env_ok, of ?w 1 5] by (intro exI[of _ ?w]) simp
qed

end
