(* ===== verification/CF_RunLoop_Run.thy ===== *)
theory CF_RunLoop_Run
  imports CF_RunLoop_API CF_Sort
begin

unbundle bit_operations_syntax

text \<open>
  Running a run loop (\<^verbatim>\<open>CFRunLoop.c\<close>): the queue of blocks, firing observers, sources and timers, waiting
  for messages, and the loop of \<^verbatim>\<open>__CFRunLoopRun\<close> with its callers.

  Callouts, waits and the draining of a mode's private queue are parameters; they may change the state
  in any way, which also covers what other threads do while the run loop's locks are released. The
  statistics field \<^verbatim>\<open>_sleepTime\<close>, vouchers, the message buffer and the reply to a message are not state
  of the model.
\<close>

section \<open>The queue of blocks\<close>

text \<open>The modes of the block must exist; a \<^verbatim>\<open>CFArray\<close> and a \<^verbatim>\<open>CFSet\<close> of names give the same set.\<close>

fun block_mode_names :: "block_mode \<Rightarrow> mode_name list" where
  "block_mode_names (ModeName m) = [m]"
| "block_mode_names (ModeSet ms) = ms"

fun ensure_modes :: "env \<Rightarrow> ptr \<Rightarrow> mode_name list \<Rightarrow> world \<Rightarrow> world option" where
  "ensure_modes E rl [] w = Some w"
| "ensure_modes E rl (m # ms) w = do {
     (w1, found) \<leftarrow> CFRunLoopFindMode E w rl m True;
     ensure_modes E rl ms w1
   }"

text \<open>\<open>block\<close> is the copied block; a mode that is neither a string nor a collection is \<open>None\<close>.\<close>

definition CFRunLoopPerformBlock :: "env \<Rightarrow> world \<Rightarrow> ptr \<Rightarrow> block_mode option \<Rightarrow> ptr \<Rightarrow> world option" where
  "CFRunLoopPerformBlock E w rl mode block = do {
     w1 \<leftarrow> (case mode of None \<Rightarrow> Some w | Some m \<Rightarrow> ensure_modes E rl (block_mode_names m) w);
     (case mode of
        None \<Rightarrow> if block \<noteq> NULL then do_callout E (ReleaseBlock block) w1 else Some w1
      | Some m \<Rightarrow>
          if block = NULL then Some w1
          else do {
            let new_item = ev_malloc E (w_blocks w1);
            _ \<leftarrow> (if new_item = NULL then None else Some ());
            let l = w_loop w1 rl;
            let heap1 = (w_blocks w1)(new_item \<mapsto> \<lparr>bi_next = NULL, bi_mode = m, bi_block = block\<rparr>);
            heap2 \<leftarrow> (if rl_blocks_tail l = NULL then Some heap1
              else do { t \<leftarrow> heap1 (rl_blocks_tail l);
                        Some (heap1(rl_blocks_tail l \<mapsto> t\<lparr>bi_next := new_item\<rparr>)) });
            let w2 = w1\<lparr>w_blocks := heap2\<rparr>;
            Some (upd_loop w2 rl (\<lambda>l. if rl_blocks_tail l = NULL
              then l\<lparr>rl_blocks_head := new_item, rl_blocks_tail := new_item\<rparr>
              else l\<lparr>rl_blocks_tail := new_item\<rparr>))
          })
   }"

text \<open>
  The loop of \<^verbatim>\<open>__CFRunLoopDoBlocks\<close> over the detached queue; the set of common modes is the run loop's
  own set, which a block may change.
\<close>

partial_function (option) do_blocks_loop ::
    "env \<Rightarrow> ptr \<Rightarrow> mode_name \<Rightarrow> ptr \<Rightarrow> ptr \<Rightarrow> ptr \<Rightarrow> ptr \<Rightarrow> bool \<Rightarrow> world \<Rightarrow> (world \<times> ptr \<times> ptr \<times> bool) option" where
  "do_blocks_loop E rl curMode head tail prev item did w =
     (if item = NULL then Some (w, head, tail, did)
      else do {
        curr \<leftarrow> w_blocks w item;
        if \<not> block_applies (rl_commonModes (w_loop w rl)) curMode (bi_mode curr)
        then do_blocks_loop E rl curMode head tail item (bi_next curr) did w
        else do {
          heap1 \<leftarrow> (if prev \<noteq> NULL
            then do { p \<leftarrow> w_blocks w prev; Some ((w_blocks w)(prev \<mapsto> p\<lparr>bi_next := bi_next curr\<rparr>)) }
            else Some (w_blocks w));
          w2 \<leftarrow> do_callout E (CallBlock (bi_block curr)) (w\<lparr>w_blocks := heap1(item := None)\<rparr>);
          w3 \<leftarrow> do_callout E (ReleaseBlock (bi_block curr)) w2;
          do_blocks_loop E rl curMode (if item = head then bi_next curr else head)
            (if item = tail then prev else tail) prev (bi_next curr) True w3
        }
      })"

definition CFRunLoopDoBlocks :: "env \<Rightarrow> ptr \<Rightarrow> mode_name \<Rightarrow> world \<Rightarrow> (world \<times> bool) option" where
  "CFRunLoopDoBlocks E rl curMode w =
     (let l = w_loop w rl in
      if rl_blocks_head l = NULL then Some (w, False)
      else do {
        let w1 = upd_loop w rl (\<lambda>l. l\<lparr>rl_blocks_head := NULL, rl_blocks_tail := NULL\<rparr>);
        (w2, head, tail, did) \<leftarrow> do_blocks_loop E rl curMode (rl_blocks_head l) (rl_blocks_tail l) NULL
          (rl_blocks_head l) False w1;
        if head = NULL then Some (w2, did)
        else do {
          t \<leftarrow> w_blocks w2 tail;
          let w3 = w2\<lparr>w_blocks := (w_blocks w2)(tail \<mapsto> t\<lparr>bi_next := rl_blocks_head (w_loop w2 rl)\<rparr>)\<rparr>;
          Some (upd_loop w3 rl (\<lambda>l. l\<lparr>rl_blocks_head := head,
            rl_blocks_tail := (if rl_blocks_tail l = NULL then tail else rl_blocks_tail l)\<rparr>), did)
        }
      })"

section \<open>Observers\<close>

text \<open>Fuel two is enough for the invalidation, as shown for \<open>CFRunLoopObserverInvalidate\<close>.\<close>

definition fire_observer :: "env \<Rightarrow> 64 word \<Rightarrow> ptr \<Rightarrow> world \<Rightarrow> world option" where
  "fire_observer E activity rlo w =
     (if rlo_valid (w_observer w rlo)
      then do {
        let doInvalidate = (\<not> rlo_repeats (w_observer w rlo));
        let w1 = upd_observer w rlo (\<lambda>x. x\<lparr>rlo_firing := True\<rparr>);
        w2 \<leftarrow> (if rlo_callout (w_observer w1 rlo) then do_callout E (CallObserver rlo activity) w1 else Some w1);
        w3 \<leftarrow> (if doInvalidate then CFRunLoopObserverInvalidate 2 E w2 rlo else Some w2);
        Some (upd_observer w3 rlo (\<lambda>x. x\<lparr>rlo_firing := False\<rparr>))
      }
      else Some w)"

definition collected_observers :: "64 word \<Rightarrow> world \<Rightarrow> ptr list \<Rightarrow> ptr list" where
  "collected_observers activity w = filter (\<lambda>rlo. rlo_activities (w_observer w rlo) AND activity \<noteq> 0 \<and>
     rlo_valid (w_observer w rlo) \<and> \<not> rlo_firing (w_observer w rlo))"

definition CFRunLoopDoObservers :: "env \<Rightarrow> ptr \<Rightarrow> mode_name \<Rightarrow> 64 word \<Rightarrow> world \<Rightarrow> world option" where
  "CFRunLoopDoObservers E rl n activity w = do {
     rlm \<leftarrow> get_mode w rl n;
     ofold (fire_observer E activity) (collected_observers activity w (members (rlm_observers rlm))) w
   }"

section \<open>Sources\<close>

definition CFRunLoopSourceComparator :: "(ptr \<Rightarrow> CFRunLoopSource) \<Rightarrow> ptr \<Rightarrow> ptr \<Rightarrow> CFComparisonResult" where
  "CFRunLoopSourceComparator S o1 o2 =
     (if rls_order (S o1) < rls_order (S o2) then kCFCompareLessThan
      else if rls_order (S o2) < rls_order (S o1) then kCFCompareGreaterThan
      else kCFCompareEqualTo)"

text \<open>The collected sources: none, a single one, or an array of at least two.\<close>

datatype collected = NoSource | OneSource ptr | SourceArray "ptr list"

fun CFRunLoopCollectSources0 :: "(ptr \<Rightarrow> CFRunLoopSource) \<Rightarrow> collected \<Rightarrow> ptr \<Rightarrow> collected" where
  "CFRunLoopCollectSources0 S sources rls =
     (if rls_version (S rls) = 0 \<and> rls_valid (S rls) \<and> rls_signaled (S rls)
      then (case sources of
          NoSource \<Rightarrow> OneSource rls
        | OneSource oldrls \<Rightarrow> SourceArray [oldrls, rls]
        | SourceArray rlss \<Rightarrow> SourceArray (rlss @ [rls]))
      else sources)"

definition perform_source0 :: "env \<Rightarrow> ptr \<Rightarrow> bool \<Rightarrow> world \<Rightarrow> (world \<times> bool) option" where
  "perform_source0 E rls handled w =
     (if rls_signaled (w_source w rls)
      then do {
        let w1 = upd_source w rls (\<lambda>s. s\<lparr>rls_signaled := False\<rparr>);
        if rls_valid (w_source w1 rls)
        then do {
          w2 \<leftarrow> (if rls_perform (w_source w1 rls) \<noteq> NULL then do_callout E (PerformSource0 rls) w1 else Some w1);
          Some (w2, True)
        }
        else Some (w1, handled)
      }
      else Some (w, handled))"

fun perform_sources0 :: "env \<Rightarrow> bool \<Rightarrow> ptr list \<Rightarrow> bool \<Rightarrow> world \<Rightarrow> (world \<times> bool) option" where
  "perform_sources0 E stopAfterHandle [] handled w = Some (w, handled)"
| "perform_sources0 E stopAfterHandle (rls # rlss) handled w = do {
     (w1, handled1) \<leftarrow> perform_source0 E rls handled w;
     if stopAfterHandle \<and> handled1 then Some (w1, handled1)
     else perform_sources0 E stopAfterHandle rlss handled1 w1
   }"

definition CFRunLoopDoSources0 :: "env \<Rightarrow> ptr \<Rightarrow> mode_name \<Rightarrow> bool \<Rightarrow> world \<Rightarrow> (world \<times> bool) option" where
  "CFRunLoopDoSources0 E rl n stopAfterHandle w = do {
     rlm \<leftarrow> get_mode w rl n;
     (case foldl (CFRunLoopCollectSources0 (w_source w)) NoSource (ev_ptrs E (members (rlm_sources0 rlm))) of
        NoSource \<Rightarrow> Some (w, False)
      | OneSource rls \<Rightarrow> perform_source0 E rls False w
      | SourceArray rlss \<Rightarrow> do {
          sorted \<leftarrow> CFArraySortValues False False (CFRunLoopSourceComparator (w_source w))
            (CFRangeMake 0 (length rlss)) rlss;
          perform_sources0 E stopAfterHandle sorted False w
        })
   }"

definition CFRunLoopDoSource1 :: "env \<Rightarrow> ptr \<Rightarrow> world \<Rightarrow> (world \<times> bool) option" where
  "CFRunLoopDoSource1 E rls w =
     (if rls_valid (w_source w rls)
      then do {
        let w1 = upd_source w rls (\<lambda>s. s\<lparr>rls_signaled := False\<rparr>);
        w2 \<leftarrow> (if rls_perform (w_source w1 rls) \<noteq> NULL then do_callout E (PerformSource1 rls) w1 else Some w1);
        Some (w2, True)
      }
      else Some (w, False))"

definition CFRunLoopModeFindSourceForMachPort :: "CFRunLoopMode \<Rightarrow> port \<Rightarrow> ptr option" where
  "CFRunLoopModeFindSourceForMachPort rlm port =
     (case rlm_portToV1SourceMap rlm of None \<Rightarrow> None | Some m \<Rightarrow> m port)"

section \<open>Timers\<close>

definition arm_mode :: "env \<Rightarrow> ptr \<Rightarrow> mode_name \<Rightarrow> world \<Rightarrow> world option" where
  "arm_mode E rl n w = do {
     rlm \<leftarrow> get_mode w rl n;
     rlm1 \<leftarrow> CFArmNextTimerInMode (ev_rate E) (w_timer w) rlm;
     Some (upd_mode w rl n (\<lambda>_. rlm1))
   }"

text \<open>The first half of \<^verbatim>\<open>__CFRunLoopDoTimer\<close>: the callout, with the timer marked as firing.\<close>

definition fire_timer :: "env \<Rightarrow> ptr \<Rightarrow> mode_name \<Rightarrow> ptr \<Rightarrow> world \<Rightarrow> world option" where
  "fire_timer E rl n rlt w = do {
     let t = w_timer w rlt;
     let context_info = (case rlt_retain t of Some retain \<Rightarrow> retain (rlt_info t) | None \<Rightarrow> rlt_info t);
     let context_release = (rlt_retain t \<noteq> None \<and> rlt_release t);
     let doInvalidate = (rlt_interval t = 0);
     let w1 = upd_timer w rlt (\<lambda>t. t\<lparr>rlt_firing := True\<rparr>);
     let w2 = upd_mode w1 rl n (\<lambda>m. m\<lparr>rlm_timerSoftDeadline := - 1, rlm_timerHardDeadline := - 1\<rparr>);
     w3 \<leftarrow> arm_mode E rl n w2;
     w4 \<leftarrow> (if rlt_callout (w_timer w3 rlt) then do_callout E (CallTimer rlt context_info) w3 else Some w3);
     w5 \<leftarrow> (if doInvalidate then CFRunLoopTimerInvalidate 2 E w4 rlt else Some w4);
     w6 \<leftarrow> (if context_release then do_callout E (ReleaseInfo context_info) w5 else Some w5);
     Some (upd_timer w6 rlt (\<lambda>t. t\<lparr>rlt_firing := False\<rparr>))
   }"

text \<open>
  The second half: a later date that was set during the callout is kept, otherwise the timer goes to
  its next date.
\<close>

definition reschedule_timer :: "env \<Rightarrow> ptr \<Rightarrow> mode_name \<Rightarrow> ptr \<Rightarrow> tsr \<Rightarrow> world \<Rightarrow> world option" where
  "reschedule_timer E rl n rlt oldFireTSR w =
     (let t = w_timer w rlt in
      if oldFireTSR < rlt_fireTSR t then arm_mode E rl n w
      else do {
        intervalTSR \<leftarrow> timer_interval_TSR (ev_rate E) t;
        nextFireTSR \<leftarrow> next_fire_TSR intervalTSR oldFireTSR (w_tsr w);
        let w1 = upd_timer w rlt (\<lambda>t. t\<lparr>rlt_fireTSR := nextFireTSR,
              rlt_nextFireDate := w_time w + CFTimeIntervalUntilTSR (ev_rate E) (w_tsr w) nextFireTSR\<rparr>);
        if rlt_runLoop t \<noteq> NULL
        then reposition_in_modes E (rlt_runLoop t) rlt (ev_names E (rlt_rlModes t)) w1
        else Some w1
      })"

definition CFRunLoopDoTimer :: "env \<Rightarrow> ptr \<Rightarrow> mode_name \<Rightarrow> ptr \<Rightarrow> world \<Rightarrow> (world \<times> bool) option" where
  "CFRunLoopDoTimer E rl n rlt w =
     (let t = w_timer w rlt in
      if rlt = NULL then None
      else if rlt_valid t \<and> rlt_fireTSR t \<le> w_tsr w \<and> \<not> rlt_firing t \<and> rlt_runLoop t = rl
      then do {
        w1 \<leftarrow> fire_timer E rl n rlt w;
        w2 \<leftarrow> (if rlt_valid (w_timer w1 rlt) then reschedule_timer E rl n rlt (rlt_fireTSR t) w1 else Some w1);
        Some (w2, True)
      }
      else Some (w, False))"

fun do_timers_loop :: "env \<Rightarrow> ptr \<Rightarrow> mode_name \<Rightarrow> ptr list \<Rightarrow> bool \<Rightarrow> world \<Rightarrow> (world \<times> bool) option" where
  "do_timers_loop E rl n [] handled w = Some (w, handled)"
| "do_timers_loop E rl n (rlt # ts) handled w = do {
     (w1, did) \<leftarrow> CFRunLoopDoTimer E rl n rlt w;
     do_timers_loop E rl n ts (handled \<or> did) w1
   }"

definition CFRunLoopDoTimers :: "env \<Rightarrow> ptr \<Rightarrow> mode_name \<Rightarrow> tsr \<Rightarrow> world \<Rightarrow> (world \<times> bool) option" where
  "CFRunLoopDoTimers E rl n limitTSR w = do {
     rlm \<leftarrow> get_mode w rl n;
     do_timers_loop E rl n (filter (\<lambda>rlt. rlt_valid (w_timer w rlt) \<and> \<not> rlt_firing (w_timer w rlt) \<and>
       rlt_fireTSR (w_timer w rlt) \<le> limitTSR) (members (rlm_timers rlm))) False w
   }"

section \<open>Waiting\<close>

text \<open>
  \<^verbatim>\<open>__CFRunLoopServiceMachPort\<close>: a message that is too large is fetched again with a larger buffer, and
  any other error halts. The result is whether a message arrived, and its port.
\<close>

partial_function (option) CFRunLoopServiceMachPort ::
    "env \<Rightarrow> port list \<Rightarrow> bool \<Rightarrow> world \<Rightarrow> (world \<times> bool \<times> port) option" where
  "CFRunLoopServiceMachPort E ports poll w =
     (case ev_wait E ports poll w of (w1, ret) \<Rightarrow>
        (case ret of
           MsgSuccess livePort \<Rightarrow> Some (w1, True, livePort)
         | RcvTimedOut \<Rightarrow> Some (w1, False, MACH_PORT_NULL)
         | RcvTooLarge \<Rightarrow> CFRunLoopServiceMachPort E ports poll w1
         | RcvError \<Rightarrow> None))"

text \<open>
  The inner loop of \<^verbatim>\<open>__CFRunLoopRun\<close>: messages for the mode's private queue are handled until one of them
  says that a timer fired. The port set of the mode is read anew for every wait.
\<close>

partial_function (option) wait_loop ::
    "env \<Rightarrow> ptr \<Rightarrow> mode_name \<Rightarrow> port \<Rightarrow> bool \<Rightarrow> world \<Rightarrow> (world \<times> port) option" where
  "wait_loop E rl n modeQueuePort poll w = do {
     rlm \<leftarrow> get_mode w rl n;
     (w1, ok, livePort) \<leftarrow> CFRunLoopServiceMachPort E (rlm_portSet rlm) poll w;
     if modeQueuePort \<noteq> MACH_PORT_NULL \<and> livePort = modeQueuePort
     then do {
       let w2 = ev_drain E rl n w1;
       rlm2 \<leftarrow> get_mode w2 rl n;
       if rlm_timerFired rlm2
       then Some (upd_mode w2 rl n (\<lambda>m. m\<lparr>rlm_timerFired := False\<rparr>), livePort)
       else wait_loop E rl n modeQueuePort poll w2
     }
     else Some (w1, livePort)
   }"

section \<open>The loop\<close>

abbreviation (input) kCFRunLoopRunFinished :: int where "kCFRunLoopRunFinished \<equiv> 1"
abbreviation (input) kCFRunLoopRunStopped :: int where "kCFRunLoopRunStopped \<equiv> 2"
abbreviation (input) kCFRunLoopRunTimedOut :: int where "kCFRunLoopRunTimedOut \<equiv> 3"
abbreviation (input) kCFRunLoopRunHandledSource :: int where "kCFRunLoopRunHandledSource \<equiv> 4"

text \<open>
  The end of an activation and whether a dispatch timer was set up for it. The handler of that timer
  sets the end to zero.
\<close>

record timeout_context =
  tc_termTSR :: tsr
  tc_timer :: bool

definition timeout_for :: "rat \<Rightarrow> rat \<Rightarrow> tsr \<Rightarrow> timeout_context option" where
  "timeout_for rate seconds startTSR =
     (if seconds \<le> 0 then Some \<lparr>tc_termTSR = 0, tc_timer = False\<rparr>
      else if seconds \<le> TIMER_INTERVAL_LIMIT
      then map_option (\<lambda>d. \<lparr>tc_termTSR = startTSR + d, tc_timer = True\<rparr>) (CFTimeIntervalToTSR rate seconds)
      else Some \<lparr>tc_termTSR = - 1, tc_timer = False\<rparr>)"

definition term_now :: "env \<Rightarrow> timeout_context \<Rightarrow> world \<Rightarrow> tsr" where
  "term_now E tc w = (if tc_timer tc \<and> ev_timeout E w then 0 else tc_termTSR tc)"

definition observers_if :: "env \<Rightarrow> ptr \<Rightarrow> mode_name \<Rightarrow> 64 word \<Rightarrow> world \<Rightarrow> world option" where
  "observers_if E rl n activity w = do {
     rlm \<leftarrow> get_mode w rl n;
     if rlm_observerMask rlm AND activity \<noteq> 0 then CFRunLoopDoObservers E rl n activity w else Some w
   }"

text \<open>Going to sleep and waking up.\<close>

definition run_wait :: "env \<Rightarrow> ptr \<Rightarrow> mode_name \<Rightarrow> port \<Rightarrow> port \<Rightarrow> bool \<Rightarrow> world \<Rightarrow> (world \<times> port) option" where
  "run_wait E rl n dispatchPort modeQueuePort poll w = do {
     w1 \<leftarrow> (if \<not> poll then observers_if E rl n kCFRunLoopBeforeWaiting w else Some w);
     let w2 = upd_loop w1 rl (\<lambda>l. l\<lparr>rl_sleeping := True\<rparr>);
     let w3 = upd_mode w2 rl n (\<lambda>m. m\<lparr>rlm_portSet := snd (CFPortSetInsert dispatchPort (rlm_portSet m))\<rparr>);
     (w4, livePort) \<leftarrow> wait_loop E rl n modeQueuePort poll w3;
     let w5 = upd_mode w4 rl n (\<lambda>m. m\<lparr>rlm_portSet := snd (CFPortSetRemove dispatchPort (rlm_portSet m))\<rparr>);
     let w6 = upd_loop w5 rl (\<lambda>l. (CFRunLoopSetIgnoreWakeUps l)\<lparr>rl_sleeping := False\<rparr>);
     w7 \<leftarrow> (if \<not> poll then observers_if E rl n kCFRunLoopAfterWaiting w6 else Some w6);
     Some (w7, livePort)
   }"

definition serve_timers :: "env \<Rightarrow> ptr \<Rightarrow> mode_name \<Rightarrow> world \<Rightarrow> world option" where
  "serve_timers E rl n w = do {
     (w1, did) \<leftarrow> CFRunLoopDoTimers E rl n (w_tsr w) w;
     if \<not> did then arm_mode E rl n w1 else Some w1
   }"

text \<open>Handling a message; the second flag tells whether it came from the main queue.\<close>

definition handle_port :: "env \<Rightarrow> ptr \<Rightarrow> mode_name \<Rightarrow> port \<Rightarrow> port \<Rightarrow> port \<Rightarrow> bool \<Rightarrow> world \<Rightarrow>
    (world \<times> bool \<times> bool) option" where
  "handle_port E rl n dispatchPort modeQueuePort livePort handled w = do {
     rlm \<leftarrow> get_mode w rl n;
     if livePort = MACH_PORT_NULL then Some (w, handled, False)
     else if livePort = rl_wakeUpPort (w_loop w rl) then Some (w, handled, False)
     else if modeQueuePort \<noteq> MACH_PORT_NULL \<and> livePort = modeQueuePort
     then map_option (\<lambda>w1. (w1, handled, False)) (serve_timers E rl n w)
     else if rlm_timerPort rlm \<noteq> MACH_PORT_NULL \<and> livePort = rlm_timerPort rlm
     then map_option (\<lambda>w1. (w1, handled, False)) (serve_timers E rl n w)
     else if livePort = dispatchPort
     then map_option (\<lambda>w1. (w1\<lparr>w_inMainQ := False\<rparr>, True, True)) (do_callout E ServiceMainQueue (w\<lparr>w_inMainQ := True\<rparr>))
     else case CFRunLoopModeFindSourceForMachPort rlm livePort of
       None \<Rightarrow> Some (w, handled, False)
     | Some rls \<Rightarrow> map_option (\<lambda>(w1, did). (w1, did \<or> handled, False)) (CFRunLoopDoSource1 E rls w)
   }"

text \<open>The end of a turn: the result, zero to go on.\<close>

definition turn_result :: "env \<Rightarrow> ptr \<Rightarrow> mode_name \<Rightarrow> bool \<Rightarrow> timeout_context \<Rightarrow> bool \<Rightarrow> world \<Rightarrow> (world \<times> int) option" where
  "turn_result E rl n stopAfterHandle tc handled w =
     (if handled \<and> stopAfterHandle then Some (w, kCFRunLoopRunHandledSource)
      else if term_now E tc w < w_tsr w then Some (w, kCFRunLoopRunTimedOut)
      else if CFRunLoopIsStopped (w_loop w rl) then Some (upd_loop w rl CFRunLoopUnsetStopped, kCFRunLoopRunStopped)
      else do {
        rlm \<leftarrow> get_mode w rl n;
        if rlm_stopped rlm
        then Some (upd_mode w rl n (\<lambda>m. m\<lparr>rlm_stopped := False\<rparr>), kCFRunLoopRunStopped)
        else do {
          empty_mode \<leftarrow> CFRunLoopModeIsEmpty E w rl n;
          Some (w, if empty_mode then kCFRunLoopRunFinished else 0)
        }
      })"

text \<open>What a turn does before it waits: observers, blocks and sources, and the blocks the sources added.\<close>

definition run_sources :: "env \<Rightarrow> ptr \<Rightarrow> mode_name \<Rightarrow> bool \<Rightarrow> world \<Rightarrow> (world \<times> bool) option" where
  "run_sources E rl n stopAfterHandle w = do {
     let w0 = upd_loop w rl CFRunLoopUnsetIgnoreWakeUps;
     w1 \<leftarrow> observers_if E rl n kCFRunLoopBeforeTimers w0;
     w2 \<leftarrow> observers_if E rl n kCFRunLoopBeforeSources w1;
     (w3, _) \<leftarrow> CFRunLoopDoBlocks E rl n w2;
     (w4, handled) \<leftarrow> CFRunLoopDoSources0 E rl n stopAfterHandle w3;
     w5 \<leftarrow> (if handled then map_option fst (CFRunLoopDoBlocks E rl n w4) else Some w4);
     Some (w5, handled)
   }"

text \<open>One turn of the loop.\<close>

definition run_turn :: "env \<Rightarrow> ptr \<Rightarrow> mode_name \<Rightarrow> bool \<Rightarrow> timeout_context \<Rightarrow> port \<Rightarrow> port \<Rightarrow> bool \<Rightarrow> world \<Rightarrow>
    (world \<times> int \<times> bool) option" where
  "run_turn E rl n stopAfterHandle tc dispatchPort modeQueuePort didDispatch w = do {
     (w1, handled) \<leftarrow> run_sources E rl n stopAfterHandle w;
     let poll = (handled \<or> term_now E tc w1 = 0);
     (w2, polled, port) \<leftarrow> (if dispatchPort \<noteq> MACH_PORT_NULL \<and> \<not> didDispatch
       then CFRunLoopServiceMachPort E [dispatchPort] True w1 else Some (w1, False, MACH_PORT_NULL));
     (w3, livePort) \<leftarrow> (if polled then Some (w2, port) else run_wait E rl n dispatchPort modeQueuePort poll w2);
     let w4 = upd_loop w3 rl CFRunLoopSetIgnoreWakeUps;
     (w5, handled1, didDispatch1) \<leftarrow> handle_port E rl n dispatchPort modeQueuePort livePort handled w4;
     (w6, _) \<leftarrow> CFRunLoopDoBlocks E rl n w5;
     (w7, retVal) \<leftarrow> turn_result E rl n stopAfterHandle tc handled1 w6;
     Some (w7, retVal, didDispatch1)
   }"

partial_function (option) run_loop ::
    "env \<Rightarrow> ptr \<Rightarrow> mode_name \<Rightarrow> bool \<Rightarrow> timeout_context \<Rightarrow> port \<Rightarrow> port \<Rightarrow> bool \<Rightarrow> world \<Rightarrow> (world \<times> int) option" where
  "run_loop E rl n stopAfterHandle tc dispatchPort modeQueuePort didDispatch w = do {
     (w1, retVal, didDispatch1) \<leftarrow> run_turn E rl n stopAfterHandle tc dispatchPort modeQueuePort didDispatch w;
     if retVal = 0 then run_loop E rl n stopAfterHandle tc dispatchPort modeQueuePort didDispatch1 w1
     else Some (w1, retVal)
   }"

text \<open>\<^verbatim>\<open>__CFRunLoopRun\<close>.\<close>

definition CFRunLoopRunMode :: "env \<Rightarrow> ptr \<Rightarrow> mode_name \<Rightarrow> rat \<Rightarrow> bool \<Rightarrow> world \<Rightarrow> (world \<times> int) option" where
  "CFRunLoopRunMode E rl n seconds stopAfterHandle w =
     (if CFRunLoopIsStopped (w_loop w rl) then Some (upd_loop w rl CFRunLoopUnsetStopped, kCFRunLoopRunStopped)
      else do {
        rlm \<leftarrow> get_mode w rl n;
        if rlm_stopped rlm
        then Some (upd_mode w rl n (\<lambda>m. m\<lparr>rlm_stopped := False\<rparr>), kCFRunLoopRunStopped)
        else do {
          let dispatchPort = (if serves_main_queue E w rl n then ev_mainQueuePort E else MACH_PORT_NULL);
          let modeQueuePort = rlm_queuePort rlm;
          tc \<leftarrow> (if modeQueuePort = MACH_PORT_NULL then None else timeout_for (ev_rate E) seconds (w_tsr w));
          run_loop E rl n stopAfterHandle tc dispatchPort modeQueuePort True w
        }
      })"

definition CFRunLoopRunSpecific :: "env \<Rightarrow> ptr \<Rightarrow> mode_name \<Rightarrow> rat \<Rightarrow> bool \<Rightarrow> world \<Rightarrow> (world \<times> int) option" where
  "CFRunLoopRunSpecific E rl modeName seconds returnAfterSourceHandled w =
     (if rl = NULL then None
      else if rl_deallocating (w_loop w rl) then Some (w, kCFRunLoopRunFinished)
      else do {
        empty_mode \<leftarrow> CFRunLoopModeIsEmpty E w rl modeName;
        if empty_mode then Some (w, kCFRunLoopRunFinished)
        else do {
          let previousPerRun = snd (CFRunLoopPushPerRunData (w_loop w rl));
          let previousMode = rl_currentMode (w_loop w rl);
          let w1 = upd_loop w rl (\<lambda>l. (fst (CFRunLoopPushPerRunData l))\<lparr>rl_currentMode := Some modeName\<rparr>);
          w2 \<leftarrow> observers_if E rl modeName kCFRunLoopEntry w1;
          (w3, result) \<leftarrow> CFRunLoopRunMode E rl modeName seconds returnAfterSourceHandled w2;
          w4 \<leftarrow> observers_if E rl modeName kCFRunLoopExit w3;
          Some (upd_loop w4 rl (\<lambda>l. (CFRunLoopPopPerRunData l previousPerRun)\<lparr>rl_currentMode := previousMode\<rparr>), result)
        }
      })"

definition CFRunLoopRunInMode :: "env \<Rightarrow> mode_name \<Rightarrow> rat \<Rightarrow> bool \<Rightarrow> world \<Rightarrow> (world \<times> int) option" where
  "CFRunLoopRunInMode E = CFRunLoopRunSpecific E (ev_current E)"

partial_function (option) CFRunLoopRun :: "env \<Rightarrow> world \<Rightarrow> world option" where
  "CFRunLoopRun E w = do {
     (w1, result) \<leftarrow> CFRunLoopRunSpecific E (ev_current E) kCFRunLoopDefaultMode 10000000000 False w;
     if result \<noteq> kCFRunLoopRunStopped \<and> result \<noteq> kCFRunLoopRunFinished then CFRunLoopRun E w1
     else Some w1
   }"

end
