(* ===== verification/CF_RunLoop_Blocks.thy ===== *)
theory CF_RunLoop_Blocks
  imports CF_RunLoop_Run
begin

text \<open>
  The queue of blocks of a run loop is a singly linked list with a tail pointer, which
  \<^verbatim>\<open>CFRunLoopPerformBlock\<close> appends to and \<^verbatim>\<open>__CFRunLoopDoBlocks\<close> detaches, walks, relinks and puts back. This
  theory relates it to an abstract queue, a list.
\<close>

section \<open>Linked lists of blocks\<close>

text \<open>An entry of the abstract queue: the address of the item, its mode and its block.\<close>

type_synonym entry = "ptr \<times> block_mode \<times> ptr"

fun seg :: "(ptr \<rightharpoonup> block_item) \<Rightarrow> ptr \<Rightarrow> entry list \<Rightarrow> ptr \<Rightarrow> bool" where
  "seg m p [] q \<longleftrightarrow> p = q"
| "seg m p ((a, md, b) # xs) q \<longleftrightarrow> p = a \<and> a \<noteq> NULL \<and>
     (\<exists>nxt. m a = Some \<lparr>bi_next = nxt, bi_mode = md, bi_block = b\<rparr> \<and> seg m nxt xs q)"

abbreviation addrs :: "entry list \<Rightarrow> ptr list" where
  "addrs \<equiv> map fst"

definition end_of :: "entry list \<Rightarrow> ptr" where
  "end_of xs = (if xs = [] then NULL else fst (last xs))"

definition queue :: "world \<Rightarrow> ptr \<Rightarrow> entry list \<Rightarrow> bool" where
  "queue w rl xs \<longleftrightarrow> distinct (addrs xs) \<and> seg (w_blocks w) (rl_blocks_head (w_loop w rl)) xs NULL \<and>
     rl_blocks_tail (w_loop w rl) = end_of xs"

lemma seg_append: "seg m p (xs @ ys) q \<longleftrightarrow> (\<exists>r. seg m p xs r \<and> seg m r ys q)"
  by (induction m p xs q rule: seg.induct) auto

lemma seg_cong: "(\<And>a. a \<in> set (addrs xs) \<Longrightarrow> m' a = m a) \<Longrightarrow> seg m' p xs q \<longleftrightarrow> seg m p xs q"
  by (induction m p xs q rule: seg.induct) auto

lemma seg_allocated: "seg m p xs q \<Longrightarrow> a \<in> set (addrs xs) \<Longrightarrow> m a \<noteq> None \<and> a \<noteq> NULL"
  by (induction m p xs q rule: seg.induct) auto

lemma seg_Cons_head: "seg m p xs NULL \<Longrightarrow> (p = NULL \<longleftrightarrow> xs = []) \<and> (xs \<noteq> [] \<longrightarrow> p = fst (hd xs))"
  by (cases xs) auto

text \<open>Redirecting the last item of a segment.\<close>

lemma seg_redirect:
  assumes "seg m p (xs @ [(a, md, b)]) q" "a \<notin> set (addrs xs)" "m a = Some c"
  shows "seg (m(a \<mapsto> c\<lparr>bi_next := r\<rparr>)) p (xs @ [(a, md, b)]) r"
proof -
  obtain s where s: "seg m p xs s" "s = a" "a \<noteq> NULL" "c = \<lparr>bi_next = q, bi_mode = md, bi_block = b\<rparr>"
    using assms(1,3) by (auto simp: seg_append)
  have "seg (m(a \<mapsto> c\<lparr>bi_next := r\<rparr>)) p xs s" 
    using s(1) assms(2) by (subst seg_cong[where m = m]) auto
  then show ?thesis using s by (auto simp: seg_append)
qed

section \<open>Adding a block\<close>

lemma ensure_modes_frame:
  assumes "ensure_modes E rl ms w = Some w'"
  shows "w_blocks w' = w_blocks w \<and> w_calls w' = w_calls w \<and> rl_blocks_head (w_loop w' l) = rl_blocks_head (w_loop w l) \<and>
    rl_blocks_tail (w_loop w' l) = rl_blocks_tail (w_loop w l) \<and> rl_commonModes (w_loop w' l) = rl_commonModes (w_loop w l)"
  using assms
proof (induction ms arbitrary: w)
  case (Cons m ms)
  then obtain w1 found where w1: "CFRunLoopFindMode E w rl m True = Some (w1, found)" "ensure_modes E rl ms w1 = Some w'"
    by (auto simp: bind_eq_Some_conv)
  have "w_blocks w1 = w_blocks w \<and> w_calls w1 = w_calls w" using find_mode_frame(1)[OF w1(1)] by (simp add: same_objects_def)
  moreover have "rl_blocks_head (w_loop w1 l) = rl_blocks_head (w_loop w l) \<and>
      rl_blocks_tail (w_loop w1 l) = rl_blocks_tail (w_loop w l) \<and> rl_commonModes (w_loop w1 l) = rl_commonModes (w_loop w l)"
    by (rule find_mode_cases[OF w1(1)]) (auto simp: new_mode_def upd_loop_def)
  ultimately show ?case using Cons.IH[OF w1(2)] by simp
qed simp

lemma end_of_snoc [simp]: "end_of (xs @ [x]) = fst x"
  by (simp add: end_of_def)

lemma perform_block_appends:
  assumes "queue w rl xs" "ensure_modes E rl (block_mode_names mode) w = Some w1" "block \<noteq> NULL"
    and "ev_malloc E (w_blocks w) = new" "new \<noteq> NULL" "new \<notin> dom (w_blocks w)"
  shows "\<exists>w'. CFRunLoopPerformBlock E w rl (Some mode) block = Some w' \<and> queue w' rl (xs @ [(new, mode, block)]) \<and>
    w_calls w' = w_calls w \<and> rl_commonModes (w_loop w' rl) = rl_commonModes (w_loop w rl) \<and>
    (\<forall>p. p \<noteq> new \<and> p \<notin> set (addrs xs) \<longrightarrow> w_blocks w' p = w_blocks w p)"
proof -
  note f = ensure_modes_frame[OF assms(2), of rl]
  have new: "ev_malloc E (w_blocks w1) = new" using f assms(4) by simp
  let ?heap = "(w_blocks w)(new \<mapsto> \<lparr>bi_next = NULL, bi_mode = mode, bi_block = block\<rparr>)"
  let ?link = "\<lambda>h. upd_loop (w1\<lparr>w_blocks := h\<rparr>) rl (\<lambda>l. if rl_blocks_tail l = NULL
        then l\<lparr>rl_blocks_head := new, rl_blocks_tail := new\<rparr> else l\<lparr>rl_blocks_tail := new\<rparr>)"
  have q: "distinct (addrs xs)" "seg (w_blocks w) (rl_blocks_head (w_loop w rl)) xs NULL"
    "rl_blocks_tail (w_loop w rl) = end_of xs" using assms(1) by (simp_all add: queue_def)
  have fresh: "new \<notin> set (addrs xs)" using seg_allocated[OF q(2), of new] assms(6) by blast
  show ?thesis
  proof (cases xs rule: rev_cases)
    case Nil
    then have "CFRunLoopPerformBlock E w rl (Some mode) block = Some (?link ?heap)"
      using assms(2,3,5) f q(3) new by (simp add: CFRunLoopPerformBlock_def end_of_def Let_def cong: if_cong)
    then show ?thesis using Nil q(3) f assms(5) by (simp add: queue_def end_of_def upd_loop_def)
  next
    case (snoc ys y)
    obtain a md b where y: "y = (a, md, b)" by (cases y)
    have a: "a \<noteq> NULL" "w_blocks w a = Some \<lparr>bi_next = NULL, bi_mode = md, bi_block = b\<rparr>" "a \<noteq> new"
      using q(2) fresh snoc y by (auto simp: seg_append)
    let ?old = "(w_blocks w)(a \<mapsto> \<lparr>bi_next = new, bi_mode = md, bi_block = b\<rparr>)"
    let ?heap2 = "?heap(a \<mapsto> \<lparr>bi_next = new, bi_mode = md, bi_block = b\<rparr>)"
    have w': "CFRunLoopPerformBlock E w rl (Some mode) block = Some (?link ?heap2)"
      using assms(2,3,5) f q(3) snoc y a new by (simp add: CFRunLoopPerformBlock_def Let_def cong: if_cong)
    have "seg ?old (rl_blocks_head (w_loop w rl)) (ys @ [(a, md, b)]) new"
      using seg_redirect[of "w_blocks w" "rl_blocks_head (w_loop w rl)" ys a md b NULL
          "\<lparr>bi_next = NULL, bi_mode = md, bi_block = b\<rparr>" new] a(2) q(1,2) snoc y by simp
    then have "seg ?heap2 (rl_blocks_head (w_loop w rl)) (ys @ [(a, md, b)]) new"
      using fresh snoc y by (subst seg_cong[where m = ?old]) auto
    then have "seg ?heap2 (rl_blocks_head (w_loop w rl)) (xs @ [(new, mode, block)]) NULL"
      using snoc y a(3) assms(5) by (auto simp: seg_append)
    then show ?thesis using w' f q(1,3) fresh snoc y a(1,3) by (simp add: queue_def upd_loop_def end_of_def)
  qed
qed

section \<open>Running the blocks\<close>

text \<open>
  What is asked of the blocks: each returns, and what it does to the queue is to append blocks, in memory that was not in
  use; it leaves the other items, the set of common modes and the trace alone. \<open>new\<close> says what is
  appended, as modes and blocks: it may depend on all calls made so far, the last of which is the one that is
  running. When a block is called there is memory for an item, the one that was just freed.
\<close>

definition appends_only :: "env \<Rightarrow> ptr \<Rightarrow> (rl_call list \<Rightarrow> (block_mode \<times> ptr) list) \<Rightarrow> bool" where
  "appends_only E rl new \<longleftrightarrow> (\<forall>c h w xs. w_calls w = h @ [c] \<longrightarrow> queue w rl xs \<longrightarrow>
     (\<forall>b. c = CallBlock b \<longrightarrow> (\<exists>p. p \<noteq> NULL \<and> w_blocks w p = None)) \<longrightarrow>
     (\<exists>w' ys. ev_callout E c w = Some w' \<and> queue w' rl (xs @ ys) \<and> map snd ys = new (h @ [c]) \<and>
     (\<forall>p \<in> set (addrs ys). w_blocks w p = None) \<and>
     (\<forall>p. w_blocks w p \<noteq> None \<and> p \<notin> set (addrs xs) \<longrightarrow> w_blocks w' p = w_blocks w p) \<and>
     rl_commonModes (w_loop w' rl) = rl_commonModes (w_loop w rl) \<and> w_calls w' = w_calls w))"

text \<open>What is appended altogether while the calls \<open>cs\<close> are made, after the calls \<open>h\<close>.\<close>

fun queued :: "(rl_call list \<Rightarrow> (block_mode \<times> ptr) list) \<Rightarrow> rl_call list \<Rightarrow> rl_call list \<Rightarrow> (block_mode \<times> ptr) list" where
  "queued new h [] = []"
| "queued new h (c # cs) = new (h @ [c]) @ queued new (h @ [c]) cs"

lemma queued_append: "queued new h (cs @ ds) = queued new h cs @ queued new (h @ cs) ds"
  by (induction cs arbitrary: h) simp_all

text \<open>The items that run in a mode, and what running them looks like.\<close>

definition runs_in :: "world \<Rightarrow> ptr \<Rightarrow> mode_name \<Rightarrow> entry \<Rightarrow> bool" where
  "runs_in w rl n x \<longleftrightarrow> block_applies (rl_commonModes (w_loop w rl)) n (fst (snd x))"

definition block_calls :: "entry list \<Rightarrow> rl_call list" where
  "block_calls xs = concat (map (\<lambda>x. [CallBlock (snd (snd x)), ReleaseBlock (snd (snd x))]) xs)"

text \<open>A detached list \<open>L\<close> beside the queue \<open>Q\<close> of the run loop.\<close>

definition detached :: "world \<Rightarrow> ptr \<Rightarrow> ptr \<Rightarrow> entry list \<Rightarrow> entry list \<Rightarrow> bool" where
  "detached w rl head L Q \<longleftrightarrow> seg (w_blocks w) head L NULL \<and> queue w rl Q \<and> distinct (addrs (L @ Q))"

lemma queue_trace [simp]: "queue (w\<lparr>w_calls := cs\<rparr>) rl xs = queue w rl xs"
  by (simp add: queue_def)

lemma detached_callout:
  assumes "appends_only E rl new" "detached w rl head L Q" "\<And>b. c = CallBlock b \<Longrightarrow> \<exists>p. p \<noteq> NULL \<and> w_blocks w p = None"
  obtains w' ys where "do_callout E c w = Some w'" "detached w' rl head L (Q @ ys)" "map snd ys = new (w_calls w @ [c])"
    "rl_commonModes (w_loop w' rl) = rl_commonModes (w_loop w rl)" "w_calls w' = w_calls w @ [c]"
proof -
  have d: "seg (w_blocks w) head L NULL" "queue w rl Q" "distinct (addrs (L @ Q))"
    using assms(2) by (simp_all add: detached_def)
  let ?w = "w\<lparr>w_calls := w_calls w @ [c]\<rparr>"
  have "queue ?w rl Q" "w_calls ?w = w_calls w @ [c]" "\<forall>b. c = CallBlock b \<longrightarrow> (\<exists>p. p \<noteq> NULL \<and> w_blocks ?w p = None)"
    using d(2) assms(3) by simp_all
  then obtain w' ys where w': "ev_callout E c ?w = Some w'" "queue w' rl (Q @ ys)" "\<forall>p \<in> set (addrs ys). w_blocks ?w p = None"
    "\<forall>p. w_blocks ?w p \<noteq> None \<and> p \<notin> set (addrs Q) \<longrightarrow> w_blocks w' p = w_blocks ?w p"
    "rl_commonModes (w_loop w' rl) = rl_commonModes (w_loop ?w rl)" "w_calls w' = w_calls ?w"
    "map snd ys = new (w_calls w @ [c])"
    using assms(1) unfolding appends_only_def by blast
  have "w_blocks w' a = w_blocks w a" if "a \<in> set (addrs L)" for a
    using w'(4) seg_allocated[OF d(1) that] d(3) that by auto
  then have "seg (w_blocks w') head L NULL" using d(1) seg_cong by blast
  moreover have "a \<notin> set (addrs ys)" if "a \<in> set (addrs L)" for a
    using w'(3) seg_allocated[OF d(1) that] by auto
  then have "distinct (addrs (L @ Q @ ys))" using d(3) w'(2) by (auto simp: queue_def)
  ultimately show ?thesis using that[of w' ys] w' by (simp add: do_callout_def detached_def)
qed

text \<open>Unlinking and freeing the item after the kept ones.\<close>

lemma detached_unlink:
  assumes "detached w rl head (K @ (a, md, b) # R) Q" "w_blocks w a = Some it"
  obtains heap where "(if end_of K \<noteq> NULL
        then do { p \<leftarrow> w_blocks w (end_of K); Some ((w_blocks w)(end_of K \<mapsto> p\<lparr>bi_next := bi_next it\<rparr>)) }
        else Some (w_blocks w)) = Some heap"
    "detached (w\<lparr>w_blocks := heap(a := None)\<rparr>) rl (if a = head then bi_next it else head) (K @ R) Q"
proof -
  have d: "seg (w_blocks w) head (K @ (a, md, b) # R) NULL" "queue w rl Q" "distinct (addrs (K @ (a, md, b) # R @ Q))"
    using assms(1) by (simp_all add: detached_def)
  have c: "seg (w_blocks w) head K a" "seg (w_blocks w) (bi_next it) R NULL"
    using d(1) assms(2) by (auto simp: seg_append)
  have queue: "queue (w\<lparr>w_blocks := h\<rparr>) rl Q" if "\<forall>p \<in> set (addrs Q). h p = w_blocks w p" for h
    using d(2) that seg_cong[of Q h "w_blocks w"] by (auto simp: queue_def)
  show ?thesis
  proof (cases K rule: rev_cases)
    case Nil
    have "seg ((w_blocks w)(a := None)) (bi_next it) R NULL"
      using c(2) d(3) by (subst seg_cong[where m = "w_blocks w"]) auto
    moreover have "a = head" using c(1) Nil by simp
    moreover have "queue (w\<lparr>w_blocks := (w_blocks w)(a := None)\<rparr>) rl Q" using d(3) by (intro queue) auto
    ultimately show ?thesis using that[of "w_blocks w"] Nil d(3) by (simp add: detached_def end_of_def)
  next
    case (snoc K' y)
    obtain k kmd kb where y: "y = (k, kmd, kb)" by (cases y)
    obtain p where p: "w_blocks w k = Some p" "k \<noteq> NULL" using c(1) snoc y by (auto simp: seg_append)
    let ?heap = "(w_blocks w)(k \<mapsto> p\<lparr>bi_next := bi_next it\<rparr>)"
    have "seg ?heap head K (bi_next it)"
      using seg_redirect[of "w_blocks w" head K' k kmd kb a p] c(1) p(1) d(3) snoc y by simp
    then have "seg (?heap(a := None)) head K (bi_next it)"
      using d(3) by (subst seg_cong[where m = ?heap]) auto
    moreover have "seg (?heap(a := None)) (bi_next it) R NULL"
      using c(2) d(3) snoc y by (subst seg_cong[where m = "w_blocks w"]) auto
    ultimately have "seg (?heap(a := None)) head (K @ R) NULL" by (auto simp: seg_append)
    moreover have "head \<noteq> a" using c(1) d(3) snoc y by (cases K') auto
    moreover have "queue (w\<lparr>w_blocks := ?heap(a := None)\<rparr>) rl Q" using d(3) snoc y by (intro queue) auto
    moreover have "distinct (addrs ((K @ R) @ Q))" using d(3) by simp
    ultimately show ?thesis using that[of ?heap] p unfolding detached_def by (simp add: snoc y)
  qed
qed


lemma detached_head: "detached w rl head (K @ R) Q \<Longrightarrow> K = [] \<Longrightarrow> head = (if R = [] then NULL else fst (hd R))"
  using seg_Cons_head by (auto simp: detached_def)

lemma do_blocks_loop_step:
  assumes "item \<noteq> NULL" "w_blocks w item = Some it" "block_applies (rl_commonModes (w_loop w rl)) n (bi_mode it)"
    and "(if prev \<noteq> NULL then do { p \<leftarrow> w_blocks w prev; Some ((w_blocks w)(prev \<mapsto> p\<lparr>bi_next := bi_next it\<rparr>)) }
      else Some (w_blocks w)) = Some heap"
    and "do_callout E (CallBlock (bi_block it)) (w\<lparr>w_blocks := heap(item := None)\<rparr>) = Some w2"
    and "do_callout E (ReleaseBlock (bi_block it)) w2 = Some w3"
  shows "do_blocks_loop E rl n head tail prev item did w = do_blocks_loop E rl n (if item = head then bi_next it else head)
    (if item = tail then prev else tail) prev (bi_next it) True w3"
  using assms(1-3,5,6) by (subst do_blocks_loop.simps) (simp only: assms(4) if_False bind.bind_lunit not_True_eq_False simp_thms)

lemma do_blocks_loop_run:
  assumes "appends_only E rl new" "detached w rl head (K @ R) Q"
  shows "\<exists>w' head' ys. do_blocks_loop E rl n head (end_of (K @ R)) (end_of K) (if R = [] then NULL else fst (hd R)) did w =
       Some (w', head', end_of (K @ filter (\<lambda>x. \<not> runs_in w rl n x) R), did \<or> (\<exists>x \<in> set R. runs_in w rl n x)) \<and>
     detached w' rl head' (K @ filter (\<lambda>x. \<not> runs_in w rl n x) R) (Q @ ys) \<and>
     w_calls w' = w_calls w @ block_calls (filter (runs_in w rl n) R) \<and>
     map snd ys = queued new (w_calls w) (block_calls (filter (runs_in w rl n) R))"
  using assms(2)
proof (induction R arbitrary: K w head Q did)
  case Nil
  then show ?case by (subst do_blocks_loop.simps) (auto simp: block_calls_def intro: exI[of _ "[]"])
next
  case (Cons x R)
  obtain a md b where x: "x = (a, md, b)" by (cases x)
  have d: "detached w rl head (K @ (a, md, b) # R) Q" using Cons.prems x by simp
  then obtain nxt where curr: "w_blocks w a = Some \<lparr>bi_next = nxt, bi_mode = md, bi_block = b\<rparr>" "a \<noteq> NULL"
      "seg (w_blocks w) nxt R NULL" "distinct (addrs (K @ (a, md, b) # R))"
    by (auto simp: detached_def seg_append Int_Un_distrib)
  have nxt: "nxt = (if R = [] then NULL else fst (hd R))" using seg_Cons_head[OF curr(3)] by auto
  show ?case
  proof (cases "runs_in w rl n x")
    case False
    then have "do_blocks_loop E rl n head (end_of (K @ x # R)) (end_of K) (if x # R = [] then NULL else fst (hd (x # R))) did w =
        do_blocks_loop E rl n head (end_of ((K @ [x]) @ R)) (end_of (K @ [x])) (if R = [] then NULL else fst (hd R)) did w"
      using curr(1,2) nxt x by (subst do_blocks_loop.simps) (simp add: runs_in_def)
    then show ?thesis using Cons.IH[of w head "K @ [x]" Q did] Cons.prems False by simp
  next
    case True
    obtain heap where heap: "(if end_of K \<noteq> NULL
          then do { p \<leftarrow> w_blocks w (end_of K); Some ((w_blocks w)(end_of K \<mapsto> p\<lparr>bi_next := nxt\<rparr>)) }
          else Some (w_blocks w)) = Some heap"
      "detached (w\<lparr>w_blocks := heap(a := None)\<rparr>) rl (if a = head then nxt else head) (K @ R) Q"
      by (rule detached_unlink[OF d curr(1), unfolded block_item.simps])
    let ?w = "w\<lparr>w_blocks := heap(a := None)\<rparr>" and ?head = "if a = head then nxt else head"
    have room: "\<exists>p. p \<noteq> NULL \<and> w_blocks ?w p = None" using curr(2) by (intro exI[of _ a]) simp
    obtain w2 ys where w2: "do_callout E (CallBlock b) ?w = Some w2" "detached w2 rl ?head (K @ R) (Q @ ys)"
      "rl_commonModes (w_loop w2 rl) = rl_commonModes (w_loop ?w rl)" "w_calls w2 = w_calls ?w @ [CallBlock b]"
      "map snd ys = new (w_calls w @ [CallBlock b])"
      by (rule detached_callout[OF assms(1) heap(2) room, of "CallBlock b"]) simp
    obtain w3 zs where w3: "do_callout E (ReleaseBlock b) w2 = Some w3" "detached w3 rl ?head (K @ R) ((Q @ ys) @ zs)"
      "rl_commonModes (w_loop w3 rl) = rl_commonModes (w_loop w2 rl)" "w_calls w3 = w_calls w2 @ [ReleaseBlock b]"
      "map snd zs = new (w_calls w2 @ [ReleaseBlock b])"
      by (rule detached_callout[OF assms(1) w2(2), of "ReleaseBlock b"]) simp_all
    have same: "runs_in w3 rl n = runs_in w rl n" using w2(3) w3(3) by (simp add: runs_in_def fun_eq_iff)
    have tail: "(if a = end_of (K @ x # R) then end_of K else end_of (K @ x # R)) = end_of (K @ R)"
      using curr(4) x by (cases R rule: rev_cases) (auto simp: end_of_def)
    have "do_blocks_loop E rl n head (end_of (K @ x # R)) (end_of K) (if x # R = [] then NULL else fst (hd (x # R))) did w =
        do_blocks_loop E rl n ?head (end_of (K @ R)) (end_of K) nxt True w3"
      using do_blocks_loop_step[OF curr(2,1), of rl n "end_of K" heap E w2 w3 head "end_of (K @ x # R)" did]
        True heap(1) w2(1) w3(1) x unfolding tail block_item.simps by (simp add: runs_in_def split del: if_split)
    moreover obtain w' head' us where "do_blocks_loop E rl n ?head (end_of (K @ R)) (end_of K) nxt True w3 =
        Some (w', head', end_of (K @ filter (\<lambda>x. \<not> runs_in w rl n x) R), True)"
      "detached w' rl head' (K @ filter (\<lambda>x. \<not> runs_in w rl n x) R) (((Q @ ys) @ zs) @ us)"
      "w_calls w' = w_calls w3 @ block_calls (filter (runs_in w rl n) R)"
      "map snd us = queued new (w_calls w3) (block_calls (filter (runs_in w rl n) R))"
      using Cons.IH[OF w3(2), of True] unfolding nxt[symmetric] same by (elim exE conjE) simp
    ultimately show ?thesis using True w2(4,5) w3(4,5) x
      by (intro exI[of _ w'] exI[of _ head'] exI[of _ "ys @ zs @ us"]) (simp add: block_calls_def)
  qed
qed

lemma upd_loop_calls [simp]: "w_calls (upd_loop w rl f) = w_calls w"
  by (simp add: upd_loop_def)

lemma do_blocks_queue:
  assumes "appends_only E rl new" "queue w rl xs"
  shows "\<exists>w' ys. CFRunLoopDoBlocks E rl n w = Some (w', \<exists>x \<in> set xs. runs_in w rl n x) \<and>
    queue w' rl (filter (\<lambda>x. \<not> runs_in w rl n x) xs @ ys) \<and>
    map snd ys = queued new (w_calls w) (block_calls (filter (runs_in w rl n) xs)) \<and>
    w_calls w' = w_calls w @ block_calls (filter (runs_in w rl n) xs)"
proof (cases "xs = []")
  case True
  then have "CFRunLoopDoBlocks E rl n w = Some (w, False)" using assms(2) by (simp add: CFRunLoopDoBlocks_def queue_def)
  then show ?thesis using True assms(2) by (intro exI[of _ w] exI[of _ "[]"]) (simp add: block_calls_def)
next
  case False
  let ?head = "rl_blocks_head (w_loop w rl)" and ?kept = "filter (\<lambda>x. \<not> runs_in w rl n x) xs"
  let ?w1 = "upd_loop w rl (\<lambda>l. l\<lparr>rl_blocks_head := NULL, rl_blocks_tail := NULL\<rparr>)"
  have q: "seg (w_blocks w) ?head xs NULL" "rl_blocks_tail (w_loop w rl) = end_of xs" "distinct (addrs xs)"
    using assms(2) by (simp_all add: queue_def)
  have head: "?head \<noteq> NULL" "?head = (if xs = [] then NULL else fst (hd xs))" using seg_Cons_head[OF q(1)] False by auto
  have d0: "detached ?w1 rl ?head ([] @ xs) []" using q by (simp add: detached_def queue_def end_of_def upd_loop_def)
  have same: "runs_in ?w1 rl n = runs_in w rl n" by (simp add: runs_in_def fun_eq_iff upd_loop_def)
  obtain w2 head' ys where w2: "do_blocks_loop E rl n ?head (end_of xs) NULL ?head False ?w1 =
        Some (w2, head', end_of ?kept, \<exists>x \<in> set xs. runs_in w rl n x)"
      "detached w2 rl head' ?kept ys" "w_calls w2 = w_calls w @ block_calls (filter (runs_in w rl n) xs)"
      "map snd ys = queued new (w_calls w) (block_calls (filter (runs_in w rl n) xs))"
    using do_blocks_loop_run[OF assms(1) d0, of n False] unfolding head(2)[symmetric] same
    by (elim exE conjE) (simp add: end_of_def[of "[]"])
  show ?thesis
  proof (cases ?kept rule: rev_cases)
    case Nil
    then have "head' = NULL" using w2(2) by (simp add: detached_def)
    then have "CFRunLoopDoBlocks E rl n w = Some (w2, \<exists>x \<in> set xs. runs_in w rl n x)"
      using w2(1) head(1) q(2) by (simp add: CFRunLoopDoBlocks_def)
    then show ?thesis using w2(2-4) Nil by (auto simp: detached_def)
  next
    case (snoc K y)
    obtain k md b where y: "y = (k, md, b)" by (cases y)
    have d: "seg (w_blocks w2) head' (K @ [(k, md, b)]) NULL" "queue w2 rl ys" "distinct (addrs (?kept @ ys))"
      using w2(2) snoc y unfolding detached_def by simp_all
    have k: "w_blocks w2 k = Some \<lparr>bi_next = NULL, bi_mode = md, bi_block = b\<rparr>" "head' \<noteq> NULL"
      using d(1) seg_Cons_head[OF d(1)] by (auto simp: seg_append)
    let ?next = "rl_blocks_head (w_loop w2 rl)"
    let ?w3 = "w2\<lparr>w_blocks := (w_blocks w2)(k \<mapsto> \<lparr>bi_next = ?next, bi_mode = md, bi_block = b\<rparr>)\<rparr>"
    let ?w4 = "upd_loop ?w3 rl (\<lambda>l. l\<lparr>rl_blocks_head := head',
        rl_blocks_tail := (if rl_blocks_tail l = NULL then k else rl_blocks_tail l)\<rparr>)"
    have eq: "CFRunLoopDoBlocks E rl n w = Some (?w4, \<exists>x \<in> set xs. runs_in w rl n x)"
      using w2(1) head(1) q(2) snoc y k by (simp add: CFRunLoopDoBlocks_def)
    have "seg (w_blocks ?w3) head' (K @ [(k, md, b)]) ?next"
      using seg_redirect[OF d(1) _ k(1), of ?next] d(3) snoc y by simp
    moreover have "seg (w_blocks ?w3) ?next ys NULL"
      using d(2,3) snoc y by (subst seg_cong[where m = "w_blocks w2"]) (auto simp: queue_def)
    ultimately have "seg (w_blocks ?w3) head' (?kept @ ys) NULL" unfolding snoc y by (auto simp: seg_append)
    moreover have "(if rl_blocks_tail (w_loop w2 rl) = NULL then k else rl_blocks_tail (w_loop w2 rl)) = end_of (?kept @ ys)"
      using d(2) snoc y seg_allocated[of "w_blocks w2" ?next ys NULL "end_of ys"]
      by (cases ys rule: rev_cases) (auto simp: queue_def end_of_def)
    ultimately have "queue ?w4 rl (?kept @ ys)" using d(3) by (auto simp: queue_def upd_loop_def split: if_splits)
    then show ?thesis using eq w2(3,4) by (intro exI[of _ ?w4] exI[of _ ys]) (simp add: upd_loop_def)
  qed
qed

text \<open>A queue of two blocks, one for the default mode and one for another mode.\<close>

definition two_blocks :: world where
  "two_blocks = blank_world\<lparr>w_blocks := [100 \<mapsto> \<lparr>bi_next = 101, bi_mode = ModeName kCFRunLoopDefaultMode, bi_block = 7\<rparr>,
       101 \<mapsto> \<lparr>bi_next = NULL, bi_mode = ModeSet [''other''], bi_block = 8\<rparr>],
     w_loop := (\<lambda>_. blank_loop\<lparr>rl_blocks_head := 100, rl_blocks_tail := 101\<rparr>)\<rparr>"

definition two_entries :: "entry list" where
  "two_entries = [(100, ModeName kCFRunLoopDefaultMode, 7), (101, ModeSet [''other''], 8)]"

lemma two_blocks_queue: "queue two_blocks rl two_entries"
  by (simp add: queue_def two_blocks_def two_entries_def end_of_def)

text \<open>Surroundings in which nothing is queued.\<close>

lemma quiet_appends: "appends_only quiet_env rl (\<lambda>_. [])"
  by (auto simp: appends_only_def quiet_env_def intro: exI[of _ "[]"])

text \<open>
  Surroundings in which block 7 queues block 9, to run in no mode for the time being, by calling \<^verbatim>\<open>CFRunLoopPerformBlock\<close>
  with an allocator that returns the first address that is free.
\<close>

definition addresses :: "ptr list" where
  "addresses = map of_nat [1..<2 ^ 64]"

definition first_free :: "(ptr \<rightharpoonup> block_item) \<Rightarrow> ptr" where
  "first_free m = (case find (\<lambda>p. m p = None) addresses of None \<Rightarrow> NULL | Some p \<Rightarrow> p)"

definition queueing_env :: env where
  "queueing_env = quiet_env\<lparr>ev_callout := (\<lambda>c w.
     if c = CallBlock 7 then CFRunLoopPerformBlock (quiet_env\<lparr>ev_malloc := first_free\<rparr>) w 1 (Some (ModeSet [])) 9 else Some w)\<rparr>"

definition queues_nine :: "rl_call list \<Rightarrow> (block_mode \<times> ptr) list" where
  "queues_nine h = (if h \<noteq> [] \<and> last h = CallBlock 7 then [(ModeSet [], 9)] else [])"

lemma addresses_all: "p \<in> set addresses \<longleftrightarrow> p \<noteq> NULL"
proof -
  have "set addresses = of_nat ` {1..<2 ^ 64}" unfolding addresses_def set_map set_upt ..
  moreover have "p \<in> of_nat ` {1..<2 ^ 64} \<longleftrightarrow> p \<noteq> 0" for p :: ptr
  proof
    assume "p \<noteq> 0"
    then have "0 < unat p" by (simp add: unat_gt_0)
    moreover have "unat p < 2 ^ 64" using unsigned_less[of p, where ?'a = nat] by simp
    moreover have "p = of_nat (unat p)" by simp
    ultimately show "p \<in> of_nat ` {1..<2 ^ 64}" by (intro image_eqI[of _ _ "unat p"]) auto
  next
    assume "p \<in> of_nat ` {1..<2 ^ 64}"
    then obtain k where k: "p = of_nat k" "1 \<le> k" "k < 2 ^ 64" by auto
    then have "unat p = k" by (simp add: unat_of_nat)
    then show "p \<noteq> 0" using k(2) by auto
  qed
  ultimately show ?thesis by simp
qed

lemma first_free:
  assumes "p \<noteq> NULL" "m p = None"
  shows "first_free m \<noteq> NULL" "m (first_free m) = None"
proof -
  have "find (\<lambda>p. m p = None) addresses \<noteq> None" using assms addresses_all[of p] by (auto simp: find_None_iff)
  then obtain q where q: "find (\<lambda>p. m p = None) addresses = Some q" by blast
  then have "q \<in> set addresses" "m q = None" by (auto simp: find_Some_iff)
  then show "first_free m \<noteq> NULL" "m (first_free m) = None" using q addresses_all by (simp_all add: first_free_def)
qed

lemma queueing_appends: "appends_only queueing_env 1 queues_nine"
  unfolding appends_only_def
proof (intro allI impI)
  fix c h w xs
  assume w: "w_calls w = h @ [c]" "queue w 1 xs" "\<forall>b. c = CallBlock b \<longrightarrow> (\<exists>p. p \<noteq> NULL \<and> w_blocks w p = None)"
  let ?P = "\<lambda>w' ys. ev_callout queueing_env c w = Some w' \<and> queue w' 1 (xs @ ys) \<and> map snd ys = queues_nine (h @ [c]) \<and>
     (\<forall>p \<in> set (addrs ys). w_blocks w p = None) \<and>
     (\<forall>p. w_blocks w p \<noteq> None \<and> p \<notin> set (addrs xs) \<longrightarrow> w_blocks w' p = w_blocks w p) \<and>
     rl_commonModes (w_loop w' 1) = rl_commonModes (w_loop w 1) \<and> w_calls w' = w_calls w"
  show "\<exists>w' ys. ?P w' ys"
  proof (cases "c = CallBlock 7")
    case True
    let ?E = "quiet_env\<lparr>ev_malloc := first_free\<rparr>" and ?new = "first_free (w_blocks w)"
    obtain p where "p \<noteq> NULL" "w_blocks w p = None" using w(3) True by blast
    note free = first_free[of p "w_blocks w", OF this]
    have modes: "ensure_modes ?E 1 (block_mode_names (ModeSet [])) w = Some w" by simp
    have "(9::ptr) \<noteq> NULL" "ev_malloc ?E (w_blocks w) = ?new" "?new \<notin> dom (w_blocks w)" using free by auto
    from perform_block_appends[OF w(2) modes this(1,2) free(1) this(3)]
    obtain w' where w': "CFRunLoopPerformBlock ?E w 1 (Some (ModeSet [])) 9 = Some w'" "queue w' 1 (xs @ [(?new, ModeSet [], 9)])"
      "w_calls w' = w_calls w" "rl_commonModes (w_loop w' 1) = rl_commonModes (w_loop w 1)"
      "\<forall>p. p \<noteq> ?new \<and> p \<notin> set (addrs xs) \<longrightarrow> w_blocks w' p = w_blocks w p" by blast
    have "w_blocks w' p = w_blocks w p" if "w_blocks w p \<noteq> None" "p \<notin> set (addrs xs)" for p
      using w'(5) that free(2) by metis
    then have "?P w' [(?new, ModeSet [], 9)]" using w'(1-4) free True by (simp add: queueing_env_def queues_nine_def)
    then show ?thesis by blast
  next
    case False
    then have "?P w []" using w(2) by (simp add: queueing_env_def queues_nine_def)
    then show ?thesis by blast
  qed
qed

text \<open>
  C4. Running the blocks refines the abstract queue: the blocks that apply to the mode run in the order
  in which they were queued, each followed by its release; the others stay, in order; behind them are exactly the blocks
  that were queued in the meantime, in the order in which they were queued; and the result tells whether a block ran.
  What a callback queues may depend on all calls made before it.
\<close>

theorem do_blocks_refines_queue:
  assumes "appends_only E rl new" "queue w rl xs"
  shows "\<exists>w' ys. CFRunLoopDoBlocks E rl n w = Some (w', \<exists>x \<in> set xs. runs_in w rl n x) \<and>
    queue w' rl (filter (\<lambda>x. \<not> runs_in w rl n x) xs @ ys) \<and>
    map snd ys = queued new (w_calls w) (block_calls (filter (runs_in w rl n) xs)) \<and>
    w_calls w' = w_calls w @ block_calls (filter (runs_in w rl n) xs)"
  by (rule do_blocks_queue[OF assms])

lemma two_runs_in: "filter (runs_in two_blocks rl kCFRunLoopDefaultMode) two_entries = [(100, ModeName kCFRunLoopDefaultMode, 7)]"
  "filter (\<lambda>x. \<not> runs_in two_blocks rl kCFRunLoopDefaultMode x) two_entries = [(101, ModeSet [''other''], 8)]"
  by (simp_all add: two_entries_def two_blocks_def runs_in_def kCFRunLoopDefaultMode_def kCFRunLoopCommonModes_def blank_loop_def)

lemma two_blocks_calls: "w_calls two_blocks = []"
  by (simp add: two_blocks_def blank_world_def)

text \<open>Block 7 runs and queues block 9, behind block 8 that waits for another mode.\<close>

theorem do_blocks_refines_queue_witness:
  "\<exists>w' p. CFRunLoopDoBlocks queueing_env 1 kCFRunLoopDefaultMode two_blocks = Some (w', True) \<and>
     queue w' 1 [(101, ModeSet [''other''], 8), (p, ModeSet [], 9)] \<and> w_calls w' = [CallBlock 7, ReleaseBlock 7]"
proof -
  have "\<exists>x \<in> set two_entries. runs_in two_blocks 1 kCFRunLoopDefaultMode x"
    using arg_cong[OF two_runs_in(1), of set 1] by auto
  with do_blocks_refines_queue[OF queueing_appends two_blocks_queue, of kCFRunLoopDefaultMode]
  obtain w' ys where w': "CFRunLoopDoBlocks queueing_env 1 kCFRunLoopDefaultMode two_blocks = Some (w', True)"
    "queue w' 1 ((101, ModeSet [''other''], 8) # ys)" "map snd ys = [(ModeSet [], 9)]" "w_calls w' = [CallBlock 7, ReleaseBlock 7]"
    by (auto simp: two_runs_in block_calls_def two_blocks_calls queues_nine_def)
  then show ?thesis by (cases ys) auto
qed

text \<open>
  C15. A block that is queued for a mode, by a call that can create the modes it names and gets memory for the
  item, runs when the run loop next runs its blocks in that mode: exactly then, after the blocks queued
  before it, and once. It then leaves the queue, which keeps the blocks of other modes and has behind them exactly
  what was queued in the meantime.
\<close>

theorem perform_block_runs:
  assumes "appends_only E rl new" "queue w rl xs" "ensure_modes E rl (block_mode_names mode) w = Some w0" "block \<noteq> NULL"
    and "ev_malloc E (w_blocks w) \<noteq> NULL" "ev_malloc E (w_blocks w) \<notin> dom (w_blocks w)"
    and "block_applies (rl_commonModes (w_loop w rl)) n mode"
  shows "\<exists>w1 w2 ys. CFRunLoopPerformBlock E w rl (Some mode) block = Some w1 \<and> w_calls w1 = w_calls w \<and>
    CFRunLoopDoBlocks E rl n w1 = Some (w2, True) \<and> queue w2 rl (filter (\<lambda>x. \<not> runs_in w rl n x) xs @ ys) \<and>
    map snd ys = queued new (w_calls w)
      (block_calls (filter (runs_in w rl n) xs) @ [CallBlock block, ReleaseBlock block]) \<and>
    w_calls w2 = w_calls w @ block_calls (filter (runs_in w rl n) xs) @ [CallBlock block, ReleaseBlock block]"
proof -
  obtain w1 where w1: "CFRunLoopPerformBlock E w rl (Some mode) block = Some w1" "w_calls w1 = w_calls w"
      "queue w1 rl (xs @ [(ev_malloc E (w_blocks w), mode, block)])" "rl_commonModes (w_loop w1 rl) = rl_commonModes (w_loop w rl)"
    using perform_block_appends[OF assms(2,3,4) refl assms(5,6)] by blast
  have same: "runs_in w1 rl n = runs_in w rl n" using w1(4) by (simp add: runs_in_def fun_eq_iff)
  have new: "runs_in w rl n (a, mode, b)" for a b using assms(7) by (simp add: runs_in_def)
  show ?thesis using do_blocks_queue[OF assms(1) w1(3), of n] w1(1,2) unfolding same by (auto simp: new block_calls_def)
qed

theorem perform_block_runs_witness:
  "\<exists>w1 w2. CFRunLoopPerformBlock quiet_env blank_world 1 (Some (ModeName kCFRunLoopDefaultMode)) 7 = Some w1 \<and>
     CFRunLoopDoBlocks quiet_env 1 kCFRunLoopDefaultMode w1 = Some (w2, True) \<and> w_calls w2 = [CallBlock 7, ReleaseBlock 7]"
proof -
  have "queue blank_world 1 []" by (simp add: queue_def blank_world_def blank_loop_def end_of_def)
  moreover have "ensure_modes quiet_env 1 (block_mode_names (ModeName kCFRunLoopDefaultMode)) blank_world \<noteq> None" by code_simp
  then obtain w0 where "ensure_modes quiet_env 1 (block_mode_names (ModeName kCFRunLoopDefaultMode)) blank_world = Some w0" by auto
  ultimately show ?thesis
    using perform_block_runs[OF quiet_appends, of blank_world 1 "[]" "ModeName kCFRunLoopDefaultMode" w0 7 kCFRunLoopDefaultMode]
    by (auto simp: quiet_env_def[THEN arg_cong[of _ _ ev_malloc]] blank_world_def[THEN arg_cong[of _ _ w_blocks]]
      blank_world_def[THEN arg_cong[of _ _ w_calls]] block_calls_def)
qed

end
