(* ===== verification/CF_RunLoop_Service.thy ===== *)
theory CF_RunLoop_Service
  imports CF_RunLoop_Run
begin

unbundle bit_operations_syntax

text \<open>
  What a run of the run loop does, in surroundings whose callbacks take time but leave the run loop alone:
  which observers and sources are called, in which order, and how an activation that polls ends.
\<close>

section \<open>Calm surroundings\<close>

text \<open>Callbacks return and only let time pass, and a wait that polls finds no message.\<close>

definition calm :: "env \<Rightarrow> bool" where
  "calm E \<longleftrightarrow> (\<forall>c w. \<exists>t s. w_tsr w \<le> t \<and> ev_callout E c w = Some (w\<lparr>w_tsr := t, w_time := s\<rparr>)) \<and>
     (\<forall>ports w. \<exists>t s. w_tsr w \<le> t \<and> ev_wait E ports True w = (w\<lparr>w_tsr := t, w_time := s\<rparr>, RcvTimedOut))"

text \<open>Only time has passed and calls have been made.\<close>

definition ticked :: "rl_call list \<Rightarrow> world \<Rightarrow> world \<Rightarrow> bool" where
  "ticked cs w w' \<longleftrightarrow> (\<exists>t s. w_tsr w \<le> t \<and> w' = w\<lparr>w_calls := w_calls w @ cs, w_tsr := t, w_time := s\<rparr>)"

lemma tickedI: "w_tsr w \<le> t \<Longrightarrow> ticked cs w (w\<lparr>w_calls := w_calls w @ cs, w_tsr := t, w_time := s\<rparr>)"
  unfolding ticked_def by blast

lemma tickedE:
  assumes "ticked cs w w'"
  obtains t s where "w_tsr w \<le> t" "w' = w\<lparr>w_calls := w_calls w @ cs, w_tsr := t, w_time := s\<rparr>"
  using assms unfolding ticked_def by blast

lemma ticked_same: "ticked [] w w"
  using tickedI[of w "w_tsr w" "[]" "w_time w"] by simp

lemma ticked_trans:
  assumes "ticked cs w w1" "ticked ds w1 w2"
  shows "ticked (cs @ ds) w w2"
proof -
  obtain t s where w1: "w_tsr w \<le> t" "w1 = w\<lparr>w_calls := w_calls w @ cs, w_tsr := t, w_time := s\<rparr>" by (rule tickedE[OF assms(1)])
  obtain t' s' where "w_tsr w1 \<le> t'" "w2 = w1\<lparr>w_calls := w_calls w1 @ ds, w_tsr := t', w_time := s'\<rparr>" by (rule tickedE[OF assms(2)])
  then show ?thesis using w1 tickedI[of w t' "cs @ ds" s'] by simp
qed

lemma tickedD:
  assumes "ticked cs w w'"
  shows "w_loop w' = w_loop w" "w_observer w' = w_observer w" "w_source w' = w_source w" "w_timer w' = w_timer w"
    "w_calls w' = w_calls w @ cs" "w_tsr w \<le> w_tsr w'" "get_mode w' = get_mode w"
  using assms by (auto simp: ticked_def get_mode_def fun_eq_iff)

lemma calm_callout:
  assumes "calm E"
  obtains w' where "do_callout E c w = Some w'" "ticked [c] w w'"
proof -
  let ?w = "w\<lparr>w_calls := w_calls w @ [c]\<rparr>"
  obtain t s where "w_tsr ?w \<le> t" "ev_callout E c ?w = Some (?w\<lparr>w_tsr := t, w_time := s\<rparr>)"
    using assms unfolding calm_def by blast
  then show ?thesis using that tickedI[of w t "[c]" s] by (simp add: do_callout_def)
qed

section \<open>Observers\<close>

text \<open>The calls that are made for an activity.\<close>

definition observer_calls :: "64 word \<Rightarrow> (ptr \<Rightarrow> CFRunLoopObserver) \<Rightarrow> ptr list \<Rightarrow> rl_call list" where
  "observer_calls activity ob xs = map (\<lambda>x. CallObserver x activity) (filter (\<lambda>x. rlo_activities (ob x) AND activity \<noteq> 0 \<and>
     rlo_valid (ob x) \<and> \<not> rlo_firing (ob x) \<and> rlo_callout (ob x)) xs)"

lemma fire_repeating:
  assumes "calm E" "rlo_valid (w_observer w x)" "rlo_repeats (w_observer w x)" "\<not> rlo_firing (w_observer w x)"
  shows "\<exists>w'. fire_observer E activity x w = Some w' \<and>
    ticked (if rlo_callout (w_observer w x) then [CallObserver x activity] else []) w w'"
proof -
  have restore: "(w_observer w)(x := w_observer w x\<lparr>rlo_firing := False\<rparr>) = w_observer w"
    using assms(4) by (auto simp: fun_eq_iff)
  show ?thesis
  proof (cases "rlo_callout (w_observer w x)")
    case True
    obtain w' where w': "do_callout E (CallObserver x activity) (upd_observer w x (\<lambda>x. x\<lparr>rlo_firing := True\<rparr>)) = Some w'"
      "ticked [CallObserver x activity] (upd_observer w x (\<lambda>x. x\<lparr>rlo_firing := True\<rparr>)) w'"
      by (rule calm_callout[OF assms(1)])
    then have "fire_observer E activity x w = Some (upd_observer w' x (\<lambda>x. x\<lparr>rlo_firing := False\<rparr>))"
      using assms(2,3) True by (simp add: fire_observer_def)
    moreover have "ticked [CallObserver x activity] w (upd_observer w' x (\<lambda>x. x\<lparr>rlo_firing := False\<rparr>))"
      by (rule tickedE[OF w'(2)]) (simp add: upd_observer_def restore tickedI)
    ultimately show ?thesis using True by simp
  next
    case False
    then have "fire_observer E activity x w = Some w"
      using assms(2,3) restore by (simp add: fire_observer_def upd_observer_def)
    then show ?thesis using False by (simp add: ticked_same)
  qed
qed

lemma do_observers_repeating:
  assumes "calm E" "get_mode w rl n = Some m" "\<forall>x \<in> set (members (rlm_observers m)). rlo_repeats (w_observer w x)"
  shows "\<exists>w'. CFRunLoopDoObservers E rl n activity w = Some w' \<and>
    ticked (observer_calls activity (w_observer w) (members (rlm_observers m))) w w'"
proof -
  have "\<exists>w'. ofold (fire_observer E activity) xs w1 = Some w' \<and>
      ticked (map (\<lambda>x. CallObserver x activity) (filter (\<lambda>x. rlo_callout (w_observer w x)) xs)) w1 w'"
    if "w_observer w1 = w_observer w"
      "\<forall>x \<in> set xs. rlo_valid (w_observer w x) \<and> rlo_repeats (w_observer w x) \<and> \<not> rlo_firing (w_observer w x)" for xs w1
    using that
  proof (induction xs arbitrary: w1)
    case (Cons x xs)
    obtain w2 where w2: "fire_observer E activity x w1 = Some w2"
      "ticked (if rlo_callout (w_observer w x) then [CallObserver x activity] else []) w1 w2"
      using fire_repeating[OF assms(1), of w1 x activity] Cons.prems by auto
    obtain w3 where w3: "ofold (fire_observer E activity) xs w2 = Some w3"
      "ticked (map (\<lambda>x. CallObserver x activity) (filter (\<lambda>x. rlo_callout (w_observer w x)) xs)) w2 w3"
      using Cons.IH[of w2] Cons.prems tickedD(2)[OF w2(2)] by auto
    show ?case using w2(1) w3(1) ticked_trans[OF w2(2) w3(2)] by (auto split: if_splits)
  qed (simp add: ticked_same)
  from this[of w "collected_observers activity w (members (rlm_observers m))"] assms(2,3) show ?thesis
    by (auto simp: CFRunLoopDoObservers_def collected_observers_def observer_calls_def)
qed

section \<open>Sources\<close>

definition ready :: "(ptr \<Rightarrow> CFRunLoopSource) \<Rightarrow> ptr \<Rightarrow> bool" where
  "ready S x \<longleftrightarrow> rls_version (S x) = 0 \<and> rls_valid (S x) \<and> rls_signaled (S x)"

definition unsignal :: "ptr list \<Rightarrow> (ptr \<Rightarrow> CFRunLoopSource) \<Rightarrow> ptr \<Rightarrow> CFRunLoopSource" where
  "unsignal xs S x = (if x \<in> set xs then S x\<lparr>rls_signaled := False\<rparr> else S x)"

definition source_calls :: "(ptr \<Rightarrow> CFRunLoopSource) \<Rightarrow> ptr list \<Rightarrow> rl_call list" where
  "source_calls S xs = map PerformSource0 (filter (\<lambda>x. rls_perform (S x) \<noteq> NULL) xs)"

text \<open>The sources that are performed: those that are ready, in the stable order of their order fields.\<close>

definition performed :: "(ptr \<Rightarrow> CFRunLoopSource) \<Rightarrow> bool \<Rightarrow> ptr list \<Rightarrow> ptr list" where
  "performed S stopAfterHandle xs =
     (let ys = sort_key (\<lambda>x. rls_order (S x)) (filter (ready S) xs) in if stopAfterHandle then take 1 ys else ys)"

fun collected_of :: "ptr list \<Rightarrow> collected" where
  "collected_of [] = NoSource"
| "collected_of [x] = OneSource x"
| "collected_of xs = SourceArray xs"

lemma collect_sources: "foldl (CFRunLoopCollectSources0 S) NoSource xs = collected_of (filter (ready S) xs)"
proof -
  have "foldl (CFRunLoopCollectSources0 S) (collected_of ys) xs = collected_of (ys @ filter (ready S) xs)" for ys
  proof (induction xs arbitrary: ys)
    case (Cons x xs)
    have "CFRunLoopCollectSources0 S (collected_of ys) x = collected_of (if ready S x then ys @ [x] else ys)"
      by (cases ys rule: collected_of.cases) (auto simp: ready_def)
    then show ?case using Cons.IH by simp
  qed simp
  from this[of "[]"] show ?thesis by simp
qed

interpretation source_order: cf_comparator "\<lambda>a b. CFRunLoopSourceComparator S a b = kCFCompareGreaterThan" for S
  by unfold_locales (auto simp: CFRunLoopSourceComparator_def split: if_splits)

lemma sort_sources:
  assumes "length xs \<le> 2 ^ 60 - 1"
  shows "CFArraySortValues False False (CFRunLoopSourceComparator S) (CFRangeMake 0 (length xs)) xs =
    Some (sort_key (\<lambda>x. rls_order (S x)) xs)"
proof -
  let ?gt = "\<lambda>a b. CFRunLoopSourceComparator S a b = kCFCompareGreaterThan" and ?key = "\<lambda>x. rls_order (S x)"
  have gt: "?gt a b \<longleftrightarrow> ?key b < ?key a" for a b by (auto simp: CFRunLoopSourceComparator_def)
  have less: "\<forall>a b. CFRunLoopSourceComparator S b a = kCFCompareLessThan \<longleftrightarrow> ?gt a b"
    by (auto simp: CFRunLoopSourceComparator_def)
  obtain ys where ys: "stable_sorted ?gt xs ys"
    "CFArraySortValues False False (CFRunLoopSourceComparator S) (CFRangeMake 0 (length xs)) xs = Some ys"
    using array_sort_values[OF source_order.cf_comparator_axioms less, of 0 "length xs" xs] assms by force
  have eqv: "eqv ?gt z = (\<lambda>y. ?key y = ?key z)" for z unfolding eqv_def gt by (simp add: fun_eq_iff) linarith
  have "sorted_wrt (\<lambda>a b. \<not> ?gt a b) (sort_key ?key xs)"
    using sorted_sort_key[of ?key xs] unfolding gt not_less sorted_map .
  then have "stable_sorted ?gt xs (sort_key ?key xs)"
    unfolding stable_sorted_def rearr_def eqv by (simp add: sort_key_stable)
  then show ?thesis using source_order.stable_unique[OF ys(1)] ys(2) by simp
qed

lemma unsignal_sel [simp]:
  "rls_perform (unsignal xs S x) = rls_perform (S x)" "rls_valid (unsignal xs S x) = rls_valid (S x)"
  "rls_order (unsignal xs S x) = rls_order (S x)"
  by (simp_all add: unsignal_def)

lemma unsignal_Nil [simp]: "unsignal [] S = S"
  by (simp add: unsignal_def fun_eq_iff)

lemma unsignal_Cons: "unsignal xs (unsignal [x] S) = unsignal (x # xs) S"
  by (auto simp: unsignal_def fun_eq_iff)

lemma ticked_source: "ticked cs (w\<lparr>w_source := S\<rparr>) w' \<Longrightarrow> ticked cs (w\<lparr>w_source := S'\<rparr>) (w'\<lparr>w_source := S'\<rparr>)"
  by (erule tickedE) (cases w, use tickedI[of "w\<lparr>w_source := S'\<rparr>"] in simp)

lemma perform_ready:
  assumes "calm E" "rls_signaled (w_source w x)" "rls_valid (w_source w x)"
  shows "\<exists>w'. perform_source0 E x handled w = Some (w', True) \<and>
    ticked (source_calls (w_source w) [x]) (w\<lparr>w_source := unsignal [x] (w_source w)\<rparr>) w'"
proof -
  have upd: "upd_source w x (\<lambda>s. s\<lparr>rls_signaled := False\<rparr>) = w\<lparr>w_source := unsignal [x] (w_source w)\<rparr>"
  proof -
    have "(w_source w)(x := w_source w x\<lparr>rls_signaled := False\<rparr>) = unsignal [x] (w_source w)"
      by (simp add: unsignal_def fun_eq_iff)
    then show ?thesis by (simp add: upd_source_def)
  qed
  obtain w' where w': "do_callout E (PerformSource0 x) (w\<lparr>w_source := unsignal [x] (w_source w)\<rparr>) = Some w'"
    "ticked [PerformSource0 x] (w\<lparr>w_source := unsignal [x] (w_source w)\<rparr>) w'"
    by (rule calm_callout[OF assms(1)])
  show ?thesis
    by (cases "rls_perform (w_source w x) = NULL")
      (use assms(2,3) w' in \<open>simp_all add: perform_source0_def upd source_calls_def ticked_same\<close>)
qed

lemma perform_all:
  assumes "calm E" "distinct xs" "\<forall>x \<in> set xs. rls_signaled (w_source w x) \<and> rls_valid (w_source w x)"
  shows "\<exists>w'. perform_sources0 E False xs handled w = Some (w', handled \<or> xs \<noteq> []) \<and>
    ticked (source_calls (w_source w) xs) (w\<lparr>w_source := unsignal xs (w_source w)\<rparr>) w'"
  using assms(2,3)
proof (induction xs arbitrary: handled w)
  case Nil
  have "w\<lparr>w_source := w_source w\<rparr> = w" by simp
  then show ?case by (simp add: source_calls_def ticked_same)
next
  case (Cons x xs)
  let ?S = "w_source w"
  obtain w1 where w1: "perform_source0 E x handled w = Some (w1, True)"
    "ticked (source_calls ?S [x]) (w\<lparr>w_source := unsignal [x] ?S\<rparr>) w1"
    using perform_ready[OF assms(1), of w x handled] Cons.prems by auto
  have S1: "w_source w1 = unsignal [x] ?S" using tickedD(3)[OF w1(2)] by simp
  have "\<forall>y \<in> set xs. rls_signaled (w_source w1 y) \<and> rls_valid (w_source w1 y)"
    using Cons.prems by (auto simp: S1 unsignal_def)
  then obtain w2 where w2: "perform_sources0 E False xs True w1 = Some (w2, True)"
    "ticked (source_calls (w_source w1) xs) (w1\<lparr>w_source := unsignal xs (w_source w1)\<rparr>) w2"
    using Cons.IH[of w1 True] Cons.prems(1) by auto
  have calls: "source_calls (w_source w1) xs = source_calls ?S xs" by (simp add: S1 source_calls_def)
  have "ticked (source_calls ?S [x] @ source_calls ?S xs) (w\<lparr>w_source := unsignal (x # xs) ?S\<rparr>) w2"
    using ticked_trans[OF ticked_source[OF w1(2)] w2(2)[unfolded calls, unfolded S1 unsignal_Cons]] .
  moreover have "source_calls ?S [x] @ source_calls ?S xs = source_calls ?S (x # xs)" by (simp add: source_calls_def)
  ultimately show ?case using w1(1) w2(1) by simp
qed

lemma perform_first:
  assumes "calm E" "xs \<noteq> []" "\<forall>x \<in> set xs. rls_signaled (w_source w x) \<and> rls_valid (w_source w x)"
  shows "\<exists>w'. perform_sources0 E True xs False w = Some (w', True) \<and>
    ticked (source_calls (w_source w) (take 1 xs)) (w\<lparr>w_source := unsignal (take 1 xs) (w_source w)\<rparr>) w'"
  using perform_ready[OF assms(1), of w "hd xs" False] assms(2,3) by (cases xs) auto

lemma do_sources0_ready:
  assumes "calm E" "get_mode w rl n = Some m" "ev_ptrs E (members (rlm_sources0 m)) = xs"
    and "distinct xs" "length xs \<le> 2 ^ 60 - 1"
  shows "\<exists>w'. CFRunLoopDoSources0 E rl n stop w = Some (w', \<exists>x \<in> set xs. ready (w_source w) x) \<and>
    ticked (source_calls (w_source w) (performed (w_source w) stop xs))
      (w\<lparr>w_source := unsignal (performed (w_source w) stop xs) (w_source w)\<rparr>) w'"
proof -
  let ?S = "w_source w"
  define rs where "rs = filter (ready ?S) xs"
  have rs: "distinct rs" "length rs \<le> 2 ^ 60 - 1" "\<forall>x \<in> set rs. rls_signaled (?S x) \<and> rls_valid (?S x)"
    "(\<exists>x \<in> set xs. ready ?S x) \<longleftrightarrow> rs \<noteq> []"
    using assms(4) le_trans[OF length_filter_le assms(5)] by (auto simp: rs_def ready_def filter_empty_conv)
  define ys where "ys = sort_key (\<lambda>x. rls_order (?S x)) rs"
  have ys: "distinct ys" "\<forall>x \<in> set ys. rls_signaled (?S x) \<and> rls_valid (?S x)" "ys = [] \<longleftrightarrow> rs = []"
    using rs(1,3) set_sort[of "\<lambda>x. rls_order (?S x)" rs] unfolding ys_def[symmetric]
    by (simp add: ys_def, blast, metis empty_set set_empty)
  have perf: "performed ?S stop xs = (if stop then take 1 ys else ys)" by (simp add: performed_def ys_def rs_def)
  have do: "CFRunLoopDoSources0 E rl n stop w = (case collected_of rs of
        NoSource \<Rightarrow> Some (w, False) | OneSource x \<Rightarrow> perform_source0 E x False w
      | SourceArray xs \<Rightarrow> do { sorted \<leftarrow> CFArraySortValues False False (CFRunLoopSourceComparator ?S) (CFRangeMake 0 (length xs)) xs;
          perform_sources0 E stop sorted False w })"
    by (simp add: CFRunLoopDoSources0_def assms(2,3) collect_sources rs_def)
  consider "rs = []" | x where "rs = [x]" | "collected_of rs = SourceArray rs" "rs \<noteq> []" by (cases rs rule: collected_of.cases) auto
  then show ?thesis
  proof cases
    case 1
    have "w\<lparr>w_source := w_source w\<rparr> = w" by simp
    then show ?thesis using do 1 rs(4) ys(3) by (simp add: perf source_calls_def ticked_same)
  next
    case (2 x)
    then have "performed ?S stop xs = [x]" by (simp add: perf ys_def)
    then show ?thesis using do 2 rs(3,4) perform_ready[OF assms(1), of w x False] by simp
  next
    case 3
    then have "CFRunLoopDoSources0 E rl n stop w = perform_sources0 E stop ys False w"
      using do sort_sources[OF rs(2), of ?S] by (simp add: ys_def)
    then show ?thesis using 3(2) rs(4) ys perform_first[OF assms(1), of ys w] perform_all[OF assms(1), of ys w False]
      unfolding perf by (cases stop) simp_all
  qed
qed

section \<open>An activation that polls\<close>

text \<open>
  What stays the same between the steps of an activation: the mode apart from its port set, the observers the empty queue of
  blocks and that no stop was requested; and what is known of the sources, the calls made so far and the clock.
\<close>

definition idle :: "ptr \<Rightarrow> mode_name \<Rightarrow> CFRunLoopMode \<Rightarrow> (ptr \<Rightarrow> CFRunLoopObserver) \<Rightarrow>
    (ptr \<Rightarrow> CFRunLoopSource) \<Rightarrow> rl_call list \<Rightarrow> world \<Rightarrow> bool" where
  "idle rl n m ob S cs w \<longleftrightarrow> (\<exists>ps. get_mode w rl n = Some (m\<lparr>rlm_portSet := ps\<rparr>)) \<and> w_observer w = ob \<and> w_source w = S \<and>
     w_calls w = cs \<and> rl_blocks_head (w_loop w rl) = NULL \<and> \<not> CFRunLoopIsStopped (w_loop w rl) \<and> 0 < w_tsr w"

lemma idle_ticked:
  assumes "idle rl n m ob S cs w" "ticked ds w w'"
  shows "idle rl n m ob S (cs @ ds) w'"
  using assms(1) tickedD[OF assms(2)] unfolding idle_def by (auto intro: order.strict_trans2)

lemma idle_loop:
  assumes "idle rl n m ob S cs w" "\<And>l. rl_modes (f l) = rl_modes l" "\<And>l. rl_blocks_head (f l) = rl_blocks_head l"
    and "\<And>l. CFRunLoopIsStopped (f l) = CFRunLoopIsStopped l"
  shows "idle rl n m ob S cs (upd_loop w rl f)"
  using assms by (simp add: idle_def upd_loop_def get_mode_def)

lemma idle_port_set:
  assumes "idle rl n m ob S cs w"
  shows "idle rl n m ob S cs (upd_mode w rl n (\<lambda>m. m\<lparr>rlm_portSet := f m\<rparr>))"
  using assms by (auto simp: idle_def CFRunLoopIsStopped_def)

lemma idle_blocks: "idle rl n m ob S cs w \<Longrightarrow> CFRunLoopDoBlocks E rl n w = Some (w, False)"
  by (simp add: idle_def CFRunLoopDoBlocks_def)

text \<open>The mode's mask covers its observers, and its observers repeat.\<close>

definition observed :: "CFRunLoopMode \<Rightarrow> (ptr \<Rightarrow> CFRunLoopObserver) \<Rightarrow> bool" where
  "observed m ob \<longleftrightarrow> (\<forall>x \<in> set (members (rlm_observers m)). rlo_repeats (ob x) \<and>
     rlo_activities (ob x) AND rlm_observerMask m = rlo_activities (ob x))"

lemma idle_observers:
  assumes "calm E" "observed m ob" "idle rl n m ob S cs w"
  shows "\<exists>w'. observers_if E rl n activity w = Some w' \<and>
    idle rl n m ob S (cs @ observer_calls activity ob (members (rlm_observers m))) w'"
proof -
  obtain ps where ps: "get_mode w rl n = Some (m\<lparr>rlm_portSet := ps\<rparr>)" and ob: "w_observer w = ob"
    using assms(3) by (auto simp: idle_def)
  show ?thesis
  proof (cases "rlm_observerMask m AND activity = 0")
    case True
    have "rlo_activities (ob x) AND activity = 0" if "x \<in> set (members (rlm_observers m))" for x
    proof -
      have "rlo_activities (ob x) AND activity = (rlo_activities (ob x) AND rlm_observerMask m) AND activity"
        using assms(2) that by (simp add: observed_def)
      also have "\<dots> = 0" by (simp only: and.assoc True and_zero_eq)
      finally show ?thesis .
    qed
    then have "observer_calls activity ob (members (rlm_observers m)) = []"
      by (auto simp: observer_calls_def filter_empty_conv)
    then show ?thesis using True ps assms(3) by (simp add: observers_if_def)
  next
    case False
    obtain w' where "CFRunLoopDoObservers E rl n activity w = Some w'"
      "ticked (observer_calls activity ob (members (rlm_observers m))) w w'"
      using do_observers_repeating[OF assms(1) ps, of activity] assms(2) ob by (auto simp: observed_def)
    then show ?thesis using False ps idle_ticked[OF assms(3)] by (auto simp: observers_if_def)
  qed
qed

lemma idle_wait_loop:
  assumes "calm E" "idle rl n m ob S cs w" "q \<noteq> MACH_PORT_NULL"
  shows "\<exists>w'. wait_loop E rl n q True w = Some (w', MACH_PORT_NULL) \<and> idle rl n m ob S cs w'"
proof -
  obtain ps where ps: "get_mode w rl n = Some (m\<lparr>rlm_portSet := ps\<rparr>)" using assms(2) by (auto simp: idle_def)
  obtain t s where wait: "w_tsr w \<le> t" "ev_wait E ps True w = (w\<lparr>w_tsr := t, w_time := s\<rparr>, RcvTimedOut)"
    using assms(1) unfolding calm_def by blast
  have "CFRunLoopServiceMachPort E ps True w = Some (w\<lparr>w_tsr := t, w_time := s\<rparr>, False, MACH_PORT_NULL)"
    by (subst CFRunLoopServiceMachPort.simps) (simp only: wait(2) prod.case mach_ret.case)
  then have "wait_loop E rl n q True w = Some (w\<lparr>w_tsr := t, w_time := s\<rparr>, MACH_PORT_NULL)"
    using ps assms(3) by (subst wait_loop.simps) simp
  moreover have "ticked [] w (w\<lparr>w_tsr := t, w_time := s\<rparr>)" using tickedI[OF wait(1), of "[]" s] by simp
  ultimately show ?thesis using idle_ticked[OF assms(2)] by fastforce
qed

lemma idle_wait:
  assumes "calm E" "idle rl n m ob S cs w" "q \<noteq> MACH_PORT_NULL"
  shows "\<exists>w'. run_wait E rl n dispatchPort q True w = Some (w', MACH_PORT_NULL) \<and> idle rl n m ob S cs w'"
proof -
  have "idle rl n m ob S cs (upd_mode (upd_loop w rl (\<lambda>l. l\<lparr>rl_sleeping := True\<rparr>)) rl n
       (\<lambda>m. m\<lparr>rlm_portSet := snd (CFPortSetInsert dispatchPort (rlm_portSet m))\<rparr>))"
    by (intro idle_port_set idle_loop assms(2)) (simp_all add: CFRunLoopIsStopped_def)
  then obtain w1 where w1: "wait_loop E rl n q True (upd_mode (upd_loop w rl (\<lambda>l. l\<lparr>rl_sleeping := True\<rparr>)) rl n
       (\<lambda>m. m\<lparr>rlm_portSet := snd (CFPortSetInsert dispatchPort (rlm_portSet m))\<rparr>)) = Some (w1, MACH_PORT_NULL)"
    "idle rl n m ob S cs w1" using idle_wait_loop[OF assms(1) _ assms(3)] by blast
  have "idle rl n m ob S cs (upd_loop (upd_mode w1 rl n
      (\<lambda>m. m\<lparr>rlm_portSet := snd (CFPortSetRemove dispatchPort (rlm_portSet m))\<rparr>)) rl
      (\<lambda>l. (CFRunLoopSetIgnoreWakeUps l)\<lparr>rl_sleeping := False\<rparr>))"
    by (intro idle_loop idle_port_set w1(2)) (simp_all add: CFRunLoopSetIgnoreWakeUps_def CFRunLoopIsStopped_def)
  then show ?thesis using w1(1) by (simp add: run_wait_def)
qed

lemma idle_sources:
  assumes "calm E" "idle rl n m ob S cs w" "ev_ptrs E (members (rlm_sources0 m)) = xs" "distinct xs" "length xs \<le> 2 ^ 60 - 1"
  shows "\<exists>w'. CFRunLoopDoSources0 E rl n stop w = Some (w', \<exists>x \<in> set xs. ready S x) \<and>
    idle rl n m ob (unsignal (performed S stop xs) S) (cs @ source_calls S (performed S stop xs)) w'"
proof -
  obtain ps where ps: "get_mode w rl n = Some (m\<lparr>rlm_portSet := ps\<rparr>)" and S: "w_source w = S"
    using assms(2) by (auto simp: idle_def)
  obtain w' where w': "CFRunLoopDoSources0 E rl n stop w = Some (w', \<exists>x \<in> set xs. ready S x)"
    "ticked (source_calls S (performed S stop xs)) (w\<lparr>w_source := unsignal (performed S stop xs) S\<rparr>) w'"
    using do_sources0_ready[OF assms(1) ps _ assms(4,5), of stop] assms(3) S by auto
  have "idle rl n m ob (unsignal (performed S stop xs) S) cs (w\<lparr>w_source := unsignal (performed S stop xs) S\<rparr>)"
    using assms(2) by (auto simp: idle_def get_mode_def)
  then show ?thesis using w' idle_ticked by blast
qed

lemma poll_turn:
  assumes "calm E" "observed m ob" "idle rl n m ob S cs w" "ev_ptrs E (members (rlm_sources0 m)) = xs"
    and "distinct xs" "length xs \<le> 2 ^ 60 - 1" "q \<noteq> MACH_PORT_NULL"
  shows "\<exists>w'. run_turn E rl n stop \<lparr>tc_termTSR = 0, tc_timer = False\<rparr> dispatchPort q True w =
      Some (w', if (\<exists>x \<in> set xs. ready S x) \<and> stop then 4 else 3, False) \<and>
    idle rl n m ob (unsignal (performed S stop xs) S)
      (cs @ observer_calls kCFRunLoopBeforeTimers ob (members (rlm_observers m)) @
       observer_calls kCFRunLoopBeforeSources ob (members (rlm_observers m)) @ source_calls S (performed S stop xs)) w'"
    (is "\<exists>w'. _ \<and> idle rl n m ob ?S ?cs w'")
proof -
  have "idle rl n m ob S cs (upd_loop w rl CFRunLoopUnsetIgnoreWakeUps)"
    by (rule idle_loop[OF assms(3)]) (simp_all add: CFRunLoopUnsetIgnoreWakeUps_def CFRunLoopIsStopped_def)
  then obtain w1 where w1: "observers_if E rl n kCFRunLoopBeforeTimers (upd_loop w rl CFRunLoopUnsetIgnoreWakeUps) = Some w1"
    "idle rl n m ob S (cs @ observer_calls kCFRunLoopBeforeTimers ob (members (rlm_observers m))) w1"
    using idle_observers[OF assms(1,2)] by blast
  obtain w2 where w2: "observers_if E rl n kCFRunLoopBeforeSources w1 = Some w2"
    "idle rl n m ob S ((cs @ observer_calls kCFRunLoopBeforeTimers ob (members (rlm_observers m))) @
       observer_calls kCFRunLoopBeforeSources ob (members (rlm_observers m))) w2"
    using idle_observers[OF assms(1,2) w1(2)] by blast
  obtain w3 where w3: "CFRunLoopDoSources0 E rl n stop w2 = Some (w3, \<exists>x \<in> set xs. ready S x)" "idle rl n m ob ?S ?cs w3"
    using idle_sources[OF assms(1) w2(2) assms(4-6), of stop] by auto
  have src: "run_sources E rl n stop w = Some (w3, \<exists>x \<in> set xs. ready S x)"
    using w1(1) w2(1) w3(1) by (simp add: run_sources_def idle_blocks[OF w2(2)] idle_blocks[OF w3(2)])
  obtain w4 where w4: "run_wait E rl n dispatchPort q True w3 = Some (w4, MACH_PORT_NULL)" "idle rl n m ob ?S ?cs w4"
    using idle_wait[OF assms(1) w3(2) assms(7)] by blast
  let ?w5 = "upd_loop w4 rl CFRunLoopSetIgnoreWakeUps"
  have w5: "idle rl n m ob ?S ?cs ?w5"
    by (rule idle_loop[OF w4(2)]) (simp_all add: CFRunLoopSetIgnoreWakeUps_def CFRunLoopIsStopped_def)
  then obtain ps where "get_mode ?w5 rl n = Some (m\<lparr>rlm_portSet := ps\<rparr>)" by (auto simp: idle_def)
  then have port: "handle_port E rl n dispatchPort q MACH_PORT_NULL h ?w5 = Some (?w5, h, False)" for h
    by (simp add: handle_port_def del: get_mode_upd_loop)
  have "0 < w_tsr ?w5" using w5 by (simp add: idle_def)
  then have result: "turn_result E rl n stop \<lparr>tc_termTSR = 0, tc_timer = False\<rparr> h ?w5 =
      Some (?w5, if h \<and> stop then 4 else 3)" for h
    by (simp add: turn_result_def term_now_def)
  have "run_turn E rl n stop \<lparr>tc_termTSR = 0, tc_timer = False\<rparr> dispatchPort q True w =
      Some (?w5, if (\<exists>x \<in> set xs. ready S x) \<and> stop then 4 else 3, False)"
    using src w4(1) by (simp add: run_turn_def term_now_def port idle_blocks[OF w5] result)
  then show ?thesis using w5 by blast
qed

lemma poll_run:
  assumes "calm E" "rl_inv w" "rl \<noteq> NULL" "\<not> rl_deallocating (w_loop w rl)" "CFRunLoopModeIsEmpty E w rl n = Some False"
    and "get_mode w rl n = Some m" "\<not> rlm_stopped m" "rlm_queuePort m \<noteq> MACH_PORT_NULL"
    and "\<forall>x \<in> set (members (rlm_observers m)). rlo_repeats (w_observer w x)" "rl_blocks_head (w_loop w rl) = NULL"
    and "ev_ptrs E (members (rlm_sources0 m)) = xs" "distinct xs" "length xs \<le> 2 ^ 60 - 1"
    and "seconds \<le> 0" "0 < w_tsr w"
  shows "\<exists>w'. CFRunLoopRunSpecific E rl n seconds stop w =
      Some (w', if (\<exists>x \<in> set xs. ready (w_source w) x) \<and> stop then 4 else 3) \<and>
    w_calls w' = w_calls w @ observer_calls kCFRunLoopEntry (w_observer w) (members (rlm_observers m)) @
      observer_calls kCFRunLoopBeforeTimers (w_observer w) (members (rlm_observers m)) @
      observer_calls kCFRunLoopBeforeSources (w_observer w) (members (rlm_observers m)) @
      source_calls (w_source w) (performed (w_source w) stop xs) @
      observer_calls kCFRunLoopExit (w_observer w) (members (rlm_observers m)) \<and>
    w_source w' = unsignal (performed (w_source w) stop xs) (w_source w) \<and> w_observer w' = w_observer w \<and>
    rl_currentMode (w_loop w' rl) = rl_currentMode (w_loop w rl) \<and> rl_perRunData (w_loop w' rl) = rl_perRunData (w_loop w rl)"
proof -
  let ?ob = "w_observer w" and ?S = "w_source w" and ?os = "members (rlm_observers m)"
  let ?w1 = "upd_loop w rl (\<lambda>l. (fst (CFRunLoopPushPerRunData l))\<lparr>rl_currentMode := Some n\<rparr>)"
  have observed: "observed m ?ob"
    using observers_invD(4)[of w _ rl n] assms(2,6,9) by (simp add: observed_def rl_inv_def observers_of_def mask_of_def)
  have m: "m\<lparr>rlm_portSet := rlm_portSet m\<rparr> = m" by simp
  have "\<exists>ps. get_mode ?w1 rl n = Some (m\<lparr>rlm_portSet := ps\<rparr>)"
    using assms(6) m by (auto simp: get_mode_upd_loop CFRunLoopPushPerRunData_def get_mode_def intro: exI[of _ "rlm_portSet m"])
  then have "idle rl n m ?ob ?S (w_calls w) ?w1"
    using assms(10,15) by (simp add: idle_def upd_loop_def CFRunLoopPushPerRunData_def CFRunLoopIsStopped_def)
  then obtain w2 where w2: "observers_if E rl n kCFRunLoopEntry ?w1 = Some w2"
    "idle rl n m ?ob ?S (w_calls w @ observer_calls kCFRunLoopEntry ?ob ?os) w2"
    using idle_observers[OF assms(1) observed] by blast
  then obtain ps where ps: "get_mode w2 rl n = Some (m\<lparr>rlm_portSet := ps\<rparr>)" "\<not> CFRunLoopIsStopped (w_loop w2 rl)"
    by (auto simp: idle_def)
  define d where "d = (if serves_main_queue E w2 rl n then ev_mainQueuePort E else MACH_PORT_NULL)"
  obtain w3 where w3: "run_turn E rl n stop \<lparr>tc_termTSR = 0, tc_timer = False\<rparr> d (rlm_queuePort m) True w2 =
      Some (w3, if (\<exists>x \<in> set xs. ready ?S x) \<and> stop then 4 else 3, False)"
    "idle rl n m ?ob (unsignal (performed ?S stop xs) ?S) ((w_calls w @ observer_calls kCFRunLoopEntry ?ob ?os) @
      observer_calls kCFRunLoopBeforeTimers ?ob ?os @ observer_calls kCFRunLoopBeforeSources ?ob ?os @
      source_calls ?S (performed ?S stop xs)) w3"
    using poll_turn[OF assms(1) observed w2(2) assms(11-13,8)] by blast
  have mode: "CFRunLoopRunMode E rl n seconds stop w2 = Some (w3, if (\<exists>x \<in> set xs. ready ?S x) \<and> stop then 4 else 3)"
    using ps assms(7,8,14) w3(1) by (simp add: CFRunLoopRunMode_def timeout_for_def d_def[symmetric] run_loop.simps)
  obtain w4 where w4: "observers_if E rl n kCFRunLoopExit w3 = Some w4"
    "idle rl n m ?ob (unsignal (performed ?S stop xs) ?S) (((w_calls w @ observer_calls kCFRunLoopEntry ?ob ?os) @
      observer_calls kCFRunLoopBeforeTimers ?ob ?os @ observer_calls kCFRunLoopBeforeSources ?ob ?os @
      source_calls ?S (performed ?S stop xs)) @ observer_calls kCFRunLoopExit ?ob ?os) w4"
    using idle_observers[OF assms(1) observed w3(2)] by blast
  have "CFRunLoopRunSpecific E rl n seconds stop w = Some (upd_loop w4 rl (\<lambda>l. (CFRunLoopPopPerRunData l
      (rl_perRunData (w_loop w rl)))\<lparr>rl_currentMode := rl_currentMode (w_loop w rl)\<rparr>),
      if (\<exists>x \<in> set xs. ready ?S x) \<and> stop then 4 else 3)"
    using assms(3-5) w2(1) mode w4(1) by (simp add: CFRunLoopRunSpecific_def CFRunLoopPushPerRunData_def)
  then show ?thesis using w4(2) by (auto simp: idle_def upd_loop_def CFRunLoopPopPerRunData_def)
qed

section \<open>Properties\<close>

text \<open>
  A run loop whose default mode has an observer and two signalled sources, the second of which comes first by its
  order, five ticks after the start of the clock.
\<close>

definition busy :: "world option" where
  "busy = do {
     let w0 = upd_source (upd_source blank_world 6 (\<lambda>s. s\<lparr>rls_order := 2\<rparr>)) 7 (\<lambda>s. s\<lparr>rls_order := 1\<rparr>);
     w1 \<leftarrow> add_item 1 quiet_env 1 (ObserverItem 5) kCFRunLoopDefaultMode w0;
     w2 \<leftarrow> add_item 1 quiet_env 1 (SourceItem 6) kCFRunLoopDefaultMode w1;
     w3 \<leftarrow> add_item 1 quiet_env 1 (SourceItem 7) kCFRunLoopDefaultMode w2;
     Some ((CFRunLoopSourceSignal (CFRunLoopSourceSignal w3 6) 7)\<lparr>w_tsr := 5, w_calls := []\<rparr>)
   }"

definition busy_world :: world where
  "busy_world = the busy"

lemma busy_facts:
  obtains m where "busy = Some busy_world" "get_mode busy_world 1 kCFRunLoopDefaultMode = Some m"
    "members (rlm_sources0 m) = [6, 7]" "members (rlm_observers m) = [5]" "\<not> rlm_stopped m" "rlm_queuePort m = 2"
    "rl_blocks_head (w_loop busy_world 1) = NULL" "\<not> rl_deallocating (w_loop busy_world 1)" "w_tsr busy_world = 5"
    "w_calls busy_world = []" "CFRunLoopModeIsEmpty quiet_env busy_world 1 kCFRunLoopDefaultMode = Some False"
proof -
  have a: "map_option (\<lambda>w. map_option (\<lambda>m. (members (rlm_sources0 m), members (rlm_observers m), rlm_stopped m, rlm_queuePort m))
      (get_mode w 1 kCFRunLoopDefaultMode)) busy = Some (Some ([6, 7], [5], False, 2))" by code_simp
  have b: "map_option (\<lambda>w. (rl_blocks_head (w_loop w 1), rl_deallocating (w_loop w 1), w_tsr w, w_calls w,
      CFRunLoopModeIsEmpty quiet_env w 1 kCFRunLoopDefaultMode)) busy = Some (NULL, False, 5, [], Some False)" by code_simp
  obtain w where w: "busy = Some w" using b by (cases busy) auto
  then have "busy_world = w" unfolding busy_world_def by (rule arg_cong[where f = the, THEN trans]) simp
  then show ?thesis using that a[unfolded w] b[unfolded w] w by auto
qed

lemma busy_objects:
  "map (\<lambda>x. rlo_repeats (w_observer busy_world x) \<and> rlo_valid (w_observer busy_world x) \<and> \<not> rlo_firing (w_observer busy_world x) \<and>
     rlo_callout (w_observer busy_world x)) [5] = [True]"
  "map (\<lambda>x. rlo_activities (w_observer busy_world x)) [5] = [kCFRunLoopBeforeTimers]"
  "map (\<lambda>x. (ready (w_source busy_world) x, rls_perform (w_source busy_world x) \<noteq> NULL, rls_order (w_source busy_world x))) [6, 7] =
     [(True, True, 2), (True, True, 1)]"
  by (simp only: list.map busy_world_def, code_simp)+

lemma busy_inv: "rl_inv busy_world"
proof -
  let ?w0 = "upd_source (upd_source blank_world 6 (\<lambda>s. s\<lparr>rls_order := 2\<rparr>)) 7 (\<lambda>s. s\<lparr>rls_order := 1\<rparr>)"
  obtain w1 w2 w3 where w: "add_item 1 quiet_env 1 (ObserverItem 5) kCFRunLoopDefaultMode ?w0 = Some w1"
    "add_item 1 quiet_env 1 (SourceItem 6) kCFRunLoopDefaultMode w1 = Some w2"
    "add_item 1 quiet_env 1 (SourceItem 7) kCFRunLoopDefaultMode w2 = Some w3"
    "busy_world = (CFRunLoopSourceSignal (CFRunLoopSourceSignal w3 6) 7)\<lparr>w_tsr := 5, w_calls := []\<rparr>"
    by (rule busy_facts) (auto simp: busy_def bind_eq_Some_conv Let_def)
  have "rl_inv (blank_world\<lparr>w_source := w_source ?w0\<rparr>)"
    by (rule blank_sources_inv) (simp_all add: blank_world_def blank_source_def)
  then have "rl_inv ?w0" by (simp add: upd_source_def)
  note add_item_inv[OF quiet_env_ok w(1) this]
  note add_item_inv[OF quiet_env_ok w(2) this]
  note add_item_inv[OF quiet_env_ok w(3) this]
  then have "rl_inv (CFRunLoopSourceSignal (CFRunLoopSourceSignal w3 6) 7)"
    by (meson api_step_inv api_step.SourceSignal quiet_env_ok)
  moreover have "rl_inv (v\<lparr>w_tsr := t, w_calls := cs\<rparr>) = rl_inv v" for v t cs by (rule rl_inv_cong) simp_all
  ultimately show ?thesis unfolding w(4) by simp
qed

lemma quiet_calm: "calm quiet_env"
proof -
  have "w_tsr w \<le> w_tsr w \<and> w = w\<lparr>w_tsr := w_tsr w, w_time := w_time w\<rparr>" for w by simp
  then show ?thesis unfolding calm_def quiet_env_def by (simp; metis)
qed

text \<open>
  C6. When its callbacks leave the run loop alone, \<^verbatim>\<open>__CFRunLoopDoSources0\<close> returns and performs exactly the valid
  signalled version 0 sources of the mode, in ascending order of their order fields and in the order of the enumeration
  where those are equal; only the first of them when it is to stop after a source. Each source is unsignalled
  before it is performed, the others keep their signals, and nothing else of the run loop changes.
\<close>

theorem do_sources0_order:
  assumes "calm E" "get_mode w rl n = Some m" "ev_ptrs E (members (rlm_sources0 m)) = xs"
    and "distinct xs" "length xs \<le> 2 ^ 60 - 1"
  shows "\<exists>w'. CFRunLoopDoSources0 E rl n stop w = Some (w', \<exists>x \<in> set xs. ready (w_source w) x) \<and>
    w_calls w' = w_calls w @ source_calls (w_source w) (performed (w_source w) stop xs) \<and>
    w_source w' = unsignal (performed (w_source w) stop xs) (w_source w) \<and>
    w_loop w' = w_loop w \<and> w_observer w' = w_observer w \<and> w_timer w' = w_timer w"
proof -
  obtain w' where "CFRunLoopDoSources0 E rl n stop w = Some (w', \<exists>x \<in> set xs. ready (w_source w) x)"
    and t: "ticked (source_calls (w_source w) (performed (w_source w) stop xs))
      (w\<lparr>w_source := unsignal (performed (w_source w) stop xs) (w_source w)\<rparr>) w'"
    using do_sources0_ready[OF assms, of stop] by blast
  then show ?thesis using tickedD(1-5)[OF t] by simp
qed

lemma busy_performed: "performed (w_source busy_world) stop [6, 7] = (if stop then [7] else [7, 6])"
  using busy_objects(3) by (simp add: performed_def)

theorem do_sources0_order_witness:
  "\<exists>w'. CFRunLoopDoSources0 quiet_env 1 kCFRunLoopDefaultMode False busy_world = Some (w', True) \<and>
     w_calls w' = [PerformSource0 7, PerformSource0 6]"
proof -
  obtain m where m: "get_mode busy_world 1 kCFRunLoopDefaultMode = Some m" "members (rlm_sources0 m) = [6, 7]" "w_calls busy_world = []"
    by (rule busy_facts)
  have "ev_ptrs quiet_env (members (rlm_sources0 m)) = [6, 7]" by (simp add: quiet_env_def m(2))
  from do_sources0_order[OF quiet_calm m(1) this, of False] show ?thesis
    using m(3) busy_objects(3) by (auto simp: busy_performed source_calls_def)
qed

text \<open>
  C3. An activation that may not wait returns after one turn. Where the callbacks leave the run loop alone, the observers of
  the mode repeat and no block is queued, it calls the observers for entry, before timers and before sources, then
  performs the signalled sources in order, then calls the observers for exit; each group in the order of the mode's array.
  The result says whether a source was handled when the caller wants to return then, and is a timeout otherwise.
  The current mode, a pending stop request and the other data of the enclosing activation are as before.
\<close>

theorem poll_run_returns:
  assumes "calm E" "rl_inv w" "rl \<noteq> NULL" "\<not> rl_deallocating (w_loop w rl)" "CFRunLoopModeIsEmpty E w rl n = Some False"
    and "get_mode w rl n = Some m" "\<not> rlm_stopped m" "rlm_queuePort m \<noteq> MACH_PORT_NULL"
    and "\<forall>x \<in> set (members (rlm_observers m)). rlo_repeats (w_observer w x)" "rl_blocks_head (w_loop w rl) = NULL"
    and "ev_ptrs E (members (rlm_sources0 m)) = xs" "distinct xs" "length xs \<le> 2 ^ 60 - 1"
    and "seconds \<le> 0" "0 < w_tsr w"
  shows "\<exists>w'. CFRunLoopRunSpecific E rl n seconds stop w =
      Some (w', if (\<exists>x \<in> set xs. ready (w_source w) x) \<and> stop then kCFRunLoopRunHandledSource else kCFRunLoopRunTimedOut) \<and>
    w_calls w' = w_calls w @ observer_calls kCFRunLoopEntry (w_observer w) (members (rlm_observers m)) @
      observer_calls kCFRunLoopBeforeTimers (w_observer w) (members (rlm_observers m)) @
      observer_calls kCFRunLoopBeforeSources (w_observer w) (members (rlm_observers m)) @
      source_calls (w_source w) (performed (w_source w) stop xs) @
      observer_calls kCFRunLoopExit (w_observer w) (members (rlm_observers m)) \<and>
    w_source w' = unsignal (performed (w_source w) stop xs) (w_source w) \<and> w_observer w' = w_observer w \<and>
    rl_currentMode (w_loop w' rl) = rl_currentMode (w_loop w rl) \<and> rl_perRunData (w_loop w' rl) = rl_perRunData (w_loop w rl)"
  by (rule poll_run[OF assms])

lemma busy_observer_calls:
  "observer_calls kCFRunLoopBeforeTimers (w_observer busy_world) [5] = [CallObserver 5 kCFRunLoopBeforeTimers]"
  "observer_calls kCFRunLoopEntry (w_observer busy_world) [5] = []"
  "observer_calls kCFRunLoopBeforeSources (w_observer busy_world) [5] = []"
  "observer_calls kCFRunLoopExit (w_observer busy_world) [5] = []"
  using busy_objects(1,2) by (simp_all add: observer_calls_def)

theorem poll_run_returns_witness:
  "\<exists>w'. CFRunLoopRunSpecific quiet_env 1 kCFRunLoopDefaultMode 0 True busy_world = Some (w', kCFRunLoopRunHandledSource) \<and>
     w_calls w' = [CallObserver 5 kCFRunLoopBeforeTimers, PerformSource0 7] \<and> rls_signaled (w_source w' 6)"
proof -
  obtain m where m: "get_mode busy_world 1 kCFRunLoopDefaultMode = Some m" "members (rlm_sources0 m) = [6, 7]"
    "members (rlm_observers m) = [5]" "\<not> rlm_stopped m" "rlm_queuePort m = 2" "rl_blocks_head (w_loop busy_world 1) = NULL"
    "\<not> rl_deallocating (w_loop busy_world 1)" "w_tsr busy_world = 5" "w_calls busy_world = []"
    "CFRunLoopModeIsEmpty quiet_env busy_world 1 kCFRunLoopDefaultMode = Some False"
    by (rule busy_facts)
  have "ev_ptrs quiet_env (members (rlm_sources0 m)) = [6, 7]" by (simp add: quiet_env_def m(2))
  from poll_run_returns[OF quiet_calm busy_inv _ m(7,10,1,4) _ _ m(6) this, of 0 True] show ?thesis
    using m(3,5,8,9) busy_objects
    by (auto simp: busy_performed source_calls_def busy_observer_calls unsignal_def ready_def)
qed

end
