(* ===== verification/CF_RunLoop_Firing.thy ===== *)
theory CF_RunLoop_Firing
  imports CF_RunLoop_Service
begin

text \<open>Firing a repeating timer: the call, and the date the timer is given next.\<close>

lemma arm_mode_frame:
  assumes "arm_mode E rl n w = Some w'"
  shows "w_timer w' = w_timer w" "w_calls w' = w_calls w" "w_tsr w' = w_tsr w"
  using assms by (auto simp: arm_mode_def bind_eq_Some_conv upd_mode_def upd_loop_def)

lemma reposition_frame:
  assumes "reposition_in_modes E rl x names w = Some w'"
  shows "w_timer w' = w_timer w \<and> w_calls w' = w_calls w \<and> w_tsr w' = w_tsr w"
  using assms unfolding reposition_in_modes_def
  by (rule ofold_invariant[where P = "\<lambda>v. w_timer v = w_timer w \<and> w_calls v = w_calls w \<and> w_tsr v = w_tsr w"])
    (auto simp: upd_mode_def upd_loop_def split: option.split_asm)

text \<open>The first half, for a timer that repeats and whose info needs no retaining.\<close>

lemma fire_repeating_timer:
  assumes "calm E" "fire_timer E rl n x w = Some w'" "\<not> rlt_firing (w_timer w x)" "rlt_interval (w_timer w x) \<noteq> 0"
    and "rlt_retain (w_timer w x) = None"
  shows "w_timer w' = w_timer w \<and>
    w_calls w' = w_calls w @ (if rlt_callout (w_timer w x) then [CallTimer x (rlt_info (w_timer w x))] else [])"
proof -
  let ?w1 = "upd_timer w x (\<lambda>t. t\<lparr>rlt_firing := True\<rparr>)"
  let ?w2 = "upd_mode ?w1 rl n (\<lambda>m. m\<lparr>rlm_timerSoftDeadline := - 1, rlm_timerHardDeadline := - 1\<rparr>)"
  have restore: "(w_timer w)(x := w_timer w x\<lparr>rlt_firing := False\<rparr>) = w_timer w"
    using assms(3) by (auto simp: fun_eq_iff)
  obtain w3 w4 where w: "arm_mode E rl n ?w2 = Some w3"
    "(if rlt_callout (w_timer w3 x) then do_callout E (CallTimer x (rlt_info (w_timer w x))) w3 else Some w3) = Some w4"
    "w' = upd_timer w4 x (\<lambda>t. t\<lparr>rlt_firing := False\<rparr>)"
    using assms(2)[unfolded fire_timer_def Let_def assms(5) option.case] assms(4)
    by (auto simp: bind_eq_Some_conv split del: if_split)
  note f = arm_mode_frame[OF w(1)]
  have t3: "w_timer w3 = (w_timer w)(x := w_timer w x\<lparr>rlt_firing := True\<rparr>)" "w_calls w3 = w_calls w"
    unfolding f by (simp_all add: upd_mode_def upd_loop_def upd_timer_def)
  obtain v where v: "do_callout E (CallTimer x (rlt_info (w_timer w x))) w3 = Some v"
    "ticked [CallTimer x (rlt_info (w_timer w x))] w3 v" by (rule calm_callout[OF assms(1)])
  show ?thesis
    by (cases "rlt_callout (w_timer w x)") (use w(2,3) v tickedD[OF v(2)] t3 restore in \<open>auto simp: upd_timer_def\<close>)
qed

lemma reschedule_date:
  assumes "reschedule_timer E rl n x (rlt_fireTSR (w_timer w x)) w = Some w'" "timer_interval_TSR (ev_rate E) (w_timer w x) = Some i"
  shows "\<exists>tsr date. next_fire_TSR i (rlt_fireTSR (w_timer w x)) (w_tsr w') = Some tsr \<and>
    w_timer w' x = w_timer w x\<lparr>rlt_fireTSR := tsr, rlt_nextFireDate := date\<rparr> \<and> w_calls w' = w_calls w"
proof -
  obtain tsr where tsr: "next_fire_TSR i (rlt_fireTSR (w_timer w x)) (w_tsr w) = Some tsr"
    using assms by (auto simp: reschedule_timer_def Let_def bind_eq_Some_conv)
  define w1 where "w1 = upd_timer w x (\<lambda>t. t\<lparr>rlt_fireTSR := tsr,
    rlt_nextFireDate := w_time w + CFTimeIntervalUntilTSR (ev_rate E) (w_tsr w) tsr\<rparr>)"
  have "(if rlt_runLoop (w_timer w x) \<noteq> NULL
      then reposition_in_modes E (rlt_runLoop (w_timer w x)) x (ev_names E (rlt_rlModes (w_timer w x))) w1 else Some w1) = Some w'"
    using assms(1) unfolding reschedule_timer_def Let_def w1_def by (simp add: assms(2) tsr)
  then have "w_timer w' = w_timer w1 \<and> w_calls w' = w_calls w1 \<and> w_tsr w' = w_tsr w1"
    using reposition_frame by (simp split: if_split_asm)
  then show ?thesis using tsr by (auto simp: w1_def upd_timer_def)
qed

text \<open>A repeating timer that is three ticks late, alone in the default mode.\<close>

definition late_timer :: world where
  "late_timer = blank_world\<lparr>w_tsr := 33,
     w_timer := (\<lambda>_. blank_timer\<lparr>rlt_runLoop := 1, rlt_rlModes := [kCFRunLoopDefaultMode]\<rparr>),
     w_loop := (\<lambda>_. blank_loop\<lparr>rl_modes := [(kCFRunLoopDefaultMode,
       (fresh_mode kCFRunLoopDefaultMode 2 3 [])\<lparr>rlm_timers := Some [9]\<rparr>)]\<rparr>)\<rparr>"

lemma late_timer_next: "next_fire_TSR 1 30 33 = Some 34"
  by (simp add: next_fire_TSR_def next_fire_loop.simps)

lemma late_timer_interval: "timer_interval_TSR 1 (blank_timer\<lparr>rlt_runLoop := 1, rlt_rlModes := [kCFRunLoopDefaultMode]\<rparr>) = Some 1"
  by (simp add: timer_interval_TSR_def blank_timer_def CFTimeIntervalToTSR_def)

lemma late_timer_fired: "\<exists>w1 m. fire_timer quiet_env 1 kCFRunLoopDefaultMode 9 late_timer = Some w1 \<and>
    w_timer w1 = w_timer late_timer \<and> w_tsr w1 = 33 \<and> get_mode w1 1 kCFRunLoopDefaultMode = Some m \<and> rlm_timers m = Some [9] \<and>
    rlm_timerHardDeadline m = - 1"
  by (simp add: fire_timer_def late_timer_def blank_world_def blank_loop_def blank_timer_def fresh_mode_def quiet_env_def
      do_callout_def arm_mode_def CFArmNextTimerInMode_def arm_step_def cancel_mk_timer_def cancel_dispatch_timer_def
      set_deadlines_def get_mode_def upd_mode_def upd_loop_def upd_timer_def fun_eq_iff Let_def)

lemma late_timer_arm:
  assumes "rlm_timers m = Some [9]" "rlt_fireTSR (T 9) = 34" "\<not> rlt_firing (T 9)" "rlt_tolerance (T 9) = 0" "rlm_timerHardDeadline m = - 1"
  shows "\<exists>m'. CFRepositionTimerInMode 1 T m 9 True = Some m'"
proof -
  have "CFTSRToNanoseconds 1 0 = Some 0" "CFTSRToNanoseconds 1 34 = Some 34000000000" by (simp_all add: CFTSRToNanoseconds_def)
  moreover from this have "CFTSRToDispatchTime 1 34 = Some 34000000000" by (simp add: CFTSRToDispatchTime_def)
  moreover have "timer_hard_deadline 1 (T 9) = Some 34"
    by (simp add: timer_hard_deadline_def CFTimeIntervalToTSR_def assms)
  ultimately show ?thesis using assms
    by (simp add: CFRepositionTimerInMode_def CFRunLoopInsertionIndexInTimerArray_def insert_at_def CFArmNextTimerInMode_def
        arm_step_def arm_kernel_timer_def)
qed

lemma late_timer_fires: "\<exists>w'. CFRunLoopDoTimer quiet_env 1 kCFRunLoopDefaultMode 9 late_timer = Some (w', True) \<and> w_tsr w' = 33"
proof -
  let ?D = kCFRunLoopDefaultMode
  obtain w1 m where w1: "fire_timer quiet_env 1 ?D 9 late_timer = Some w1" "w_timer w1 = w_timer late_timer" "w_tsr w1 = 33"
    "get_mode w1 1 ?D = Some m" "rlm_timers m = Some [9]" "rlm_timerHardDeadline m = - 1"
    using late_timer_fired by blast
  have t: "w_timer late_timer = (\<lambda>_. blank_timer\<lparr>rlt_runLoop := 1, rlt_rlModes := [?D]\<rparr>)" "w_tsr late_timer = 33"
    by (simp_all add: late_timer_def)
  have q: "ev_rate quiet_env = 1" "ev_names quiet_env = id" by (simp_all add: quiet_env_def)
  define v where "v = upd_timer w1 9 (\<lambda>t. t\<lparr>rlt_fireTSR := 34,
    rlt_nextFireDate := w_time w1 + CFTimeIntervalUntilTSR (ev_rate quiet_env) (w_tsr w1) 34\<rparr>)"
  have v: "get_mode v 1 ?D = Some m" "w_tsr v = 33" "rlt_fireTSR (w_timer v 9) = 34" "\<not> rlt_firing (w_timer v 9)"
    "rlt_tolerance (w_timer v 9) = 0"
    using w1(3,4) by (simp_all add: v_def w1(2) t blank_timer_def)
  obtain m' where "CFRepositionTimerInMode 1 (w_timer v) m 9 True = Some m'"
    using late_timer_arm[of m "w_timer v"] w1(5,6) v(3-5) by blast
  then have "reposition_in_modes quiet_env 1 9 [?D] v = Some (upd_mode v 1 ?D (\<lambda>_. m'))"
    by (simp add: reposition_in_modes_def v(1) q)
  then have "reschedule_timer quiet_env 1 ?D 9 30 w1 = Some (upd_mode v 1 ?D (\<lambda>_. m'))"
    using late_timer_next late_timer_interval
    by (simp add: reschedule_timer_def w1(2,3) t(1) q blank_timer_def v_def[unfolded w1(3) q(1), symmetric])
  then have "CFRunLoopDoTimer quiet_env 1 ?D 9 late_timer = Some (upd_mode v 1 ?D (\<lambda>_. m'), True)"
    using w1(1,2) by (simp add: CFRunLoopDoTimer_def t blank_timer_def)
  moreover have "w_tsr (upd_mode v 1 ?D (\<lambda>_. m')) = 33" using v(2) by (simp add: upd_mode_def upd_loop_def)
  ultimately show ?thesis by blast
qed

text \<open>
  C14. A due repeating timer fires once and keeps its phase. When \<^verbatim>\<open>__CFRunLoopDoTimer\<close> returns and the callback leaves the
  run loop alone, the callback was called exactly once; the timer is valid and no longer firing; and its
  next date is the first after the current time among its last date plus multiples of the interval, however
  many were missed, or the largest signed number of ticks when the interval leads past it.
\<close>

theorem timer_fires_in_phase:
  assumes "calm E" "CFRunLoopDoTimer E rl n x w = Some (w', did)" "rlt_valid (w_timer w x)"
    and "rlt_fireTSR (w_timer w x) \<le> w_tsr w" "\<not> rlt_firing (w_timer w x)" "rlt_runLoop (w_timer w x) = rl"
    and "0 < rlt_interval (w_timer w x)" "rlt_retain (w_timer w x) = None"
    and "timer_interval_TSR (ev_rate E) (w_timer w x) = Some i" "0 < unat i" "unat i \<le> 2 ^ 62" "unat (w_tsr w') < 2 ^ 63"
  shows "did \<and> w_calls w' = w_calls w @ (if rlt_callout (w_timer w x) then [CallTimer x (rlt_info (w_timer w x))] else []) \<and>
    rlt_valid (w_timer w' x) \<and> \<not> rlt_firing (w_timer w' x) \<and>
    (if 2 ^ 63 - 1 \<le> unat (rlt_fireTSR (w_timer w x)) + unat i then rlt_fireTSR (w_timer w' x) = 2 ^ 63 - 1
     else w_tsr w' < rlt_fireTSR (w_timer w' x) \<and>
       (\<exists>k. unat (rlt_fireTSR (w_timer w' x)) = unat (rlt_fireTSR (w_timer w x)) + k * unat i \<and>
         (k = 0 \<or> unat (rlt_fireTSR (w_timer w x)) + (k - 1) * unat i \<le> unat (w_tsr w'))))"
proof -
  obtain w1 where w1: "fire_timer E rl n x w = Some w1"
    "(if rlt_valid (w_timer w1 x) then reschedule_timer E rl n x (rlt_fireTSR (w_timer w x)) w1 else Some w1) = Some w'" "did"
    using assms(2-6) unfolding CFRunLoopDoTimer_def Let_def by (auto simp: bind_eq_Some_conv split: if_split_asm)
  have f: "w_timer w1 = w_timer w"
    "w_calls w1 = w_calls w @ (if rlt_callout (w_timer w x) then [CallTimer x (rlt_info (w_timer w x))] else [])"
    using fire_repeating_timer[OF assms(1) w1(1) assms(5) _ assms(8)] assms(7) by auto
  have "reschedule_timer E rl n x (rlt_fireTSR (w_timer w1 x)) w1 = Some w'" using w1(2) assms(3) f(1) by simp
  then obtain tsr date where d: "next_fire_TSR i (rlt_fireTSR (w_timer w x)) (w_tsr w') = Some tsr"
    "w_timer w' x = w_timer w x\<lparr>rlt_fireTSR := tsr, rlt_nextFireDate := date\<rparr>" "w_calls w' = w_calls w1"
    using reschedule_date[of E rl n x w1 w' i] assms(9) f(1) by auto
  show ?thesis using next_fire_TSR_correct[OF assms(10-12), of "rlt_fireTSR (w_timer w x)"] d f(2) w1(3) assms(3,5)
    by (auto split: if_split_asm)
qed

theorem timer_fires_in_phase_witness:
  "\<exists>w'. CFRunLoopDoTimer quiet_env 1 kCFRunLoopDefaultMode 9 late_timer = Some (w', True) \<and>
     w_calls w' = [CallTimer 9 NULL] \<and> 33 < rlt_fireTSR (w_timer w' 9)"
proof -
  have t: "w_timer late_timer 9 = blank_timer\<lparr>rlt_runLoop := 1, rlt_rlModes := [kCFRunLoopDefaultMode]\<rparr>" "w_tsr late_timer = 33"
    "w_calls late_timer = []" by (simp_all add: late_timer_def blank_world_def)
  have i: "timer_interval_TSR (ev_rate quiet_env) (w_timer late_timer 9) = Some 1"
    using late_timer_interval t(1) by (simp add: quiet_env_def)
  obtain w' where w': "CFRunLoopDoTimer quiet_env 1 kCFRunLoopDefaultMode 9 late_timer = Some (w', True)" "w_tsr w' = 33"
    using late_timer_fires by blast
  show ?thesis using timer_fires_in_phase[OF quiet_calm w'(1) _ _ _ _ _ _ i] w' t by (simp add: blank_timer_def)
qed

end
