(* ===== verification/CF_RunLoop_Safety.thy ===== *)
theory CF_RunLoop_Safety
  imports CF_RunLoop_Service
begin

unbundle bit_operations_syntax

text \<open>
  What a run of the run loop keeps: the invariant of the run loop survives every activation, whatever
  the callouts do through the interface, and an activation leaves the current mode and the per-run data
  as it found them.
\<close>

section \<open>Waiting keeps the invariant\<close>

text \<open>
  Waiting for a message and draining a private queue change the state only through the run loop's functions,
  called on other threads or by the handlers on the queue.
\<close>

definition wait_ok :: "env \<Rightarrow> bool" where
  "wait_ok E \<longleftrightarrow> (\<forall>ports poll w. rl_inv w \<longrightarrow> rl_inv (fst (ev_wait E ports poll w))) \<and>
     (\<forall>rl n w. rl_inv w \<longrightarrow> rl_inv (ev_drain E rl n w))"

lemma wait_okD:
  assumes "wait_ok E" "rl_inv w"
  shows "rl_inv (fst (ev_wait E ports poll w))" "rl_inv (ev_drain E rl n w)"
  using assms unfolding wait_ok_def by blast+

lemma service_port_inv:
  assumes "CFRunLoopServiceMachPort E ports poll w = Some r" "wait_ok E" "rl_inv w"
  shows "rl_inv (fst r)"
  using assms(2,3)
proof (induction rule: CFRunLoopServiceMachPort.raw_induct[OF _ assms(1), consumes 0, case_names step])
  case (step f E ports poll w r)
  note 1 = step
  have "rl_inv (fst (ev_wait E ports poll w))" by (rule wait_okD[OF 1(3,4)])
  then show ?case using 1(1)[OF _ 1(3)] 1(2) by (auto split: prod.splits mach_ret.splits)
qed

lemma wait_loop_inv:
  assumes "wait_loop E rl n q poll w = Some r" "wait_ok E" "rl_inv w"
  shows "rl_inv (fst r)"
  using assms(2,3)
proof (induction rule: wait_loop.raw_induct[OF _ assms(1), consumes 0, case_names step])
  case (step f E rl n q poll w r)
  note 1 = step
  obtain rlm w1 ok livePort where w1: "get_mode w rl n = Some rlm"
    "CFRunLoopServiceMachPort E (rlm_portSet rlm) poll w = Some (w1, ok, livePort)"
    using 1(2) by (auto simp: bind_eq_Some_conv)
  have inv: "rl_inv w1" "rl_inv (ev_drain E rl n w1)"
    using service_port_inv[OF w1(2) 1(3,4)] wait_okD(2)[OF 1(3)] by simp_all
  have "rl_inv (upd_mode (ev_drain E rl n w1) rl n (\<lambda>m. m\<lparr>rlm_timerFired := False\<rparr>))"
    by (rule rl_inv_upd_mode_same[OF inv(2)]) (auto simp: mode_ok_def)
  moreover have "fst r = w1 \<or> fst r = upd_mode (ev_drain E rl n w1) rl n (\<lambda>m. m\<lparr>rlm_timerFired := False\<rparr>) \<or>
      f E rl n q poll (ev_drain E rl n w1) = Some r"
    using 1(2) w1 by (auto simp: bind_eq_Some_conv Let_def split: if_split_asm)
  ultimately show ?case using 1(1)[OF _ 1(3) inv(2)] inv by metis
qed

section \<open>Firing keeps the invariant\<close>

lemma do_blocks_loop_inv:
  assumes "do_blocks_loop E rl n head tail prev item did w = Some r" "env_ok E" "rl_inv w"
  shows "rl_inv (fst r)"
  using assms(2,3)
proof (induction rule: do_blocks_loop.raw_induct[OF _ assms(1), consumes 0, case_names step])
  case (step f E rl n head tail prev item did w r)
  note 1 = step
  have heap: "rl_inv (w\<lparr>w_blocks := h\<rparr>)" for h using 1(4) by (subst rl_inv_cong[of _ w]) simp_all
  show ?case
  proof (cases "item = NULL")
    case False
    then obtain it where it: "w_blocks w item = Some it" using 1(2) by (auto simp: bind_eq_Some_conv)
    show ?thesis
    proof (cases "block_applies (rl_commonModes (w_loop w rl)) n (bi_mode it)")
      case True
      then obtain h w2 w3 head' tail' where w3: "do_callout E (CallBlock (bi_block it)) (w\<lparr>w_blocks := h\<rparr>) = Some w2"
        "do_callout E (ReleaseBlock (bi_block it)) w2 = Some w3" "f E rl n head' tail' prev (bi_next it) True w3 = Some r"
        using 1(2) False it by (fastforce simp: bind_eq_Some_conv simp del: fun_upd_apply)
      have "rl_inv w3" using callout_inv[OF 1(3) w3(2) callout_inv[OF 1(3) w3(1) heap]] .
      then show ?thesis by (rule 1(1)[OF w3(3) 1(3)])
    qed (use 1 False it in simp)
  qed (use 1 in auto)
qed

lemma do_blocks_inv:
  assumes "CFRunLoopDoBlocks E rl n w = Some (w', did)" "env_ok E" "rl_inv w"
  shows "rl_inv w'"
proof (cases "rl_blocks_head (w_loop w rl) = NULL")
  case False
  let ?w1 = "upd_loop w rl (\<lambda>l. l\<lparr>rl_blocks_head := NULL, rl_blocks_tail := NULL\<rparr>)"
  obtain w2 head tail d where w2: "do_blocks_loop E rl n (rl_blocks_head (w_loop w rl)) (rl_blocks_tail (w_loop w rl)) NULL
      (rl_blocks_head (w_loop w rl)) False ?w1 = Some (w2, head, tail, d)"
    "w' = w2 \<or> (\<exists>h f. w' = upd_loop (w2\<lparr>w_blocks := h\<rparr>) rl f \<and> (\<forall>l. rl_modes (f l) = rl_modes l))"
    using assms(1) False by (fastforce simp: CFRunLoopDoBlocks_def bind_eq_Some_conv Let_def split: if_splits)
  have "rl_inv ?w1" using assms(3) by (simp add: rl_inv_upd_loop)
  then have inv: "rl_inv w2" using do_blocks_loop_inv[OF w2(1) assms(2)] by simp
  have "rl_inv (w2\<lparr>w_blocks := h\<rparr>)" for h using inv by (subst rl_inv_cong[of _ w2]) simp_all
  then show ?thesis using w2(2) inv by (auto simp: rl_inv_upd_loop)
qed (use assms in \<open>auto simp: CFRunLoopDoBlocks_def\<close>)

lemma fire_observer_inv:
  assumes "fire_observer E activity x w = Some w'" "env_ok E" "rl_inv w"
  shows "rl_inv w'"
proof (cases "rlo_valid (w_observer w x)")
  case True
  let ?w1 = "upd_observer w x (\<lambda>x. x\<lparr>rlo_firing := True\<rparr>)"
  obtain w2 w3 where w: "w2 = ?w1 \<or> do_callout E (CallObserver x activity) ?w1 = Some w2"
    "w3 = w2 \<or> CFRunLoopObserverInvalidate 2 E w2 x = Some w3" "w' = upd_observer w3 x (\<lambda>x. x\<lparr>rlo_firing := False\<rparr>)"
    using assms(1) True by (auto simp: fire_observer_def bind_eq_Some_conv Let_def split: if_split_asm)
  have "rl_inv ?w1" by (rule rl_inv_upd_observer[OF assms(3)]) simp_all
  then have "rl_inv w2" using w(1) callout_inv[OF assms(2)] by blast
  then have "rl_inv w3" using w(2) observer_invalidate_inv[OF assms(2)] by blast
  then show ?thesis unfolding w(3) by (rule rl_inv_upd_observer) simp_all
qed (use assms in \<open>simp add: fire_observer_def\<close>)

lemma do_observers_inv:
  assumes "CFRunLoopDoObservers E rl n activity w = Some w'" "env_ok E" "rl_inv w"
  shows "rl_inv w'"
proof -
  obtain xs where "ofold (fire_observer E activity) xs w = Some w'"
    using assms(1) by (auto simp: CFRunLoopDoObservers_def bind_eq_Some_conv)
  then show ?thesis by (rule ofold_invariant[where P = rl_inv]) (use assms(2,3) fire_observer_inv in blast)+
qed

lemma observers_if_inv:
  assumes "observers_if E rl n activity w = Some w'" "env_ok E" "rl_inv w"
  shows "rl_inv w'"
  using assms do_observers_inv by (auto simp: observers_if_def bind_eq_Some_conv split: if_splits)

lemma perform_source0_inv:
  assumes "perform_source0 E x handled w = Some r" "env_ok E" "rl_inv w"
  shows "rl_inv (fst r)"
proof -
  let ?w1 = "upd_source w x (\<lambda>s. s\<lparr>rls_signaled := False\<rparr>)"
  have "rl_inv ?w1" by (rule rl_inv_upd_source[OF assms(3)]) (simp_all add: source_key_def)
  moreover have "fst r = w \<or> fst r = ?w1 \<or> do_callout E (PerformSource0 x) ?w1 = Some (fst r)"
    using assms(1) by (auto simp: perform_source0_def bind_eq_Some_conv Let_def split: if_split_asm)
  ultimately show ?thesis using assms(3) callout_inv[OF assms(2)] by metis
qed

lemma perform_sources0_inv:
  assumes "perform_sources0 E stop xs handled w = Some r" "env_ok E" "rl_inv w"
  shows "rl_inv (fst r)"
  using assms(1,3)
proof (induction xs arbitrary: handled w)
  case (Cons x xs)
  obtain w1 h1 where w1: "perform_source0 E x handled w = Some (w1, h1)"
    "(if stop \<and> h1 then Some (w1, h1) else perform_sources0 E stop xs h1 w1) = Some r"
    using Cons.prems(1) by (auto simp: bind_eq_Some_conv)
  have "rl_inv w1" using perform_source0_inv[OF w1(1) assms(2) Cons.prems(2)] by simp
  then show ?case using w1(2) Cons.IH by (auto split: if_splits)
qed auto

lemma do_sources0_inv:
  assumes "CFRunLoopDoSources0 E rl n stop w = Some r" "env_ok E" "rl_inv w"
  shows "rl_inv (fst r)"
proof -
  have "r = (w, False) \<or> (\<exists>x. perform_source0 E x False w = Some r) \<or> (\<exists>xs. perform_sources0 E stop xs False w = Some r)"
  proof -
    obtain m where m: "get_mode w rl n = Some m" using assms(1) by (auto simp: CFRunLoopDoSources0_def bind_eq_Some_conv)
    show ?thesis using assms(1) m
      by (cases "foldl (CFRunLoopCollectSources0 (w_source w)) NoSource (ev_ptrs E (members (rlm_sources0 m)))")
        (auto simp: CFRunLoopDoSources0_def bind_eq_Some_conv)
  qed
  then show ?thesis using perform_source0_inv[OF _ assms(2,3)] perform_sources0_inv[OF _ assms(2,3)] assms(3) by (metis fst_conv)
qed

lemma do_source1_inv:
  assumes "CFRunLoopDoSource1 E x w = Some r" "env_ok E" "rl_inv w"
  shows "rl_inv (fst r)"
proof -
  let ?w1 = "upd_source w x (\<lambda>s. s\<lparr>rls_signaled := False\<rparr>)"
  have "rl_inv ?w1" by (rule rl_inv_upd_source[OF assms(3)]) (simp_all add: source_key_def)
  moreover have "fst r = w \<or> fst r = ?w1 \<or> do_callout E (PerformSource1 x) ?w1 = Some (fst r)"
    using assms(1) by (auto simp: CFRunLoopDoSource1_def bind_eq_Some_conv Let_def split: if_split_asm)
  ultimately show ?thesis using assms(3) callout_inv[OF assms(2)] by metis
qed


lemma arm_mode_inv:
  assumes "arm_mode E rl n w = Some w'" "rl_inv w"
  shows "rl_inv w'"
proof -
  obtain m m1 where m: "get_mode w rl n = Some m" "CFArmNextTimerInMode (ev_rate E) (w_timer w) m = Some m1"
    "w' = upd_mode w rl n (\<lambda>_. m1)"
    using assms(1) by (auto simp: arm_mode_def bind_eq_Some_conv)
  have u: "unarmed m1 = unarmed m" by (rule unarmed_arm_next[OF m(2)])
  have "mode_ok n m" using assms(2) m(1) by (simp add: rl_inv_def modes_inv_def)
  then have "mode_ok n m1" using arg_cong[OF u, of rlm_name] arg_cong[OF u, of rlm_sources0] arg_cong[OF u, of rlm_sources1]
      arg_cong[OF u, of rlm_portToV1SourceMap] by (auto simp: mode_ok_def unarmed_sel)
  moreover have "members (rlm_observers m1) = members (rlm_observers m) \<and> members (rlm_timers m1) = members (rlm_timers m) \<and>
      members (rlm_sources0 m1) = members (rlm_sources0 m) \<and> members (rlm_sources1 m1) = members (rlm_sources1 m) \<and>
      rlm_observerMask m1 = rlm_observerMask m"
    using arg_cong[OF u, of rlm_observers] arg_cong[OF u, of rlm_timers] arg_cong[OF u, of rlm_sources0]
      arg_cong[OF u, of rlm_sources1] arg_cong[OF u, of rlm_observerMask] by (simp add: unarmed_sel)
  ultimately show ?thesis unfolding m(3) using m(1) by (intro rl_inv_upd_mode_same[OF assms(2)]) auto
qed

lemma if_SomeD: "(if b then x else Some y) = Some z \<Longrightarrow> z = y \<or> x = Some z"
  by (simp split: if_split_asm)

lemma fire_timer_inv:
  assumes "fire_timer E rl n x w = Some w'" "env_ok E" "rl_inv w"
  shows "rl_inv w'"
proof -
  let ?w1 = "upd_timer w x (\<lambda>t. t\<lparr>rlt_firing := True\<rparr>)"
  let ?w2 = "upd_mode ?w1 rl n (\<lambda>m. m\<lparr>rlm_timerSoftDeadline := - 1, rlm_timerHardDeadline := - 1\<rparr>)"
  define info where "info = (case rlt_retain (w_timer w x) of Some retain \<Rightarrow> retain (rlt_info (w_timer w x)) | None \<Rightarrow> rlt_info (w_timer w x))"
  obtain a b c w3 w4 w5 w6 where steps: "arm_mode E rl n ?w2 = Some w3"
    "(if a then do_callout E (CallTimer x info) w3 else Some w3) = Some w4"
    "(if b then CFRunLoopTimerInvalidate 2 E w4 x else Some w4) = Some w5"
    "(if c then do_callout E (ReleaseInfo info) w5 else Some w5) = Some w6"
    "Some (upd_timer w6 x (\<lambda>t. t\<lparr>rlt_firing := False\<rparr>)) = Some w'"
    using assms(1) unfolding fire_timer_def Let_def info_def[symmetric] bind_eq_Some_conv by blast
  note w = steps(1) if_SomeD[OF steps(2)] if_SomeD[OF steps(3)] if_SomeD[OF steps(4)] steps(5)[symmetric, unfolded option.inject]
  have "rl_inv ?w1" by (rule rl_inv_upd_timer[OF assms(3)]) simp_all
  then have "rl_inv ?w2" by (rule rl_inv_upd_mode_same) (auto simp: mode_ok_def)
  then have "rl_inv w3" by (rule arm_mode_inv[OF w(1)])
  then have "rl_inv w4" using w(2) callout_inv[OF assms(2)] by blast
  then have "rl_inv w5" using w(3) timer_invalidate_inv[OF assms(2)] by blast
  then have "rl_inv w6" using w(4) callout_inv[OF assms(2)] by blast
  then show ?thesis unfolding w(5) by (rule rl_inv_upd_timer) simp_all
qed

lemma reschedule_timer_inv:
  assumes "reschedule_timer E rl n x oldFire w = Some w'" "env_ok E" "rl_inv w" "x \<noteq> NULL"
  shows "rl_inv w'"
proof (cases "oldFire < rlt_fireTSR (w_timer w x)")
  case True
  then show ?thesis using assms(1) arm_mode_inv[OF _ assms(3)] by (simp add: reschedule_timer_def)
next
  case False
  let ?rl = "rlt_runLoop (w_timer w x)"
  obtain i tsr where tsr: "timer_interval_TSR (ev_rate E) (w_timer w x) = Some i" "next_fire_TSR i oldFire (w_tsr w) = Some tsr"
    using assms(1) False by (auto simp: reschedule_timer_def Let_def bind_eq_Some_conv split: if_split_asm)
  define w1 where "w1 = upd_timer w x (\<lambda>t. t\<lparr>rlt_fireTSR := tsr,
    rlt_nextFireDate := w_time w + CFTimeIntervalUntilTSR (ev_rate E) (w_tsr w) tsr\<rparr>)"
  note w1 = w1_def assms(1)[unfolded reschedule_timer_def Let_def if_not_P[OF False] tsr bind.bind_lunit, folded w1_def]
  have mv: "moving x w1" unfolding w1(1) by (rule moving_start[OF assms(3)]) simp_all
  have same: "rlt_runLoop (w_timer w1 x) = ?rl" "rlt_rlModes (w_timer w1 x) = rlt_rlModes (w_timer w x)"
    by (simp_all add: w1(1))
  show ?thesis
  proof (cases "?rl = NULL")
    case True
    then have "w' = w1" using w1(2) by simp
    moreover have "x \<notin> set (timers_of w1 l k)" for l k using movingD(6,8)[OF mv] same True by fastforce
    ultimately show ?thesis using moving_done[OF mv] by blast
  next
    case False
    then have "reposition_in_modes E ?rl x (ev_names E (rlt_rlModes (w_timer w x))) w1 = Some w'" using w1(2) by simp
    note mv2 = reposition_moves[OF this mv assms(4)]
    show ?thesis
    proof (rule moving_done[OF conjunct1[OF mv2]])
      fix l k
      assume "x \<in> set (timers_of w' l k)"
      then have "l = ?rl" "k \<in> set (rlt_rlModes (w_timer w x))"
        using movingD(6)[OF conjunct1[OF mv2]] mv2 same by simp_all
      then show "dates_sorted w' (timers_of w' l k)" using mv2 env_okD(2)[OF assms(2)] by simp
    qed
  qed
qed

lemma do_timer_inv:
  assumes "CFRunLoopDoTimer E rl n x w = Some r" "env_ok E" "rl_inv w"
  shows "rl_inv (fst r)"
proof (cases "rlt_valid (w_timer w x) \<and> rlt_fireTSR (w_timer w x) \<le> w_tsr w \<and> \<not> rlt_firing (w_timer w x) \<and>
    rlt_runLoop (w_timer w x) = rl")
  case True
  obtain w1 where w1: "fire_timer E rl n x w = Some w1" "x \<noteq> NULL"
    "fst r = w1 \<or> reschedule_timer E rl n x (rlt_fireTSR (w_timer w x)) w1 = Some (fst r)"
    using assms(1) True unfolding CFRunLoopDoTimer_def Let_def by (auto simp: bind_eq_Some_conv split: if_split_asm)
  have "rl_inv w1" by (rule fire_timer_inv[OF w1(1) assms(2,3)])
  then show ?thesis using w1(2,3) reschedule_timer_inv[OF _ assms(2)] by metis
next
  case False
  then show ?thesis using assms(1,3) unfolding CFRunLoopDoTimer_def Let_def by (auto split: if_split_asm)
qed

lemma do_timers_inv:
  assumes "CFRunLoopDoTimers E rl n limit w = Some r" "env_ok E" "rl_inv w"
  shows "rl_inv (fst r)"
proof -
  have "rl_inv (fst r)" if "do_timers_loop E rl n ts handled w = Some r" "rl_inv w" for ts handled w
    using that
  proof (induction ts arbitrary: handled w)
    case (Cons t ts)
    then obtain w1 did where w1: "CFRunLoopDoTimer E rl n t w = Some (w1, did)"
      "do_timers_loop E rl n ts (handled \<or> did) w1 = Some r"
      by (auto simp: bind_eq_Some_conv)
    then show ?case using Cons.IH do_timer_inv[OF w1(1) assms(2) Cons.prems(2)] by simp
  qed auto
  then show ?thesis using assms(1,3) by (auto simp: CFRunLoopDoTimers_def bind_eq_Some_conv)
qed

section \<open>A turn of the loop\<close>

lemma rl_inv_flags [simp]:
  "rl_inv (upd_loop w rl CFRunLoopSetIgnoreWakeUps) = rl_inv w" "rl_inv (upd_loop w rl CFRunLoopUnsetIgnoreWakeUps) = rl_inv w"
  "rl_inv (upd_loop w rl CFRunLoopUnsetStopped) = rl_inv w"
  by (simp_all add: rl_inv_upd_loop CFRunLoopSetIgnoreWakeUps_def CFRunLoopUnsetIgnoreWakeUps_def CFRunLoopUnsetStopped_def)

lemma rl_inv_port_set: "rl_inv w \<Longrightarrow> rl_inv (upd_mode w rl n (\<lambda>m. m\<lparr>rlm_portSet := f m\<rparr>))"
  by (rule rl_inv_upd_mode_same) (auto simp: mode_ok_def)

lemma run_wait_inv:
  assumes "run_wait E rl n dispatchPort q poll w = Some (w', livePort)" "env_ok E" "wait_ok E" "rl_inv w"
  shows "rl_inv w'"
proof -
  obtain w1 w4 lp where w: "(if \<not> poll then observers_if E rl n kCFRunLoopBeforeWaiting w else Some w) = Some w1"
    "wait_loop E rl n q poll (upd_mode (upd_loop w1 rl (\<lambda>l. l\<lparr>rl_sleeping := True\<rparr>)) rl n
       (\<lambda>m. m\<lparr>rlm_portSet := snd (CFPortSetInsert dispatchPort (rlm_portSet m))\<rparr>)) = Some (w4, lp)"
    "(if \<not> poll then observers_if E rl n kCFRunLoopAfterWaiting
        (upd_loop (upd_mode w4 rl n (\<lambda>m. m\<lparr>rlm_portSet := snd (CFPortSetRemove dispatchPort (rlm_portSet m))\<rparr>)) rl
          (\<lambda>l. (CFRunLoopSetIgnoreWakeUps l)\<lparr>rl_sleeping := False\<rparr>))
      else Some (upd_loop (upd_mode w4 rl n (\<lambda>m. m\<lparr>rlm_portSet := snd (CFPortSetRemove dispatchPort (rlm_portSet m))\<rparr>)) rl
          (\<lambda>l. (CFRunLoopSetIgnoreWakeUps l)\<lparr>rl_sleeping := False\<rparr>))) = Some w'"
    using assms(1) unfolding run_wait_def Let_def by (auto simp: bind_eq_Some_conv split del: if_split)
  have "rl_inv w1" using if_SomeD[OF w(1)] assms(4) observers_if_inv[OF _ assms(2)] by blast
  then have "rl_inv w4"
    using wait_loop_inv[OF w(2) assms(3)] by (simp add: rl_inv_port_set rl_inv_upd_loop)
  then have "rl_inv (upd_loop (upd_mode w4 rl n (\<lambda>m. m\<lparr>rlm_portSet := snd (CFPortSetRemove dispatchPort (rlm_portSet m))\<rparr>)) rl
          (\<lambda>l. (CFRunLoopSetIgnoreWakeUps l)\<lparr>rl_sleeping := False\<rparr>))"
    by (simp add: rl_inv_port_set rl_inv_upd_loop CFRunLoopSetIgnoreWakeUps_def)
  then show ?thesis using if_SomeD[OF w(3)] observers_if_inv[OF _ assms(2)] by blast
qed

lemma serve_timers_inv:
  assumes "serve_timers E rl n w = Some w'" "env_ok E" "rl_inv w"
  shows "rl_inv w'"
proof -
  obtain w1 did where w1: "CFRunLoopDoTimers E rl n (w_tsr w) w = Some (w1, did)"
    "(if \<not> did then arm_mode E rl n w1 else Some w1) = Some w'"
    using assms(1) by (auto simp: serve_timers_def bind_eq_Some_conv split del: if_split)
  show ?thesis using if_SomeD[OF w1(2)] arm_mode_inv do_timers_inv[OF w1(1) assms(2,3)] by fastforce
qed

lemma handle_port_inv:
  assumes "handle_port E rl n dispatchPort q livePort handled w = Some r" "env_ok E" "rl_inv w"
  shows "rl_inv (fst r)"
proof -
  have main: "rl_inv (w\<lparr>w_inMainQ := b\<rparr>) = rl_inv w" for w b by (rule rl_inv_cong) simp_all
  have "fst r = w \<or> serve_timers E rl n w = Some (fst r) \<or>
      (\<exists>w1. do_callout E ServiceMainQueue (w\<lparr>w_inMainQ := True\<rparr>) = Some w1 \<and> fst r = w1\<lparr>w_inMainQ := False\<rparr>) \<or>
      (\<exists>x did. CFRunLoopDoSource1 E x w = Some (fst r, did))"
    using assms(1) unfolding handle_port_def
    by (auto simp: bind_eq_Some_conv split: if_split_asm option.split_asm prod.splits)
  moreover have "rl_inv (fst r)" if "do_callout E ServiceMainQueue (w\<lparr>w_inMainQ := True\<rparr>) = Some w1" "fst r = w1\<lparr>w_inMainQ := False\<rparr>" for w1
    using callout_inv[OF assms(2) that(1)] that(2) assms(3) by (simp add: main)
  moreover have "rl_inv (fst r)" if "CFRunLoopDoSource1 E x w = Some (fst r, did)" for x did
    using do_source1_inv[OF that assms(2,3)] by simp
  ultimately show ?thesis using assms(3) serve_timers_inv[OF _ assms(2,3)] by metis
qed

lemma turn_result_inv:
  assumes "turn_result E rl n stop tc handled w = Some (w', r)" "rl_inv w"
  shows "rl_inv w'"
proof -
  have "rl_inv (upd_mode w rl n (\<lambda>m. m\<lparr>rlm_stopped := False\<rparr>))"
    by (rule rl_inv_upd_mode_same[OF assms(2)]) (auto simp: mode_ok_def)
  then show ?thesis using assms by (auto simp: turn_result_def bind_eq_Some_conv split: if_split_asm)
qed

lemma run_sources_inv:
  assumes "run_sources E rl n stop w = Some (w', handled)" "env_ok E" "rl_inv w"
  shows "rl_inv w'"
proof -
  obtain w1 w2 w3 did w4 where w: "observers_if E rl n kCFRunLoopBeforeTimers (upd_loop w rl CFRunLoopUnsetIgnoreWakeUps) = Some w1"
    "observers_if E rl n kCFRunLoopBeforeSources w1 = Some w2" "CFRunLoopDoBlocks E rl n w2 = Some (w3, did)"
    "CFRunLoopDoSources0 E rl n stop w3 = Some (w4, handled)"
    "(if handled then map_option fst (CFRunLoopDoBlocks E rl n w4) else Some w4) = Some w'"
    using assms(1) unfolding run_sources_def Let_def by (auto simp: bind_eq_Some_conv split del: if_split)
  have "rl_inv w1" using observers_if_inv[OF w(1) assms(2)] assms(3) by simp
  then have "rl_inv w3" using do_blocks_inv[OF w(3) assms(2)] observers_if_inv[OF w(2) assms(2)] by blast
  then have "rl_inv w4" using do_sources0_inv[OF w(4) assms(2)] by simp
  then show ?thesis using if_SomeD[OF w(5)] do_blocks_inv[OF _ assms(2)] by auto
qed

lemma run_turn_inv:
  assumes "run_turn E rl n stop tc dispatchPort q d w = Some (w', r, d')" "env_ok E" "wait_ok E" "rl_inv w"
  shows "rl_inv w'"
proof -
  obtain w1 handled w2 polled p w3 livePort w5 handled1 w6 did where w: "run_sources E rl n stop w = Some (w1, handled)"
    "(if dispatchPort \<noteq> MACH_PORT_NULL \<and> \<not> d then CFRunLoopServiceMachPort E [dispatchPort] True w1
      else Some (w1, False, MACH_PORT_NULL)) = Some (w2, polled, p)"
    "(if polled then Some (w2, p) else run_wait E rl n dispatchPort q (handled \<or> term_now E tc w1 = 0) w2) = Some (w3, livePort)"
    "handle_port E rl n dispatchPort q livePort handled (upd_loop w3 rl CFRunLoopSetIgnoreWakeUps) = Some (w5, handled1, d')"
    "CFRunLoopDoBlocks E rl n w5 = Some (w6, did)" "turn_result E rl n stop tc handled1 w6 = Some (w', r)"
    using assms(1) unfolding run_turn_def Let_def by (auto simp: bind_eq_Some_conv split del: if_split)
  have "rl_inv w1" by (rule run_sources_inv[OF w(1) assms(2,4)])
  then have "rl_inv w2" using if_SomeD[OF w(2)] service_port_inv[OF _ assms(3)] by fastforce
  then have "rl_inv w3" using w(3) run_wait_inv[OF _ assms(2,3)] by (metis option.inject prod.inject)
  then have "rl_inv w5" using handle_port_inv[OF w(4) assms(2)] by simp
  then have "rl_inv w6" by (rule do_blocks_inv[OF w(5) assms(2)])
  then show ?thesis by (rule turn_result_inv[OF w(6)])
qed

section \<open>Activations\<close>

lemma run_loop_keeps:
  assumes "run_loop E rl n stop tc dispatchPort q d w = Some r" "env_ok E" "wait_ok E" "rl_inv w"
  shows "rl_inv (fst r)"
  using assms(2-4)
proof (induction rule: run_loop.raw_induct[OF _ assms(1), consumes 0, case_names step])
  case (step f E rl n stop tc dispatchPort q d w r)
  obtain w1 ret d1 where w1: "run_turn E rl n stop tc dispatchPort q d w = Some (w1, ret, d1)"
    "(if ret = 0 then f E rl n stop tc dispatchPort q d1 w1 else Some (w1, ret)) = Some r"
    using step(2) by (auto simp: bind_eq_Some_conv split del: if_split)
  note turn = run_turn_inv[OF w1(1) step(3,4,5)]
  show ?case
  proof (cases "ret = 0")
    case True
    then show ?thesis using w1(2) step(1)[OF _ step(3,4)] turn by simp
  qed (use w1(2) turn in auto)
qed

lemma run_mode_cases:
  assumes "CFRunLoopRunMode E rl n seconds stop w = Some r"
  shows "r = (upd_loop w rl CFRunLoopUnsetStopped, 2) \<or> r = (upd_mode w rl n (\<lambda>m. m\<lparr>rlm_stopped := False\<rparr>), 2) \<or>
      (\<exists>tc dispatchPort q. run_loop E rl n stop tc dispatchPort q True w = Some r)"
  using assms by (auto simp: CFRunLoopRunMode_def bind_eq_Some_conv Let_def split: if_split_asm)

lemma run_mode_keeps:
  assumes "CFRunLoopRunMode E rl n seconds stop w = Some r" "env_ok E" "wait_ok E" "rl_inv w"
  shows "rl_inv (fst r)"
proof -
  have "rl_inv (upd_mode w rl n (\<lambda>m. m\<lparr>rlm_stopped := False\<rparr>))"
    by (rule rl_inv_upd_mode_same[OF assms(4)]) (auto simp: mode_ok_def)
  then show ?thesis using run_mode_cases[OF assms(1)] run_loop_keeps[OF _ assms(2-4)] assms(4) rl_inv_flags(3)
    by (metis fst_conv)
qed

lemma run_specific_keeps:
  assumes "CFRunLoopRunSpecific E rl n seconds stop w = Some (w', r)" "env_ok E" "wait_ok E" "rl_inv w"
  shows "rl_inv w'"
proof -
  let ?enter = "upd_loop w rl (\<lambda>l. (fst (CFRunLoopPushPerRunData l))\<lparr>rl_currentMode := Some n\<rparr>)"
  have enter: "rl_inv ?enter" using assms(4) by (subst rl_inv_upd_loop) (simp_all add: CFRunLoopPushPerRunData_def)
  show ?thesis
  proof (cases "w' = w \<and> r = 1")
    case False
    then obtain w2 w3 w4 f where w: "observers_if E rl n kCFRunLoopEntry ?enter = Some w2"
      "CFRunLoopRunMode E rl n seconds stop w2 = Some (w3, r)" "observers_if E rl n kCFRunLoopExit w3 = Some w4"
      "w' = upd_loop w4 rl f" "\<And>l. rl_modes (f l) = rl_modes l"
      using assms(1) unfolding CFRunLoopRunSpecific_def Let_def
      by (auto simp: bind_eq_Some_conv CFRunLoopPopPerRunData_def split: if_split_asm)
    have "rl_inv w2" by (rule observers_if_inv[OF w(1) assms(2) enter])
    then have "rl_inv w3" using run_mode_keeps[OF w(2) assms(2,3)] by simp
    then have "rl_inv w4" using observers_if_inv[OF w(3) assms(2)] by simp
    then show ?thesis using w(4,5) by (simp add: rl_inv_upd_loop)
  qed (use assms(4) in simp)
qed

lemma run_keeps:
  assumes "CFRunLoopRun E w = Some w'" "env_ok E" "wait_ok E" "rl_inv w"
  shows "rl_inv w'"
  using assms(2-4)
proof (induction rule: CFRunLoopRun.raw_induct[OF _ assms(1), consumes 0, case_names step])
  case (step f E w w')
  obtain w1 r where w1: "CFRunLoopRunSpecific E (ev_current E) kCFRunLoopDefaultMode 10000000000 False w = Some (w1, r)"
    "w' = w1 \<or> f E w1 = Some w'"
    using step(2) by (auto simp: bind_eq_Some_conv split: if_split_asm)
  have "rl_inv w1" using run_specific_keeps[OF w1(1) step(3-5)] by simp
  then show ?case using w1(2) step(1)[OF _ step(3,4)] by blast
qed

lemma quiet_wait_ok: "wait_ok quiet_env"
  by (simp add: wait_ok_def quiet_env_def)

lemma busy_run:
  obtains w' where "CFRunLoopRunSpecific quiet_env 1 kCFRunLoopDefaultMode 0 True busy_world = Some (w', kCFRunLoopRunHandledSource)"
    "w_calls w' \<noteq> []"
proof -
  obtain m where m: "get_mode busy_world 1 kCFRunLoopDefaultMode = Some m" "members (rlm_sources0 m) = [6, 7]"
    "members (rlm_observers m) = [5]" "\<not> rlm_stopped m" "rlm_queuePort m = 2" "rl_blocks_head (w_loop busy_world 1) = NULL"
    "\<not> rl_deallocating (w_loop busy_world 1)" "w_tsr busy_world = 5" "w_calls busy_world = []"
    "CFRunLoopModeIsEmpty quiet_env busy_world 1 kCFRunLoopDefaultMode = Some False"
    by (rule busy_facts)
  have "ev_ptrs quiet_env (members (rlm_sources0 m)) = [6, 7]" by (simp add: quiet_env_def m(2))
  from poll_run[OF quiet_calm busy_inv _ m(7,10,1,4) _ _ m(6) this, of 0 True]
  show ?thesis using that m(3,5,8,9) busy_objects by (auto simp: busy_performed source_calls_def)
qed

text \<open>
  C2. Running keeps the invariant: when callouts, waits and the handlers of the private queues use the run loop
  only through its functions, so that each of them keeps the invariant, an activation that returns leaves modes, observers, timers and sources consistent,
  and so does \<^verbatim>\<open>CFRunLoopRun\<close>. Exact references from sources to run loops are part of this unless two different
  sources compare equal.
\<close>

theorem run_keeps_invariant:
  assumes "env_ok E" "wait_ok E" "rl_inv w"
  shows "(CFRunLoopRunSpecific E rl n seconds stop w = Some (w', r) \<longrightarrow> rl_inv w') \<and>
    (CFRunLoopRun E w = Some w'' \<longrightarrow> rl_inv w'')"
  using run_specific_keeps[OF _ assms] run_keeps[OF _ assms] by blast

theorem run_keeps_invariant_witness:
  "\<exists>w'. CFRunLoopRunSpecific quiet_env 1 kCFRunLoopDefaultMode 0 True busy_world = Some (w', kCFRunLoopRunHandledSource) \<and>
     w_calls w' \<noteq> [] \<and> rl_inv w'"
proof -
  obtain w' where "CFRunLoopRunSpecific quiet_env 1 kCFRunLoopDefaultMode 0 True busy_world = Some (w', kCFRunLoopRunHandledSource)"
    "w_calls w' \<noteq> []" by (rule busy_run)
  then show ?thesis using run_keeps_invariant[OF quiet_env_ok quiet_wait_ok busy_inv] by blast
qed

section \<open>Results\<close>

lemma run_loop_result:
  assumes "run_loop E rl n stop tc dispatchPort q d w = Some r"
  shows "snd r \<in> {1, 2, 3, 4}"
proof (induction rule: run_loop.raw_induct[OF _ assms, consumes 0, case_names step])
  case (step f E rl n stop tc dispatchPort q d w r)
  obtain w1 ret d1 where w1: "run_turn E rl n stop tc dispatchPort q d w = Some (w1, ret, d1)"
    "(if ret = 0 then f E rl n stop tc dispatchPort q d1 w1 else Some (w1, ret)) = Some r"
    using step(2) by (auto simp: bind_eq_Some_conv split del: if_split)
  obtain h w6 where "turn_result E rl n stop tc h w6 = Some (w1, ret)"
    using w1(1) unfolding run_turn_def Let_def by (auto simp: bind_eq_Some_conv split del: if_split)
  then have "ret \<in> {0, 1, 2, 3, 4}" by (auto simp: turn_result_def bind_eq_Some_conv split: if_split_asm)
  then show ?case using w1(2) step(1) by (auto split: if_splits)
qed

lemma run_mode_result:
  assumes "CFRunLoopRunMode E rl n seconds stop w = Some r"
  shows "snd r \<in> {1, 2, 3, 4}"
  using run_mode_cases[OF assms] run_loop_result by (metis insertI1 insertI2 snd_conv)

text \<open>
  C24. Whatever the callouts do, an activation that returns gives one of the four documented results, and leaves
  the current mode and the per-run data of the run loop as it found them: a stop request made during the
  activation does not reach the activation around it. With a mode that is empty or a run loop that is being
  deallocated it returns at once, finished, and changes nothing.
\<close>

theorem run_result_codes:
  assumes "CFRunLoopRunSpecific E rl n seconds stop w = Some (w', r)"
  shows "r \<in> {kCFRunLoopRunFinished, kCFRunLoopRunStopped, kCFRunLoopRunTimedOut, kCFRunLoopRunHandledSource} \<and>
    rl_currentMode (w_loop w' rl) = rl_currentMode (w_loop w rl) \<and> rl_perRunData (w_loop w' rl) = rl_perRunData (w_loop w rl) \<and>
    (rl_deallocating (w_loop w rl) \<or> CFRunLoopModeIsEmpty E w rl n = Some True \<longrightarrow> w' = w \<and> r = kCFRunLoopRunFinished)"
  using assms run_mode_result[of E rl n seconds stop] unfolding CFRunLoopRunSpecific_def Let_def
  by (fastforce simp: bind_eq_Some_conv upd_loop_def CFRunLoopPopPerRunData_def CFRunLoopPushPerRunData_def split: if_split_asm)

theorem run_result_codes_witness:
  "\<exists>w'. CFRunLoopRunSpecific quiet_env 1 kCFRunLoopDefaultMode 0 True busy_world = Some (w', kCFRunLoopRunHandledSource) \<and>
     rl_currentMode (w_loop w' 1) = rl_currentMode (w_loop busy_world 1)"
proof -
  obtain w' where w': "CFRunLoopRunSpecific quiet_env 1 kCFRunLoopDefaultMode 0 True busy_world = Some (w', kCFRunLoopRunHandledSource)"
    by (rule busy_run)
  show ?thesis using run_result_codes[OF w'] w' by blast
qed

end
