(* ===== verification/CF_RunLoop_Dealloc.thy ===== *)
theory CF_RunLoop_Dealloc
  imports CF_RunLoop_Service CF_RunLoop_Blocks
begin

text \<open>
  Deallocating a run loop (\<^verbatim>\<open>CFRunLoop.c\<close>): its sources, observers and timers are taken out of its modes and lose their
  references to it, its queued blocks are released, and its modes go away.

  The model ends where the memory of the object is overwritten and handed back; the pointer to
  the per-run data, which is cleared before, is not in the model.
\<close>

section \<open>The code\<close>

definition mode_sources :: "env \<Rightarrow> CFRunLoopMode \<Rightarrow> ptr list" where
  "mode_sources E rlm = ev_ptrs E (members (rlm_sources0 rlm)) @ ev_ptrs E (members (rlm_sources1 rlm))"

text \<open>\<^verbatim>\<open>CFBagRemoveValue(rls->_runLoops, rl)\<close>.\<close>

definition forget_loop :: "ptr \<Rightarrow> ptr \<Rightarrow> world \<Rightarrow> world" where
  "forget_loop rl rls w = upd_source w rls (\<lambda>s. s\<lparr>rls_runLoops := map_option (remove1 rl) (rls_runLoops s)\<rparr>)"

definition CFRunLoopCleanseSources :: "env \<Rightarrow> ptr \<Rightarrow> mode_name \<Rightarrow> world \<Rightarrow> world option" where
  "CFRunLoopCleanseSources E rl n w = do {
     rlm \<leftarrow> get_mode w rl n;
     if rlm_sources0 rlm = None \<and> rlm_sources1 rlm = None then Some w
     else Some (fold (forget_loop rl) (mode_sources E rlm) w)
   }"

definition deallocate_source :: "env \<Rightarrow> ptr \<Rightarrow> mode_name \<Rightarrow> ptr \<Rightarrow> world \<Rightarrow> world option" where
  "deallocate_source E rl n rls w = do {
     let w1 = forget_loop rl rls w;
     let s = w_source w1 rls;
     if rls_version s = 0
     then (if rls_cancel s then do_callout E (CancelSource rls rl n) w1 else Some w1)
     else if rls_version s = 1 \<and> rls_getPort s \<noteq> MACH_PORT_NULL
     then Some (upd_mode w1 rl n (\<lambda>m. m\<lparr>rlm_portSet := snd (CFPortSetRemove (rls_getPort s) (rlm_portSet m))\<rparr>))
     else Some w1
   }"

definition CFRunLoopDeallocateSources :: "env \<Rightarrow> ptr \<Rightarrow> mode_name \<Rightarrow> world \<Rightarrow> world option" where
  "CFRunLoopDeallocateSources E rl n w = do {
     rlm \<leftarrow> get_mode w rl n;
     if rlm_sources0 rlm = None \<and> rlm_sources1 rlm = None then Some w
     else ofold (deallocate_source E rl n) (mode_sources E rlm)
       (upd_mode w rl n (\<lambda>m. m\<lparr>rlm_sources0 := map_option (\<lambda>_. []) (rlm_sources0 m),
          rlm_sources1 := map_option (\<lambda>_. []) (rlm_sources1 m)\<rparr>))
   }"

definition CFRunLoopDeallocateObservers :: "env \<Rightarrow> ptr \<Rightarrow> mode_name \<Rightarrow> world \<Rightarrow> world option" where
  "CFRunLoopDeallocateObservers E rl n w = do {
     rlm \<leftarrow> get_mode w rl n;
     (case rlm_observers rlm of
        None \<Rightarrow> Some w
      | Some list \<Rightarrow> Some (fold (\<lambda>rlo w. upd_observer w rlo CFRunLoopObserverCancel) list
          (upd_mode w rl n (\<lambda>m. m\<lparr>rlm_observers := Some []\<rparr>))))
   }"

definition CFRunLoopDeallocateTimers :: "env \<Rightarrow> ptr \<Rightarrow> mode_name \<Rightarrow> world \<Rightarrow> world option" where
  "CFRunLoopDeallocateTimers E rl n w = do {
     rlm \<leftarrow> get_mode w rl n;
     (case rlm_timers rlm of
        None \<Rightarrow> Some w
      | Some list \<Rightarrow> Some (fold (\<lambda>rlt w. upd_timer w rlt (\<lambda>t. t\<lparr>rlt_rlModes := [], rlt_runLoop := NULL\<rparr>)) list
          (upd_mode w rl n (\<lambda>m. m\<lparr>rlm_timers := Some []\<rparr>))))
   }"

text \<open>The queued blocks: an item is freed after its block is released, and freeing it twice is undefined.\<close>

partial_function (option) release_blocks :: "env \<Rightarrow> ptr \<Rightarrow> world \<Rightarrow> world option" where
  "release_blocks E item w =
     (if item = NULL then Some w
      else do {
        curr \<leftarrow> w_blocks w item;
        w1 \<leftarrow> do_callout E (ReleaseBlock (bi_block curr)) w;
        _ \<leftarrow> w_blocks w1 item;
        release_blocks E (bi_next curr) (w1\<lparr>w_blocks := (w_blocks w1)(item := None)\<rparr>)
      })"

text \<open>\<^verbatim>\<open>CFSetApplyFunction\<close> on the modes of the run loop.\<close>

definition apply_to_modes :: "env \<Rightarrow> ptr \<Rightarrow> (mode_name \<Rightarrow> world \<Rightarrow> world option) \<Rightarrow> world \<Rightarrow> world option" where
  "apply_to_modes E rl f w = ofold f (ev_names E (map fst (rl_modes (w_loop w rl)))) w"

definition CFRunLoopDeallocate :: "env \<Rightarrow> ptr \<Rightarrow> world \<Rightarrow> world option" where
  "CFRunLoopDeallocate E rl w =
     (if ev_main E = rl then None
      else do {
        let w0 = upd_loop w rl (\<lambda>l. l\<lparr>rl_deallocating := True\<rparr>);
        w1 \<leftarrow> apply_to_modes E rl (CFRunLoopCleanseSources E rl) w0;
        w2 \<leftarrow> apply_to_modes E rl (CFRunLoopDeallocateSources E rl) w1;
        w3 \<leftarrow> apply_to_modes E rl (CFRunLoopDeallocateObservers E rl) w2;
        w4 \<leftarrow> apply_to_modes E rl (CFRunLoopDeallocateTimers E rl) w3;
        w5 \<leftarrow> release_blocks E (rl_blocks_head (w_loop w4 rl)) w4;
        Some (upd_loop w5 rl (\<lambda>l. l\<lparr>rl_commonModeItems := None, rl_commonModes := [], rl_modes := [],
          rl_wakeUpPort := MACH_PORT_NULL\<rparr>))
      })"

section \<open>Loops over the modes\<close>

lemma ofold_prefix:
  assumes "I [] w" "distinct ns"
    and "\<And>ds n w. n \<in> set ns \<Longrightarrow> n \<notin> set ds \<Longrightarrow> I ds w \<Longrightarrow> \<exists>w'. f n w = Some w' \<and> I (ds @ [n]) w'"
  shows "\<exists>w'. ofold f ns w = Some w' \<and> I ns w'"
proof -
  have "\<exists>w'. ofold f xs v = Some w' \<and> I (ds @ xs) w'" if "I ds v" "distinct (ds @ xs)" "set xs \<subseteq> set ns" for ds xs v
    using that
  proof (induction xs arbitrary: ds v)
    case (Cons n xs)
    then obtain v1 where v1: "f n v = Some v1" "I (ds @ [n]) v1" using assms(3)[of n ds v] by auto
    then show ?case using Cons.IH[OF v1(2)] Cons.prems(2,3) by auto
  qed simp
  from this[of "[]" w ns] assms(1,2) show ?thesis by simp
qed

text \<open>An enumeration that lists every member once.\<close>

definition lists_once :: "env \<Rightarrow> bool" where
  "lists_once E \<longleftrightarrow> (\<forall>xs. mset (ev_names E xs) = mset xs) \<and> (\<forall>xs. mset (ev_ptrs E xs) = mset xs)"

lemma lists_onceD:
  assumes "lists_once E"
  shows "set (ev_names E xs) = set xs" "set (ev_ptrs E ys) = set ys" "distinct (ev_names E xs) = distinct xs"
    "distinct (ev_ptrs E ys) = distinct ys"
  using assms unfolding lists_once_def by (metis mset_eq_setD, metis mset_eq_setD, metis mset_eq_imp_distinct_iff, metis mset_eq_imp_distinct_iff)

lemma card_snoc:
  assumes "n \<notin> set ds"
  shows "card {k \<in> set (ds @ [n]). P k} = card {k \<in> set ds. P k} + (if P n then 1 else 0)"
proof -
  have "{k \<in> set (ds @ [n]). P k} = {k \<in> set ds. P k} \<union> (if P n then {n} else {})" by auto
  then show ?thesis using assms by simp
qed

section \<open>Sources\<close>

abbreviation loop_count :: "world \<Rightarrow> ptr \<Rightarrow> ptr \<Rightarrow> nat" where
  "loop_count w s l \<equiv> count_list (members (rls_runLoops (w_source w s))) l"

text \<open>The sources are the same apart from the run loops they hold.\<close>

definition same_sources :: "world \<Rightarrow> world \<Rightarrow> bool" where
  "same_sources w w' \<longleftrightarrow> (\<forall>s. w_source w' s\<lparr>rls_runLoops := None\<rparr> = w_source w s\<lparr>rls_runLoops := None\<rparr>)"

lemma same_sources_refl [simp]: "same_sources w w"
  by (simp add: same_sources_def)

lemma same_sourcesD:
  assumes "same_sources w w'"
  shows "rls_version (w_source w' s) = rls_version (w_source w s)" "rls_valid (w_source w' s) = rls_valid (w_source w s)"
    "rls_cancel (w_source w' s) = rls_cancel (w_source w s)"
proof -
  have "w_source w' s\<lparr>rls_runLoops := None\<rparr> = w_source w s\<lparr>rls_runLoops := None\<rparr>" using assms by (simp add: same_sources_def)
  from arg_cong[OF this, of rls_version] arg_cong[OF this, of rls_valid] arg_cong[OF this, of rls_cancel]
  show "rls_version (w_source w' s) = rls_version (w_source w s)" "rls_valid (w_source w' s) = rls_valid (w_source w s)"
    "rls_cancel (w_source w' s) = rls_cancel (w_source w s)" by simp_all
qed

lemma same_sources_forget: "same_sources v w \<Longrightarrow> same_sources v (forget_loop rl x w)"
  by (auto simp: same_sources_def forget_loop_def)

lemma forget_loop_count:
  "loop_count (forget_loop rl x w) s l = (if s = x \<and> l = rl then loop_count w s l - 1 else loop_count w s l)"
proof -
  have "count_list (members (map_option (remove1 rl) b)) l = (if l = rl then count_list (members b) l - 1 else count_list (members b) l)" for b
    by (cases b) (simp_all add: count_list_remove1)
  from this[of "rls_runLoops (w_source w x)"] show ?thesis by (cases "s = x"; cases "l = rl") (simp_all add: forget_loop_def)
qed

lemma forget_loop_frame: "\<exists>S. forget_loop rl x w = w\<lparr>w_source := S\<rparr>"
  by (auto simp: forget_loop_def upd_source_def)

lemma forget_all:
  assumes "distinct xs"
  shows "(\<exists>S. fold (forget_loop rl) xs w = w\<lparr>w_source := S\<rparr>) \<and>
    (same_sources v w \<longrightarrow> same_sources v (fold (forget_loop rl) xs w)) \<and>
    loop_count (fold (forget_loop rl) xs w) s l = loop_count w s l - (if l = rl \<and> s \<in> set xs then 1 else 0)"
  using assms
proof (induction xs arbitrary: w)
  case Nil
  have "\<exists>S. w = w\<lparr>w_source := S\<rparr>" by (rule exI[of _ "w_source w"]) simp
  then show ?case by simp
next
  case (Cons x xs)
  obtain S where S: "forget_loop rl x w = w\<lparr>w_source := S\<rparr>" using forget_loop_frame by blast
  note IH = Cons.IH[of "forget_loop rl x w"]
  have "\<exists>S'. fold (forget_loop rl) (x # xs) w = w\<lparr>w_source := S'\<rparr>" using IH Cons.prems S by auto
  moreover have "same_sources v w \<longrightarrow> same_sources v (fold (forget_loop rl) (x # xs) w)"
    using IH Cons.prems same_sources_forget[of v w rl x] by simp
  ultimately show ?case using IH Cons.prems by (auto simp: forget_loop_count)
qed

lemma mode_sources_facts:
  assumes "lists_once E" "sources_inv w" "get_mode w rl n = Some m"
  shows "distinct (mode_sources E m)" "set (mode_sources E m) = set (sources_of w rl n)"
  using sources_invD(1)[OF assms(2), of rl n] assms(3) lists_onceD[OF assms(1)]
  by (auto simp: mode_sources_def sources_of_def)

text \<open>What the first pass has done after the modes \<open>ds\<close>.\<close>

definition cleansed :: "ptr \<Rightarrow> world \<Rightarrow> mode_name list \<Rightarrow> world \<Rightarrow> bool" where
  "cleansed rl v ds w \<longleftrightarrow> (\<exists>S. w = v\<lparr>w_source := S\<rparr>) \<and> same_sources v w \<and>
     (\<forall>s l. loop_count w s l = loop_count v s l - (if l = rl then card {k \<in> set ds. s \<in> set (sources_of v rl k)} else 0))"

lemma get_mode_source [simp]: "get_mode (w\<lparr>w_source := S\<rparr>) = get_mode w"
  by (simp add: get_mode_def fun_eq_iff)

lemma cleanse_step:
  assumes "lists_once E" "sources_inv v" "cleansed rl v ds w" "n \<notin> set ds" "get_mode v rl n \<noteq> None"
  shows "\<exists>w'. CFRunLoopCleanseSources E rl n w = Some w' \<and> cleansed rl v (ds @ [n]) w'"
proof -
  obtain m where m: "get_mode v rl n = Some m" using assms(5) by blast
  obtain S where S: "w = v\<lparr>w_source := S\<rparr>" and same: "same_sources v w"
    and cnt: "\<And>s l. loop_count w s l = loop_count v s l - (if l = rl then card {k \<in> set ds. s \<in> set (sources_of v rl k)} else 0)"
    using assms(3) unfolding cleansed_def by blast
  note ms = mode_sources_facts[OF assms(1,2) m]
  let ?w' = "fold (forget_loop rl) (mode_sources E m) w"
  have "(\<exists>S. ?w' = v\<lparr>w_source := S\<rparr>) \<and> same_sources v ?w'"
    using forget_all[OF ms(1), of rl w v] same S by auto
  moreover have "loop_count ?w' s l = loop_count v s l - (if l = rl then card {k \<in> set (ds @ [n]). s \<in> set (sources_of v rl k)} else 0)" for s l
  proof -
    have "loop_count ?w' s l = loop_count w s l - (if l = rl \<and> s \<in> set (sources_of v rl n) then 1 else 0)"
      using forget_all[OF ms(1), of rl w v s l] unfolding ms(2) by blast
    then show ?thesis unfolding card_snoc[OF assms(4)] cnt by simp
  qed
  ultimately have fin: "cleansed rl v (ds @ [n]) ?w'" unfolding cleansed_def by blast
  have "CFRunLoopCleanseSources E rl n w = Some (if rlm_sources0 m = None \<and> rlm_sources1 m = None then w else ?w')"
    using m by (simp add: CFRunLoopCleanseSources_def S)
  moreover have "rlm_sources0 m = None \<and> rlm_sources1 m = None \<Longrightarrow> ?w' = w"
    using ms(2) m by (simp add: sources_of_def)
  ultimately show ?thesis using fin by auto
qed

text \<open>What no pass changes: the names of the modes, the queue of blocks and the other run loops.\<close>

definition same_shell :: "ptr \<Rightarrow> world \<Rightarrow> world \<Rightarrow> bool" where
  "same_shell rl v w \<longleftrightarrow> map fst (rl_modes (w_loop w rl)) = map fst (rl_modes (w_loop v rl)) \<and>
     rl_blocks_head (w_loop w rl) = rl_blocks_head (w_loop v rl) \<and> (\<forall>l. l \<noteq> rl \<longrightarrow> w_loop w l = w_loop v l) \<and>
     w_blocks w = w_blocks v"

lemma map_fst_map_entry [simp]: "map fst (AList.map_entry k f xs) = map fst xs"
  by (induction xs) auto

lemma same_shell_upd [simp]:
  "same_shell rl v v"
  "same_shell rl v (upd_mode w rl n f) = same_shell rl v w" "same_shell rl v (upd_source w x h) = same_shell rl v w"
  "same_shell rl v (upd_observer w x g) = same_shell rl v w" "same_shell rl v (upd_timer w x j) = same_shell rl v w"
  "same_shell rl v (w\<lparr>w_source := S\<rparr>) = same_shell rl v w"
  by (auto simp: same_shell_def upd_mode_def upd_source_def upd_observer_def upd_timer_def)

lemma same_shell_trans: "same_shell rl u v \<Longrightarrow> same_shell rl v w \<Longrightarrow> same_shell rl u w"
  by (simp add: same_shell_def)

lemma same_shell_ticked: "ticked cs v w \<Longrightarrow> same_shell rl v w"
  by (auto simp: same_shell_def ticked_def)

lemma same_shell_modes: "same_shell rl v w \<Longrightarrow> l \<noteq> rl \<Longrightarrow> get_mode w l = get_mode v l"
  by (simp add: same_shell_def get_mode_def fun_eq_iff)

text \<open>The second pass: sources of the modes \<open>D\<close> may have gone, and the calls \<open>cs\<close> have been made.\<close>

definition sources_gone :: "ptr \<Rightarrow> mode_name set \<Rightarrow> rl_call list \<Rightarrow> world \<Rightarrow> world \<Rightarrow> bool" where
  "sources_gone rl D cs v w \<longleftrightarrow> same_shell rl v w \<and> w_observer w = w_observer v \<and> w_timer w = w_timer v \<and>
     observers_of w rl = observers_of v rl \<and> timers_of w rl = timers_of v rl \<and> same_sources v w \<and>
     (\<forall>s l. loop_count w s l \<le> loop_count v s l \<and> (l \<noteq> rl \<longrightarrow> loop_count w s l = loop_count v s l)) \<and>
     (\<forall>k. k \<notin> D \<longrightarrow> get_mode w rl k = get_mode v rl k) \<and> w_calls w = w_calls v @ cs"

lemma sources_gone_trans:
  assumes "sources_gone rl D cs u v" "sources_gone rl D' cs' v w"
  shows "sources_gone rl (D \<union> D') (cs @ cs') u w"
proof -
  have "loop_count w s l \<le> loop_count u s l \<and> (l \<noteq> rl \<longrightarrow> loop_count w s l = loop_count u s l)" for s l
  proof -
    have "loop_count v s l \<le> loop_count u s l \<and> (l \<noteq> rl \<longrightarrow> loop_count v s l = loop_count u s l)"
      "loop_count w s l \<le> loop_count v s l \<and> (l \<noteq> rl \<longrightarrow> loop_count w s l = loop_count v s l)"
      using assms unfolding sources_gone_def by blast+
    then show ?thesis by linarith
  qed
  moreover have "same_sources u w" using assms by (simp add: sources_gone_def same_sources_def)
  moreover have "same_shell rl u w" using assms same_shell_trans unfolding sources_gone_def by blast
  ultimately show ?thesis using assms by (simp add: sources_gone_def)
qed

lemma sources_gone_ticked:
  assumes "ticked cs v w"
  shows "sources_gone rl D cs v w"
  using same_shell_ticked[OF assms] tickedD[OF assms] view_cong[OF tickedD(7)[OF assms]]
  by (simp add: sources_gone_def same_sources_def)

lemma sources_gone_forget: "sources_gone rl D [] w (forget_loop rl x w)"
proof -
  obtain S where S: "forget_loop rl x w = w\<lparr>w_source := S\<rparr>" using forget_loop_frame by blast
  have "loop_count (forget_loop rl x w) s l \<le> loop_count w s l \<and>
      (l \<noteq> rl \<longrightarrow> loop_count (forget_loop rl x w) s l = loop_count w s l)" for s l
    unfolding forget_loop_count by simp
  moreover have "observers_of (forget_loop rl x w) = observers_of w" "timers_of (forget_loop rl x w) = timers_of w"
    "get_mode (forget_loop rl x w) = get_mode w" using view_cong[OF get_mode_source, of S w] by (simp_all add: S)
  moreover have "same_shell rl w (forget_loop rl x w)" "w_observer (forget_loop rl x w) = w_observer w"
    "w_timer (forget_loop rl x w) = w_timer w" "w_calls (forget_loop rl x w) = w_calls w" by (simp_all add: S)
  ultimately show ?thesis using same_sources_forget[of w w rl x] by (simp add: sources_gone_def)
qed

lemma sources_gone_upd_mode:
  assumes "\<And>m. rlm_observers (f m) = rlm_observers m \<and> rlm_timers (f m) = rlm_timers m"
  shows "sources_gone rl {n} [] w (upd_mode w rl n f)"
proof -
  have "observers_of (upd_mode w rl n f) rl = observers_of w rl" "timers_of (upd_mode w rl n f) rl = timers_of w rl"
    using assms by (auto simp: view_defs fun_eq_iff split: option.splits)
  moreover have "w_observer (upd_mode w rl n f) = w_observer w" "w_timer (upd_mode w rl n f) = w_timer w"
    "w_source (upd_mode w rl n f) = w_source w" "w_calls (upd_mode w rl n f) = w_calls w" by (simp_all add: upd_mode_def)
  ultimately show ?thesis by (simp add: sources_gone_def same_sources_def)
qed

text \<open>The cancellations of sources of a mode.\<close>

definition cancels :: "world \<Rightarrow> ptr \<Rightarrow> mode_name \<Rightarrow> ptr list \<Rightarrow> rl_call list" where
  "cancels w rl n xs = map (\<lambda>s. CancelSource s rl n) (filter (\<lambda>s. rls_version (w_source w s) = 0 \<and> rls_cancel (w_source w s)) xs)"

lemma cancels_same: "same_sources v w \<Longrightarrow> cancels w rl n xs = cancels v rl n xs"
  by (simp add: cancels_def same_sourcesD)

lemma deallocate_source_step:
  assumes "calm E"
  shows "\<exists>w'. deallocate_source E rl n x w = Some w' \<and> sources_gone rl {n} (cancels w rl n [x]) w w'"
proof -
  let ?w1 = "forget_loop rl x w"
  have g: "sources_gone rl {n} [] w ?w1" by (rule sources_gone_forget)
  have s: "same_sources w ?w1" by (rule same_sources_forget) simp
  obtain w2 where w2: "do_callout E (CancelSource x rl n) ?w1 = Some w2" "ticked [CancelSource x rl n] ?w1 w2"
    by (rule calm_callout[OF assms])
  have c: "sources_gone rl {n} [CancelSource x rl n] w w2"
    using sources_gone_trans[OF g sources_gone_ticked[OF w2(2)]] by simp
  have p: "sources_gone rl {n} [] w (upd_mode ?w1 rl n (\<lambda>m. m\<lparr>rlm_portSet := h m\<rparr>))" for h
    using sources_gone_trans[OF g sources_gone_upd_mode[of "\<lambda>m. m\<lparr>rlm_portSet := h m\<rparr>" rl n ?w1]] by simp
  show ?thesis
    using g c p w2(1) by (simp add: deallocate_source_def cancels_def Let_def same_sourcesD[OF s])
qed

lemma deallocate_sources_loop:
  assumes "calm E"
  shows "\<exists>w'. ofold (deallocate_source E rl n) xs w = Some w' \<and> sources_gone rl {n} (cancels w rl n xs) w w'"
proof (induction xs arbitrary: w)
  case Nil
  show ?case using sources_gone_ticked[OF ticked_same] by (simp add: cancels_def)
next
  case (Cons x xs)
  obtain w1 where w1: "deallocate_source E rl n x w = Some w1" "sources_gone rl {n} (cancels w rl n [x]) w w1"
    using deallocate_source_step[OF assms] by blast
  obtain w2 where w2: "ofold (deallocate_source E rl n) xs w1 = Some w2" "sources_gone rl {n} (cancels w1 rl n xs) w1 w2"
    using Cons.IH by blast
  have "cancels w1 rl n xs = cancels w rl n xs" using w1(2) by (simp add: sources_gone_def cancels_same)
  then have "cancels w rl n [x] @ cancels w1 rl n xs = cancels w rl n (x # xs)" by (simp add: cancels_def)
  then show ?case using sources_gone_trans[OF w1(2) w2(2)] w1(1) w2(1) by simp
qed

definition mode_cancels :: "env \<Rightarrow> world \<Rightarrow> ptr \<Rightarrow> mode_name \<Rightarrow> rl_call list" where
  "mode_cancels E w rl n = (case get_mode w rl n of None \<Rightarrow> [] | Some m \<Rightarrow> cancels w rl n (mode_sources E m))"

lemma deallocate_sources_mode:
  assumes "calm E" "lists_once E" "get_mode w rl n \<noteq> None"
  shows "\<exists>w'. CFRunLoopDeallocateSources E rl n w = Some w' \<and> sources_gone rl {n} (mode_cancels E w rl n) w w'"
proof -
  obtain m where m: "get_mode w rl n = Some m" using assms(3) by blast
  let ?f = "\<lambda>m. m\<lparr>rlm_sources0 := map_option (\<lambda>_. []) (rlm_sources0 m), rlm_sources1 := map_option (\<lambda>_. []) (rlm_sources1 m)\<rparr>"
  let ?w1 = "upd_mode w rl n ?f"
  show ?thesis
  proof (cases "rlm_sources0 m = None \<and> rlm_sources1 m = None")
    case True
    then have "mode_sources E m = []" using lists_onceD(2)[OF assms(2), of "[]"] by (simp add: mode_sources_def)
    then show ?thesis using sources_gone_ticked[OF ticked_same] m True
      by (simp add: CFRunLoopDeallocateSources_def mode_cancels_def cancels_def)
  next
    case False
    have g: "sources_gone rl {n} [] w ?w1" by (rule sources_gone_upd_mode) simp
    obtain w2 where w2: "ofold (deallocate_source E rl n) (mode_sources E m) ?w1 = Some w2"
      "sources_gone rl {n} (cancels ?w1 rl n (mode_sources E m)) ?w1 w2"
      using deallocate_sources_loop[OF assms(1)] by blast
    have "cancels ?w1 rl n (mode_sources E m) = mode_cancels E w rl n"
      using g m by (simp add: sources_gone_def cancels_same mode_cancels_def)
    then have "sources_gone rl {n} (mode_cancels E w rl n) w w2" using sources_gone_trans[OF g w2(2)] by simp
    moreover have "CFRunLoopDeallocateSources E rl n w = Some w2"
      using m False w2(1) by (auto simp: CFRunLoopDeallocateSources_def)
    ultimately show ?thesis by blast
  qed
qed

lemma deallocate_sources_pass:
  assumes "calm E" "lists_once E" "distinct ns" "\<forall>n \<in> set ns. get_mode v rl n \<noteq> None"
  shows "\<exists>w. ofold (CFRunLoopDeallocateSources E rl) ns v = Some w \<and>
    sources_gone rl (set ns) (concat (map (mode_cancels E v rl) ns)) v w"
proof (rule ofold_prefix[where I = "\<lambda>ds w. sources_gone rl (set ds) (concat (map (mode_cancels E v rl) ds)) v w"])
  show "sources_gone rl (set []) (concat (map (mode_cancels E v rl) [])) v v" using sources_gone_ticked[OF ticked_same] by simp
next
  fix ds n w
  assume n: "n \<in> set ns" "n \<notin> set ds" and w: "sources_gone rl (set ds) (concat (map (mode_cancels E v rl) ds)) v w"
  have same: "get_mode w rl n = get_mode v rl n" "same_sources v w" using w n(2) by (simp_all add: sources_gone_def)
  then obtain w' where w': "CFRunLoopDeallocateSources E rl n w = Some w'" "sources_gone rl {n} (mode_cancels E w rl n) w w'"
    using deallocate_sources_mode[OF assms(1,2)] assms(4) n(1) by metis
  have "mode_cancels E w rl n = mode_cancels E v rl n"
    using same by (simp add: mode_cancels_def cancels_same split: option.split)
  then show "\<exists>w'. CFRunLoopDeallocateSources E rl n w = Some w' \<and>
      sources_gone rl (set (ds @ [n])) (concat (map (mode_cancels E v rl) (ds @ [n]))) v w'"
    using w'(1) sources_gone_trans[OF w w'(2)] by simp
qed (rule assms(3))

section \<open>Observers and timers\<close>

text \<open>The third pass after the modes \<open>ds\<close>: every observer is cancelled once for each of them it was in.\<close>

definition observers_gone :: "ptr \<Rightarrow> mode_name list \<Rightarrow> world \<Rightarrow> world \<Rightarrow> bool" where
  "observers_gone rl ds v w \<longleftrightarrow> same_shell rl v w \<and> w_timer w = w_timer v \<and> w_source w = w_source v \<and> w_calls w = w_calls v \<and>
     timers_of w rl = timers_of v rl \<and> (\<forall>k. k \<notin> set ds \<longrightarrow> get_mode w rl k = get_mode v rl k) \<and>
     (\<forall>x. w_observer w x = (CFRunLoopObserverCancel ^^ card {k \<in> set ds. x \<in> set (observers_of v rl k)}) (w_observer v x))"

lemma fold_upd_observer:
  "distinct xs \<Longrightarrow> fold (\<lambda>x w. upd_observer w x f) xs w =
     w\<lparr>w_observer := \<lambda>x. if x \<in> set xs then f (w_observer w x) else w_observer w x\<rparr>"
  by (induction xs arbitrary: w) (auto simp: upd_observer_def fun_eq_iff intro!: arg_cong2[where f = "w_observer_update"])

lemma fold_upd_timer:
  "distinct xs \<Longrightarrow> fold (\<lambda>x w. upd_timer w x f) xs w =
     w\<lparr>w_timer := \<lambda>x. if x \<in> set xs then f (w_timer w x) else w_timer w x\<rparr>"
  by (induction xs arbitrary: w) (auto simp: upd_timer_def fun_eq_iff intro!: arg_cong2[where f = "w_timer_update"])

lemma deallocate_observers_step:
  assumes "\<forall>k. distinct (observers_of v rl k)" "observers_gone rl ds v w" "n \<notin> set ds" "get_mode v rl n \<noteq> None"
  shows "\<exists>w'. CFRunLoopDeallocateObservers E rl n w = Some w' \<and> observers_gone rl (ds @ [n]) v w'"
proof -
  obtain m where v: "get_mode v rl n = Some m" using assms(4) by blast
  then have m: "get_mode w rl n = Some m" using assms(2,3) by (simp add: observers_gone_def)
  have obs: "observers_of v rl n = members (rlm_observers m)" using v by (simp add: observers_of_def)
  then have d: "distinct (members (rlm_observers m))" using spec[OF assms(1), of n] by simp
  note g = assms(2)[unfolded observers_gone_def]
  show ?thesis
  proof (cases "rlm_observers m")
    case None
    then have "CFRunLoopDeallocateObservers E rl n w = Some w" using m by (simp add: CFRunLoopDeallocateObservers_def)
    moreover have "observers_gone rl (ds @ [n]) v w"
      using g None obs unfolding observers_gone_def card_snoc[OF assms(3)] by simp
    ultimately show ?thesis by blast
  next
    case (Some xs)
    let ?w1 = "upd_mode w rl n (\<lambda>m. m\<lparr>rlm_observers := Some []\<rparr>)"
    let ?w2 = "?w1\<lparr>w_observer := \<lambda>x. if x \<in> set xs then CFRunLoopObserverCancel (w_observer w x) else w_observer w x\<rparr>"
    have w1: "w_observer ?w1 = w_observer w" by (simp add: upd_mode_def)
    have run: "CFRunLoopDeallocateObservers E rl n w = Some ?w2"
      using m Some d by (simp add: CFRunLoopDeallocateObservers_def fold_upd_observer w1 cong: if_cong)
    have "same_shell rl v ?w2" using g by (simp add: same_shell_def upd_mode_def)
    moreover have "timers_of ?w2 rl = timers_of v rl"
    proof -
      have t: "timers_of ?w2 = timers_of ?w1" by (rule view_cong(2)) (simp add: get_mode_def fun_eq_iff)
      have "timers_of w rl n = members (rlm_timers m)" using m by (simp add: timers_of_def)
      then show ?thesis using g unfolding t view_upd_mode(2)[OF m] by auto
    qed
    moreover have "\<forall>k. k \<notin> set (ds @ [n]) \<longrightarrow> get_mode ?w2 rl k = get_mode v rl k"
      using g by (auto simp: get_mode_def upd_mode_def map_of_map_entry)
    moreover have "w_timer ?w2 = w_timer v \<and> w_source ?w2 = w_source v \<and> w_calls ?w2 = w_calls v" using g by (simp add: upd_mode_def)
    ultimately have "observers_gone rl (ds @ [n]) v ?w2"
      using g Some obs unfolding observers_gone_def card_snoc[OF assms(3)] by simp
    then show ?thesis using run by blast
  qed
qed

text \<open>The fourth pass after the modes \<open>ds\<close>.\<close>

abbreviation cleared_timer :: "CFRunLoopTimer \<Rightarrow> CFRunLoopTimer" where
  "cleared_timer t \<equiv> t\<lparr>rlt_rlModes := [], rlt_runLoop := NULL\<rparr>"

definition timers_gone :: "ptr \<Rightarrow> mode_name list \<Rightarrow> world \<Rightarrow> world \<Rightarrow> bool" where
  "timers_gone rl ds v w \<longleftrightarrow> same_shell rl v w \<and> w_observer w = w_observer v \<and> w_source w = w_source v \<and> w_calls w = w_calls v \<and>
     (\<forall>k. k \<notin> set ds \<longrightarrow> get_mode w rl k = get_mode v rl k) \<and>
     (\<forall>t. w_timer w t = (if \<exists>k \<in> set ds. t \<in> set (timers_of v rl k) then cleared_timer (w_timer v t) else w_timer v t))"

lemma deallocate_timers_step:
  assumes "\<forall>k. distinct (timers_of v rl k)" "timers_gone rl ds v w" "n \<notin> set ds" "get_mode v rl n \<noteq> None"
  shows "\<exists>w'. CFRunLoopDeallocateTimers E rl n w = Some w' \<and> timers_gone rl (ds @ [n]) v w'"
proof -
  obtain m where v: "get_mode v rl n = Some m" using assms(4) by blast
  then have m: "get_mode w rl n = Some m" using assms(2,3) by (simp add: timers_gone_def)
  have tim: "timers_of v rl n = members (rlm_timers m)" using v by (simp add: timers_of_def)
  then have d: "distinct (members (rlm_timers m))" using spec[OF assms(1), of n] by simp
  note g = assms(2)[unfolded timers_gone_def]
  show ?thesis
  proof (cases "rlm_timers m")
    case None
    then have "CFRunLoopDeallocateTimers E rl n w = Some w" using m by (simp add: CFRunLoopDeallocateTimers_def)
    moreover have "timers_gone rl (ds @ [n]) v w" using g None tim unfolding timers_gone_def by simp
    ultimately show ?thesis by blast
  next
    case (Some xs)
    let ?w1 = "upd_mode w rl n (\<lambda>m. m\<lparr>rlm_timers := Some []\<rparr>)"
    let ?w2 = "?w1\<lparr>w_timer := \<lambda>x. if x \<in> set xs then cleared_timer (w_timer w x) else w_timer w x\<rparr>"
    have w1: "w_timer ?w1 = w_timer w" by (simp add: upd_mode_def)
    have run: "CFRunLoopDeallocateTimers E rl n w = Some ?w2"
      using m Some d by (simp add: CFRunLoopDeallocateTimers_def fold_upd_timer w1 cong: if_cong)
    have "same_shell rl v ?w2" using g by (simp add: same_shell_def upd_mode_def)
    moreover have "\<forall>k. k \<notin> set (ds @ [n]) \<longrightarrow> get_mode ?w2 rl k = get_mode v rl k"
      using g by (auto simp: get_mode_def upd_mode_def map_of_map_entry)
    moreover have "w_observer ?w2 = w_observer v \<and> w_source ?w2 = w_source v \<and> w_calls ?w2 = w_calls v" using g by (simp add: upd_mode_def)
    moreover have "w_timer ?w2 t = (if \<exists>k \<in> set (ds @ [n]). t \<in> set (timers_of v rl k) then cleared_timer (w_timer v t) else w_timer v t)" for t
      using g Some tim by auto
    ultimately have "timers_gone rl (ds @ [n]) v ?w2" unfolding timers_gone_def by blast
    then show ?thesis using run by blast
  qed
qed

section \<open>The queued blocks\<close>

lemma release_blocks_queue:
  assumes "calm E"
  shows "seg (w_blocks w) p xs NULL \<Longrightarrow> distinct (addrs xs) \<Longrightarrow>
    \<exists>w'. release_blocks E p w = Some w' \<and> w_loop w' = w_loop w \<and> w_observer w' = w_observer w \<and> w_source w' = w_source w \<and>
      w_timer w' = w_timer w \<and> w_calls w' = w_calls w @ map (\<lambda>(a, md, b). ReleaseBlock b) xs \<and>
      (\<forall>a. w_blocks w' a = (if a \<in> set (addrs xs) then None else w_blocks w a))"
proof (induction xs arbitrary: p w)
  case Nil
  then show ?case by (simp add: release_blocks.simps)
next
  case (Cons x xs)
  obtain a md b where x: "x = (a, md, b)" by (cases x)
  obtain nxt where s: "p = a" "a \<noteq> NULL" "w_blocks w a = Some \<lparr>bi_next = nxt, bi_mode = md, bi_block = b\<rparr>"
    "seg (w_blocks w) nxt xs NULL" using Cons.prems(1) unfolding x by auto
  have d: "a \<notin> set (addrs xs)" "distinct (addrs xs)" using Cons.prems(2) by (simp_all add: x)
  obtain w1 where w1: "do_callout E (ReleaseBlock b) w = Some w1" "ticked [ReleaseBlock b] w w1" by (rule calm_callout[OF assms])
  have b1: "w_blocks w1 = w_blocks w" using w1(2) by (auto simp: ticked_def)
  let ?w2 = "w1\<lparr>w_blocks := (w_blocks w1)(a := None)\<rparr>"
  have "seg (w_blocks ?w2) nxt xs NULL \<longleftrightarrow> seg (w_blocks w) nxt xs NULL" using d(1) by (intro seg_cong) (auto simp: b1)
  from Cons.IH[OF this[THEN iffD2, OF s(4)] d(2)] obtain w' where w': "release_blocks E nxt ?w2 = Some w'" "w_loop w' = w_loop ?w2"
    "w_observer w' = w_observer ?w2" "w_source w' = w_source ?w2" "w_timer w' = w_timer ?w2"
    "w_calls w' = w_calls ?w2 @ map (\<lambda>(a, md, b). ReleaseBlock b) xs"
    "\<And>c. w_blocks w' c = (if c \<in> set (addrs xs) then None else w_blocks ?w2 c)" by blast
  have "release_blocks E p w = Some w'"
    using s(1-3) w1(1) w'(1) b1 by (subst release_blocks.simps) simp
  then show ?case using w'(2-7) tickedD[OF w1(2)] by (auto simp: x b1)
qed

section \<open>The whole deallocation\<close>

lemma shell_mode: "same_shell rl v w \<Longrightarrow> get_mode w rl n \<noteq> None \<longleftrightarrow> n \<in> set (map fst (rl_modes (w_loop v rl)))"
  unfolding same_shell_def get_mode_def by (metis map_of_eq_None_iff set_map)

text \<open>A pass over the modes, from a state with the names of \<open>u\<close>.\<close>

lemma modes_pass:
  assumes "lists_once E" "modes_inv u" "same_shell rl u v" "I [] v"
    and step: "\<And>ds n w. I ds w \<Longrightarrow> n \<notin> set ds \<Longrightarrow> get_mode v rl n \<noteq> None \<Longrightarrow> \<exists>w'. f n w = Some w' \<and> I (ds @ [n]) w'"
  shows "\<exists>w. apply_to_modes E rl f v = Some w \<and> I (ev_names E (map fst (rl_modes (w_loop u rl)))) w"
proof -
  let ?ns = "ev_names E (map fst (rl_modes (w_loop u rl)))"
  have ns: "distinct ?ns" "\<And>n. n \<in> set ?ns \<Longrightarrow> get_mode v rl n \<noteq> None" "map fst (rl_modes (w_loop v rl)) = map fst (rl_modes (w_loop u rl))"
    using assms(2,3) shell_mode[OF assms(3)] by (simp_all add: lists_onceD[OF assms(1)] modes_inv_def same_shell_def)
  have "\<exists>w. ofold f ?ns v = Some w \<and> I ?ns w" by (rule ofold_prefix[where I = I, OF assms(4) ns(1)]) (use ns(2) step in blast)
  then show ?thesis by (simp add: apply_to_modes_def ns(3))
qed

lemma passes:
  assumes "calm E" "lists_once E" "rl_inv u" "same_shell rl u v" "get_mode v = get_mode u" "w_source v = w_source u"
  obtains w1 w2 w3 w4 where
    "apply_to_modes E rl (CFRunLoopCleanseSources E rl) v = Some w1"
    "apply_to_modes E rl (CFRunLoopDeallocateSources E rl) w1 = Some w2"
    "apply_to_modes E rl (CFRunLoopDeallocateObservers E rl) w2 = Some w3"
    "apply_to_modes E rl (CFRunLoopDeallocateTimers E rl) w3 = Some w4"
    "cleansed rl v (ev_names E (map fst (rl_modes (w_loop u rl)))) w1"
    "sources_gone rl (set (ev_names E (map fst (rl_modes (w_loop u rl)))))
       (concat (map (mode_cancels E u rl) (ev_names E (map fst (rl_modes (w_loop u rl)))))) w1 w2"
    "observers_gone rl (ev_names E (map fst (rl_modes (w_loop u rl)))) w2 w3"
    "timers_gone rl (ev_names E (map fst (rl_modes (w_loop u rl)))) w3 w4"
proof -
  let ?ns = "ev_names E (map fst (rl_modes (w_loop u rl)))"
  note inv = assms(3)[unfolded rl_inv_def]
  note pass = modes_pass[OF assms(2) conjunct1[OF inv]]
  note views = view_cong[OF assms(5)]
  have src: "sources_inv v" using inv sources_inv_cong[OF views(3) assms(6)] by simp
  have i1: "cleansed rl v [] v" unfolding cleansed_def using exI[of "\<lambda>S. v = v\<lparr>w_source := S\<rparr>" "w_source v"] by simp
  have "\<exists>w. apply_to_modes E rl (CFRunLoopCleanseSources E rl) v = Some w \<and> cleansed rl v ?ns w"
    by (rule pass[where I = "cleansed rl v", OF assms(4) i1]) (rule cleanse_step[OF assms(2) src])
  then obtain w1 where w1: "apply_to_modes E rl (CFRunLoopCleanseSources E rl) v = Some w1" "cleansed rl v ?ns w1" by blast
  obtain S where S: "w1 = v\<lparr>w_source := S\<rparr>" "same_sources v w1" using w1(2) unfolding cleansed_def by blast
  have s1: "same_shell rl u w1" using assms(4) by (simp add: S(1))
  have g1: "get_mode w1 = get_mode u" by (simp add: S(1) assms(5))
  have "same_sources u w1" using S(2) by (simp add: same_sources_def assms(6))
  then have c: "mode_cancels E w1 rl = mode_cancels E u rl"
    by (simp add: mode_cancels_def fun_eq_iff g1 cancels_same split: option.split)
  have ns: "distinct ?ns" "\<forall>n \<in> set ?ns. get_mode w1 rl n \<noteq> None" "map fst (rl_modes (w_loop w1 rl)) = map fst (rl_modes (w_loop u rl))"
    using inv s1 shell_mode[OF s1] by (simp_all add: lists_onceD[OF assms(2)] modes_inv_def same_shell_def)
  obtain w2 where w2: "apply_to_modes E rl (CFRunLoopDeallocateSources E rl) w1 = Some w2"
    "sources_gone rl (set ?ns) (concat (map (mode_cancels E u rl) ?ns)) w1 w2"
    using deallocate_sources_pass[OF assms(1,2) ns(1,2)] by (auto simp: apply_to_modes_def ns(3) c)
  have s2: "same_shell rl u w2" using w2(2) same_shell_trans[OF s1] by (simp add: sources_gone_def)
  have v2: "observers_of w2 rl = observers_of u rl" "timers_of w2 rl = timers_of u rl"
    using w2(2) view_cong[OF g1] by (simp_all add: sources_gone_def)
  have d2: "\<forall>k. distinct (observers_of w2 rl k)" using inv by (simp add: v2 observers_inv_def)
  have i2: "observers_gone rl [] w2 w2" by (simp add: observers_gone_def)
  have "\<exists>w. apply_to_modes E rl (CFRunLoopDeallocateObservers E rl) w2 = Some w \<and> observers_gone rl ?ns w2 w"
    by (rule pass[where I = "\<lambda>ds. observers_gone rl ds w2", OF s2 i2]) (rule deallocate_observers_step[OF d2])
  then obtain w3 where w3: "apply_to_modes E rl (CFRunLoopDeallocateObservers E rl) w2 = Some w3" "observers_gone rl ?ns w2 w3"
    by blast
  have s3: "same_shell rl u w3" using w3(2) same_shell_trans[OF s2] by (simp add: observers_gone_def)
  have d3: "\<forall>k. distinct (timers_of w3 rl k)" using inv w3(2) by (simp add: v2 observers_gone_def timers_inv_def)
  have i3: "timers_gone rl [] w3 w3" by (simp add: timers_gone_def)
  have "\<exists>w. apply_to_modes E rl (CFRunLoopDeallocateTimers E rl) w3 = Some w \<and> timers_gone rl ?ns w3 w"
    by (rule pass[where I = "\<lambda>ds. timers_gone rl ds w3", OF s3 i3]) (rule deallocate_timers_step[OF d3])
  then show thesis using that w1 w2 w3 by blast
qed

text \<open>What is left of an observer, a timer and a source.\<close>

definition loop_gone :: "ptr \<Rightarrow> world \<Rightarrow> world \<Rightarrow> bool" where
  "loop_gone rl w w' \<longleftrightarrow> (\<forall>n. get_mode w' rl n = None) \<and> rl_modes (w_loop w' rl) = [] \<and>
     (\<forall>l. l \<noteq> rl \<longrightarrow> w_loop w' l = w_loop w l) \<and>
     (\<forall>x. w_observer w' x = (if rlo_runLoop (w_observer w x) = rl
        then w_observer w x\<lparr>rlo_rlCount := 0, rlo_runLoop := NULL\<rparr> else w_observer w x)) \<and>
     (\<forall>t. w_timer w' t = (if rlt_runLoop (w_timer w t) = rl then cleared_timer (w_timer w t) else w_timer w t)) \<and>
     same_sources w w' \<and> (\<forall>s l. l \<noteq> rl \<longrightarrow> loop_count w' s l = loop_count w s l) \<and>
     (source_refs_exact w \<longrightarrow> (\<forall>s. rls_valid (w_source w s) \<longrightarrow> loop_count w' s rl = 0))"

lemma cancel_all:
  assumes "rlo_rlCount ob = int (Suc c)"
  shows "(CFRunLoopObserverCancel ^^ Suc c) ob = ob\<lparr>rlo_rlCount := 0, rlo_runLoop := NULL\<rparr>"
proof -
  have "i \<le> c \<Longrightarrow> (CFRunLoopObserverCancel ^^ i) ob = ob\<lparr>rlo_rlCount := int (Suc c) - int i\<rparr>" for i
    by (induction i) (use assms in \<open>auto simp: CFRunLoopObserverCancel_def\<close>)
  from this[of c] show ?thesis by (simp add: CFRunLoopObserverCancel_def)
qed

lemma member_names:
  assumes "lists_once E"
  shows "{k \<in> set (ev_names E (map fst (rl_modes (w_loop w rl)))). x \<in> set (observers_of w rl k)} = {k. x \<in> set (observers_of w rl k)}"
    "{k \<in> set (ev_names E (map fst (rl_modes (w_loop w rl)))). x \<in> set (sources_of w rl k)} = {k. x \<in> set (sources_of w rl k)}"
    "(\<exists>k \<in> set (ev_names E (map fst (rl_modes (w_loop w rl)))). x \<in> set (timers_of w rl k)) \<longleftrightarrow> (\<exists>k. x \<in> set (timers_of w rl k))"
proof -
  have k: "k \<in> set (ev_names E (map fst (rl_modes (w_loop w rl))))" if "get_mode w rl k \<noteq> None" for k
    using that shell_mode[of rl w w k] by (simp add: lists_onceD[OF assms])
  have n: "get_mode w rl k \<noteq> None"
    if "x \<in> set (observers_of w rl k) \<or> x \<in> set (sources_of w rl k) \<or> x \<in> set (timers_of w rl k)" for k
    using that by (cases "get_mode w rl k") (auto simp: view_None)
  show "{k \<in> set (ev_names E (map fst (rl_modes (w_loop w rl)))). x \<in> set (observers_of w rl k)} = {k. x \<in> set (observers_of w rl k)}"
    "{k \<in> set (ev_names E (map fst (rl_modes (w_loop w rl)))). x \<in> set (sources_of w rl k)} = {k. x \<in> set (sources_of w rl k)}"
    "(\<exists>k \<in> set (ev_names E (map fst (rl_modes (w_loop w rl)))). x \<in> set (timers_of w rl k)) \<longleftrightarrow> (\<exists>k. x \<in> set (timers_of w rl k))"
    using k n by blast+
qed

lemma observer_cancelled:
  assumes "observers_inv w" "rl \<noteq> NULL"
  shows "(CFRunLoopObserverCancel ^^ card {k. x \<in> set (observers_of w rl k)}) (w_observer w x) =
    (if rlo_runLoop (w_observer w x) = rl then w_observer w x\<lparr>rlo_rlCount := 0, rlo_runLoop := NULL\<rparr> else w_observer w x)"
proof (cases "rlo_runLoop (w_observer w x) = rl")
  case True
  have "rlo_rlCount (w_observer w x) = int (card {k. x \<in> set (observers_of w rl k)})" "rlo_rlCount (w_observer w x) \<noteq> 0"
    using observers_invD(5,6)[OF assms(1), of x] True assms(2) by simp_all
  then show ?thesis using True cancel_all[of "w_observer w x"] by (cases "card {k. x \<in> set (observers_of w rl k)}") simp_all
next
  case False
  then have "{k. x \<in> set (observers_of w rl k)} = {}" using observers_invD(3)[OF assms(1)] by blast
  then show ?thesis using False by simp
qed

lemma timer_belongs:
  assumes "timers_inv w" "rl \<noteq> NULL"
  shows "(\<exists>k. t \<in> set (timers_of w rl k)) \<longleftrightarrow> rlt_runLoop (w_timer w t) = rl"
proof -
  have "rlt_rlModes (w_timer w t) \<noteq> []" if "rlt_runLoop (w_timer w t) = rl"
    using timers_invD(5)[OF assms(1), of t] that assms(2) by simp
  then show ?thesis using timers_invD(3)[OF assms(1), of t rl] by (metis last_in_set)
qed

lemma deallocate_effect:
  assumes "calm E" "lists_once E" "rl_inv w" "rl \<noteq> NULL" "ev_main E \<noteq> rl" "queue w rl xs"
  shows "\<exists>w'. CFRunLoopDeallocate E rl w = Some w' \<and> loop_gone rl w w' \<and>
    w_calls w' = w_calls w @ concat (map (mode_cancels E w rl) (ev_names E (map fst (rl_modes (w_loop w rl))))) @
      map (\<lambda>(a, md, b). ReleaseBlock b) xs \<and>
    (\<forall>a. w_blocks w' a = (if a \<in> set (addrs xs) then None else w_blocks w a))"
proof -
  let ?ns = "ev_names E (map fst (rl_modes (w_loop w rl)))"
  let ?w0 = "upd_loop w rl (\<lambda>l. l\<lparr>rl_deallocating := True\<rparr>)"
  let ?fin = "\<lambda>l. l\<lparr>rl_commonModeItems := None, rl_commonModes := [], rl_modes := [], rl_wakeUpPort := MACH_PORT_NULL\<rparr>"
  have s0: "same_shell rl w ?w0" "get_mode ?w0 = get_mode w" "w_source ?w0 = w_source w"
    by (simp_all add: same_shell_def get_mode_def fun_eq_iff)
  obtain w1 w2 w3 w4 where run: "apply_to_modes E rl (CFRunLoopCleanseSources E rl) ?w0 = Some w1"
    "apply_to_modes E rl (CFRunLoopDeallocateSources E rl) w1 = Some w2"
    "apply_to_modes E rl (CFRunLoopDeallocateObservers E rl) w2 = Some w3"
    "apply_to_modes E rl (CFRunLoopDeallocateTimers E rl) w3 = Some w4"
    and c1: "cleansed rl ?w0 ?ns w1" and c2: "sources_gone rl (set ?ns) (concat (map (mode_cancels E w rl) ?ns)) w1 w2"
    and c3: "observers_gone rl ?ns w2 w3" and c4: "timers_gone rl ?ns w3 w4"
    by (rule passes[OF assms(1-3) s0])
  obtain S where S: "w1 = ?w0\<lparr>w_source := S\<rparr>" using c1 unfolding cleansed_def by blast
  have s1: "same_shell rl w w1" using s0(1) by (simp add: S)
  have "same_shell rl w1 w2" "same_shell rl w2 w3" "same_shell rl w3 w4"
    using c2 c3 c4 by (simp_all add: sources_gone_def observers_gone_def timers_gone_def)
  then have s4: "same_shell rl w w4" using s1 same_shell_trans by blast
  have q: "seg (w_blocks w4) (rl_blocks_head (w_loop w4 rl)) xs NULL" "distinct (addrs xs)"
    using assms(6) s4 by (simp_all add: queue_def same_shell_def)
  obtain w5 where w5: "release_blocks E (rl_blocks_head (w_loop w4 rl)) w4 = Some w5" "w_loop w5 = w_loop w4"
    "w_observer w5 = w_observer w4" "w_source w5 = w_source w4" "w_timer w5 = w_timer w4"
    "w_calls w5 = w_calls w4 @ map (\<lambda>(a, md, b). ReleaseBlock b) xs"
    "\<forall>a. w_blocks w5 a = (if a \<in> set (addrs xs) then None else w_blocks w4 a)"
    using release_blocks_queue[OF assms(1) q] by blast
  let ?w' = "upd_loop w5 rl ?fin"
  have go: "CFRunLoopDeallocate E rl w = Some ?w'" using assms(5) run w5(1) by (simp add: CFRunLoopDeallocate_def Let_def)
  have inv: "observers_inv w" "timers_inv w" "sources_inv w" using assms(3) by (simp_all add: rl_inv_def)
  have v1: "observers_of w1 = observers_of w" "timers_of w1 = timers_of w"
    by (rule view_cong, simp add: S s0(2))+
  have o1: "w_observer w1 = w_observer w" "w_timer w1 = w_timer w" "w_calls w1 = w_calls w" by (simp_all add: S)
  have obs: "w_observer w4 x = (if rlo_runLoop (w_observer w x) = rl
      then w_observer w x\<lparr>rlo_rlCount := 0, rlo_runLoop := NULL\<rparr> else w_observer w x)" for x
    using c2 c3 c4 observer_cancelled[OF inv(1) assms(4), of x] member_names(1)[OF assms(2), where w = w and rl = rl and x = x]
    by (simp add: sources_gone_def observers_gone_def timers_gone_def v1 o1)
  have tim: "w_timer w4 t = (if rlt_runLoop (w_timer w t) = rl then cleared_timer (w_timer w t) else w_timer w t)" for t
    using c2 c3 c4 timer_belongs[OF inv(2) assms(4), of t] member_names(3)[OF assms(2), where w = w and rl = rl and x = t]
    by (simp add: sources_gone_def observers_gone_def timers_gone_def v1 o1)
  have src: "w_source w4 = w_source w2" using c3 c4 by (simp add: observers_gone_def timers_gone_def)
  have same: "same_sources w w4" using c1 c2 by (simp add: same_sources_def cleansed_def sources_gone_def src)
  have le: "loop_count w4 s l \<le> loop_count w1 s l \<and> (l \<noteq> rl \<longrightarrow> loop_count w4 s l = loop_count w1 s l)" for s l
    using c2 unfolding src sources_gone_def by blast
  have l1: "loop_count w1 s l = loop_count w s l - (if l = rl then card {k. s \<in> set (sources_of w rl k)} else 0)" for s l
    using c1 view_cong(3)[OF s0(2)] member_names(2)[OF assms(2), where w = w and rl = rl and x = s] by (simp add: cleansed_def)
  have "loop_count w4 s rl = 0" if "source_refs_exact w" "rls_valid (w_source w s)" for s
    using le[of s rl] l1[of s rl] that by (simp add: source_refs_exact_def)
  moreover have "loop_count w4 s l = loop_count w s l" if "l \<noteq> rl" for s l using le[of s l] l1[of s l] that by simp
  ultimately have "loop_gone rl w ?w'"
    using obs tim same s4 by (simp add: loop_gone_def w5 get_mode_def same_sources_def same_shell_def)
  moreover have "w_calls w4 = w_calls w @ concat (map (mode_cancels E w rl) ?ns)"
    using c2 c3 c4 by (simp add: o1 sources_gone_def observers_gone_def timers_gone_def)
  moreover have "w_blocks w4 = w_blocks w" using s4 by (simp add: same_shell_def)
  ultimately show ?thesis using go w5 by simp
qed

lemma same_sources_key:
  assumes "same_sources w w'"
  shows "source_key (w_source w' s) = source_key (w_source w s)"
proof -
  have "w_source w' s\<lparr>rls_runLoops := None\<rparr> = w_source w s\<lparr>rls_runLoops := None\<rparr>" using assms by (simp add: same_sources_def)
  from arg_cong[OF this, of source_key] show ?thesis by (simp add: source_key_def)
qed

text \<open>Exact references of the sources stay exact.\<close>

lemma loop_gone_exact:
  assumes "loop_gone rl w w'" "source_refs_exact w"
  shows "source_refs_exact w'"
proof -
  note g = assms(1)[unfolded loop_gone_def]
  have same: "same_sources w w'" using g by blast
  have views: "sources_of w' l k = (if l = rl then [] else sources_of w l k)" for l k using g by (simp add: sources_of_def get_mode_def)
  have "loop_count w' s l = card {k. s \<in> set (sources_of w' l k)}" if "rls_valid (w_source w s)" for s l
    using g assms(2) that by (cases "l = rl") (simp_all add: views source_refs_exact_def)
  then show ?thesis by (simp add: source_refs_exact_def same_sourcesD[OF same])
qed

lemma loop_gone_inv:
  assumes "rl_inv w" "loop_gone rl w w'" "rl \<noteq> NULL"
  shows "rl_inv w'"
proof -
  note g = assms(2)[unfolded loop_gone_def]
  have inv: "modes_inv w" "observers_inv w" "timers_inv w" "sources_inv w" using assms(1) by (simp_all add: rl_inv_def)
  have v: "get_mode w' l k = (if l = rl then None else get_mode w l k)" for l k using g by (simp add: get_mode_def)
  have views: "observers_of w' l k = (if l = rl then [] else observers_of w l k)" "timers_of w' l k = (if l = rl then [] else timers_of w l k)"
    "sources_of w' l k = (if l = rl then [] else sources_of w l k)" "mask_of w' l k = (if l = rl then 0 else mask_of w l k)" for l k
    by (simp_all add: view_defs v)
  have "modes_inv w'" unfolding modes_inv_def
  proof (intro conjI allI impI)
    show "distinct (map fst (rl_modes (w_loop w' l)))" for l using g inv(1) by (cases "l = rl") (simp_all add: modes_inv_def)
    show "mode_ok k m" if "get_mode w' l k = Some m" for l k m using that inv(1) by (simp add: v modes_inv_def split: if_splits)
  qed
  moreover have "observers_inv w'"
  proof (rule observers_invI)
    have same: "rlo_order (w_observer w' x) = rlo_order (w_observer w x)"
      "rlo_activities (w_observer w' x) = rlo_activities (w_observer w x)" for x using g by simp_all
    fix y l k
    show "distinct (observers_of w' l k)" using observers_invD(1)[OF inv(2)] by (simp add: views)
    show "observers_of w' l kCFRunLoopCommonModes = []" using observers_invD(7)[OF inv(2)] by (simp add: views)
    show "sorted (map (\<lambda>x. rlo_order (w_observer w' x)) (observers_of w' l k))"
      using observers_invD(2)[OF inv(2)] by (simp add: views same)
    show "rlo_runLoop (w_observer w' y) = l" if "y \<in> set (observers_of w' l k)"
      using that g observers_invD(3)[OF inv(2), of y l k] by (auto simp: views split: if_splits)
    show "rlo_activities (w_observer w' y) AND mask_of w' l k = rlo_activities (w_observer w' y)" if "y \<in> set (observers_of w' l k)"
      using that observers_invD(4)[OF inv(2), of y l k] by (auto simp: views same split: if_splits)
    show "rlo_rlCount (w_observer w' y) = int (card {k. y \<in> set (observers_of w' (rlo_runLoop (w_observer w' y)) k)}) \<and>
      (rlo_rlCount (w_observer w' y) = 0 \<longleftrightarrow> rlo_runLoop (w_observer w' y) = NULL)"
    proof (cases "rlo_runLoop (w_observer w y) = rl")
      case True
      then have "y \<notin> set (observers_of w NULL k)" for k using observers_invD(3)[OF inv(2), of y NULL k] assms(3) by auto
      then show ?thesis using g True assms(3) by (simp add: views)
    next
      case False
      then show ?thesis using g observers_invD(5,6)[OF inv(2), of y] by (simp add: views)
    qed
  qed
  moreover have "timers_inv w'"
  proof (rule timers_invI)
    have same: "rlt_fireTSR (w_timer w' t) = rlt_fireTSR (w_timer w t)" for t using g by simp
    fix t l k
    show "distinct (timers_of w' l k)" using timers_invD(1)[OF inv(3)] by (simp add: views)
    show "sorted (map (\<lambda>t. rlt_fireTSR (w_timer w' t)) (timers_of w' l k))"
      using timers_invD(2)[OF inv(3)] by (simp add: views same)
    show "t \<in> set (timers_of w' l k) \<longleftrightarrow> rlt_runLoop (w_timer w' t) = l \<and> k \<in> set (rlt_rlModes (w_timer w' t))"
      using g timers_invD(3)[OF inv(3), of t l k] by (auto simp: views)
    show "distinct (rlt_rlModes (w_timer w' t))" using g timers_invD(4)[OF inv(3), of t] by simp
    show "rlt_runLoop (w_timer w' t) = NULL \<longleftrightarrow> rlt_rlModes (w_timer w' t) = []"
      using g timers_invD(5)[OF inv(3), of t] by simp
  qed
  moreover have same: "same_sources w w'" using g by blast
  then have "sources_apart w' \<longleftrightarrow> sources_apart w" by (intro sources_apart_cong same_sources_key)
  then have "sources_inv w'"
    using inv(4) loop_gone_exact[OF assms(2)]
    by (simp add: sources_inv_def views same_sourcesD[OF same])
  ultimately show ?thesis by (simp add: rl_inv_def)
qed

section \<open>Property\<close>

text \<open>The run loop of the sample state with two blocks queued, in surroundings where another run loop is the main one.\<close>

definition leaving_world :: world where
  "leaving_world = upd_loop (busy_world\<lparr>w_blocks := w_blocks two_blocks\<rparr>) 1 (\<lambda>l. l\<lparr>rl_blocks_head := 100, rl_blocks_tail := 101\<rparr>)"

definition side_env :: env where
  "side_env = quiet_env\<lparr>ev_main := 2\<rparr>"

lemma side_calm: "calm side_env"
  using quiet_calm by (simp add: calm_def side_env_def)

lemma side_lists: "lists_once side_env"
  by (simp add: lists_once_def side_env_def quiet_env_def)

lemma leaving_inv: "rl_inv leaving_world"
  using busy_inv rl_inv_cong[of leaving_world busy_world] by (simp add: leaving_world_def)

lemma leaving_queue: "queue leaving_world 1 two_entries"
  by (simp add: queue_def leaving_world_def two_blocks_def two_entries_def end_of_def)

text \<open>
  C16. Deallocating a run loop that is not the main one returns and leaves no reference to it behind, when its callbacks leave the
  run loops alone and its block queue is well formed: no observer and no timer belongs to it afterwards, it has no modes, and no
  valid source holds it, provided that the sources' references were exact (which the invariant says unless different sources
  compare equal); then they still are. Every other run loop and every observer and timer of another run loop is unchanged,
  and the invariant still holds. The cancel callbacks of its version 0 sources run first, mode by mode; then each queued block is
  released once, in order, and its item is freed.
\<close>

theorem deallocation_detaches:
  assumes "calm E" "lists_once E" "rl_inv w" "rl \<noteq> NULL" "ev_main E \<noteq> rl" "queue w rl xs"
  shows "\<exists>w'. CFRunLoopDeallocate E rl w = Some w' \<and> rl_inv w' \<and> rl_modes (w_loop w' rl) = [] \<and>
    (\<forall>x. rlo_runLoop (w_observer w' x) \<noteq> rl) \<and> (\<forall>t. rlt_runLoop (w_timer w' t) \<noteq> rl) \<and>
    (source_refs_exact w \<longrightarrow> source_refs_exact w' \<and>
      (\<forall>s. rls_valid (w_source w' s) \<longrightarrow> rl \<notin> set (members (rls_runLoops (w_source w' s))))) \<and>
    (\<forall>l. l \<noteq> rl \<longrightarrow> w_loop w' l = w_loop w l) \<and>
    (\<forall>x. rlo_runLoop (w_observer w x) \<noteq> rl \<longrightarrow> w_observer w' x = w_observer w x) \<and>
    (\<forall>t. rlt_runLoop (w_timer w t) \<noteq> rl \<longrightarrow> w_timer w' t = w_timer w t) \<and>
    w_calls w' = w_calls w @ concat (map (mode_cancels E w rl) (ev_names E (map fst (rl_modes (w_loop w rl))))) @
      map (\<lambda>(a, md, b). ReleaseBlock b) xs \<and>
    (\<forall>a. w_blocks w' a = (if a \<in> set (addrs xs) then None else w_blocks w a))"
proof -
  obtain w' where w': "CFRunLoopDeallocate E rl w = Some w'" "loop_gone rl w w'"
    "w_calls w' = w_calls w @ concat (map (mode_cancels E w rl) (ev_names E (map fst (rl_modes (w_loop w rl))))) @
      map (\<lambda>(a, md, b). ReleaseBlock b) xs"
    "\<forall>a. w_blocks w' a = (if a \<in> set (addrs xs) then None else w_blocks w a)"
    using deallocate_effect[OF assms] by blast
  note g = w'(2)[unfolded loop_gone_def]
  have "rl \<notin> set (members (rls_runLoops (w_source w' s)))" if "source_refs_exact w" "rls_valid (w_source w' s)" for s
  proof -
    have "rls_valid (w_source w s)" using that same_sourcesD(2)[of w w' s] g by simp
    then show ?thesis using g that(1) by (simp add: count_list_0_iff)
  qed
  then show ?thesis using w' g loop_gone_inv[OF assms(3) w'(2) assms(4)] loop_gone_exact[OF w'(2)] assms(4) by auto
qed

lemma leaving_calls:
  "w_calls leaving_world = []"
  "concat (map (mode_cancels side_env leaving_world 1) (ev_names side_env (map fst (rl_modes (w_loop leaving_world 1))))) =
     [CancelSource 6 1 kCFRunLoopDefaultMode, CancelSource 7 1 kCFRunLoopDefaultMode]"
  unfolding leaving_world_def busy_world_def by code_simp+

theorem deallocation_detaches_witness:
  "\<exists>w'. CFRunLoopDeallocate side_env 1 leaving_world = Some w' \<and> rl_inv w' \<and> rlo_runLoop (w_observer w' 5) \<noteq> 1 \<and>
     w_calls w' = [CancelSource 6 1 kCFRunLoopDefaultMode, CancelSource 7 1 kCFRunLoopDefaultMode, ReleaseBlock 7, ReleaseBlock 8] \<and>
     w_blocks w' 100 = None"
proof -
  have "(1::ptr) \<noteq> NULL" "ev_main side_env \<noteq> 1" by (simp_all add: side_env_def)
  from deallocation_detaches[OF side_calm side_lists leaving_inv this leaving_queue] show ?thesis
    unfolding leaving_calls by (auto simp: two_entries_def)
qed

end
