(* ===== verification/CF_RunLoop_Lifetime.thy ===== *)
theory CF_RunLoop_Lifetime
  imports CF_RunLoop_Safety CF_RunLoop_Dealloc
begin

text \<open>
  The run loop as a whole (\<^verbatim>\<open>CFRunLoop.c\<close>): creating run loops, sources, observers and timers, every call on them
  (\<open>api_step\<close>), queueing blocks, running, and deallocating a run loop, in any order. The invariant holds throughout.
\<close>

section \<open>Creating objects\<close>

text \<open>
  Memory that a new object can get: no mode refers to it. What is there before a source is created counts as a source
  that is like no other.
\<close>

definition unused_source :: "world \<Rightarrow> ptr \<Rightarrow> bool" where
  "unused_source w s \<longleftrightarrow> (\<forall>rl n. s \<notin> set (sources_of w rl n)) \<and>
     (\<forall>t. t \<noteq> s \<longrightarrow> \<not> source_alike (w_source w) s t \<and> \<not> source_alike (w_source w) t s)"

definition unused_observer :: "world \<Rightarrow> ptr \<Rightarrow> bool" where
  "unused_observer w x \<longleftrightarrow> (\<forall>rl n. x \<notin> set (observers_of w rl n))"

definition unused_timer :: "world \<Rightarrow> ptr \<Rightarrow> bool" where
  "unused_timer w t \<longleftrightarrow> (\<forall>rl n. t \<notin> set (timers_of w rl n))"

lemma create_source_inv:
  assumes "rl_inv w" "unused_source w s"
  shows "rl_inv (CFRunLoopSourceCreate w s order ctx retain)"
proof -
  let ?w = "CFRunLoopSourceCreate w s order ctx retain"
  obtain S where w': "?w = upd_source w s (\<lambda>_. S)" "rls_runLoops S = None" "rls_version S \<in> {0, 1}"
    by (rule that[of "w_source ?w s"]) (simp_all add: CFRunLoopSourceCreate_def Let_def upd_source_def zero_context_def)
  have inv: "modes_inv w" "observers_inv w" "timers_inv w" "sources_inv w" using assms(1) by (simp_all add: rl_inv_def)
  have apart: "sources_apart w" if "sources_apart ?w"
    unfolding sources_apart_def
  proof (intro allI impI)
    fix a b
    assume alike: "source_alike (w_source w) a b"
    show "a = b"
    proof (cases "a = s \<or> b = s")
      case True
      then show ?thesis using alike assms(2) by (auto simp: unused_source_def)
    next
      case False
      then have "source_alike (w_source ?w) a b" using alike source_alike_cong[of "w_source ?w" a "w_source w" b] by (simp add: w'(1))
      then show ?thesis using that by (simp add: sources_apart_def)
    qed
  qed
  have "sources_inv ?w"
  proof (rule sources_invI)
    fix t l
    assume "sources_apart ?w" and valid: "rls_valid (w_source ?w t)"
    then have "sources_apart w" using apart by blast
    then show "count_list (members (rls_runLoops (w_source ?w t))) l = card {k. t \<in> set (sources_of ?w l k)}"
      using valid sources_invD(3)[OF inv(4)] w'(2) assms(2) by (cases "t = s") (simp_all add: w'(1) unused_source_def)
  qed (use sources_invD(1,2)[OF inv(4)] w'(3) in \<open>simp_all add: w'(1)\<close>)
  then show ?thesis
    using inv observers_inv_cong[of ?w w] timers_inv_cong[of ?w w] by (simp add: rl_inv_def w'(1))
qed

lemma create_observer_inv:
  assumes "rl_inv w" "unused_observer w x"
  shows "rl_inv (CFRunLoopObserverCreate w x activities repeats order callout ctx)"
proof -
  let ?w = "CFRunLoopObserverCreate w x activities repeats order callout ctx"
  obtain y where w': "?w = upd_observer w x (\<lambda>_. y)" "rlo_runLoop y = NULL" "rlo_rlCount y = 0"
    by (rule that[of "w_observer ?w x"]) (simp_all add: CFRunLoopObserverCreate_def upd_observer_def)
  have inv: "modes_inv w" "observers_inv w" "timers_inv w" "sources_inv w" using assms(1) by (simp_all add: rl_inv_def)
  note D = observers_invD[OF inv(2)]
  have out: "x \<notin> set (observers_of w l k)" for l k using assms(2) by (simp add: unused_observer_def)
  have same: "w_observer ?w z = w_observer w z" if "z \<in> set (observers_of w l k)" for z l k using that out by (auto simp: w'(1))
  have "observers_inv ?w"
  proof (rule observers_invI)
    fix z l k
    show "sorted (map (\<lambda>z. rlo_order (w_observer ?w z)) (observers_of ?w l k))"
      using D(2)[of l k] same by (simp add: w'(1) cong: map_cong)
    show "rlo_rlCount (w_observer ?w z) = int (card {k. z \<in> set (observers_of ?w (rlo_runLoop (w_observer ?w z)) k)}) \<and>
      (rlo_rlCount (w_observer ?w z) = 0 \<longleftrightarrow> rlo_runLoop (w_observer ?w z) = NULL)"
      using D(5,6)[of z] w'(2,3) out by (cases "z = x") (simp_all add: w'(1))
  qed (use D(1,3,4,7) out in \<open>auto simp: w'(1)\<close>)
  then show ?thesis
    using inv sources_inv_cong[of ?w w] timers_inv_cong[of ?w w] by (simp add: rl_inv_def w'(1))
qed

lemma create_timer_inv:
  assumes "rl_inv w" "unused_timer w t" "CFRunLoopTimerCreate E w t fireDate interval order callout ctx = Some w'"
  shows "rl_inv w'"
proof -
  obtain y where w': "w' = upd_timer w t (\<lambda>_. y)" "rlt_runLoop y = NULL" "rlt_rlModes y = []"
    using assms(3) by (auto simp: CFRunLoopTimerCreate_def bind_eq_Some_conv Let_def)
  have inv: "modes_inv w" "observers_inv w" "timers_inv w" "sources_inv w" using assms(1) by (simp_all add: rl_inv_def)
  note D = timers_invD[OF inv(3)]
  have out: "t \<notin> set (timers_of w l k)" for l k using assms(2) by (simp add: unused_timer_def)
  have same: "w_timer w' z = w_timer w z" if "z \<in> set (timers_of w l k)" for z l k using that out by (auto simp: w'(1))
  have "timers_inv w'"
  proof (rule timers_invI)
    fix z l k
    show "sorted (map (\<lambda>z. rlt_fireTSR (w_timer w' z)) (timers_of w' l k))"
      using D(2)[of l k] same by (simp add: w'(1) cong: map_cong)
    show "z \<in> set (timers_of w' l k) \<longleftrightarrow> rlt_runLoop (w_timer w' z) = l \<and> k \<in> set (rlt_rlModes (w_timer w' z))"
      using D(3)[of z l k] w'(2,3) out by (cases "z = t") (simp_all add: w'(1))
  qed (use D(1,4,5) w'(2,3) in \<open>auto simp: w'(1)\<close>)
  then show ?thesis
    using inv sources_inv_cong[of w' w] observers_inv_cong[of w' w] by (simp add: rl_inv_def w'(1))
qed

lemma create_loop_inv:
  assumes "rl_inv w" "rl_modes (w_loop w rl) = []" "CFRunLoopCreate E w rl p = Some w'"
  shows "rl_inv w'"
proof -
  obtain l found where l: "CFRunLoopFindMode E (upd_loop w rl (\<lambda>_. CFRunLoopSetIgnoreWakeUps l)) rl kCFRunLoopDefaultMode True = Some (w', found)"
    "rl_modes l = []"
    using assms(3) by (auto simp: CFRunLoopCreate_def bind_eq_Some_conv Let_def split: if_split_asm)
  have "rl_inv (upd_loop w rl (\<lambda>_. CFRunLoopSetIgnoreWakeUps l)) \<longleftrightarrow> rl_inv w"
    by (rule rl_inv_cong) (simp_all add: assms(2) l(2) CFRunLoopSetIgnoreWakeUps_def)
  then show ?thesis using find_mode_inv[OF l(1)] assms(1) by simp
qed

section \<open>Queueing blocks\<close>

lemma ensure_modes_inv: "ensure_modes E rl ms w = Some w' \<Longrightarrow> rl_inv w \<Longrightarrow> rl_inv w'"
proof (induction ms arbitrary: w)
  case (Cons m ms)
  then obtain w1 found where "CFRunLoopFindMode E w rl m True = Some (w1, found)" "ensure_modes E rl ms w1 = Some w'"
    by (auto simp: bind_eq_Some_conv)
  then show ?case using Cons.IH find_mode_inv[OF _ Cons.prems(2)] by blast
qed simp

lemma perform_block_inv:
  assumes "env_ok E" "CFRunLoopPerformBlock E w rl mode block = Some w'" "rl_inv w"
  shows "rl_inv w'"
proof (cases mode)
  case None
  then show ?thesis using assms(2,3) callout_inv[OF assms(1)] by (auto simp: CFRunLoopPerformBlock_def split: if_splits)
next
  case (Some m)
  then obtain w1 where w1: "ensure_modes E rl (block_mode_names m) w = Some w1"
    using assms(2) by (auto simp: CFRunLoopPerformBlock_def bind_eq_Some_conv)
  have inv: "rl_inv w1" by (rule ensure_modes_inv[OF w1 assms(3)])
  show ?thesis
  proof (cases "block = NULL")
    case True
    then show ?thesis using assms(2) Some w1 inv by (simp add: CFRunLoopPerformBlock_def)
  next
    case False
    then obtain heap f where "w' = upd_loop (w1\<lparr>w_blocks := heap\<rparr>) rl f" "\<And>l. rl_modes (f l) = rl_modes l"
      using assms(2) Some w1 unfolding CFRunLoopPerformBlock_def Let_def by (auto simp: bind_eq_Some_conv)
    moreover have "rl_inv (w1\<lparr>w_blocks := heap\<rparr>) \<longleftrightarrow> rl_inv w1" by (rule rl_inv_cong) simp_all
    ultimately show ?thesis using inv by (simp add: rl_inv_upd_loop)
  qed
qed

section \<open>Everything together\<close>

text \<open>
  One event in the life of the run loops of a program. A run loop is deallocated as in \<open>deallocation_detaches\<close>: when it is not
  the main one, its block queue is well formed, and the callbacks made meanwhile leave the run loops alone.
\<close>

inductive loop_step :: "env \<Rightarrow> world \<Rightarrow> world \<Rightarrow> bool" for E where
  Call: "api_step E w w' \<Longrightarrow> loop_step E w w'"
| CreateLoop: "rl_modes (w_loop w rl) = [] \<Longrightarrow> CFRunLoopCreate E w rl p = Some w' \<Longrightarrow> loop_step E w w'"
| CreateSource: "unused_source w s \<Longrightarrow> loop_step E w (CFRunLoopSourceCreate w s order ctx retain)"
| CreateObserver: "unused_observer w x \<Longrightarrow>
    loop_step E w (CFRunLoopObserverCreate w x activities repeats order callout octx)"
| CreateTimer: "unused_timer w t \<Longrightarrow> CFRunLoopTimerCreate E w t fireDate interval order callout octx = Some w' \<Longrightarrow>
    loop_step E w w'"
| PerformBlock: "CFRunLoopPerformBlock E w rl mode block = Some w' \<Longrightarrow> loop_step E w w'"
| RunInMode: "CFRunLoopRunInMode E n seconds stop w = Some (w', result) \<Longrightarrow> loop_step E w w'"
| Run: "CFRunLoopRun E w = Some w' \<Longrightarrow> loop_step E w w'"
| Deallocate: "calm E \<Longrightarrow> lists_once E \<Longrightarrow> rl \<noteq> NULL \<Longrightarrow> ev_main E \<noteq> rl \<Longrightarrow> queue w rl xs \<Longrightarrow>
    CFRunLoopDeallocate E rl w = Some w' \<Longrightarrow> loop_step E w w'"

lemma loop_step_inv:
  assumes "loop_step E w w'" "env_ok E" "wait_ok E" "rl_inv w"
  shows "rl_inv w'"
  using assms(1)
proof cases
  case Call
  then show ?thesis by (rule api_step_inv[OF _ assms(2,4)])
next
  case CreateLoop
  then show ?thesis by (rule create_loop_inv[OF assms(4)])
next
  case CreateSource
  then show ?thesis using create_source_inv[OF assms(4)] by simp
next
  case CreateObserver
  then show ?thesis using create_observer_inv[OF assms(4)] by simp
next
  case CreateTimer
  then show ?thesis by (rule create_timer_inv[OF assms(4)])
next
  case PerformBlock
  then show ?thesis by (rule perform_block_inv[OF assms(2) _ assms(4)])
next
  case RunInMode
  then show ?thesis using run_specific_keeps[OF _ assms(2-4)] by (simp add: CFRunLoopRunInMode_def)
next
  case Run
  then show ?thesis by (rule run_keeps[OF _ assms(2-4)])
next
  case (Deallocate rl xs)
  obtain v where "CFRunLoopDeallocate E rl w = Some v" "loop_gone rl w v"
    using deallocate_effect[OF Deallocate(1,2) assms(4) Deallocate(3-5)] by blast
  then show ?thesis using loop_gone_inv[OF assms(4) _ Deallocate(3)] Deallocate(6) by simp
qed

text \<open>
  C1. Whatever is created, called, queued, run and deallocated in whatever order, the run loops' structures stay consistent: a mode's
  observers are sorted by order and its timers by date, without duplicates; the mask of a mode has
  every activity its observers want; an observer's count is the number of modes it is in and it knows
  its run loop exactly while it is in one; a timer is in exactly the modes it lists; no source is twice in a mode, and
  a valid source holds its run loop once for every mode it is in, unless two different sources compare equal
  (with the same order, version, callbacks and info, or by their \<^verbatim>\<open>equal\<close> callback). For this, new objects
  get memory that no mode refers to, and client code that is called back keeps the invariant.
\<close>

theorem run_loop_invariant:
  assumes "env_ok E" "wait_ok E" "(loop_step E)\<^sup>*\<^sup>* w w'" "rl_inv w"
  shows "rl_inv w'"
  using assms(3,4) by (induction rule: rtranclp_induct) (use loop_step_inv[OF _ assms(1,2)] in blast)+

text \<open>A source is created and added to the default mode with an observer; then a block is queued.\<close>

theorem run_loop_invariant_witness:
  "\<exists>w'. (loop_step quiet_env)\<^sup>*\<^sup>* blank_world w' \<and> observers_of w' 1 kCFRunLoopDefaultMode = [5] \<and>
     sources_of w' 1 kCFRunLoopDefaultMode = [6] \<and> rl_blocks_head (w_loop w' 1) = 100 \<and> rl_inv w'"
proof -
  let ?w0 = "CFRunLoopSourceCreate blank_world 6 3 (blank_source\<lparr>rls_info := 6\<rparr>) None"
  let ?run = "do { w1 \<leftarrow> add_item 2 quiet_env 1 (ObserverItem 5) kCFRunLoopCommonModes ?w0;
       w2 \<leftarrow> add_item 2 quiet_env 1 (SourceItem 6) kCFRunLoopDefaultMode w1;
       CFRunLoopPerformBlock quiet_env w2 1 (Some (ModeName kCFRunLoopDefaultMode)) 7 }"
  have "map_option (\<lambda>w. (observers_of w 1 kCFRunLoopDefaultMode, sources_of w 1 kCFRunLoopDefaultMode, rl_blocks_head (w_loop w 1)))
      ?run = Some ([5], [6], 100)"
    by code_simp
  then obtain w1 w2 w' where w: "add_item 2 quiet_env 1 (ObserverItem 5) kCFRunLoopCommonModes ?w0 = Some w1"
    "add_item 2 quiet_env 1 (SourceItem 6) kCFRunLoopDefaultMode w1 = Some w2"
    "CFRunLoopPerformBlock quiet_env w2 1 (Some (ModeName kCFRunLoopDefaultMode)) 7 = Some w'"
    "observers_of w' 1 kCFRunLoopDefaultMode = [5]" "sources_of w' 1 kCFRunLoopDefaultMode = [6]" "rl_blocks_head (w_loop w' 1) = 100"
    by (auto simp: bind_eq_Some_conv)
  have "sources_of blank_world l k = []" for l k by (simp add: sources_of_def get_mode_def blank_world_def blank_loop_def)
  then have "unused_source blank_world 6" using blank_apart by (auto simp: unused_source_def sources_apart_def)
  then have "loop_step quiet_env blank_world ?w0" by (rule loop_step.CreateSource)
  moreover have "loop_step quiet_env ?w0 w1" "loop_step quiet_env w1 w2"
    using w(1,2) by (blast intro: loop_step.Call api_step.AddItem)+
  moreover have "loop_step quiet_env w2 w'" by (rule loop_step.PerformBlock[OF w(3)])
  ultimately have "(loop_step quiet_env)\<^sup>*\<^sup>* blank_world w'" by (meson converse_rtranclp_into_rtranclp rtranclp.rtrancl_refl)
  then show ?thesis using run_loop_invariant[OF quiet_env_ok quiet_wait_ok _ blank_world_inv] w(4-6) by blast
qed

end
