(* ===== verification/CF_Tree.thy ===== *)
theory CF_Tree
  imports CF_Sort
begin

text \<open>
  The trees of \<^verbatim>\<open>CFTree.c\<close>: nodes with pointers to their parent, next sibling, first and last child, kept in a store of
  objects with reference counts. A node holds a reference to each of its children. The last release of a
  node takes its children off and releases them in turn (\<^verbatim>\<open>_CFRelease\<close> in \<^verbatim>\<open>CFRuntime.c\<close> calls the class's finalizer), so removal is
  modelled down to the memory that is given back.

  An assertion that fails, a null dereference and access to freed memory are the value \<open>None\<close>. The model follows the
  64-bit macOS configuration without garbage collection: on other systems the finalizer does not take the children off. Callbacks for the client's data are recorded in a trace; what a retain
  callback returns, and where memory is allocated, are parameters.
\<close>

section \<open>State\<close>

datatype cb_type = HasNullCallBacks | HasCFTypeCallBacks | HasCustomCallBacks

record CFTreeCallBacks =
  cb_retain :: ptr
  cb_release :: ptr
  cb_copyDescription :: ptr

record CFTree =
  tree_rc :: "32 word"
  tree_parent :: ptr
  tree_sibling :: ptr
  tree_child :: ptr
  tree_rightmostChild :: ptr
  tree_info :: ptr
  tree_cbtype :: cb_type
  tree_callbacks :: ptr

record CFTreeContext =
  ctx_version :: int
  ctx_info :: ptr
  ctx_retain :: ptr
  ctx_release :: ptr
  ctx_copyDescription :: ptr

datatype tree_call = CallRetain ptr ptr | CallRelease ptr ptr

record tree_heap =
  th_tree :: "ptr \<rightharpoonup> CFTree"
  th_cbs :: "ptr \<rightharpoonup> CFTreeCallBacks"
  th_calls :: "tree_call list"

record tree_env =
  te_CFRetain :: ptr
  te_CFRelease :: ptr
  te_CFCopyDescription :: ptr
  te_result :: "ptr \<Rightarrow> ptr \<Rightarrow> ptr"
  te_newTree :: "tree_heap \<Rightarrow> ptr"
  te_newCallBacks :: "tree_heap \<Rightarrow> ptr"
  te_list :: "nat \<Rightarrow> bool"

text \<open>A write to a field of a node, which must be allocated.\<close>

definition set_tree :: "tree_heap \<Rightarrow> ptr \<Rightarrow> (CFTree \<Rightarrow> CFTree) \<Rightarrow> tree_heap option" where
  "set_tree h t f = (case th_tree h t of None \<Rightarrow> None | Some n \<Rightarrow> Some (h\<lparr>th_tree := (th_tree h)(t \<mapsto> f n)\<rparr>))"

definition log_call :: "tree_call \<Rightarrow> tree_heap \<Rightarrow> tree_heap" where
  "log_call c h = h\<lparr>th_calls := th_calls h @ [c]\<rparr>"

section \<open>Callbacks and contexts\<close>

definition kCFNullTreeCallBacks :: CFTreeCallBacks where
  "kCFNullTreeCallBacks = \<lparr>cb_retain = NULL, cb_release = NULL, cb_copyDescription = NULL\<rparr>"

definition kCFTypeTreeCallBacks :: "tree_env \<Rightarrow> CFTreeCallBacks" where
  "kCFTypeTreeCallBacks E = \<lparr>cb_retain = te_CFRetain E, cb_release = te_CFRelease E, cb_copyDescription = te_CFCopyDescription E\<rparr>"

text \<open>The structure that a kind of callbacks and the pointer of a node refer to.\<close>

definition CFTreeGetCallBacks :: "tree_env \<Rightarrow> tree_heap \<Rightarrow> cb_type \<Rightarrow> ptr \<Rightarrow> CFTreeCallBacks option" where
  "CFTreeGetCallBacks E h ty p = (case ty of
       HasNullCallBacks \<Rightarrow> Some kCFNullTreeCallBacks
     | HasCFTypeCallBacks \<Rightarrow> Some (kCFTypeTreeCallBacks E)
     | HasCustomCallBacks \<Rightarrow> th_cbs h p)"

definition CFTreeCallBacksMatchNull :: "CFTreeContext option \<Rightarrow> bool" where
  "CFTreeCallBacksMatchNull c = (case c of None \<Rightarrow> True
     | Some c \<Rightarrow> ctx_retain c = NULL \<and> ctx_release c = NULL \<and> ctx_copyDescription c = NULL)"

definition CFTreeCallBacksMatchCFType :: "tree_env \<Rightarrow> CFTreeContext option \<Rightarrow> bool" where
  "CFTreeCallBacksMatchCFType E c = (case c of None \<Rightarrow> False
     | Some c \<Rightarrow> ctx_retain c = te_CFRetain E \<and> ctx_release c = te_CFRelease E \<and>
         ctx_copyDescription c = te_CFCopyDescription E)"

text \<open>The first part of \<^verbatim>\<open>CFTreeSetContext\<close>: the new kind of callbacks, with memory for custom ones.\<close>

definition set_callbacks :: "tree_env \<Rightarrow> ptr \<Rightarrow> CFTreeContext option \<Rightarrow> tree_heap \<Rightarrow> tree_heap option" where
  "set_callbacks E tree context h =
     (if CFTreeCallBacksMatchNull context then set_tree h tree (\<lambda>n. n\<lparr>tree_cbtype := HasNullCallBacks\<rparr>)
      else if CFTreeCallBacksMatchCFType E context then set_tree h tree (\<lambda>n. n\<lparr>tree_cbtype := HasCFTypeCallBacks\<rparr>)
      else do {
        c \<leftarrow> context;
        let p = te_newCallBacks E h;
        if p = NULL then None
        else set_tree (h\<lparr>th_cbs := (th_cbs h)(p \<mapsto> \<lparr>cb_retain = ctx_retain c, cb_release = ctx_release c,
            cb_copyDescription = ctx_copyDescription c\<rparr>)\<rparr>) tree
          (\<lambda>n. n\<lparr>tree_callbacks := p, tree_cbtype := HasCustomCallBacks\<rparr>)
      })"

definition free_callbacks :: "cb_type \<Rightarrow> ptr \<Rightarrow> tree_heap \<Rightarrow> tree_heap option" where
  "free_callbacks ty p h =
     (if ty = HasCustomCallBacks
      then (case th_cbs h p of None \<Rightarrow> None | Some _ \<Rightarrow> Some (h\<lparr>th_cbs := (th_cbs h)(p := None)\<rparr>))
      else Some h)"

definition CFTreeSetContext :: "tree_env \<Rightarrow> ptr \<Rightarrow> CFTreeContext option \<Rightarrow> tree_heap \<Rightarrow> tree_heap option" where
  "CFTreeSetContext E tree context h = do {
     n \<leftarrow> th_tree h tree;
     h1 \<leftarrow> set_callbacks E tree context h;
     n1 \<leftarrow> th_tree h1 tree;
     newcb \<leftarrow> CFTreeGetCallBacks E h1 (tree_cbtype n1) (tree_callbacks n1);
     c \<leftarrow> context;
     h2 \<leftarrow> (if cb_retain newcb \<noteq> NULL
       then set_tree (log_call (CallRetain (cb_retain newcb) (ctx_info c)) h1) tree
         (\<lambda>n. n\<lparr>tree_info := te_result E (cb_retain newcb) (ctx_info c)\<rparr>)
       else set_tree h1 tree (\<lambda>n. n\<lparr>tree_info := ctx_info c\<rparr>));
     oldcb \<leftarrow> CFTreeGetCallBacks E h2 (tree_cbtype n) (tree_callbacks n);
     let h3 = (if cb_release oldcb \<noteq> NULL then log_call (CallRelease (cb_release oldcb) (tree_info n)) h2 else h2);
     free_callbacks (tree_cbtype n) (tree_callbacks n) h3
   }"

text \<open>The client passes the context to be filled in, with its version set.\<close>

definition CFTreeGetContext :: "tree_env \<Rightarrow> ptr \<Rightarrow> CFTreeContext \<Rightarrow> tree_heap \<Rightarrow> CFTreeContext option" where
  "CFTreeGetContext E tree context h = do {
     n \<leftarrow> th_tree h tree;
     if ctx_version context \<noteq> 0 then None
     else do {
       cb \<leftarrow> CFTreeGetCallBacks E h (tree_cbtype n) (tree_callbacks n);
       Some (context\<lparr>ctx_version := 0, ctx_info := tree_info n, ctx_retain := cb_retain cb, ctx_release := cb_release cb,
         ctx_copyDescription := cb_copyDescription cb\<rparr>)
     }
   }"

definition CFTreeCreate :: "tree_env \<Rightarrow> CFTreeContext option \<Rightarrow> tree_heap \<Rightarrow> (ptr \<times> tree_heap) option" where
  "CFTreeCreate E context h = do {
     c \<leftarrow> context;
     if ctx_version c \<noteq> 0 then None
     else do {
       let memory = te_newTree E h;
       if memory = NULL then Some (NULL, h)
       else do {
         h1 \<leftarrow> CFTreeSetContext E memory context (h\<lparr>th_tree := (th_tree h)(memory \<mapsto>
           \<lparr>tree_rc = 1, tree_parent = NULL, tree_sibling = NULL, tree_child = NULL, tree_rightmostChild = NULL,
            tree_info = NULL, tree_cbtype = HasNullCallBacks, tree_callbacks = NULL\<rparr>)\<rparr>);
         Some (memory, h1)
       }
     }
   }"

section \<open>Reference counts\<close>

definition CFRetain :: "ptr \<Rightarrow> tree_heap \<Rightarrow> tree_heap option" where
  "CFRetain t h = do {
     n \<leftarrow> th_tree h t;
     if tree_rc n = 0 then Some h else set_tree h t (\<lambda>n. n\<lparr>tree_rc := tree_rc n + 1\<rparr>)
   }"

text \<open>The finalizer \<^verbatim>\<open>__CFTreeDeallocate\<close> after the children have gone; taking them off, its first step, is part of \<open>tree_work\<close> below.\<close>

definition tree_finalize_data :: "tree_env \<Rightarrow> ptr \<Rightarrow> tree_heap \<Rightarrow> tree_heap option" where
  "tree_finalize_data E t h = do {
     n \<leftarrow> th_tree h t;
     cb \<leftarrow> CFTreeGetCallBacks E h (tree_cbtype n) (tree_callbacks n);
     free_callbacks (tree_cbtype n) (tree_callbacks n)
       (if cb_release cb \<noteq> NULL then log_call (CallRelease (cb_release cb) (tree_info n)) h else h)
   }"

text \<open>
  Releasing a node and taking the children of a node off call each other. \<open>ReleaseTree\<close> is a call of
  \<^verbatim>\<open>_CFRelease\<close>, with the finalizer called for the last reference and the count read again after it; \<open>DetachFrom c\<close> is the loop of \<^verbatim>\<open>CFTreeRemoveAllChildren\<close> when \<open>c\<close> is the next child.
\<close>

datatype tree_task = ReleaseTree ptr | DetachFrom ptr

partial_function (option) tree_work :: "tree_env \<Rightarrow> tree_task \<Rightarrow> tree_heap \<Rightarrow> tree_heap option" where
  "tree_work E task h = (case task of
     ReleaseTree t \<Rightarrow> do {
       n \<leftarrow> th_tree h t;
       if tree_rc n = 0 then Some h
       else if tree_rc n = 1 then do {
         h1 \<leftarrow> set_tree h t (\<lambda>n. n\<lparr>tree_child := NULL, tree_rightmostChild := NULL\<rparr>);
         h2 \<leftarrow> tree_work E (DetachFrom (tree_child n)) h1;
         h3 \<leftarrow> tree_finalize_data E t h2;
         n3 \<leftarrow> th_tree h3 t;
         if tree_rc n3 = 1 then Some (h3\<lparr>th_tree := (th_tree h3)(t := None)\<rparr>)
         else tree_work E (ReleaseTree t) h3
       }
       else set_tree h t (\<lambda>n. n\<lparr>tree_rc := tree_rc n - 1\<rparr>)
     }
   | DetachFrom c \<Rightarrow>
       if c = NULL then Some h
       else do {
         n \<leftarrow> th_tree h c;
         h1 \<leftarrow> set_tree h c (\<lambda>n. n\<lparr>tree_parent := NULL, tree_sibling := NULL\<rparr>);
         h2 \<leftarrow> tree_work E (ReleaseTree c) h1;
         tree_work E (DetachFrom (tree_sibling n)) h2
       })"

definition CFRelease :: "tree_env \<Rightarrow> ptr \<Rightarrow> tree_heap \<Rightarrow> tree_heap option" where
  "CFRelease E t h = tree_work E (ReleaseTree t) h"

definition CFTreeRemoveAllChildren :: "tree_env \<Rightarrow> ptr \<Rightarrow> tree_heap \<Rightarrow> tree_heap option" where
  "CFTreeRemoveAllChildren E tree h = do {
     n \<leftarrow> th_tree h tree;
     h1 \<leftarrow> set_tree h tree (\<lambda>n. n\<lparr>tree_child := NULL, tree_rightmostChild := NULL\<rparr>);
     tree_work E (DetachFrom (tree_child n)) h1
   }"

section \<open>Queries\<close>

text \<open>The counter is a signed 32-bit integer, whose overflow is undefined.\<close>

partial_function (option) count_children :: "tree_heap \<Rightarrow> ptr \<Rightarrow> 32 word \<Rightarrow> nat option" where
  "count_children h t cnt =
     (if t = NULL then Some (unat cnt)
      else if cnt = 0x7FFFFFFF then None
      else do { n \<leftarrow> th_tree h t; count_children h (tree_sibling n) (cnt + 1) })"

definition CFTreeGetChildCount :: "ptr \<Rightarrow> tree_heap \<Rightarrow> nat option" where
  "CFTreeGetChildCount tree h = do { n \<leftarrow> th_tree h tree; count_children h (tree_child n) 0 }"

definition CFTreeGetParent :: "ptr \<Rightarrow> tree_heap \<Rightarrow> ptr option" where
  "CFTreeGetParent tree h = map_option tree_parent (th_tree h tree)"

definition CFTreeGetNextSibling :: "ptr \<Rightarrow> tree_heap \<Rightarrow> ptr option" where
  "CFTreeGetNextSibling tree h = map_option tree_sibling (th_tree h tree)"

definition CFTreeGetFirstChild :: "ptr \<Rightarrow> tree_heap \<Rightarrow> ptr option" where
  "CFTreeGetFirstChild tree h = map_option tree_child (th_tree h tree)"

partial_function (option) CFTreeFindRoot :: "tree_heap \<Rightarrow> ptr \<Rightarrow> ptr option" where
  "CFTreeFindRoot h tree = do {
     n \<leftarrow> th_tree h tree;
     if tree_parent n = NULL then Some tree else CFTreeFindRoot h (tree_parent n)
   }"

partial_function (option) child_at :: "tree_heap \<Rightarrow> ptr \<Rightarrow> int \<Rightarrow> ptr option" where
  "child_at h t idx =
     (if t = NULL then Some NULL
      else if idx = 0 then Some t
      else do { n \<leftarrow> th_tree h t; child_at h (tree_sibling n) (idx - 1) })"

definition CFTreeGetChildAtIndex :: "ptr \<Rightarrow> int \<Rightarrow> tree_heap \<Rightarrow> ptr option" where
  "CFTreeGetChildAtIndex tree idx h = do { n \<leftarrow> th_tree h tree; child_at h (tree_child n) idx }"

text \<open>Writing the children into an array.\<close>

partial_function (option) store_children :: "tree_heap \<Rightarrow> ptr \<Rightarrow> nat \<Rightarrow> ptr mem \<Rightarrow> ptr mem option" where
  "store_children h t idx children =
     (if t = NULL then Some children
      else do {
        children1 \<leftarrow> wr children idx t;
        n \<leftarrow> th_tree h t;
        store_children h (tree_sibling n) (idx + 1) children1
      })"

definition CFTreeGetChildren :: "ptr \<Rightarrow> ptr mem \<Rightarrow> tree_heap \<Rightarrow> ptr mem option" where
  "CFTreeGetChildren tree children h = do { n \<leftarrow> th_tree h tree; store_children h (tree_child n) 0 children }"

text \<open>The function that is applied is the client's, and the next sibling is read after it returns.\<close>

partial_function (option) apply_children :: "(ptr \<Rightarrow> tree_heap \<Rightarrow> tree_heap option) \<Rightarrow> ptr \<Rightarrow> tree_heap \<Rightarrow> tree_heap option" where
  "apply_children applier t h =
     (if t = NULL then Some h
      else do {
        h1 \<leftarrow> applier t h;
        n \<leftarrow> th_tree h1 t;
        apply_children applier (tree_sibling n) h1
      })"

definition CFTreeApplyFunctionToChildren ::
    "ptr \<Rightarrow> (ptr \<Rightarrow> tree_heap \<Rightarrow> tree_heap option) \<Rightarrow> tree_heap \<Rightarrow> tree_heap option" where
  "CFTreeApplyFunctionToChildren tree applier h = do { n \<leftarrow> th_tree h tree; apply_children applier (tree_child n) h }"

section \<open>Changing the tree\<close>

definition CFTreePrependChild :: "ptr \<Rightarrow> ptr \<Rightarrow> tree_heap \<Rightarrow> tree_heap option" where
  "CFTreePrependChild tree newChild h = do {
     _ \<leftarrow> th_tree h tree;
     c \<leftarrow> th_tree h newChild;
     if tree_parent c \<noteq> NULL \<or> tree_sibling c \<noteq> NULL then None
     else do {
       h1 \<leftarrow> CFRetain newChild h;
       h2 \<leftarrow> set_tree h1 newChild (\<lambda>n. n\<lparr>tree_parent := tree\<rparr>);
       t \<leftarrow> th_tree h2 tree;
       h3 \<leftarrow> set_tree h2 newChild (\<lambda>n. n\<lparr>tree_sibling := tree_child t\<rparr>);
       h4 \<leftarrow> (if tree_child t = NULL then set_tree h3 tree (\<lambda>n. n\<lparr>tree_rightmostChild := newChild\<rparr>) else Some h3);
       set_tree h4 tree (\<lambda>n. n\<lparr>tree_child := newChild\<rparr>)
     }
   }"

definition CFTreeAppendChild :: "ptr \<Rightarrow> ptr \<Rightarrow> tree_heap \<Rightarrow> tree_heap option" where
  "CFTreeAppendChild tree newChild h = do {
     _ \<leftarrow> th_tree h tree;
     c \<leftarrow> th_tree h newChild;
     if tree_parent c \<noteq> NULL \<or> tree_sibling c \<noteq> NULL then None
     else do {
       h1 \<leftarrow> CFRetain newChild h;
       h2 \<leftarrow> set_tree h1 newChild (\<lambda>n. n\<lparr>tree_parent := tree, tree_sibling := NULL\<rparr>);
       t \<leftarrow> th_tree h2 tree;
       h3 \<leftarrow> (if tree_child t = NULL then set_tree h2 tree (\<lambda>n. n\<lparr>tree_child := newChild\<rparr>)
         else set_tree h2 (tree_rightmostChild t) (\<lambda>n. n\<lparr>tree_sibling := newChild\<rparr>));
       set_tree h3 tree (\<lambda>n. n\<lparr>tree_rightmostChild := newChild\<rparr>)
     }
   }"

definition CFTreeInsertSibling :: "ptr \<Rightarrow> ptr \<Rightarrow> tree_heap \<Rightarrow> tree_heap option" where
  "CFTreeInsertSibling tree newSibling h = do {
     t \<leftarrow> th_tree h tree;
     s \<leftarrow> th_tree h newSibling;
     if tree_parent t = NULL \<or> tree_parent s \<noteq> NULL \<or> tree_sibling s \<noteq> NULL then None
     else do {
       h1 \<leftarrow> CFRetain newSibling h;
       h2 \<leftarrow> set_tree h1 newSibling (\<lambda>n. n\<lparr>tree_parent := tree_parent t, tree_sibling := tree_sibling t\<rparr>);
       h3 \<leftarrow> set_tree h2 tree (\<lambda>n. n\<lparr>tree_sibling := newSibling\<rparr>);
       p \<leftarrow> th_tree h3 (tree_parent t);
       if tree_rightmostChild p = tree
       then set_tree h3 (tree_parent t) (\<lambda>n. n\<lparr>tree_rightmostChild := newSibling\<rparr>) else Some h3
     }
   }"

text \<open>The search for the sibling before the node, which is then unlinked.\<close>

partial_function (option) unlink_after :: "ptr \<Rightarrow> ptr \<Rightarrow> tree_heap \<Rightarrow> tree_heap option" where
  "unlink_after tree prevSibling h =
     (if prevSibling = NULL then Some h
      else do {
        q \<leftarrow> th_tree h prevSibling;
        if tree_sibling q = tree then do {
          t \<leftarrow> th_tree h tree;
          h1 \<leftarrow> set_tree h prevSibling (\<lambda>n. n\<lparr>tree_sibling := tree_sibling t\<rparr>);
          p \<leftarrow> th_tree h1 (tree_parent t);
          if tree_rightmostChild p = tree
          then set_tree h1 (tree_parent t) (\<lambda>n. n\<lparr>tree_rightmostChild := prevSibling\<rparr>) else Some h1
        }
        else unlink_after tree (tree_sibling q) h
      })"

definition CFTreeRemove :: "tree_env \<Rightarrow> ptr \<Rightarrow> tree_heap \<Rightarrow> tree_heap option" where
  "CFTreeRemove E tree h = do {
     t \<leftarrow> th_tree h tree;
     if tree_parent t = NULL then Some h
     else do {
       p \<leftarrow> th_tree h (tree_parent t);
       h1 \<leftarrow> (if tree_child p = tree
         then set_tree h (tree_parent t) (\<lambda>n. if tree_sibling t = NULL
           then n\<lparr>tree_child := tree_sibling t, tree_rightmostChild := NULL\<rparr> else n\<lparr>tree_child := tree_sibling t\<rparr>)
         else unlink_after tree (tree_child p) h);
       h2 \<leftarrow> set_tree h1 tree (\<lambda>n. n\<lparr>tree_parent := NULL, tree_sibling := NULL\<rparr>);
       CFRelease E tree h2
     }
   }"

text \<open>Linking the sorted children.\<close>

fun relink :: "ptr list \<Rightarrow> tree_heap \<Rightarrow> tree_heap option" where
  "relink [] h = Some h"
| "relink [x] h = set_tree h x (\<lambda>n. n\<lparr>tree_sibling := NULL\<rparr>)"
| "relink (x # y # xs) h = do { h1 \<leftarrow> set_tree h x (\<lambda>n. n\<lparr>tree_sibling := y\<rparr>); relink (y # xs) h1 }"

definition CFTreeSortChildren ::
    "tree_env \<Rightarrow> ptr \<Rightarrow> (ptr \<Rightarrow> ptr \<Rightarrow> CFComparisonResult) \<Rightarrow> tree_heap \<Rightarrow> tree_heap option" where
  "CFTreeSortChildren E tree comparator h = do {
     children \<leftarrow> CFTreeGetChildCount tree h;
     if children \<le> 1 then Some h
     else if 128 \<le> children \<and> \<not> te_list E children then None
     else do {
       n \<leftarrow> th_tree h tree;
       cells \<leftarrow> store_children h (tree_child n) 0 (mem_alloc children);
       list \<leftarrow> those cells;
       sorted \<leftarrow> CFQSortArray comparator list;
       first \<leftarrow> aget sorted 0;
       h1 \<leftarrow> set_tree h tree (\<lambda>n. n\<lparr>tree_child := first\<rparr>);
       h2 \<leftarrow> relink sorted h1;
       rightmost \<leftarrow> aget sorted (children - 1);
       set_tree h2 tree (\<lambda>n. n\<lparr>tree_rightmostChild := rightmost\<rparr>)
     }
   }"

end
