(* ===== verification/CF_Tree_Forest.thy ===== *)
theory CF_Tree_Forest
  imports CF_Tree
begin

text \<open>
  Trees as an abstract forest: every node has a list of children and a number of references that clients hold. The
  pointers, the reference counts and the set of allocated nodes are determined by the forest (\<open>rep\<close>), and every
  operation of \<^verbatim>\<open>CFTree.c\<close> implements an operation on forests.
\<close>

section \<open>Forests\<close>

record forest =
  kids :: "ptr \<Rightarrow> ptr list"
  refs :: "ptr \<Rightarrow> nat"

definition is_kid :: "forest \<Rightarrow> ptr \<Rightarrow> bool" where
  "is_kid f t \<longleftrightarrow> (\<exists>p. t \<in> set (kids f p))"

definition live :: "forest \<Rightarrow> ptr \<Rightarrow> bool" where
  "live f t \<longleftrightarrow> 0 < refs f t \<or> is_kid f t"

definition child_rel :: "forest \<Rightarrow> (ptr \<times> ptr) set" where
  "child_rel f = {(p, c). c \<in> set (kids f p)}"

definition forest_ok :: "forest \<Rightarrow> bool" where
  "forest_ok f \<longleftrightarrow> (\<forall>p. distinct (kids f p)) \<and> (\<forall>p. kids f p \<noteq> [] \<longrightarrow> live f p) \<and> \<not> live f NULL \<and>
     (\<forall>c p q. c \<in> set (kids f p) \<longrightarrow> c \<in> set (kids f q) \<longrightarrow> p = q) \<and> finite {t. live f t} \<and> acyclic (child_rel f)"

lemma forest_okD:
  assumes "forest_ok f"
  shows "distinct (kids f p)" "kids f p \<noteq> [] \<Longrightarrow> live f p" "\<not> live f NULL" "c \<in> set (kids f p) \<Longrightarrow> c \<in> set (kids f q) \<Longrightarrow> p = q"
    "finite {t. live f t}" "acyclic (child_rel f)"
  using assms unfolding forest_ok_def by blast+

lemma is_kidI: "c \<in> set (kids f p) \<Longrightarrow> is_kid f c"
  unfolding is_kid_def by blast

lemma kid_live: "c \<in> set (kids f p) \<Longrightarrow> live f c"
  unfolding live_def is_kid_def by blast

lemma kid_facts:
  assumes "forest_ok f" "c \<in> set (kids f p)"
  shows "c \<noteq> NULL" "p \<noteq> NULL" "live f c" "live f p" "p \<noteq> c"
proof -
  show c: "live f c" using assms(2) by (rule kid_live)
  show p: "live f p" using forest_okD(2)[OF assms(1), of p] assms(2) by (cases "kids f p") simp_all
  show "c \<noteq> NULL" "p \<noteq> NULL" using c p forest_okD(3)[OF assms(1)] by auto
  have "(p, c) \<in> child_rel f" using assms(2) by (simp add: child_rel_def)
  then show "p \<noteq> c" using forest_okD(6)[OF assms(1)] by (auto simp: acyclic_def)
qed

lemma not_kid_NULL [simp]: "forest_ok f \<Longrightarrow> NULL \<notin> set (kids f p)"
  using kid_facts(1) by blast

lemma child_rel_finite:
  assumes "forest_ok f"
  shows "finite (child_rel f)"
proof -
  have "child_rel f \<subseteq> {t. live f t} \<times> {t. live f t}" using kid_facts[OF assms] by (auto simp: child_rel_def)
  then show ?thesis using forest_okD(5)[OF assms] by (auto intro: finite_subset)
qed

lemma child_rel_wf:
  assumes "forest_ok f"
  shows "wf (child_rel f)" "wf ((child_rel f)\<inverse>)"
  using child_rel_finite[OF assms] forest_okD(6)[OF assms] by (auto intro: finite_acyclic_wf finite_acyclic_wf_converse)

section \<open>The pointers of a list of siblings\<close>

definition hd0 :: "ptr list \<Rightarrow> ptr" where
  "hd0 xs = (case xs of [] \<Rightarrow> NULL | x # _ \<Rightarrow> x)"

definition last0 :: "ptr list \<Rightarrow> ptr" where
  "last0 xs = (if xs = [] then NULL else last xs)"

fun next_of :: "ptr list \<Rightarrow> ptr \<Rightarrow> ptr" where
  "next_of [] x = NULL"
| "next_of (y # ys) x = (if x = y then hd0 ys else next_of ys x)"

lemma hd0_simps [simp]: "hd0 [] = NULL" "hd0 (x # xs) = x"
  by (simp_all add: hd0_def)

lemma last0_simps [simp]: "last0 [] = NULL" "last0 (xs @ [x]) = x" "last0 (x # y # xs) = last0 (y # xs)" "last0 [x] = x"
  by (simp_all add: last0_def)

lemma hd0_append: "hd0 (xs @ ys) = (if xs = [] then hd0 ys else hd0 xs)"
  by (cases xs) simp_all

lemma last0_append: "last0 (xs @ ys) = (if ys = [] then last0 xs else last0 ys)"
  by (simp add: last0_def)

lemma hd0_NULL: "NULL \<notin> set xs \<Longrightarrow> hd0 xs = NULL \<longleftrightarrow> xs = []"
  by (cases xs) auto

lemma next_of_notin: "x \<notin> set xs \<Longrightarrow> next_of xs x = NULL"
  by (induction xs) auto

lemma last0_in: "xs \<noteq> [] \<Longrightarrow> last0 xs \<in> set xs"
  by (simp add: last0_def)

lemma last0_Cons: "last0 (x # xs) = (if xs = [] then x else last0 xs)"
  by (simp add: last0_def)

lemma next_of_append:
  "distinct xs \<Longrightarrow> next_of (xs @ ys) x = (if x \<in> set xs then (if x = last0 xs then hd0 ys else next_of xs x) else next_of ys x)"
proof (induction xs)
  case (Cons a xs)
  have "xs \<noteq> [] \<Longrightarrow> last0 xs \<noteq> a" using last0_in[of xs] Cons.prems by auto
  then show ?case using Cons by (cases "x = a"; cases "xs = []") (simp_all add: hd0_append last0_Cons)
qed simp

lemma next_of_mid: "distinct (pre @ x # suf) \<Longrightarrow> next_of (pre @ x # suf) x = hd0 suf"
  by (induction pre) auto

lemma next_of_last: "distinct xs \<Longrightarrow> next_of xs (last0 xs) = NULL"
proof (induction xs rule: rev_induct)
  case (snoc a xs)
  then show ?case by (simp add: next_of_append)
qed simp

section \<open>Representation\<close>

text \<open>
  \<open>D\<close> is a set of nodes that are being taken down: they have children, but no longer point to them.
\<close>

definition node_ok :: "ptr set \<Rightarrow> forest \<Rightarrow> ptr \<Rightarrow> CFTree \<Rightarrow> bool" where
  "node_ok D f t n \<longleftrightarrow>
     tree_child n = (if t \<in> D then NULL else hd0 (kids f t)) \<and>
     tree_rightmostChild n = (if t \<in> D then NULL else last0 (kids f t)) \<and>
     (\<forall>p. t \<in> set (kids f p) \<longleftrightarrow> tree_parent n = p \<and> p \<noteq> NULL) \<and>
     tree_sibling n = next_of (kids f (tree_parent n)) t \<and>
     unat (tree_rc n) = refs f t + (if is_kid f t then 1 else 0)"

definition custom_at :: "tree_heap \<Rightarrow> ptr \<Rightarrow> ptr \<Rightarrow> bool" where
  "custom_at h t p \<longleftrightarrow> (\<exists>n. th_tree h t = Some n \<and> tree_cbtype n = HasCustomCallBacks \<and> tree_callbacks n = p)"

text \<open>Exactly the nodes with custom callbacks own memory for them.\<close>

definition cbs_ok :: "tree_heap \<Rightarrow> bool" where
  "cbs_ok h \<longleftrightarrow> (\<forall>p. th_cbs h p \<noteq> None \<longleftrightarrow> (\<exists>t. custom_at h t p)) \<and>
     (\<forall>t t' p. custom_at h t p \<longrightarrow> custom_at h t' p \<longrightarrow> t = t')"

definition rep :: "ptr set \<Rightarrow> tree_heap \<Rightarrow> forest \<Rightarrow> bool" where
  "rep D h f \<longleftrightarrow> forest_ok f \<and> (\<forall>t. th_tree h t \<noteq> None \<longleftrightarrow> live f t) \<and>
     (\<forall>t n. th_tree h t = Some n \<longrightarrow> node_ok D f t n) \<and> cbs_ok h"

text \<open>The client's data of a node, and states that differ in links and counts only.\<close>

definition data_at :: "tree_heap \<Rightarrow> ptr \<Rightarrow> (ptr \<times> cb_type \<times> ptr) option" where
  "data_at h t = map_option (\<lambda>n. (tree_info n, tree_cbtype n, tree_callbacks n)) (th_tree h t)"

definition same_data :: "tree_heap \<Rightarrow> tree_heap \<Rightarrow> bool" where
  "same_data h h' \<longleftrightarrow> th_cbs h' = th_cbs h \<and> th_calls h' = th_calls h \<and> data_at h' = data_at h"

lemma custom_at_data: "custom_at h t p \<longleftrightarrow> (\<exists>i. data_at h t = Some (i, HasCustomCallBacks, p))"
  by (auto simp: custom_at_def data_at_def)

lemma same_data_cbs: "same_data h h' \<Longrightarrow> cbs_ok h' = cbs_ok h"
  by (simp add: cbs_ok_def custom_at_data same_data_def)

lemma node_okD:
  assumes "node_ok D f t n"
  shows "tree_child n = (if t \<in> D then NULL else hd0 (kids f t))" "tree_rightmostChild n = (if t \<in> D then NULL else last0 (kids f t))"
    "t \<in> set (kids f p) \<longleftrightarrow> tree_parent n = p \<and> p \<noteq> NULL" "tree_sibling n = next_of (kids f (tree_parent n)) t"
    "unat (tree_rc n) = refs f t + (if is_kid f t then 1 else 0)"
  using assms unfolding node_ok_def by blast+

lemma repD:
  assumes "rep D h f"
  shows "forest_ok f" "th_tree h t \<noteq> None \<longleftrightarrow> live f t" "th_tree h t = Some n \<Longrightarrow> node_ok D f t n" "cbs_ok h"
  using assms unfolding rep_def by blast+

lemma rep_node:
  assumes "rep D h f" "live f t"
  obtains n where "th_tree h t = Some n" "node_ok D f t n"
  using repD(2,3)[OF assms(1), of t] assms(2) by blast

lemma rep_NULL: "rep D h f \<Longrightarrow> th_tree h NULL = None"
  using repD(1,2) forest_okD(3) by blast

section \<open>Attaching a node\<close>

definition with_kids :: "forest \<Rightarrow> ptr \<Rightarrow> ptr list \<Rightarrow> forest" where
  "with_kids f t ks = f\<lparr>kids := (kids f)(t := ks)\<rparr>"

lemma with_kids_sel [simp]: "kids (with_kids f t ks) = (kids f)(t := ks)" "refs (with_kids f t ks) = refs f"
  by (simp_all add: with_kids_def)

text \<open>\<open>c\<close> may be put under \<open>t\<close>: it has no parent, and \<open>t\<close> is not below it.\<close>

definition can_attach :: "forest \<Rightarrow> ptr \<Rightarrow> ptr \<Rightarrow> bool" where
  "can_attach f t c \<longleftrightarrow> live f t \<and> live f c \<and> \<not> is_kid f c \<and> (c, t) \<notin> (child_rel f)\<^sup>* \<and> refs f c + 1 < 2 ^ 32"

lemma can_attach_neq: "can_attach f t c \<Longrightarrow> c \<noteq> t"
  by (auto simp: can_attach_def)

lemma attach_kids:
  assumes "set ks = insert c (set (kids f t))"
  shows "is_kid (with_kids f t ks) x \<longleftrightarrow> x = c \<or> is_kid f x" "x \<in> set (kids (with_kids f t ks) p) \<longleftrightarrow> x = c \<and> p = t \<or> x \<in> set (kids f p)"
  using assms by (auto simp: is_kid_def)

lemma attach_live:
  assumes "set ks = insert c (set (kids f t))" "live f c"
  shows "live (with_kids f t ks) = live f"
  using assms(2) by (auto simp: live_def attach_kids(1)[OF assms(1)] fun_eq_iff)

lemma attach_forest:
  assumes "forest_ok f" "can_attach f t c" "distinct ks" "set ks = insert c (set (kids f t))"
  shows "forest_ok (with_kids f t ks)"
proof -
  let ?f = "with_kids f t ks"
  have c: "live f c" "live f t" "\<not> is_kid f c" "(c, t) \<notin> (child_rel f)\<^sup>*" using assms(2) by (simp_all add: can_attach_def)
  have rel: "child_rel ?f = insert (t, c) (child_rel f)" using attach_kids(2)[OF assms(4)] by (auto simp: child_rel_def)
  have "acyclic (child_rel ?f)" using forest_okD(6)[OF assms(1)] c(4) by (simp add: rel)
  moreover have "\<forall>p. distinct (kids ?f p)" using assms(3) forest_okD(1)[OF assms(1)] by simp
  moreover have "\<forall>p. kids ?f p \<noteq> [] \<longrightarrow> live ?f p"
    using forest_okD(2)[OF assms(1)] c(2) by (simp add: attach_live[OF assms(4) c(1)])
  moreover have "\<forall>x p q. x \<in> set (kids ?f p) \<longrightarrow> x \<in> set (kids ?f q) \<longrightarrow> p = q"
    using forest_okD(4)[OF assms(1)] c(3) unfolding attach_kids(2)[OF assms(4)] is_kid_def by blast
  ultimately show ?thesis
    using forest_okD(3,5)[OF assms(1)] unfolding forest_ok_def attach_live[OF assms(4) c(1)] by blast
qed

lemma attach_rep:
  assumes "rep D h f" "can_attach f t c" "t \<notin> D" "distinct ks" "set ks = insert c (set (kids f t))" "same_data h h'"
    and "\<And>x n. th_tree h x = Some n \<Longrightarrow> \<exists>n'. th_tree h' x = Some n' \<and> tree_parent n' = (if x = c then t else tree_parent n) \<and>
      tree_sibling n' = (if x \<in> set ks then next_of ks x else tree_sibling n) \<and>
      tree_child n' = (if x = t then hd0 ks else tree_child n) \<and>
      tree_rightmostChild n' = (if x = t then last0 ks else tree_rightmostChild n) \<and>
      tree_rc n' = (if x = c then tree_rc n + 1 else tree_rc n)"
  shows "rep D h' (with_kids f t ks)"
proof -
  let ?f = "with_kids f t ks"
  note f = repD(1)[OF assms(1)]
  have c: "live f c" "\<not> is_kid f c" "refs f c + 1 < 2 ^ 32" using assms(2) by (simp_all add: can_attach_def)
  have tN: "t \<noteq> NULL" using assms(2) forest_okD(3)[OF f] by (auto simp: can_attach_def)
  have dom: "th_tree h' x = None \<longleftrightarrow> th_tree h x = None" for x
    using assms(6) by (auto simp: same_data_def data_at_def fun_eq_iff dest: spec[of _ x])
  have "node_ok D ?f x n'" if n': "th_tree h' x = Some n'" for x n'
  proof -
    obtain n where n: "th_tree h x = Some n" using dom[of x] n' by (cases "th_tree h x") simp_all
    note ok = repD(3)[OF assms(1) n, unfolded node_ok_def]
    have e: "tree_parent n' = (if x = c then t else tree_parent n)"
      "tree_sibling n' = (if x \<in> set ks then next_of ks x else tree_sibling n)"
      "tree_child n' = (if x = t then hd0 ks else tree_child n)"
      "tree_rightmostChild n' = (if x = t then last0 ks else tree_rightmostChild n)"
      "tree_rc n' = (if x = c then tree_rc n + 1 else tree_rc n)" using assms(7)[OF n] n' by simp_all
    have par: "x \<in> set (kids f p) \<longleftrightarrow> tree_parent n = p \<and> p \<noteq> NULL" for p using ok by blast
    have "x \<in> set (kids ?f p) \<longleftrightarrow> tree_parent n' = p \<and> p \<noteq> NULL" for p
      using par[of p] c(2) tN e(1) unfolding attach_kids(2)[OF assms(5)] is_kid_def by metis
    moreover have "tree_sibling n' = next_of (kids ?f (tree_parent n')) x"
    proof (cases "x \<in> set ks")
      case True
      then have "tree_parent n' = t" using par[of t] e(1) assms(5) by auto
      then show ?thesis using True e(2) by simp
    next
      case False
      then have "tree_parent n' \<noteq> t" "x \<noteq> c" using par[of t] e(1) assms(5) tN by auto
      then show ?thesis using False e(1,2) ok by simp
    qed
    moreover have "unat (tree_rc n') = refs ?f x + (if is_kid ?f x then 1 else 0)"
    proof (cases "x = c")
      case True
      then have "unat (tree_rc n) = refs f x" using ok c(2) by simp
      then have "unat (tree_rc n + 1) = refs f x + 1" using c(3) True by (simp add: unat_word_ariths)
      then show ?thesis using True e(5) by (simp add: attach_kids(1)[OF assms(5)])
    qed (use ok e(5) in \<open>simp add: attach_kids(1)[OF assms(5)]\<close>)
    ultimately show ?thesis using ok e(3,4) assms(3) by (simp add: node_ok_def)
  qed
  moreover have "th_tree h' x \<noteq> None \<longleftrightarrow> live ?f x" for x
    using dom repD(2)[OF assms(1)] by (simp add: attach_live[OF assms(5) c(1)])
  ultimately show ?thesis
    using attach_forest[OF f assms(2,4,5)] repD(4)[OF assms(1)] same_data_cbs[OF assms(6)] unfolding rep_def by blast
qed

lemma set_tree_Some [simp]: "th_tree h t = Some n \<Longrightarrow> set_tree h t f = Some (h\<lparr>th_tree := (th_tree h)(t \<mapsto> f n)\<rparr>)"
  by (simp add: set_tree_def)

lemma same_data_refl [simp]: "same_data h h"
  by (simp add: same_data_def)

text \<open>What the links of a node in a list of children look like.\<close>

lemma attach_nodes:
  assumes "rep D h f" "can_attach f t c" "t \<notin> D"
  obtains nt nc where "th_tree h t = Some nt" "th_tree h c = Some nc" "tree_child nt = hd0 (kids f t)"
    "tree_rightmostChild nt = last0 (kids f t)" "tree_parent nc = NULL" "tree_sibling nc = NULL" "tree_rc nc \<noteq> 0"
    "c \<noteq> t" "c \<notin> set (kids f t)" "c \<noteq> NULL" "distinct (kids f t)" "NULL \<notin> set (kids f t)" "t \<notin> set (kids f t)"
proof -
  note f = repD(1)[OF assms(1)]
  have c: "live f c" "live f t" "\<not> is_kid f c" using assms(2) by (simp_all add: can_attach_def)
  obtain nt where nt: "th_tree h t = Some nt" "node_ok D f t nt" by (rule rep_node[OF assms(1) c(2)])
  obtain nc where nc: "th_tree h c = Some nc" "node_ok D f c nc" by (rule rep_node[OF assms(1) c(1)])
  have cN: "c \<notin> set (kids f p)" for p using c(3) by (auto simp: is_kid_def)
  have p: "tree_parent nc = NULL"
  proof (rule ccontr)
    assume "tree_parent nc \<noteq> NULL"
    then have "c \<in> set (kids f (tree_parent nc))" using node_okD(3)[OF nc(2)] by blast
    then show False using cN by blast
  qed
  have "kids f NULL = []" using forest_okD(2)[OF f, of NULL] forest_okD(3)[OF f] by (rule_tac ccontr) blast
  then have s: "tree_sibling nc = NULL" using node_okD(4)[OF nc(2)] p by simp
  have r: "tree_rc nc \<noteq> 0" using node_okD(5)[OF nc(2)] c(1,3) by (auto simp: live_def)
  have cn: "c \<noteq> NULL" using c(1) forest_okD(3)[OF f] by auto
  have tt: "t \<notin> set (kids f t)" using kid_facts(5)[OF f] by blast
  have l: "tree_child nt = hd0 (kids f t)" "tree_rightmostChild nt = last0 (kids f t)"
    using node_okD(1,2)[OF nt(2)] assms(3) by simp_all
  show thesis
    by (rule that[OF nt(1) nc(1) l p s r can_attach_neq[OF assms(2)] cN cn forest_okD(1)[OF f] not_kid_NULL[OF f] tt])
qed

lemma rep_sibling:
  assumes "rep D h f" "th_tree h x = Some n" "x \<in> set (kids f t)"
  shows "tree_sibling n = next_of (kids f t) x" "tree_parent n = t"
  using node_okD(3,4)[OF repD(3)[OF assms(1,2)]] assms(3) by simp_all

lemma prepend_rep:
  assumes "rep D h f" "can_attach f t c" "t \<notin> D"
  shows "\<exists>h'. CFTreePrependChild t c h = Some h' \<and> rep D h' (with_kids f t (c # kids f t)) \<and> same_data h h'"
proof -
  obtain nt nc where n: "th_tree h t = Some nt" "th_tree h c = Some nc" "tree_child nt = hd0 (kids f t)"
    "tree_rightmostChild nt = last0 (kids f t)" "tree_parent nc = NULL" "tree_sibling nc = NULL" "tree_rc nc \<noteq> 0"
    "c \<noteq> t" "c \<notin> set (kids f t)" "c \<noteq> NULL" "distinct (kids f t)" "NULL \<notin> set (kids f t)" "t \<notin> set (kids f t)"
    by (rule attach_nodes[OF assms])
  let ?nc = "nc\<lparr>tree_rc := tree_rc nc + 1, tree_parent := t, tree_sibling := tree_child nt\<rparr>"
  let ?nt = "if tree_child nt = NULL then nt\<lparr>tree_rightmostChild := c, tree_child := c\<rparr> else nt\<lparr>tree_child := c\<rparr>"
  let ?h = "h\<lparr>th_tree := (th_tree h)(c \<mapsto> ?nc, t \<mapsto> ?nt)\<rparr>"
  have go: "CFTreePrependChild t c h = Some ?h"
    using n by (simp add: CFTreePrependChild_def CFRetain_def fun_upd_twist)
  have same: "same_data h ?h" using n(1,2,8) by (auto simp: same_data_def data_at_def fun_eq_iff)
  have "rep D ?h (with_kids f t (c # kids f t))"
  proof (rule attach_rep[OF assms(1-3) _ _ same])
    fix x m
    assume x: "th_tree h x = Some m"
    have "x \<in> set (kids f t) \<Longrightarrow> tree_sibling m = next_of (kids f t) x" using rep_sibling[OF assms(1) x] by blast
    moreover have "x \<in> set (kids f t) \<Longrightarrow> x \<noteq> t \<and> x \<noteq> c" using n(9,13) by auto
    ultimately show "\<exists>n'. th_tree ?h x = Some n' \<and> tree_parent n' = (if x = c then t else tree_parent m) \<and>
      tree_sibling n' = (if x \<in> set (c # kids f t) then next_of (c # kids f t) x else tree_sibling m) \<and>
      tree_child n' = (if x = t then hd0 (c # kids f t) else tree_child m) \<and>
      tree_rightmostChild n' = (if x = t then last0 (c # kids f t) else tree_rightmostChild m) \<and>
      tree_rc n' = (if x = c then tree_rc m + 1 else tree_rc m)"
      using x n by (cases "x = c"; cases "x = t") (simp_all add: hd0_NULL last0_Cons)
  qed (use n in simp_all)
  then show ?thesis using go same by blast
qed

lemma append_rep:
  assumes "rep D h f" "can_attach f t c" "t \<notin> D"
  shows "\<exists>h'. CFTreeAppendChild t c h = Some h' \<and> rep D h' (with_kids f t (kids f t @ [c])) \<and> same_data h h'"
proof -
  obtain nt nc where n: "th_tree h t = Some nt" "th_tree h c = Some nc" "tree_child nt = hd0 (kids f t)"
    "tree_rightmostChild nt = last0 (kids f t)" "tree_parent nc = NULL" "tree_sibling nc = NULL" "tree_rc nc \<noteq> 0"
    "c \<noteq> t" "c \<notin> set (kids f t)" "c \<noteq> NULL" "distinct (kids f t)" "NULL \<notin> set (kids f t)" "t \<notin> set (kids f t)"
    by (rule attach_nodes[OF assms])
  let ?nc = "nc\<lparr>tree_rc := tree_rc nc + 1, tree_parent := t, tree_sibling := NULL\<rparr>"
  let ?r = "last0 (kids f t)"
  define g where "g = (if kids f t = [] then (th_tree h)(c \<mapsto> ?nc, t \<mapsto> nt\<lparr>tree_child := c, tree_rightmostChild := c\<rparr>)
    else (th_tree h)(c \<mapsto> ?nc, ?r \<mapsto> the (th_tree h ?r)\<lparr>tree_sibling := c\<rparr>, t \<mapsto> nt\<lparr>tree_rightmostChild := c\<rparr>))"
  let ?h = "h\<lparr>th_tree := g\<rparr>"
  have r: "?r \<in> set (kids f t)" "?r \<noteq> t" "?r \<noteq> c" "live f ?r" if "kids f t \<noteq> []"
    using last0_in[OF that] n(9,13) by (auto intro: kid_live)
  have rn: "th_tree h ?r = Some (the (th_tree h ?r))" if "kids f t \<noteq> []"
    using repD(2)[OF assms(1), of ?r] r(4)[OF that] by simp
  have go: "CFTreeAppendChild t c h = Some ?h"
  proof (cases "kids f t = []")
    case True
    then show ?thesis using n by (simp add: CFTreeAppendChild_def CFRetain_def g_def)
  next
    case False
    obtain nr where nr: "th_tree h ?r = Some nr" using rn[OF False] by blast
    then show ?thesis using False n r[OF False] by (simp add: CFTreeAppendChild_def CFRetain_def g_def hd0_NULL)
  qed
  have same: "same_data h ?h"
  proof (cases "kids f t = []")
    case False
    obtain nr where nr: "th_tree h ?r = Some nr" using rn[OF False] by blast
    then show ?thesis using False n(1,2) by (auto simp: same_data_def data_at_def fun_eq_iff g_def)
  qed (use n(1,2) in \<open>auto simp: same_data_def data_at_def fun_eq_iff g_def\<close>)
  have "rep D ?h (with_kids f t (kids f t @ [c]))"
  proof (rule attach_rep[OF assms(1-3) _ _ same])
    fix x m
    assume x: "th_tree h x = Some m"
    have s: "x \<in> set (kids f t) \<Longrightarrow> tree_sibling m = next_of (kids f t) x" using rep_sibling[OF assms(1) x] by blast
    have k: "x \<in> set (kids f t) \<Longrightarrow> x \<noteq> t \<and> x \<noteq> c" using n(9,13) by auto
    have l: "x = ?r \<Longrightarrow> kids f t \<noteq> [] \<Longrightarrow> x \<in> set (kids f t)" using r(1) by simp
    have g: "th_tree ?h x = Some (if x = c then ?nc else if x = t then (if kids f t = [] then nt\<lparr>tree_child := c, tree_rightmostChild := c\<rparr>
        else nt\<lparr>tree_rightmostChild := c\<rparr>) else if kids f t \<noteq> [] \<and> x = ?r then m\<lparr>tree_sibling := c\<rparr> else m)"
      using x r n(8) by (auto simp: g_def)
    show "\<exists>n'. th_tree ?h x = Some n' \<and> tree_parent n' = (if x = c then t else tree_parent m) \<and>
      tree_sibling n' = (if x \<in> set (kids f t @ [c]) then next_of (kids f t @ [c]) x else tree_sibling m) \<and>
      tree_child n' = (if x = t then hd0 (kids f t @ [c]) else tree_child m) \<and>
      tree_rightmostChild n' = (if x = t then last0 (kids f t @ [c]) else tree_rightmostChild m) \<and>
      tree_rc n' = (if x = c then tree_rc m + 1 else tree_rc m)"
      unfolding g using x n s k l by (cases "x = c"; cases "x = t"; cases "x \<in> set (kids f t)")
        (auto simp: next_of_append[OF n(11)] hd0_append)
  qed (use n in simp_all)
  then show ?thesis using go same by blast
qed

fun insert_after :: "ptr \<Rightarrow> ptr \<Rightarrow> ptr list \<Rightarrow> ptr list" where
  "insert_after x c [] = []"
| "insert_after x c (y # ys) = (if y = x then y # c # ys else y # insert_after x c ys)"

lemma insert_after_mid: "x \<notin> set pre \<Longrightarrow> insert_after x c (pre @ x # suf) = pre @ x # c # suf"
  by (induction pre) auto

lemma insert_rep:
  assumes "rep D h f" "can_attach f p c" "p \<notin> D" "x \<in> set (kids f p)"
  shows "\<exists>h'. CFTreeInsertSibling x c h = Some h' \<and> rep D h' (with_kids f p (insert_after x c (kids f p))) \<and> same_data h h'"
proof -
  obtain np nc where n: "th_tree h p = Some np" "th_tree h c = Some nc" "tree_child np = hd0 (kids f p)"
    "tree_rightmostChild np = last0 (kids f p)" "tree_parent nc = NULL" "tree_sibling nc = NULL" "tree_rc nc \<noteq> 0"
    "c \<noteq> p" "c \<notin> set (kids f p)" "c \<noteq> NULL" "distinct (kids f p)" "NULL \<notin> set (kids f p)" "p \<notin> set (kids f p)"
    by (rule attach_nodes[OF assms(1-3)])
  obtain nx where nx: "th_tree h x = Some nx" by (rule rep_node[OF assms(1) kid_live[OF assms(4)]])
  note sx = rep_sibling[OF assms(1) nx assms(4)]
  have xn: "x \<noteq> p" "x \<noteq> c" "p \<noteq> NULL" using assms(4) n kid_facts(2)[OF repD(1)[OF assms(1)] assms(4)] by auto
  obtain pre suf where ks: "kids f p = pre @ x # suf" using assms(4) by (auto simp: in_set_conv_decomp)
  have ks': "insert_after x c (kids f p) = (pre @ [x]) @ c # suf" using n(11) by (simp add: ks insert_after_mid)
  have last: "last0 (kids f p) = x \<longleftrightarrow> suf = []" using n(11) last0_in[of suf] by (auto simp: ks last0_append last0_Cons)
  have d: "distinct (pre @ [x])" using n(11) by (simp add: ks)
  have hx: "tree_sibling nx = hd0 suf" using sx(1) n(11) next_of_mid[of pre x suf] by (simp add: ks)
  let ?nc = "nc\<lparr>tree_rc := tree_rc nc + 1, tree_parent := p, tree_sibling := tree_sibling nx\<rparr>"
  let ?np = "if suf = [] then np\<lparr>tree_rightmostChild := c\<rparr> else np"
  let ?h = "h\<lparr>th_tree := (th_tree h)(c \<mapsto> ?nc, x \<mapsto> nx\<lparr>tree_sibling := c\<rparr>, p \<mapsto> ?np)\<rparr>"
  have go: "CFTreeInsertSibling x c h = Some ?h"
    using n nx sx(2) xn last by (simp add: CFTreeInsertSibling_def CFRetain_def fun_upd_idem)
  have same: "same_data h ?h" using n(1,2,8) nx xn by (auto simp: same_data_def data_at_def fun_eq_iff)
  have "rep D ?h (with_kids f p (insert_after x c (kids f p)))"
  proof (rule attach_rep[OF assms(1-3) _ _ same])
    fix y m
    assume y: "th_tree h y = Some m"
    have s: "y \<in> set (kids f p) \<Longrightarrow> tree_sibling m = next_of (kids f p) y" using rep_sibling[OF assms(1) y] by blast
    have k: "y \<in> set (kids f p) \<Longrightarrow> y \<noteq> p \<and> y \<noteq> c" using n(9,13) by auto
    have old: "next_of (kids f p) y = (if y \<in> set (pre @ [x]) then (if y = x then hd0 suf else next_of (pre @ [x]) y) else next_of suf y)"
      using next_of_append[OF d, of suf y] by (simp add: ks)
    show "\<exists>n'. th_tree ?h y = Some n' \<and> tree_parent n' = (if y = c then p else tree_parent m) \<and>
      tree_sibling n' = (if y \<in> set (insert_after x c (kids f p)) then next_of (insert_after x c (kids f p)) y else tree_sibling m) \<and>
      tree_child n' = (if y = p then hd0 (insert_after x c (kids f p)) else tree_child m) \<and>
      tree_rightmostChild n' = (if y = p then last0 (insert_after x c (kids f p)) else tree_rightmostChild m) \<and>
      tree_rc n' = (if y = c then tree_rc m + 1 else tree_rc m)"
      using y n nx sx(2) hx xn s k unfolding ks' next_of_append[OF d] old
      by (cases "y = c"; cases "y = p"; cases "y = x") (auto simp: ks hd0_append last0_append last0_Cons)
  qed (use n(9,11) in \<open>auto simp: ks ks'[unfolded ks]\<close>)
  then show ?thesis using go same by blast
qed

section \<open>Taking a node off\<close>

text \<open>A node that is taken off keeps its count: the reference of its parent passes to the caller.\<close>

definition taken :: "forest \<Rightarrow> ptr \<Rightarrow> ptr \<Rightarrow> forest" where
  "taken f p c = f\<lparr>kids := (kids f)(p := remove1 c (kids f p)), refs := (refs f)(c := refs f c + 1)\<rparr>"

lemma taken_sel [simp]: "kids (taken f p c) = (kids f)(p := remove1 c (kids f p))" "refs (taken f p c) = (refs f)(c := refs f c + 1)"
  by (simp_all add: taken_def)

lemma taken_kids:
  assumes "forest_ok f" "c \<in> set (kids f p)"
  shows "x \<in> set (kids (taken f p c) q) \<longleftrightarrow> x \<noteq> c \<and> x \<in> set (kids f q)" "is_kid (taken f p c) x \<longleftrightarrow> x \<noteq> c \<and> is_kid f x"
    "live (taken f p c) = live f" "child_rel (taken f p c) \<subseteq> child_rel f"
proof -
  have k: "x \<in> set (kids (taken f p c) q) \<longleftrightarrow> x \<noteq> c \<and> x \<in> set (kids f q)" for x q
    using forest_okD(1)[OF assms(1), of p] forest_okD(4)[OF assms(1) assms(2), of q] by auto
  then show "x \<in> set (kids (taken f p c) q) \<longleftrightarrow> x \<noteq> c \<and> x \<in> set (kids f q)" .
  have i: "is_kid (taken f p c) x \<longleftrightarrow> x \<noteq> c \<and> is_kid f x" for x unfolding is_kid_def k by blast
  then show "is_kid (taken f p c) x \<longleftrightarrow> x \<noteq> c \<and> is_kid f x" .
  show "live (taken f p c) = live f" using kid_live[OF assms(2)] by (auto simp: live_def i fun_eq_iff)
  show "child_rel (taken f p c) \<subseteq> child_rel f" unfolding child_rel_def k by blast
qed

lemma taken_forest:
  assumes "forest_ok f" "c \<in> set (kids f p)"
  shows "forest_ok (taken f p c)"
  unfolding forest_ok_def taken_kids(3)[OF assms]
proof (intro conjI allI impI)
  show "distinct (kids (taken f p c) q)" for q using forest_okD(1)[OF assms(1)] by (simp add: distinct_remove1)
  show "live f q" if "kids (taken f p c) q \<noteq> []" for q
    using that forest_okD(2)[OF assms(1), of q] kid_facts(4)[OF assms] by (cases "q = p") simp_all
  show "acyclic (child_rel (taken f p c))" using forest_okD(6)[OF assms(1)] taken_kids(4)[OF assms] by (rule acyclic_subset)
  show "q = r" if "x \<in> set (kids (taken f p c) q)" "x \<in> set (kids (taken f p c) r)" for x q r
    using that forest_okD(4)[OF assms(1)] unfolding taken_kids(1)[OF assms] by blast
qed (use forest_okD(3,5)[OF assms(1)] in simp_all)

lemma taken_rep:
  assumes "rep D h f" "c \<in> set (kids f p)" "same_data h h'"
    and "\<And>x n. th_tree h x = Some n \<Longrightarrow> \<exists>n'. th_tree h' x = Some n' \<and> tree_parent n' = (if x = c then NULL else tree_parent n) \<and>
      tree_sibling n' = (if x = c then NULL else if x \<in> set (kids f p) then next_of (remove1 c (kids f p)) x else tree_sibling n) \<and>
      tree_child n' = (if x = p \<and> p \<notin> D then hd0 (remove1 c (kids f p)) else tree_child n) \<and>
      tree_rightmostChild n' = (if x = p \<and> p \<notin> D then last0 (remove1 c (kids f p)) else tree_rightmostChild n) \<and>
      tree_rc n' = tree_rc n"
  shows "rep D h' (taken f p c)"
proof -
  let ?f = "taken f p c"
  note f = repD(1)[OF assms(1)]
  note k = taken_kids[OF f assms(2)]
  have dom: "th_tree h' x = None \<longleftrightarrow> th_tree h x = None" for x
    using assms(3) by (auto simp: same_data_def data_at_def fun_eq_iff dest: spec[of _ x])
  have kN: "kids ?f NULL = []" using kid_facts(2)[OF f] k(1) by (metis list.set_intros(1) neq_Nil_conv)
  have "node_ok D ?f x n'" if n': "th_tree h' x = Some n'" for x n'
  proof -
    obtain n where n: "th_tree h x = Some n" using dom[of x] n' by (cases "th_tree h x") simp_all
    note ok = node_okD[OF repD(3)[OF assms(1) n]]
    have e: "tree_parent n' = (if x = c then NULL else tree_parent n)"
      "tree_sibling n' = (if x = c then NULL else if x \<in> set (kids f p) then next_of (remove1 c (kids f p)) x else tree_sibling n)"
      "tree_child n' = (if x = p \<and> p \<notin> D then hd0 (remove1 c (kids f p)) else tree_child n)"
      "tree_rightmostChild n' = (if x = p \<and> p \<notin> D then last0 (remove1 c (kids f p)) else tree_rightmostChild n)"
      "tree_rc n' = tree_rc n" using assms(4)[OF n] n' by simp_all
    have "x \<in> set (kids ?f q) \<longleftrightarrow> tree_parent n' = q \<and> q \<noteq> NULL" for q
      using ok(3)[of q] e(1) unfolding k(1) by auto
    moreover have "tree_sibling n' = next_of (kids ?f (tree_parent n')) x"
    proof (cases "x = c")
      case True
      then show ?thesis using e(1,2) kN by simp
    next
      case False
      then show ?thesis using ok(3)[of p] ok(4) e(1,2) kid_facts(2)[OF f assms(2)] by simp
    qed
    moreover have "unat (tree_rc n') = refs ?f x + (if is_kid ?f x then 1 else 0)"
      using ok(5) e(5) is_kidI[OF assms(2)] unfolding k(2) by simp
    ultimately show ?thesis using ok(1,2) e(3,4) by (simp add: node_ok_def)
  qed
  moreover have "th_tree h' x \<noteq> None \<longleftrightarrow> live ?f x" for x using dom repD(2)[OF assms(1)] by (simp add: k(3))
  ultimately show ?thesis
    using taken_forest[OF f assms(2)] repD(4)[OF assms(1)] same_data_cbs[OF assms(3)] unfolding rep_def by blast
qed

end
