(* ===== verification/CF_Tree_Release.thy ===== *)
theory CF_Tree_Release
  imports CF_Tree_Forest
begin

text \<open>
  Releasing nodes. The last release of a node frees it together with every node that is only held through it, and the
  client's data of each freed node is released once.
\<close>

section \<open>The nodes that go\<close>

text \<open>From \<open>A\<close>, through children that no client holds.\<close>

inductive_set owned :: "forest \<Rightarrow> ptr set \<Rightarrow> ptr set" for f A where
  start: "a \<in> A \<Longrightarrow> a \<in> owned f A"
| child: "p \<in> owned f A \<Longrightarrow> c \<in> set (kids f p) \<Longrightarrow> refs f c = 0 \<Longrightarrow> c \<in> owned f A"

definition dropped :: "forest \<Rightarrow> ptr \<Rightarrow> forest" where
  "dropped f t = f\<lparr>refs := (refs f)(t := refs f t - 1)\<rparr>"

definition without :: "forest \<Rightarrow> ptr set \<Rightarrow> forest" where
  "without f X = f\<lparr>kids := \<lambda>p. if p \<in> X then [] else kids f p\<rparr>"

lemma drop_sel [simp]: "kids (dropped f t) = kids f" "refs (dropped f t) = (refs f)(t := refs f t - 1)"
  "kids (without f X) p = (if p \<in> X then [] else kids f p)" "refs (without f X) = refs f"
  by (simp_all add: dropped_def without_def)

lemma without_without: "without (without f X) Y = without f (X \<union> Y)"
  by (rule forest.equality) (simp_all add: fun_eq_iff)

lemma without_dropped: "dropped (without f X) t = without (dropped f t) X"
  by (rule forest.equality) (simp_all add: fun_eq_iff)

lemma owned_Un: "owned f (A \<union> B) = owned f A \<union> owned (without f (owned f A)) B"
proof (intro equalityI subsetI)
  fix x
  assume "x \<in> owned f (A \<union> B)"
  then show "x \<in> owned f A \<union> owned (without f (owned f A)) B"
  proof induction
    case (child p c)
    then show ?case by (cases "p \<in> owned f A") (auto intro: owned.child)
  qed (auto intro: owned.start)
next
  have a: "x \<in> owned f (A \<union> B)" if "x \<in> owned f A" for x
    using that by induction (auto intro: owned.intros)
  have b: "x \<in> owned f (A \<union> B)" if "x \<in> owned (without f (owned f A)) B" for x
    using that by induction (auto intro: owned.intros split: if_splits)
  fix x
  assume "x \<in> owned f A \<union> owned (without f (owned f A)) B"
  then show "x \<in> owned f (A \<union> B)" using a b by blast
qed

lemma owned_sub:
  assumes "\<And>p. p \<in> owned f A \<Longrightarrow> kids g p = kids f p" "\<And>p c. c \<in> set (kids f p) \<Longrightarrow> refs g c = refs f c"
  shows "owned f A \<subseteq> owned g A"
proof
  fix x
  assume "x \<in> owned f A"
  then show "x \<in> owned g A"
  proof induction
    case (child p c)
    then have "c \<in> set (kids g p)" "refs g c = 0" using assms(1)[OF child.hyps(1)] assms(2)[OF child.hyps(2)] by simp_all
    then show ?case by (rule owned.child[OF child.IH])
  qed (rule owned.start)
qed

lemma owned_in: "x \<in> owned f A \<Longrightarrow> x \<in> A \<or> (is_kid f x \<and> refs f x = 0)"
  by (cases rule: owned.cases) (auto intro: is_kidI)

lemma owned_live:
  assumes "x \<in> owned f A" "\<And>a. a \<in> A \<Longrightarrow> live f a"
  shows "live f x"
  using owned_in[OF assms(1)] assms(2) by (auto simp: live_def)

lemma owned_empty [simp]: "owned f {} = {}"
proof -
  have "x \<notin> owned f {}" for x
  proof
    assume "x \<in> owned f {}"
    then show False by induction simp_all
  qed
  then show ?thesis by blast
qed

text \<open>What remains does not contain a node that goes.\<close>

lemma owned_gone:
  assumes "\<And>x p q. x \<in> set (kids f p) \<Longrightarrow> x \<in> set (kids f q) \<Longrightarrow> p = q" "\<And>a. a \<in> A \<Longrightarrow> refs f a = 0 \<and> \<not> is_kid f a"
    "x \<in> owned f A"
  shows "\<not> live (without f (owned f A)) x"
proof -
  have "refs f x = 0" using owned_in[OF assms(3)] assms(2) by blast
  moreover have "\<not> is_kid (without f (owned f A)) x"
  proof
    assume "is_kid (without f (owned f A)) x"
    then obtain q where "x \<in> set (kids (without f (owned f A)) q)" unfolding is_kid_def by blast
    then have q: "q \<notin> owned f A" "x \<in> set (kids f q)" by (simp_all split: if_splits)
    from assms(3) show False
    proof cases
      case start
      then show False using assms(2)[of x] is_kidI[OF q(2)] by blast
    next
      case (child p)
      then show False using assms(1)[OF child(2) q(2)] q(1) by blast
    qed
  qed
  ultimately show ?thesis by (simp add: live_def)
qed

section \<open>Single steps\<close>

text \<open>The client's data of a node with the callbacks for it, and the call that releases it.\<close>

definition payload :: "tree_env \<Rightarrow> tree_heap \<Rightarrow> ptr \<Rightarrow> (ptr \<times> CFTreeCallBacks option) option" where
  "payload E h t = map_option (\<lambda>(i, ty, p). (i, CFTreeGetCallBacks E h ty p)) (data_at h t)"

definition release_call :: "tree_env \<Rightarrow> tree_heap \<Rightarrow> ptr \<Rightarrow> tree_call list" where
  "release_call E h t = (case payload E h t of
     Some (i, Some cb) \<Rightarrow> if cb_release cb \<noteq> NULL then [CallRelease (cb_release cb) i] else [] | _ \<Rightarrow> [])"

lemma payload_same: "same_data h h' \<Longrightarrow> payload E h' = payload E h"
  by (simp add: payload_def same_data_def CFTreeGetCallBacks_def fun_eq_iff cong: cb_type.case_cong)

lemma rep_recount:
  assumes "rep D h f" "th_tree h t = Some n" "unat rc = r + (if is_kid f t then 1 else 0)" "rc \<noteq> 0"
  shows "rep D (h\<lparr>th_tree := (th_tree h)(t \<mapsto> n\<lparr>tree_rc := rc\<rparr>)\<rparr>) (f\<lparr>refs := (refs f)(t := r)\<rparr>)"
    "same_data h (h\<lparr>th_tree := (th_tree h)(t \<mapsto> n\<lparr>tree_rc := rc\<rparr>)\<rparr>)"
proof -
  let ?h = "h\<lparr>th_tree := (th_tree h)(t \<mapsto> n\<lparr>tree_rc := rc\<rparr>)\<rparr>" and ?f = "f\<lparr>refs := (refs f)(t := r)\<rparr>"
  show same: "same_data h ?h" using assms(2) by (auto simp: same_data_def data_at_def fun_eq_iff)
  have kid: "is_kid ?f = is_kid f" "child_rel ?f = child_rel f" by (simp_all add: is_kid_def child_rel_def fun_eq_iff)
  have "live f t" using repD(2)[OF assms(1), of t] assms(2) by simp
  moreover have "0 < r \<or> is_kid f t" using assms(3,4) unat_gt_0[of rc] by (cases "is_kid f t") simp_all
  ultimately have live: "live ?f = live f" by (auto simp: live_def kid fun_eq_iff)
  have "forest_ok ?f" using repD(1)[OF assms(1)] by (simp add: forest_ok_def live kid)
  moreover have "\<forall>x. th_tree ?h x \<noteq> None \<longleftrightarrow> live ?f x" using repD(2)[OF assms(1)] assms(2) unfolding live by auto
  moreover have "node_ok D ?f x m" if "th_tree ?h x = Some m" for x m
  proof (cases "x = t")
    case True
    then have m: "m = n\<lparr>tree_rc := rc\<rparr>" using that by simp
    show ?thesis using repD(3)[OF assms(1,2)] assms(3) by (simp add: m True node_ok_def kid)
  qed (use that repD(3)[OF assms(1), of x] in \<open>simp add: node_ok_def kid\<close>)
  ultimately show "rep D ?h ?f" using repD(4)[OF assms(1)] same_data_cbs[OF same] unfolding rep_def by blast
qed

lemma retain_rep:
  assumes "rep D h f" "live f t" "refs f t + 2 < 2 ^ 32"
  shows "\<exists>h'. CFRetain t h = Some h' \<and> rep D h' (f\<lparr>refs := (refs f)(t := refs f t + 1)\<rparr>) \<and> same_data h h'"
proof -
  obtain n where n: "th_tree h t = Some n" "node_ok D f t n" by (rule rep_node[OF assms(1,2)])
  have rc: "tree_rc n \<noteq> 0" using node_okD(5)[OF n(2)] assms(2) by (auto simp: live_def)
  have "unat (tree_rc n + 1) = refs f t + 1 + (if is_kid f t then 1 else 0)"
    using node_okD(5)[OF n(2)] assms(3) by (simp add: unat_word_ariths)
  moreover from this have "tree_rc n + 1 \<noteq> 0" by (auto simp: unat_eq_0[symmetric])
  ultimately show ?thesis using rep_recount[OF assms(1) n(1)] n(1) rc by (simp add: CFRetain_def)
qed

lemma release_keeps:
  assumes "rep D h f" "0 < refs f t" "1 < refs f t \<or> is_kid f t"
  shows "\<exists>h'. tree_work E (ReleaseTree t) h = Some h' \<and> rep D h' (dropped f t) \<and> same_data h h'"
proof -
  have "live f t" using assms(2) by (simp add: live_def)
  then obtain n where n: "th_tree h t = Some n" "node_ok D f t n" by (rule rep_node[OF assms(1)])
  have u: "1 < unat (tree_rc n)" using node_okD(5)[OF n(2)] assms(2,3) by auto
  then have rc: "tree_rc n \<noteq> 0" "tree_rc n \<noteq> 1" by auto
  have m: "unat (tree_rc n - 1) = unat (tree_rc n) - 1" using rc(1) by (simp add: unat_minus_one)
  then have "unat (tree_rc n - 1) = refs f t - 1 + (if is_kid f t then 1 else 0)"
    using node_okD(5)[OF n(2)] assms(2) by simp
  moreover have "tree_rc n - 1 \<noteq> 0" using rc(2) by simp
  ultimately have "rep D (h\<lparr>th_tree := (th_tree h)(t \<mapsto> n\<lparr>tree_rc := tree_rc n - 1\<rparr>)\<rparr>) (dropped f t)"
    "same_data h (h\<lparr>th_tree := (th_tree h)(t \<mapsto> n\<lparr>tree_rc := tree_rc n - 1\<rparr>)\<rparr>)"
    using rep_recount[OF assms(1) n(1)] by (simp_all add: dropped_def)
  moreover have "tree_work E (ReleaseTree t) h = Some (h\<lparr>th_tree := (th_tree h)(t \<mapsto> n\<lparr>tree_rc := tree_rc n - 1\<rparr>)\<rparr>)"
    using n(1) rc by (subst tree_work.simps) simp
  ultimately show ?thesis by blast
qed

lemma takedown_start:
  assumes "rep D h f" "th_tree h t = Some n"
  shows "rep (insert t D) (h\<lparr>th_tree := (th_tree h)(t \<mapsto> n\<lparr>tree_child := NULL, tree_rightmostChild := NULL\<rparr>)\<rparr>) f"
    "same_data h (h\<lparr>th_tree := (th_tree h)(t \<mapsto> n\<lparr>tree_child := NULL, tree_rightmostChild := NULL\<rparr>)\<rparr>)"
proof -
  let ?h = "h\<lparr>th_tree := (th_tree h)(t \<mapsto> n\<lparr>tree_child := NULL, tree_rightmostChild := NULL\<rparr>)\<rparr>"
  show same: "same_data h ?h" using assms(2) by (auto simp: same_data_def data_at_def fun_eq_iff)
  have "node_ok (insert t D) f x m" if "th_tree ?h x = Some m" for x m
  proof (cases "x = t")
    case True
    then have m: "m = n\<lparr>tree_child := NULL, tree_rightmostChild := NULL\<rparr>" using that by simp
    show ?thesis using repD(3)[OF assms] by (simp add: m True node_ok_def)
  qed (use that repD(3)[OF assms(1), of x] in \<open>simp add: node_ok_def\<close>)
  moreover have "\<forall>x. th_tree ?h x \<noteq> None \<longleftrightarrow> live f x" using repD(2)[OF assms(1)] assms(2) by auto
  ultimately show "rep (insert t D) ?h f"
    using repD(1,4)[OF assms(1)] same_data_cbs[OF same] unfolding rep_def by blast
qed

lemma free_node:
  assumes "rep (insert t D) h f" "t \<notin> D" "kids f t = []" "refs f t = 1" "\<not> is_kid f t"
  shows "\<exists>h'. tree_finalize_data E t h = Some h' \<and> map_option tree_rc (th_tree h' t) = Some 1 \<and>
    rep D (h'\<lparr>th_tree := (th_tree h')(t := None)\<rparr>) (dropped f t) \<and> th_calls h' = th_calls h @ release_call E h t \<and>
    (\<forall>x. x \<noteq> t \<longrightarrow> payload E (h'\<lparr>th_tree := (th_tree h')(t := None)\<rparr>) x = payload E h x)"
proof -
  have "live f t" using assms(4) by (simp add: live_def)
  then obtain n where n: "th_tree h t = Some n" "node_ok (insert t D) f t n" by (rule rep_node[OF assms(1)])
  have rc: "tree_rc n = 1" using node_okD(5)[OF n(2)] assms(4,5) by (simp add: word_unat_eq_iff)
  note cbs = repD(4)[OF assms(1), unfolded cbs_ok_def]
  have own: "custom_at h t (tree_callbacks n)" if "tree_cbtype n = HasCustomCallBacks" using n(1) that by (simp add: custom_at_def)
  have "CFTreeGetCallBacks E h (tree_cbtype n) (tree_callbacks n) \<noteq> None"
    using cbs own by (cases "tree_cbtype n") (auto simp: CFTreeGetCallBacks_def)
  then obtain cb where cb: "CFTreeGetCallBacks E h (tree_cbtype n) (tree_callbacks n) = Some cb" by blast
  let ?c = "if tree_cbtype n = HasCustomCallBacks then (th_cbs h)(tree_callbacks n := None) else th_cbs h"
  let ?h = "h\<lparr>th_calls := th_calls h @ release_call E h t, th_cbs := ?c\<rparr>"
  have call: "release_call E h t = (if cb_release cb \<noteq> NULL then [CallRelease (cb_release cb) (tree_info n)] else [])"
    using n(1) cb by (simp add: release_call_def payload_def data_at_def)
  have go: "tree_finalize_data E t h = Some ?h"
    using n(1) cb cbs own by (auto simp: tree_finalize_data_def free_callbacks_def log_call_def call CFTreeGetCallBacks_def)
  let ?h' = "?h\<lparr>th_tree := (th_tree ?h)(t := None)\<rparr>"
  have cust: "custom_at ?h' x p \<longleftrightarrow> x \<noteq> t \<and> custom_at h x p" for x p by (simp add: custom_at_def)
  have "cbs_ok ?h'"
  proof -
    have "th_cbs ?h' p \<noteq> None \<longleftrightarrow> (\<exists>x. x \<noteq> t \<and> custom_at h x p)" for p
    proof (cases "custom_at h t p")
      case True
      then have p: "tree_cbtype n = HasCustomCallBacks" "tree_callbacks n = p" using n(1) by (simp_all add: custom_at_def)
      have "\<not> (\<exists>x. x \<noteq> t \<and> custom_at h x p)" using cbs True by blast
      then show ?thesis using p by simp
    next
      case False
      then have "th_cbs ?h' p = th_cbs h p" using own by auto
      then show ?thesis using cbs False by metis
    qed
    then show ?thesis using cbs unfolding cbs_ok_def cust by blast
  qed
  moreover have kid: "is_kid (dropped f t) = is_kid f" "child_rel (dropped f t) = child_rel f"
    by (simp_all add: is_kid_def child_rel_def fun_eq_iff)
  have live: "live (dropped f t) x \<longleftrightarrow> x \<noteq> t \<and> live f x" for x using assms(4,5) by (auto simp: live_def kid)
  have "forest_ok (dropped f t)"
    using repD(1)[OF assms(1)] assms(3) unfolding forest_ok_def live kid by (auto intro: finite_subset)
  moreover have "\<forall>x. th_tree ?h' x \<noteq> None \<longleftrightarrow> live (dropped f t) x" using repD(2)[OF assms(1)] unfolding live by simp
  moreover have "node_ok D (dropped f t) x m" if "th_tree ?h' x = Some m" for x m
  proof -
    have "x \<noteq> t" "th_tree h x = Some m" using that by (simp_all split: if_splits)
    then show ?thesis using repD(3)[OF assms(1), of x m] by (simp add: node_ok_def kid)
  qed
  ultimately have "rep D ?h' (dropped f t)" unfolding rep_def by blast
  moreover have "payload E ?h' x = payload E h x" if "x \<noteq> t" for x
  proof -
    have "tree_callbacks m \<noteq> tree_callbacks n" if "th_tree h x = Some m" "tree_cbtype m = HasCustomCallBacks" "tree_cbtype n = HasCustomCallBacks" for m
      using cbs own that \<open>x \<noteq> t\<close> unfolding custom_at_def by metis
    then show ?thesis using that by (cases "th_tree h x") (auto simp: payload_def data_at_def CFTreeGetCallBacks_def split: cb_type.splits)
  qed
  ultimately show ?thesis using go n(1) rc by auto
qed

section \<open>Taking down\<close>

text \<open>The nodes \<open>X\<close> have gone: the data of each has been released once, and the data of the others is as before.\<close>

definition torn :: "tree_env \<Rightarrow> tree_heap \<Rightarrow> tree_heap \<Rightarrow> ptr set \<Rightarrow> bool" where
  "torn E h h' X \<longleftrightarrow> (\<exists>xs. distinct xs \<and> set xs = X \<and> th_calls h' = th_calls h @ concat (map (release_call E h) xs)) \<and>
     (\<forall>x. x \<notin> X \<longrightarrow> payload E h' x = payload E h x)"

lemma torn_same: "same_data h h' \<Longrightarrow> torn E h h' {}"
  unfolding torn_def by (intro conjI exI[of _ "[]"]) (simp_all add: payload_same, simp add: same_data_def)

lemma torn_one:
  assumes "th_calls h' = th_calls h @ release_call E h t" "\<forall>x. x \<noteq> t \<longrightarrow> payload E h' x = payload E h x"
  shows "torn E h h' {t}"
  unfolding torn_def using assms by (intro conjI exI[of _ "[t]"]) simp_all

lemma torn_trans:
  assumes "torn E h h1 X" "torn E h1 h2 Y" "X \<inter> Y = {}"
  shows "torn E h h2 (X \<union> Y)"
proof -
  obtain xs where xs: "distinct xs" "set xs = X" "th_calls h1 = th_calls h @ concat (map (release_call E h) xs)"
    using assms(1) unfolding torn_def by blast
  obtain ys where ys: "distinct ys" "set ys = Y" "th_calls h2 = th_calls h1 @ concat (map (release_call E h1) ys)"
    using assms(2) unfolding torn_def by blast
  have "release_call E h1 y = release_call E h y" if "y \<in> set ys" for y
  proof -
    have "y \<notin> X" using assms(3) that ys(2) by blast
    then have "payload E h1 y = payload E h y" using assms(1) unfolding torn_def by blast
    then show ?thesis by (simp add: release_call_def)
  qed
  then have "map (release_call E h1) ys = map (release_call E h) ys" by simp
  note ys(3)[unfolded this]
  then have "th_calls h2 = th_calls h @ concat (map (release_call E h) (xs @ ys))" using xs(3) by simp
  moreover have "distinct (xs @ ys)" "set (xs @ ys) = X \<union> Y" using xs ys assms(3) by auto
  moreover have "\<forall>x. x \<notin> X \<union> Y \<longrightarrow> payload E h2 x = payload E h x" using assms(1,2) unfolding torn_def by simp
  ultimately show ?thesis unfolding torn_def by blast
qed

abbreviation lone_kids :: "forest \<Rightarrow> ptr \<Rightarrow> ptr set" where
  "lone_kids f t \<equiv> {c \<in> set (kids f t). refs f c = 0}"

lemma owned_root:
  assumes "\<not> is_kid f t"
  shows "owned (dropped f t) {t} = insert t (owned f (lone_kids f t))"
proof (intro equalityI subsetI)
  fix x
  assume "x \<in> owned (dropped f t) {t}"
  then show "x \<in> insert t (owned f (lone_kids f t))"
  proof induction
    case (child p c)
    have "is_kid f c" using child.hyps(2) by (auto intro: is_kidI)
    then have "refs f c = 0" using child.hyps(3) assms by (auto split: if_splits)
    then show ?case using child.IH child.hyps(2) owned.start[of c "lone_kids f t" f] owned.child[of p f "lone_kids f t" c]
      by (cases "p = t") simp_all
  qed simp
next
  have "x \<in> owned (dropped f t) {t}" if "x \<in> owned f (lone_kids f t)" for x
    using that
  proof induction
    case (start a)
    then have "refs (dropped f t) a = 0" "a \<in> set (kids (dropped f t) t)" using is_kidI[of a f t] assms by auto
    then show ?case using owned.child[OF owned.start[of t "{t}"], of a "dropped f t"] by simp
  next
    case (child p c)
    then have "refs (dropped f t) c = 0" using is_kidI[of c f p] assms by auto
    then show ?case using child.hyps(2) owned.child[OF child.IH, of c] by simp
  qed
  moreover have "t \<in> owned (dropped f t) {t}" by (rule owned.start) simp
  ultimately show "x \<in> owned (dropped f t) {t}" if "x \<in> insert t (owned f (lone_kids f t))" for x using that by blast
qed

lemma tree_release_last:
  assumes "rep D h f" "t \<notin> D" "refs f t = 1" "\<not> is_kid f t"
    and detach: "\<And>h. rep (insert t D) h f \<Longrightarrow> \<exists>h'. tree_work E (DetachFrom (hd0 (kids f t))) h = Some h' \<and>
      rep (insert t D) h' (without f (insert t (owned f (lone_kids f t)))) \<and> torn E h h' (owned f (lone_kids f t))"
  shows "\<exists>h'. tree_work E (ReleaseTree t) h = Some h' \<and> rep D h' (without (dropped f t) (owned (dropped f t) {t})) \<and>
    torn E h h' (owned (dropped f t) {t})"
proof -
  let ?O = "owned f (lone_kids f t)"
  have "live f t" using assms(3) by (simp add: live_def)
  then obtain n where n: "th_tree h t = Some n" "node_ok D f t n" by (rule rep_node[OF assms(1)])
  have rc: "tree_rc n = 1" using node_okD(5)[OF n(2)] assms(3,4) by (simp add: word_unat_eq_iff)
  have ch: "tree_child n = hd0 (kids f t)" using node_okD(1)[OF n(2)] assms(2) by simp
  let ?h1 = "h\<lparr>th_tree := (th_tree h)(t \<mapsto> n\<lparr>tree_child := NULL, tree_rightmostChild := NULL\<rparr>)\<rparr>"
  note start = takedown_start[OF assms(1) n(1)]
  obtain h2 where h2: "tree_work E (DetachFrom (hd0 (kids f t))) ?h1 = Some h2"
    "rep (insert t D) h2 (without f (insert t ?O))" "torn E ?h1 h2 ?O" using detach[OF start(1)] by blast
  let ?g = "without f (insert t ?O)"
  have k: "\<not> is_kid ?g t" using assms(4) by (auto simp: is_kid_def)
  obtain h3 where h3: "tree_finalize_data E t h2 = Some h3" "map_option tree_rc (th_tree h3 t) = Some 1"
    "rep D (h3\<lparr>th_tree := (th_tree h3)(t := None)\<rparr>) (dropped ?g t)" "th_calls h3 = th_calls h2 @ release_call E h2 t"
    "\<forall>x. x \<noteq> t \<longrightarrow> payload E (h3\<lparr>th_tree := (th_tree h3)(t := None)\<rparr>) x = payload E h2 x"
    using free_node[OF h2(2) assms(2) _ _ k, of E] assms(3) by auto
  let ?h4 = "h3\<lparr>th_tree := (th_tree h3)(t := None)\<rparr>"
  have go: "tree_work E (ReleaseTree t) h = Some ?h4"
    using n(1) rc ch h2(1) h3(1,2) by (subst tree_work.simps) auto
  have tO: "t \<notin> ?O" using owned_in[of t f "lone_kids f t"] assms(4) is_kidI by fastforce
  have "torn E h h2 ?O" using torn_trans[OF torn_same[OF start(2)] h2(3)] by simp
  moreover have "torn E h2 ?h4 {t}" by (rule torn_one) (use h3(4,5) in simp_all)
  ultimately have "torn E h ?h4 (?O \<union> {t})" using tO by (intro torn_trans) auto
  then show ?thesis using go h3(3) unfolding owned_root[OF assms(4)] without_dropped by auto
qed

lemma detach_first:
  assumes "rep D h f" "t \<in> D" "kids f t = c # cs" "th_tree h c = Some n"
  shows "rep D (h\<lparr>th_tree := (th_tree h)(c \<mapsto> n\<lparr>tree_parent := NULL, tree_sibling := NULL\<rparr>)\<rparr>) (taken f t c)"
    "same_data h (h\<lparr>th_tree := (th_tree h)(c \<mapsto> n\<lparr>tree_parent := NULL, tree_sibling := NULL\<rparr>)\<rparr>)"
proof -
  let ?h = "h\<lparr>th_tree := (th_tree h)(c \<mapsto> n\<lparr>tree_parent := NULL, tree_sibling := NULL\<rparr>)\<rparr>"
  show same: "same_data h ?h" using assms(4) by (auto simp: same_data_def data_at_def fun_eq_iff)
  have d: "distinct (c # cs)" using forest_okD(1)[OF repD(1)[OF assms(1)], of t] assms(3) by simp
  show "rep D ?h (taken f t c)"
  proof (rule taken_rep[OF assms(1) _ same])
    show "c \<in> set (kids f t)" by (simp add: assms(3))
    fix x m
    assume x: "th_tree h x = Some m"
    have "x \<in> set (kids f t) \<Longrightarrow> tree_sibling m = next_of (kids f t) x" using rep_sibling[OF assms(1) x] by blast
    then show "\<exists>n'. th_tree ?h x = Some n' \<and> tree_parent n' = (if x = c then NULL else tree_parent m) \<and>
      tree_sibling n' = (if x = c then NULL else if x \<in> set (kids f t) then next_of (remove1 c (kids f t)) x else tree_sibling m) \<and>
      tree_child n' = (if x = t \<and> t \<notin> D then hd0 (remove1 c (kids f t)) else tree_child m) \<and>
      tree_rightmostChild n' = (if x = t \<and> t \<notin> D then last0 (remove1 c (kids f t)) else tree_rightmostChild m) \<and>
      tree_rc n' = tree_rc m"
      using x assms(2-4) d by (cases "x = c") auto
  qed
qed

text \<open>No node that is being taken down is below \<open>t\<close>.\<close>

definition apart :: "ptr set \<Rightarrow> ptr \<Rightarrow> forest \<Rightarrow> bool" where
  "apart D t f \<longleftrightarrow> (\<forall>d \<in> D. (t, d) \<notin> (child_rel f)\<^sup>+)"

lemma child_relI: "c \<in> set (kids f p) \<Longrightarrow> (p, c) \<in> child_rel f"
  by (simp add: child_rel_def)

lemma owned_below:
  assumes "x \<in> owned f X" "\<And>a. a \<in> X \<Longrightarrow> (t, a) \<in> (child_rel f)\<^sup>+"
  shows "(t, x) \<in> (child_rel f)\<^sup>+"
  using assms(1)
proof induction
  case (child p c)
  then show ?case using child_relI[of c f p] by (blast intro: trancl_into_trancl)
qed (rule assms(2))

lemma not_below_self: "forest_ok f \<Longrightarrow> (t, t) \<notin> (child_rel f)\<^sup>+"
  using forest_okD(6) by (auto simp: acyclic_def)

lemma dropped_taken: "kids f t = c # cs \<Longrightarrow> dropped (taken f t c) c = with_kids f t cs"
  by (rule forest.equality) (auto simp: fun_eq_iff)

lemma owned_with_kids:
  assumes "t \<notin> owned f A"
  shows "owned (with_kids f t cs) A = owned f A"
proof (intro equalityI subsetI)
  fix x
  assume "x \<in> owned (with_kids f t cs) A"
  then show "x \<in> owned f A"
  proof induction
    case (child p c)
    then have "p \<noteq> t" using assms by blast
    then show ?case using owned.child[OF child.IH, of c] child.hyps by simp
  qed (rule owned.start)
next
  fix x
  assume "x \<in> owned f A"
  then show "x \<in> owned (with_kids f t cs) A"
  proof induction
    case (child p c)
    then have "p \<noteq> t" using assms by blast
    then show ?case using owned.child[OF child.IH, of c] child.hyps by simp
  qed (rule owned.start)
qed

text \<open>What the first child takes with it when no client holds it, and what the others take after that.\<close>

lemma owned_first:
  assumes "forest_ok f" "kids f t = c # cs" "refs f c = 0"
  shows "t \<notin> owned (with_kids f t cs) {c}"
    "owned f (lone_kids f t) = owned (with_kids f t cs) {c} \<union>
       owned (without (with_kids f t cs) (owned (with_kids f t cs) {c})) (lone_kids (without (with_kids f t cs) (owned (with_kids f t cs) {c})) t)"
    "owned (with_kids f t cs) {c} \<inter>
       owned (without (with_kids f t cs) (owned (with_kids f t cs) {c})) (lone_kids (without (with_kids f t cs) (owned (with_kids f t cs) {c})) t) = {}"
proof -
  let ?g = "with_kids f t cs"
  let ?O = "owned ?g {c}"
  let ?f2 = "without ?g ?O"
  have ct: "c \<in> set (kids f t)" by (simp add: assms(2))
  have gk: "set (kids ?g p) \<subseteq> set (kids f p)" for p by (auto simp: assms(2))
  have tc: "(t, c) \<in> (child_rel f)\<^sup>+" using child_relI[OF ct] by (rule r_into_trancl)
  have og: "t \<notin> owned f X" if "X \<subseteq> set (kids f t)" for X
    using owned_below[of t f X t] child_relI that not_below_self[OF assms(1)] by (blast intro: r_into_trancl)
  have "owned ?g {c} = owned f {c}" by (rule owned_with_kids[OF og]) (use ct in simp)
  then show tO: "t \<notin> ?O" using og[of "{c}"] ct by simp
  have lone: "lone_kids f t = {c} \<union> lone_kids ?f2 t" using assms(2,3) tO by auto
  have "owned ?g (lone_kids f t) = owned f (lone_kids f t)" by (rule owned_with_kids[OF og]) blast
  moreover have "owned ?g (lone_kids f t) = ?O \<union> owned ?f2 (lone_kids ?f2 t)" unfolding lone by (rule owned_Un)
  ultimately show "owned f (lone_kids f t) = ?O \<union> owned ?f2 (lone_kids ?f2 t)" by simp
  have uniq: "p = q" if "x \<in> set (kids ?g p)" "x \<in> set (kids ?g q)" for x p q
    using that gk forest_okD(4)[OF assms(1)] by blast
  have "\<not> is_kid ?g c"
    using forest_okD(1)[OF assms(1), of t] taken_kids(2)[OF assms(1) ct, of c] assms(2) by (auto simp: is_kid_def split: if_splits)
  then have "\<not> live ?f2 x" if "x \<in> ?O" for x using owned_gone[OF uniq _ that] assms(3) by simp
  moreover have "live ?f2 x" if "x \<in> owned ?f2 (lone_kids ?f2 t)" for x
    by (rule owned_live[OF that]) (blast intro: kid_live)
  ultimately show "?O \<inter> owned ?f2 (lone_kids ?f2 t) = {}" by blast
qed

lemma without_with_kids: "without (with_kids f t cs) (insert t X) = without f (insert t X)"
  by (rule forest.equality) (auto simp: fun_eq_iff)

lemma taken_fewer:
  assumes "forest_ok f" "kids f t = c # cs"
  shows "child_rel (taken f t c) = child_rel (with_kids f t cs)" "child_rel (taken f t c) \<subset> child_rel f"
    "card (child_rel (taken f t c)) < card (child_rel f)"
proof -
  have ct: "c \<in> set (kids f t)" by (simp add: assms(2))
  show "child_rel (taken f t c) = child_rel (with_kids f t cs)" by (auto simp: child_rel_def assms(2))
  show s: "child_rel (taken f t c) \<subset> child_rel f" using taken_kids(1)[OF assms(1) ct] ct unfolding child_rel_def by blast
  then show "card (child_rel (taken f t c)) < card (child_rel f)" by (rule psubset_card_mono[OF child_rel_finite[OF assms(1)]])
qed

lemma apart_fewer: "apart D t f \<Longrightarrow> child_rel g \<subseteq> child_rel f \<Longrightarrow> apart D t g"
  unfolding apart_def using trancl_mono by blast

lemma apart_child:
  assumes "apart D t f" "c \<in> set (kids f t)" "forest_ok g" "child_rel g \<subseteq> child_rel f"
  shows "apart (insert c D) c g"
  unfolding apart_def
proof (intro ballI notI)
  fix d
  assume d: "d \<in> insert c D" "(c, d) \<in> (child_rel g)\<^sup>+"
  then have "d \<in> D" using not_below_self[OF assms(3)] by blast
  moreover have "(t, d) \<in> (child_rel f)\<^sup>+"
    using d(2) assms(4) child_relI[OF assms(2)] by (blast intro: trancl_into_trancl2 trancl_mono)
  ultimately show False using assms(1) unfolding apart_def by blast
qed

lemma detach_all:
  assumes "rep D h f" "t \<in> D" "apart D t f"
  shows "\<exists>h'. tree_work E (DetachFrom (hd0 (kids f t))) h = Some h' \<and>
    rep D h' (without f (insert t (owned f (lone_kids f t)))) \<and> torn E h h' (owned f (lone_kids f t))"
  using assms
proof (induction "card (child_rel f)" arbitrary: D h f t rule: less_induct)
  case less
  note f = repD(1)[OF less.prems(1)]
  show ?case
  proof (cases "kids f t")
    case Nil
    have "without f {t} = f" by (rule forest.equality) (auto simp: fun_eq_iff Nil)
    then show ?thesis using less.prems(1) torn_same[OF same_data_refl] Nil by (simp add: tree_work.simps)
  next
    case (Cons c cs)
    let ?T = "taken f t c" and ?g = "with_kids f t cs"
    have ct: "c \<in> set (kids f t)" by (simp add: Cons)
    obtain n where n: "th_tree h c = Some n" by (rule rep_node[OF less.prems(1) kid_live[OF ct]])
    let ?h1 = "h\<lparr>th_tree := (th_tree h)(c \<mapsto> n\<lparr>tree_parent := NULL, tree_sibling := NULL\<rparr>)\<rparr>"
    note first = detach_first[OF less.prems(1,2) Cons n] and few = taken_fewer[OF f Cons]
    have sib: "tree_sibling n = hd0 cs" using rep_sibling(1)[OF less.prems(1) n ct] by (simp add: Cons)
    have work: "tree_work E (DetachFrom (hd0 (kids f t))) h = do { h2 \<leftarrow> tree_work E (ReleaseTree c) ?h1; tree_work E (DetachFrom (hd0 cs)) h2 }"
      using n kid_facts(1)[OF f ct] sib by (subst tree_work.simps) (simp add: Cons)
    show ?thesis
    proof (cases "refs f c = 0")
      case False
      obtain h2 where h2: "tree_work E (ReleaseTree c) ?h1 = Some h2" "rep D h2 ?g" "same_data ?h1 h2"
        using release_keeps[OF first(1), of c E] False dropped_taken[OF Cons] by auto
      have lone: "lone_kids ?g t = lone_kids f t" using False by (auto simp: Cons)
      have "t \<notin> owned f (lone_kids f t)"
        using owned_below[of t f "lone_kids f t" t] child_relI not_below_self[OF f] by (blast intro: r_into_trancl)
      note og = owned_with_kids[OF this]
      have "apart D t ?g" using apart_fewer[OF less.prems(3)] few(1,2) by blast
      then obtain h3 where h3: "tree_work E (DetachFrom (hd0 (kids ?g t))) h2 = Some h3"
        "rep D h3 (without ?g (insert t (owned ?g (lone_kids ?g t))))" "torn E h2 h3 (owned ?g (lone_kids ?g t))"
        using less.hyps[OF _ h2(2) less.prems(2)] few(3) unfolding few(1) by blast
      have "torn E h h2 ({} \<union> {})" by (rule torn_trans[OF torn_same[OF first(2)] torn_same[OF h2(3)]]) simp
      then have "torn E h h3 ({} \<union> owned f (lone_kids f t))" using torn_trans[of E h h2 "{}"] h3(3) unfolding lone og by simp
      then show ?thesis using work h2(1) h3(1,2) unfolding lone og without_with_kids by simp
    next
      case True
      let ?f2 = "without ?g (owned ?g {c})"
      note own = owned_first[OF f Cons True]
      have root: "refs ?T c = 1" "\<not> is_kid ?T c" using True taken_kids(2)[OF f ct] by simp_all
      have cD: "c \<notin> D" using less.prems(3) child_relI[OF ct] unfolding apart_def by blast
      have "apart (insert c D) c ?T" using apart_child[OF less.prems(3) ct taken_forest[OF f ct]] few(2) by blast
      note det = less.hyps[OF few(3) _ insertI1 this]
      obtain h2 where h2: "tree_work E (ReleaseTree c) ?h1 = Some h2" "rep D h2 ?f2" "torn E ?h1 h2 (owned ?g {c})"
        using tree_release_last[OF first(1) cD root det] unfolding dropped_taken[OF Cons] by blast
      have sub: "child_rel ?f2 \<subseteq> child_rel ?T" unfolding few(1) by (auto simp: child_rel_def split: if_splits)
      have "card (child_rel ?f2) < card (child_rel f)"
        using card_mono[OF finite_subset[OF psubset_imp_subset[OF few(2)] child_rel_finite[OF f]] sub] few(3) by simp
      moreover have "apart D t ?f2" using apart_fewer[OF less.prems(3)] sub few(2) by blast
      ultimately obtain h3 where h3: "tree_work E (DetachFrom (hd0 (kids ?f2 t))) h2 = Some h3"
        "rep D h3 (without ?f2 (insert t (owned ?f2 (lone_kids ?f2 t))))" "torn E h2 h3 (owned ?f2 (lone_kids ?f2 t))"
        using less.hyps[OF _ h2(2) less.prems(2)] by blast
      have "torn E h h2 ({} \<union> owned ?g {c})" by (rule torn_trans[OF torn_same[OF first(2)] h2(3)]) simp
      then have "torn E h h3 (owned ?g {c} \<union> owned ?f2 (lone_kids ?f2 t))" using torn_trans[OF _ h3(3) own(3)] by simp
      moreover have "without ?f2 (insert t (owned ?f2 (lone_kids ?f2 t))) = without f (insert t (owned f (lone_kids f t)))"
        unfolding without_without own(2) without_with_kids[of f t cs, symmetric] by (rule arg_cong) blast
      moreover have "hd0 (kids ?f2 t) = hd0 cs" using own(1) by simp
      ultimately show ?thesis using work h2(1) h3(1,2) unfolding own(2) by simp
    qed
  qed
qed

end
