(* ===== verification/CF_Tree_Spec.thy ===== *)
theory CF_Tree_Spec
  imports CF_Tree_Release
begin

text \<open>
  Every operation of \<^verbatim>\<open>CFTree.c\<close> on an abstract forest, sequences of operations, and the properties that follow.
\<close>

section \<open>Releasing and removing\<close>

definition freed :: "forest \<Rightarrow> ptr \<Rightarrow> ptr set" where
  "freed f t = (if live (dropped f t) t then {} else owned (dropped f t) {t})"

definition release_spec :: "forest \<Rightarrow> ptr \<Rightarrow> forest" where
  "release_spec f t = without (dropped f t) (freed f t)"

lemma without_empty [simp]: "without f {} = f"
  by (rule forest.equality) (simp_all add: fun_eq_iff)

lemma release_rep:
  assumes "rep {} h f" "0 < refs f t"
  shows "\<exists>h'. CFRelease E t h = Some h' \<and> rep {} h' (release_spec f t) \<and> torn E h h' (freed f t)"
proof (cases "live (dropped f t) t")
  case True
  then have "1 < refs f t \<or> is_kid f t" by (auto simp: live_def is_kid_def)
  then obtain h' where "tree_work E (ReleaseTree t) h = Some h'" "rep {} h' (dropped f t)" "same_data h h'"
    using release_keeps[OF assms, of E] by blast
  then show ?thesis using True torn_same by (auto simp: CFRelease_def release_spec_def freed_def)
next
  case False
  then have k: "refs f t = 1" "\<not> is_kid f t" using assms(2) by (auto simp: live_def is_kid_def)
  have "apart {t} t f" using not_below_self[OF repD(1)[OF assms(1)]] by (simp add: apart_def)
  note det = detach_all[where D = "insert t {}" and t = t and f = f and E = E, OF _ insertI1 this]
  show ?thesis using tree_release_last[OF assms(1) _ k det] False by (simp add: CFRelease_def release_spec_def freed_def)
qed

definition remove_all_spec :: "forest \<Rightarrow> ptr \<Rightarrow> forest" where
  "remove_all_spec f t = without f (insert t (owned f (lone_kids f t)))"

lemma takedown_end:
  assumes "rep (insert t D) h f" "kids f t = []"
  shows "rep D h f"
proof -
  have "node_ok D f x n" if "th_tree h x = Some n" for x n
    using repD(3)[OF assms(1) that] assms(2) by (cases "x = t") (auto simp: node_ok_def)
  then show ?thesis using repD[OF assms(1)] unfolding rep_def by blast
qed

lemma remove_all_rep:
  assumes "rep {} h f" "live f t"
  shows "\<exists>h'. CFTreeRemoveAllChildren E t h = Some h' \<and> rep {} h' (remove_all_spec f t) \<and>
    torn E h h' (owned f (lone_kids f t))"
proof -
  obtain n where n: "th_tree h t = Some n" "node_ok {} f t n" by (rule rep_node[OF assms])
  let ?h1 = "h\<lparr>th_tree := (th_tree h)(t \<mapsto> n\<lparr>tree_child := NULL, tree_rightmostChild := NULL\<rparr>)\<rparr>"
  note start = takedown_start[OF assms(1) n(1)]
  have "apart {t} t f" using not_below_self[OF repD(1)[OF assms(1)]] by (simp add: apart_def)
  then obtain h' where h': "tree_work E (DetachFrom (hd0 (kids f t))) ?h1 = Some h'"
    "rep {t} h' (remove_all_spec f t)" "torn E ?h1 h' (owned f (lone_kids f t))"
    using detach_all[OF start(1) insertI1, of E] unfolding remove_all_spec_def by blast
  have "rep {} h' (remove_all_spec f t)" by (rule takedown_end[OF h'(2)]) (simp add: remove_all_spec_def)
  moreover have "torn E h h' ({} \<union> owned f (lone_kids f t))" by (rule torn_trans[OF torn_same[OF start(2)] h'(3)]) simp
  ultimately show ?thesis using n h'(1) node_okD(1)[OF n(2)] by (simp add: CFTreeRemoveAllChildren_def)
qed

lemma unlink_walk:
  assumes "rep D h f" "kids f p = ys @ xs @ c # suf" "xs \<noteq> []"
  shows "unlink_after c (hd0 xs) h = unlink_after c (last0 xs) h"
  using assms(2,3)
proof (induction xs arbitrary: ys)
  case (Cons x xs)
  show ?case
  proof (cases "xs = []")
    case False
    have f: "forest_ok f" by (rule repD(1)[OF assms(1)])
    have x: "x \<in> set (kids f p)" by (simp add: Cons.prems(1))
    obtain n where n: "th_tree h x = Some n" by (rule rep_node[OF assms(1) kid_live[OF x]])
    have d: "distinct (ys @ x # xs @ c # suf)" using forest_okD(1)[OF f, of p] Cons.prems(1) by simp
    have "tree_sibling n = hd0 (xs @ c # suf)"
      using rep_sibling(1)[OF assms(1) n x] next_of_mid[OF d] by (simp add: Cons.prems(1))
    then have "tree_sibling n = hd0 xs" using False by (simp add: hd0_append)
    moreover have "hd0 xs \<noteq> c" using d False by (cases xs) auto
    moreover have "x \<noteq> NULL" by (rule kid_facts(1)[OF f x])
    ultimately have "unlink_after c x h = unlink_after c (hd0 xs) h" using n by (subst unlink_after.simps) simp
    also have "\<dots> = unlink_after c (last0 xs) h" using Cons.IH[of "ys @ [x]"] Cons.prems(1) False by simp
    finally show ?thesis using False by (simp add: last0_Cons)
  qed simp
qed simp

text \<open>The links after a node has been taken out of the list of its parent's children.\<close>

lemma unlink_rep:
  assumes "rep D h f" "p \<notin> D" "kids f p = pre @ c # suf" "same_data h h'"
    and "\<And>x n. th_tree h x = Some n \<Longrightarrow> th_tree h' x = Some (
      if x = c then n\<lparr>tree_parent := NULL, tree_sibling := NULL\<rparr>
      else if x = p then n\<lparr>tree_child := hd0 (pre @ suf), tree_rightmostChild := last0 (pre @ suf)\<rparr>
      else if pre \<noteq> [] \<and> x = last0 pre then n\<lparr>tree_sibling := hd0 suf\<rparr> else n)"
  shows "rep D h' (taken f p c)"
proof (rule taken_rep[OF assms(1) _ assms(4)])
  have f: "forest_ok f" by (rule repD(1)[OF assms(1)])
  show c: "c \<in> set (kids f p)" by (simp add: assms(3))
  have d: "distinct (pre @ c # suf)" using forest_okD(1)[OF f, of p] assms(3) by simp
  have pk: "p \<notin> set (kids f p)" using kid_facts(5)[OF f] by blast
  have r: "remove1 c (kids f p) = pre @ suf" using d by (simp add: assms(3) remove1_append)
  fix x n
  assume x: "th_tree h x = Some n"
  have s: "tree_sibling n = next_of (pre @ c # suf) x" if "x \<in> set (kids f p)" using rep_sibling[OF assms(1) x that] assms(3) by simp
  have l: "last0 pre \<in> set pre" if "pre \<noteq> []" by (rule last0_in[OF that])
  have nx: "next_of (pre @ ys) x = (if x \<in> set pre then (if x = last0 pre then hd0 ys else next_of pre x) else next_of ys x)" for ys
    using d by (intro next_of_append) simp
  show "\<exists>n'. th_tree h' x = Some n' \<and> tree_parent n' = (if x = c then NULL else tree_parent n) \<and>
      tree_sibling n' = (if x = c then NULL else if x \<in> set (kids f p) then next_of (remove1 c (kids f p)) x else tree_sibling n) \<and>
      tree_child n' = (if x = p \<and> p \<notin> D then hd0 (remove1 c (kids f p)) else tree_child n) \<and>
      tree_rightmostChild n' = (if x = p \<and> p \<notin> D then last0 (remove1 c (kids f p)) else tree_rightmostChild n) \<and>
      tree_rc n' = tree_rc n"
    unfolding assms(5)[OF x] r using s l pk assms(2,3) c unfolding nx
    by (cases "x = c"; cases "x = p"; cases "x \<in> set pre"; cases "x \<in> set suf") auto
qed

lemma remove_rep:
  assumes "rep {} h f" "c \<in> set (kids f p)"
  shows "\<exists>h'. CFTreeRemove E c h = Some h' \<and> rep {} h' (release_spec (taken f p c) c) \<and> torn E h h' (freed (taken f p c) c)"
proof -
  have f: "forest_ok f" by (rule repD(1)[OF assms(1)])
  note k = kid_facts[OF f assms(2)]
  obtain nc where nc: "th_tree h c = Some nc" by (rule rep_node[OF assms(1) k(3)])
  obtain np where np: "th_tree h p = Some np" "node_ok {} f p np" by (rule rep_node[OF assms(1) k(4)])
  obtain pre suf where ks: "kids f p = pre @ c # suf" using assms(2) by (auto simp: in_set_conv_decomp)
  have d: "distinct (pre @ c # suf)" using forest_okD(1)[OF f, of p] ks by simp
  have pk: "p \<notin> set (kids f p)" using kid_facts(5)[OF f] by blast
  have par: "tree_parent nc = p" and sib: "tree_sibling nc = hd0 suf"
    using rep_sibling[OF assms(1) nc assms(2)] next_of_mid[OF d] by (simp_all add: ks)
  have pc: "tree_child np = hd0 (pre @ [c])" "tree_rightmostChild np = last0 (c # suf)"
    using node_okD(1,2)[OF np(2)] by (simp_all add: ks hd0_append last0_append)
  have sufN: "hd0 suf = NULL \<longleftrightarrow> suf = []" using not_kid_NULL[OF f, of p] by (intro hd0_NULL) (simp add: ks)
  let ?nc = "nc\<lparr>tree_parent := NULL, tree_sibling := NULL\<rparr>"
  let ?np = "np\<lparr>tree_child := hd0 (pre @ suf), tree_rightmostChild := last0 (pre @ suf)\<rparr>"
  obtain h2 where go: "CFTreeRemove E c h = CFRelease E c h2" and same: "same_data h h2"
    and node: "\<And>x n. th_tree h x = Some n \<Longrightarrow> th_tree h2 x = Some (
      if x = c then n\<lparr>tree_parent := NULL, tree_sibling := NULL\<rparr>
      else if x = p then n\<lparr>tree_child := hd0 (pre @ suf), tree_rightmostChild := last0 (pre @ suf)\<rparr>
      else if pre \<noteq> [] \<and> x = last0 pre then n\<lparr>tree_sibling := hd0 suf\<rparr> else n)"
  proof (cases "pre = []")
    case True
    let ?h2 = "h\<lparr>th_tree := (th_tree h)(p \<mapsto> ?np, c \<mapsto> ?nc)\<rparr>"
    have "?np = (if suf = [] then np\<lparr>tree_child := hd0 suf, tree_rightmostChild := NULL\<rparr> else np\<lparr>tree_child := hd0 suf\<rparr>)"
      using pc(2) by (simp add: True last0_Cons)
    then have "CFTreeRemove E c h = CFRelease E c ?h2"
      using nc np(1) par sib pc(1) k sufN True by (simp add: CFTreeRemove_def)
    moreover have "same_data h ?h2" using nc np(1) k(5) by (auto simp: same_data_def data_at_def fun_eq_iff)
    ultimately show thesis using nc np(1) k(5) True by (intro that) auto
  next
    case False
    let ?q = "last0 pre"
    have q: "?q \<in> set (kids f p)" "?q \<noteq> p" "?q \<noteq> c" using last0_in[OF False] pk d by (auto simp: ks)
    obtain nq where nq: "th_tree h ?q = Some nq" by (rule rep_node[OF assms(1) kid_live[OF q(1)]])
    have sq: "tree_sibling nq = c"
      using rep_sibling(1)[OF assms(1) nq q(1)] d last0_in[OF False] by (simp add: ks next_of_append)
    let ?h2 = "h\<lparr>th_tree := (th_tree h)(?q \<mapsto> nq\<lparr>tree_sibling := hd0 suf\<rparr>, p \<mapsto> ?np, c \<mapsto> ?nc)\<rparr>"
    have np': "?np = (if suf = [] then np\<lparr>tree_rightmostChild := ?q\<rparr> else np)"
      using pc False by (simp add: hd0_append last0_append last0_Cons)
    have "tree_rightmostChild np = c \<longleftrightarrow> suf = []" using pc(2) d last0_in[of suf] by (auto simp: last0_Cons)
    then have u: "unlink_after c ?q h = Some (h\<lparr>th_tree := (th_tree h)(?q \<mapsto> nq\<lparr>tree_sibling := hd0 suf\<rparr>, p \<mapsto> ?np)\<rparr>)"
      unfolding np' using nq sq nc par sib np(1) q kid_facts(1)[OF f q(1)]
      by (subst unlink_after.simps) (simp add: fun_upd_idem)
    have "tree_child np \<noteq> c" "tree_child np = hd0 pre" using pc(1) False d by (cases pre; auto)+
    then have "CFTreeRemove E c h = CFRelease E c ?h2"
      using nc np(1) par k q u unlink_walk[OF assms(1), of p "[]" pre c suf] ks False by (simp add: CFTreeRemove_def)
    moreover have "same_data h ?h2" using nc np(1) nq k(5) q by (auto simp: same_data_def data_at_def fun_eq_iff)
    ultimately show thesis using nc np(1) nq k(5) q False by (intro that) auto
  qed
  have "rep {} h2 (taken f p c)" by (rule unlink_rep[OF assms(1) _ ks same node]) simp
  from release_rep[OF this, of c E] obtain h' where h': "CFRelease E c h2 = Some h'" "rep {} h' (release_spec (taken f p c) c)"
    "torn E h2 h' (freed (taken f p c) c)" by auto
  have "torn E h h' ({} \<union> freed (taken f p c) c)" by (rule torn_trans[OF torn_same[OF same] h'(3)]) simp
  then show ?thesis using go h' by simp
qed

section \<open>Walking along the children\<close>

lemma suffix_node:
  assumes "rep D h f" "kids f p = ys @ x # xs"
  obtains n where "th_tree h x = Some n" "tree_sibling n = hd0 xs" "x \<noteq> NULL"
proof -
  have x: "x \<in> set (kids f p)" by (simp add: assms(2))
  obtain n where n: "th_tree h x = Some n" by (rule rep_node[OF assms(1) kid_live[OF x]])
  have "tree_sibling n = hd0 xs"
    using rep_sibling(1)[OF assms(1) n x] next_of_mid[of ys x xs] forest_okD(1)[OF repD(1)[OF assms(1)], of p] assms(2) by simp
  then show thesis using that n kid_facts(1)[OF repD(1)[OF assms(1)] x] by blast
qed

lemma count_walk:
  assumes "rep D h f"
  shows "kids f p = ys @ xs \<Longrightarrow> unat cnt + length xs < 2 ^ 31 \<Longrightarrow> count_children h (hd0 xs) cnt = Some (unat cnt + length xs)"
proof (induction xs arbitrary: ys cnt)
  case Nil
  then show ?case by (simp add: count_children.simps)
next
  case (Cons x xs)
  obtain n where n: "th_tree h x = Some n" "tree_sibling n = hd0 xs" "x \<noteq> NULL" by (rule suffix_node[OF assms Cons.prems(1)])
  have u: "unat (cnt + 1) = unat cnt + 1" using Cons.prems(2) by (simp add: unat_word_ariths)
  have "cnt \<noteq> 0x7FFFFFFF" using Cons.prems(2) by auto
  then have "count_children h x cnt = count_children h (hd0 xs) (cnt + 1)" using n by (subst count_children.simps) simp
  then show ?case using Cons.IH[of "ys @ [x]" "cnt + 1"] Cons.prems u by simp
qed

lemma store_walk:
  assumes "rep D h f"
  shows "kids f p = ys @ xs \<Longrightarrow> idx + length xs \<le> length buf \<Longrightarrow>
    store_children h (hd0 xs) idx buf = Some (take idx buf @ map Some xs @ drop (idx + length xs) buf)"
proof (induction xs arbitrary: ys idx buf)
  case Nil
  then show ?case by (simp add: store_children.simps)
next
  case (Cons x xs)
  obtain n where n: "th_tree h x = Some n" "tree_sibling n = hd0 xs" "x \<noteq> NULL" by (rule suffix_node[OF assms Cons.prems(1)])
  have i: "idx < length buf" using Cons.prems(2) by simp
  then have "store_children h x idx buf = store_children h (hd0 xs) (idx + 1) (buf[idx := Some x])"
    using n by (subst store_children.simps) (simp add: wr_in)
  also have "\<dots> = Some (take (idx + 1) (buf[idx := Some x]) @ map Some xs @ drop (idx + 1 + length xs) (buf[idx := Some x]))"
    using Cons.IH[of "ys @ [x]" "idx + 1" "buf[idx := Some x]"] Cons.prems by simp
  also have "take (idx + 1) (buf[idx := Some x]) = take idx buf @ [Some x]" using i by (simp add: take_Suc_conv_app_nth)
  finally show ?case by simp
qed

lemma child_at_walk:
  assumes "rep D h f"
  shows "kids f p = ys @ xs \<Longrightarrow> child_at h (hd0 xs) i = Some (if 0 \<le> i \<and> nat i < length xs then xs ! nat i else NULL)"
proof (induction xs arbitrary: ys i)
  case Nil
  then show ?case by (simp add: child_at.simps)
next
  case (Cons x xs)
  obtain n where n: "th_tree h x = Some n" "tree_sibling n = hd0 xs" "x \<noteq> NULL" by (rule suffix_node[OF assms Cons.prems(1)])
  show ?case
  proof (cases "i = 0")
    case True
    then show ?thesis using n by (subst child_at.simps) simp
  next
    case False
    then have "child_at h x i = child_at h (hd0 xs) (i - 1)" using n by (subst child_at.simps) simp
    then show ?thesis using Cons.IH[of "ys @ [x]" "i - 1"] Cons.prems False by (auto simp: nth_Cons' nat_diff_distrib)
  qed
qed

lemma child_count:
  assumes "rep D h f" "live f t" "t \<notin> D" "length (kids f t) < 2 ^ 31"
  shows "CFTreeGetChildCount t h = Some (length (kids f t))"
proof -
  obtain n where n: "th_tree h t = Some n" "node_ok D f t n" by (rule rep_node[OF assms(1,2)])
  show ?thesis using count_walk[OF assms(1), of t "[]" "kids f t" 0] n(1) node_okD(1)[OF n(2)] assms(3,4)
    by (simp add: CFTreeGetChildCount_def)
qed

lemma find_root:
  assumes "rep D h f" "live f t"
  shows "\<exists>r. CFTreeFindRoot h t = Some r \<and> (r, t) \<in> (child_rel f)\<^sup>* \<and> live f r \<and> \<not> is_kid f r"
  using child_rel_wf(1)[OF repD(1)[OF assms(1)]] assms(2)
proof (induction t rule: wf_induct_rule)
  case (less t)
  obtain n where n: "th_tree h t = Some n" "node_ok D f t n" by (rule rep_node[OF assms(1) less.prems])
  show ?case
  proof (cases "tree_parent n = NULL")
    case True
    then have "\<not> is_kid f t" using node_okD(3)[OF n(2)] by (simp add: is_kid_def)
    then show ?thesis using True n(1) less.prems by (subst CFTreeFindRoot.simps) simp
  next
    case False
    then have k: "t \<in> set (kids f (tree_parent n))" using node_okD(3)[OF n(2)] by simp
    obtain r where r: "CFTreeFindRoot h (tree_parent n) = Some r" "(r, tree_parent n) \<in> (child_rel f)\<^sup>*" "live f r" "\<not> is_kid f r"
      using less.IH[OF child_relI[OF k] kid_facts(4)[OF repD(1)[OF assms(1)] k]] by blast
    then have "CFTreeFindRoot h t = Some r" using n(1) False by (subst CFTreeFindRoot.simps) simp
    then show ?thesis using r(2-4) child_relI[OF k] by (blast intro: rtrancl_into_rtrancl)
  qed
qed

section \<open>Sorting the children\<close>

lemma reorder_forest:
  assumes "forest_ok f" "mset ys = mset (kids f t)"
  shows "forest_ok (with_kids f t ys)" "is_kid (with_kids f t ys) = is_kid f" "live (with_kids f t ys) = live f"
    "x \<in> set (kids (with_kids f t ys) p) \<longleftrightarrow> x \<in> set (kids f p)"
proof -
  have k: "x \<in> set (kids (with_kids f t ys) p) \<longleftrightarrow> x \<in> set (kids f p)" for x p using mset_eq_setD[OF assms(2)] by auto
  then show "x \<in> set (kids (with_kids f t ys) p) \<longleftrightarrow> x \<in> set (kids f p)" .
  show i: "is_kid (with_kids f t ys) = is_kid f" unfolding is_kid_def k ..
  show l: "live (with_kids f t ys) = live f" by (simp add: live_def i fun_eq_iff)
  have "distinct ys" using forest_okD(1)[OF assms(1), of t] mset_eq_imp_distinct_iff[OF assms(2)] by simp
  moreover have "ys = [] \<longleftrightarrow> kids f t = []" using assms(2) by (metis mset_zero_iff)
  moreover have "child_rel (with_kids f t ys) = child_rel f" unfolding child_rel_def k ..
  ultimately show "forest_ok (with_kids f t ys)"
    using assms(1) unfolding forest_ok_def l k by simp
qed

lemma reorder_rep:
  assumes "rep D h f" "t \<notin> D" "mset ys = mset (kids f t)" "same_data h h'"
    and "\<And>x n. th_tree h x = Some n \<Longrightarrow> \<exists>n'. th_tree h' x = Some n' \<and> tree_parent n' = tree_parent n \<and> tree_rc n' = tree_rc n \<and>
      tree_sibling n' = (if x \<in> set (kids f t) then next_of ys x else tree_sibling n) \<and>
      tree_child n' = (if x = t then hd0 ys else tree_child n) \<and>
      tree_rightmostChild n' = (if x = t then last0 ys else tree_rightmostChild n)"
  shows "rep D h' (with_kids f t ys)"
proof -
  note f = repD(1)[OF assms(1)]
  note r = reorder_forest[OF f assms(3)]
  have dom: "th_tree h' x = None \<longleftrightarrow> th_tree h x = None" for x
    using assms(4) by (auto simp: same_data_def data_at_def fun_eq_iff dest: spec[of _ x])
  have "node_ok D (with_kids f t ys) x n'" if n': "th_tree h' x = Some n'" for x n'
  proof -
    obtain n where n: "th_tree h x = Some n" using dom[of x] n' by (cases "th_tree h x") simp_all
    note ok = node_okD[OF repD(3)[OF assms(1) n]]
    have e: "tree_parent n' = tree_parent n" "tree_rc n' = tree_rc n"
      "tree_sibling n' = (if x \<in> set (kids f t) then next_of ys x else tree_sibling n)"
      "tree_child n' = (if x = t then hd0 ys else tree_child n)"
      "tree_rightmostChild n' = (if x = t then last0 ys else tree_rightmostChild n)" using assms(5)[OF n] n' by simp_all
    have "tree_sibling n' = next_of (kids (with_kids f t ys) (tree_parent n')) x"
    proof (cases "x \<in> set (kids f t)")
      case True
      then show ?thesis using ok(3)[of t] e(1,3) by simp
    next
      case False
      then have "tree_parent n = t \<Longrightarrow> next_of (kids f t) x = next_of ys x"
        using mset_eq_setD[OF assms(3)] by (simp add: next_of_notin)
      then show ?thesis using False ok(4) e(1,3) by auto
    qed
    then show ?thesis using ok(1-3,5) e(1,2,4,5) assms(2) unfolding node_ok_def r(2,4) by simp
  qed
  moreover have "th_tree h' x \<noteq> None \<longleftrightarrow> live (with_kids f t ys) x" for x using dom repD(2)[OF assms(1)] by (simp add: r(3))
  ultimately show ?thesis using r(1) repD(4)[OF assms(1)] same_data_cbs[OF assms(4)] unfolding rep_def by blast
qed

lemma relink_nodes:
  "distinct xs \<Longrightarrow> \<forall>x \<in> set xs. th_tree h x \<noteq> None \<Longrightarrow> relink xs h = Some (h\<lparr>th_tree := \<lambda>x.
     if x \<in> set xs then map_option (\<lambda>n. n\<lparr>tree_sibling := next_of xs x\<rparr>) (th_tree h x) else th_tree h x\<rparr>)"
proof (induction xs h rule: relink.induct)
  case (2 x h)
  then obtain n where "th_tree h x = Some n" by auto
  then show ?case by (auto simp: fun_eq_iff intro!: arg_cong[where f = "\<lambda>g. h\<lparr>th_tree := g\<rparr>"])
next
  case (3 x y xs h)
  then obtain n where n: "th_tree h x = Some n" by auto
  let ?h1 = "h\<lparr>th_tree := (th_tree h)(x \<mapsto> n\<lparr>tree_sibling := y\<rparr>)\<rparr>"
  have "relink (y # xs) ?h1 = Some (?h1\<lparr>th_tree := \<lambda>z. if z \<in> set (y # xs)
      then map_option (\<lambda>n. n\<lparr>tree_sibling := next_of (y # xs) z\<rparr>) (th_tree ?h1 z) else th_tree ?h1 z\<rparr>)"
    using 3 n by (intro "3.IH") auto
  moreover have "x \<notin> set (y # xs)" using "3.prems"(1) by simp
  ultimately show ?case using n by (auto simp: fun_eq_iff intro!: arg_cong[where f = "\<lambda>g. h\<lparr>th_tree := g\<rparr>"])
qed simp

lemma hd0_nth: "xs \<noteq> [] \<Longrightarrow> hd0 xs = xs ! 0"
  by (cases xs) simp_all

lemma those_map_Some: "those (map Some xs) = Some xs"
  by (induction xs) simp_all

lemma sort_rep:
  assumes "rep D h f" "live f t" "t \<notin> D" "length (kids f t) < 2 ^ 31" "\<And>k. te_list E k" "cf_comparator (gt_of cmp)"
  shows "\<exists>h' ys. CFTreeSortChildren E t cmp h = Some h' \<and> stable_sorted (gt_of cmp) (kids f t) ys \<and>
    rep D h' (with_kids f t ys) \<and> same_data h h'"
proof -
  let ?ks = "kids f t"
  obtain n where n: "th_tree h t = Some n" "node_ok D f t n" by (rule rep_node[OF assms(1,2)])
  have ch: "tree_child n = hd0 ?ks" using node_okD(1)[OF n(2)] assms(3) by simp
  note count = child_count[OF assms(1-4)]
  show ?thesis
  proof (cases "length ?ks \<le> 1")
    case True
    then have "stable_sorted (gt_of cmp) ?ks ?ks" by (cases ?ks) (auto simp: stable_sorted_def)
    moreover have "rep D h (with_kids f t ?ks)" using assms(1) by (simp add: with_kids_def)
    moreover have "CFTreeSortChildren E t cmp h = Some h" using True count by (simp add: CFTreeSortChildren_def)
    ultimately show ?thesis using same_data_refl by blast
  next
    case False
    have "length ?ks \<le> MAX_INDEXES" using assms(4) by simp
    then obtain ys where ys: "CFQSortArray cmp ?ks = Some ys" "stable_sorted (gt_of cmp) ?ks ys"
      using qsort_correct[OF assms(6)] by blast
    have m: "mset ys = mset ?ks" using ys(2) by (simp add: stable_sorted_def rearr_def)
    have y: "distinct ys" "set ys = set ?ks" "length ys = length ?ks"
      using forest_okD(1)[OF repD(1)[OF assms(1)], of t] mset_eq_imp_distinct_iff[OF m] mset_eq_setD[OF m] mset_eq_length[OF m] by simp_all
    have tk: "t \<notin> set ys" using kid_facts(5)[OF repD(1)[OF assms(1)]] y(2) by blast
    have store: "store_children h (tree_child n) 0 (mem_alloc (length ?ks)) = Some (map Some ?ks)"
      using store_walk[OF assms(1), of t "[]" ?ks 0 "mem_alloc (length ?ks)"] ch by simp
    let ?h1 = "h\<lparr>th_tree := (th_tree h)(t \<mapsto> n\<lparr>tree_child := hd0 ys\<rparr>)\<rparr>"
    let ?g = "\<lambda>x. if x \<in> set ys then map_option (\<lambda>n. n\<lparr>tree_sibling := next_of ys x\<rparr>) (th_tree ?h1 x) else th_tree ?h1 x"
    let ?h' = "h\<lparr>th_tree := ?g(t \<mapsto> n\<lparr>tree_child := hd0 ys, tree_rightmostChild := last0 ys\<rparr>)\<rparr>"
    have all: "th_tree h x \<noteq> None" if "x \<in> set ys" for x using that y(2) repD(2)[OF assms(1), of x] kid_live[of x f t] by simp
    have relink: "relink ys ?h1 = Some (?h1\<lparr>th_tree := ?g\<rparr>)" by (rule relink_nodes[OF y(1)]) (use all in auto)
    have "ys \<noteq> []" using False y(3) by auto
    then have ends: "aget ys 0 = Some (hd0 ys)" "aget ys (length ?ks - 1) = Some (last0 ys)"
      unfolding y(3)[symmetric] by (simp_all add: aget_def last0_def last_conv_nth hd0_nth)
    have go: "CFTreeSortChildren E t cmp h = Some ?h'"
      using False count n(1) store ys(1) ends relink tk assms(5) by (simp add: CFTreeSortChildren_def those_map_Some)
    have same: "same_data h ?h'" using n(1) tk by (auto simp: same_data_def data_at_def fun_eq_iff option.map_comp comp_def)
    have "rep D ?h' (with_kids f t ys)"
    proof (rule reorder_rep[OF assms(1,3) m same])
      show "\<exists>n'. th_tree ?h' x = Some n' \<and> tree_parent n' = tree_parent k \<and> tree_rc n' = tree_rc k \<and>
        tree_sibling n' = (if x \<in> set (kids f t) then next_of ys x else tree_sibling k) \<and>
        tree_child n' = (if x = t then hd0 ys else tree_child k) \<and>
        tree_rightmostChild n' = (if x = t then last0 ys else tree_rightmostChild k)" if "th_tree h x = Some k" for x k
        using that n(1) tk unfolding y(2)[symmetric] by auto
    qed
    then show ?thesis using go ys(2) same by blast
  qed
qed

section \<open>Contexts\<close>

definition context_callbacks :: "CFTreeContext \<Rightarrow> CFTreeCallBacks" where
  "context_callbacks c = \<lparr>cb_retain = ctx_retain c, cb_release = ctx_release c, cb_copyDescription = ctx_copyDescription c\<rparr>"

text \<open>The data a node gets from a context, and the call that retains it.\<close>

definition context_info :: "tree_env \<Rightarrow> CFTreeContext \<Rightarrow> ptr" where
  "context_info E c = (if ctx_retain c \<noteq> NULL then te_result E (ctx_retain c) (ctx_info c) else ctx_info c)"

definition retain_call :: "CFTreeContext \<Rightarrow> tree_call list" where
  "retain_call c = (if ctx_retain c \<noteq> NULL then [CallRetain (ctx_retain c) (ctx_info c)] else [])"

text \<open>As long as not half of all addresses are taken, memory for callbacks is found, and it is not in use.\<close>

definition callbacks_fresh :: "tree_env \<Rightarrow> bool" where
  "callbacks_fresh E \<longleftrightarrow> (\<forall>h. card (dom (th_cbs h)) < 2 ^ 63 \<longrightarrow>
     te_newCallBacks E h \<noteq> NULL \<and> th_cbs h (te_newCallBacks E h) = None)"

definition room :: "forest \<Rightarrow> bool" where
  "room f \<longleftrightarrow> card {t. live f t} + 1 < 2 ^ 63"

lemma callbacks_few:
  assumes "rep D h f"
  shows "card (dom (th_cbs h)) \<le> card {t. live f t}"
proof -
  have "dom (th_cbs h) \<subseteq> (\<lambda>t. tree_callbacks (the (th_tree h t))) ` {t. live f t}"
  proof
    fix q
    assume "q \<in> dom (th_cbs h)"
    then obtain t where "custom_at h t q" using repD(4)[OF assms] unfolding cbs_ok_def by blast
    then have "live f t" "q = tree_callbacks (the (th_tree h t))" using repD(2)[OF assms, of t] by (auto simp: custom_at_def)
    then show "q \<in> (\<lambda>t. tree_callbacks (the (th_tree h t))) ` {t. live f t}" by blast
  qed
  then show ?thesis using forest_okD(5)[OF repD(1)[OF assms]] by (meson card_image_le card_mono finite_imageI le_trans)
qed

lemma set_callbacks_effect:
  assumes "callbacks_fresh E" "th_tree h t = Some n" "card (dom (th_cbs h)) < 2 ^ 63"
  shows "\<exists>h1 ty p. set_callbacks E t (Some c) h = Some h1 \<and> th_calls h1 = th_calls h \<and>
    th_tree h1 = (th_tree h)(t \<mapsto> n\<lparr>tree_callbacks := p, tree_cbtype := ty\<rparr>) \<and>
    th_cbs h1 = (if ty = HasCustomCallBacks then (th_cbs h)(p \<mapsto> context_callbacks c) else th_cbs h) \<and>
    (ty = HasCustomCallBacks \<longrightarrow> th_cbs h p = None) \<and>
    CFTreeGetCallBacks E h1 ty p = Some (context_callbacks c)"
proof -
  have fresh: "te_newCallBacks E h \<noteq> NULL" "th_cbs h (te_newCallBacks E h) = None"
    using assms(1,3) by (simp_all add: callbacks_fresh_def)
  consider "CFTreeCallBacksMatchNull (Some c)" | "\<not> CFTreeCallBacksMatchNull (Some c)" "CFTreeCallBacksMatchCFType E (Some c)"
    | "\<not> CFTreeCallBacksMatchNull (Some c)" "\<not> CFTreeCallBacksMatchCFType E (Some c)" by blast
  then show ?thesis
  proof cases
    case 1
    then show ?thesis using assms(2)
      by (intro exI[of _ "h\<lparr>th_tree := (th_tree h)(t \<mapsto> n\<lparr>tree_cbtype := HasNullCallBacks\<rparr>)\<rparr>"] exI[of _ HasNullCallBacks]
          exI[of _ "tree_callbacks n"])
        (simp add: set_callbacks_def CFTreeGetCallBacks_def kCFNullTreeCallBacks_def context_callbacks_def CFTreeCallBacksMatchNull_def)
  next
    case 2
    then show ?thesis using assms(2)
      by (intro exI[of _ "h\<lparr>th_tree := (th_tree h)(t \<mapsto> n\<lparr>tree_cbtype := HasCFTypeCallBacks\<rparr>)\<rparr>"] exI[of _ HasCFTypeCallBacks]
          exI[of _ "tree_callbacks n"])
        (simp add: set_callbacks_def CFTreeGetCallBacks_def kCFTypeTreeCallBacks_def context_callbacks_def CFTreeCallBacksMatchCFType_def)
  next
    case 3
    let ?p = "te_newCallBacks E h"
    let ?h1 = "h\<lparr>th_cbs := (th_cbs h)(?p \<mapsto> context_callbacks c),
      th_tree := (th_tree h)(t \<mapsto> n\<lparr>tree_callbacks := ?p, tree_cbtype := HasCustomCallBacks\<rparr>)\<rparr>"
    show ?thesis using 3 assms(2) fresh
      by (intro exI[of _ ?h1] exI[of _ HasCustomCallBacks] exI[of _ ?p])
        (simp add: set_callbacks_def CFTreeGetCallBacks_def context_callbacks_def Let_def)
  qed
qed

text \<open>A node changes its callbacks: the old memory for them goes, and new memory is its own.\<close>

lemma swap_callbacks:
  assumes "cbs_ok h" "th_tree h t = Some n" "ty = HasCustomCallBacks \<longrightarrow> th_cbs h p = None"
    and "th_tree h' = (th_tree h)(t \<mapsto> n')" "tree_cbtype n' = ty" "tree_callbacks n' = p"
    and "th_cbs h' = (\<lambda>q. if tree_cbtype n = HasCustomCallBacks \<and> q = tree_callbacks n then None
      else if ty = HasCustomCallBacks \<and> q = p then Some cb else th_cbs h q)"
  shows "cbs_ok h'" "x \<noteq> t \<Longrightarrow> payload E h' x = payload E h x"
proof -
  have own: "th_cbs h q \<noteq> None \<longleftrightarrow> (\<exists>x. custom_at h x q)" "custom_at h x q \<Longrightarrow> custom_at h y q \<Longrightarrow> x = y" for x y q
    using assms(1) unfolding cbs_ok_def by blast+
  have cust: "custom_at h' x q \<longleftrightarrow> (if x = t then ty = HasCustomCallBacks \<and> q = p else custom_at h x q)" for x q
    using assms(4-6) by (auto simp: custom_at_def)
  have old: "custom_at h t q \<longleftrightarrow> tree_cbtype n = HasCustomCallBacks \<and> q = tree_callbacks n" for q
    using assms(2) by (auto simp: custom_at_def)
  have new: "ty = HasCustomCallBacks \<Longrightarrow> \<not> custom_at h x p" for x using own(1)[of p] assms(3) by blast
  have cbs: "th_cbs h' q = (if custom_at h t q then None else if ty = HasCustomCallBacks \<and> q = p then Some cb else th_cbs h q)" for q
    unfolding assms(7) old by simp
  have "th_cbs h' q \<noteq> None \<longleftrightarrow> (\<exists>x. custom_at h' x q)" for q
  proof (cases "custom_at h t q")
    case True
    then have "\<not> custom_at h' x q" for x using own(2)[OF True, of x] new[of t] unfolding cust by auto
    then show ?thesis using True cbs by simp
  next
    case False
    show ?thesis
    proof (cases "ty = HasCustomCallBacks \<and> q = p")
      case True
      then have "custom_at h' t q" unfolding cust by simp
      then show ?thesis using True False cbs by auto
    next
      case no: False
      have "(\<exists>x. custom_at h' x q) \<longleftrightarrow> (\<exists>x. custom_at h x q)" unfolding cust using no False by metis
      moreover have "th_cbs h' q = th_cbs h q" unfolding cbs using no False by auto
      ultimately show ?thesis using own(1)[of q] by simp
    qed
  qed
  moreover have "x = y" if "custom_at h' x q" "custom_at h' y q" for x y q
    using that own(2)[of x q y] new[of x] new[of y] unfolding cust by (auto split: if_splits)
  ultimately show "cbs_ok h'" unfolding cbs_ok_def by blast
  assume x: "x \<noteq> t"
  have "th_cbs h' (tree_callbacks m) = th_cbs h (tree_callbacks m)" if "th_tree h x = Some m" "tree_cbtype m = HasCustomCallBacks" for m
  proof -
    have m: "custom_at h x (tree_callbacks m)" using that by (simp add: custom_at_def)
    have "\<not> custom_at h t (tree_callbacks m)" using own(2)[OF m, of t] x by blast
    moreover have "\<not> (ty = HasCustomCallBacks \<and> tree_callbacks m = p)" using new[of x] m by auto
    ultimately show ?thesis unfolding cbs by auto
  qed
  then show "payload E h' x = payload E h x"
    using x assms(4) by (cases "th_tree h x") (auto simp: payload_def data_at_def CFTreeGetCallBacks_def split: cb_type.splits)
qed

lemma set_context_rep:
  assumes "callbacks_fresh E" "rep D h f" "live f t" "card {t. live f t} < 2 ^ 63"
  shows "\<exists>h'. CFTreeSetContext E t (Some c) h = Some h' \<and> rep D h' f \<and> th_calls h' = th_calls h @ retain_call c @ release_call E h t \<and>
    payload E h' t = Some (context_info E c, Some (context_callbacks c)) \<and> (\<forall>x. x \<noteq> t \<longrightarrow> payload E h' x = payload E h x)"
proof -
  obtain n where n: "th_tree h t = Some n" "node_ok D f t n" by (rule rep_node[OF assms(2,3)])
  obtain h1 ty p where h1: "set_callbacks E t (Some c) h = Some h1" "th_calls h1 = th_calls h"
    "th_tree h1 = (th_tree h)(t \<mapsto> n\<lparr>tree_callbacks := p, tree_cbtype := ty\<rparr>)"
    "th_cbs h1 = (if ty = HasCustomCallBacks then (th_cbs h)(p \<mapsto> context_callbacks c) else th_cbs h)"
    "ty = HasCustomCallBacks \<longrightarrow> th_cbs h p = None" "CFTreeGetCallBacks E h1 ty p = Some (context_callbacks c)"
    using set_callbacks_effect[OF assms(1) n(1), of c] callbacks_few[OF assms(2)] assms(4) by auto
  note cbs = repD(4)[OF assms(2)]
  let ?n' = "n\<lparr>tree_callbacks := p, tree_cbtype := ty, tree_info := context_info E c\<rparr>"
  let ?h2 = "h1\<lparr>th_tree := (th_tree h)(t \<mapsto> ?n'), th_calls := th_calls h @ retain_call c\<rparr>"
  have h2: "(if cb_retain (context_callbacks c) \<noteq> NULL
       then set_tree (log_call (CallRetain (cb_retain (context_callbacks c)) (ctx_info c)) h1) t
         (\<lambda>n. n\<lparr>tree_info := te_result E (cb_retain (context_callbacks c)) (ctx_info c)\<rparr>)
       else set_tree h1 t (\<lambda>n. n\<lparr>tree_info := ctx_info c\<rparr>)) = Some ?h2"
    using h1(2,3) by (simp add: set_tree_def log_call_def context_callbacks_def context_info_def retain_call_def)
  have own: "th_cbs h (tree_callbacks n) \<noteq> None \<and> (ty = HasCustomCallBacks \<longrightarrow> p \<noteq> tree_callbacks n)" if "tree_cbtype n = HasCustomCallBacks"
  proof -
    have "custom_at h t (tree_callbacks n)" using n(1) that by (simp add: custom_at_def)
    then have "th_cbs h (tree_callbacks n) \<noteq> None" using cbs unfolding cbs_ok_def by blast
    then show ?thesis using h1(5) by auto
  qed
  have old: "CFTreeGetCallBacks E ?h2 (tree_cbtype n) (tree_callbacks n) = CFTreeGetCallBacks E h (tree_cbtype n) (tree_callbacks n)"
    using own h1(4) by (auto simp: CFTreeGetCallBacks_def split: cb_type.split)
  have "CFTreeGetCallBacks E h (tree_cbtype n) (tree_callbacks n) \<noteq> None"
    using own by (auto simp: CFTreeGetCallBacks_def split: cb_type.split)
  then obtain cb where cb: "CFTreeGetCallBacks E h (tree_cbtype n) (tree_callbacks n) = Some cb" by blast
  have call: "release_call E h t = (if cb_release cb \<noteq> NULL then [CallRelease (cb_release cb) (tree_info n)] else [])"
    using n(1) cb by (simp add: release_call_def payload_def data_at_def)
  let ?h' = "?h2\<lparr>th_calls := th_calls h @ retain_call c @ release_call E h t, th_cbs := \<lambda>q.
      if tree_cbtype n = HasCustomCallBacks \<and> q = tree_callbacks n then None
      else if ty = HasCustomCallBacks \<and> q = p then Some (context_callbacks c) else th_cbs h q\<rparr>"
  have free: "free_callbacks (tree_cbtype n) (tree_callbacks n)
      (if cb_release cb \<noteq> NULL then log_call (CallRelease (cb_release cb) (tree_info n)) ?h2 else ?h2) = Some ?h'"
  proof (cases "tree_cbtype n = HasCustomCallBacks")
    case True
    obtain x where "th_cbs h1 (tree_callbacks n) = Some x" using own[OF True] h1(4) by auto
    then show ?thesis using True h1(4) own[OF True]
      by (auto simp: free_callbacks_def log_call_def call intro!: tree_heap.equality)
  next
    case False
    then show ?thesis using h1(4) by (auto simp: free_callbacks_def log_call_def call intro!: tree_heap.equality)
  qed
  have go: "CFTreeSetContext E t (Some c) h = Some ?h'"
    unfolding CFTreeSetContext_def using n(1) h1(1,3,6) h2 old cb free by (simp add: Let_def)
  note swap = swap_callbacks[OF cbs n(1) h1(5), of ?h' ?n' "context_callbacks c"]
  have "rep D ?h' f"
    using repD[OF assms(2)] n swap(1) unfolding rep_def by (auto simp: node_ok_def)
  moreover have "payload E ?h' t = Some (context_info E c, Some (context_callbacks c))"
    using h1(6) own by (auto simp: payload_def data_at_def CFTreeGetCallBacks_def h1(4) split: cb_type.splits)
  ultimately show ?thesis using go swap(2) by (intro exI[of _ ?h']) simp
qed

lemma refs_upd [simp]: "is_kid (f\<lparr>refs := r\<rparr>) = is_kid f" "child_rel (f\<lparr>refs := r\<rparr>) = child_rel f"
  by (simp_all add: is_kid_def child_rel_def fun_eq_iff)

lemma create_rep:
  assumes "callbacks_fresh E" "rep D h f" "ctx_version c = 0" "te_newTree E h = m" "m \<noteq> NULL" "th_tree h m = None" "m \<notin> D" "room f"
  shows "\<exists>h'. CFTreeCreate E (Some c) h = Some (m, h') \<and> rep D h' (f\<lparr>refs := (refs f)(m := 1)\<rparr>) \<and>
    th_calls h' = th_calls h @ retain_call c \<and> payload E h' m = Some (context_info E c, Some (context_callbacks c)) \<and>
    (\<forall>x. x \<noteq> m \<longrightarrow> payload E h' x = payload E h x)"
proof -
  let ?f = "f\<lparr>refs := (refs f)(m := 1)\<rparr>"
  let ?n = "\<lparr>tree_rc = 1, tree_parent = NULL, tree_sibling = NULL, tree_child = NULL, tree_rightmostChild = NULL,
    tree_info = NULL, tree_cbtype = HasNullCallBacks, tree_callbacks = NULL\<rparr>"
  let ?h = "h\<lparr>th_tree := (th_tree h)(m \<mapsto> ?n)\<rparr>"
  note f = repD(1)[OF assms(2)]
  have dead: "\<not> live f m" using repD(2)[OF assms(2), of m] assms(6) by simp
  then have m: "\<not> is_kid f m" "kids f m = []" using forest_okD(2)[OF f, of m] by (auto simp: live_def)
  note kid = refs_upd[of "(refs f)(m := 1)" f]
  have live: "live ?f x \<longleftrightarrow> x = m \<or> live f x" for x by (auto simp: live_def)
  have kN: "kids f NULL = []" using forest_okD(2,3)[OF f] by blast
  have ins: "{x. x = m \<or> live f x} = insert m {x. live f x}" by auto
  then have "forest_ok ?f" using f assms(5) unfolding forest_ok_def live kid by auto
  moreover have "\<forall>x. th_tree ?h x \<noteq> None \<longleftrightarrow> live ?f x" using repD(2)[OF assms(2)] unfolding live by auto
  moreover have "node_ok D ?f x k" if "th_tree ?h x = Some k" for x k
  proof (cases "x = m")
    case True
    then have "k = ?n" using that by simp
    then show ?thesis using True m kN assms(7) is_kidI[of m f] by (auto simp: node_ok_def kid)
  next
    case False
    then show ?thesis using that repD(3)[OF assms(2), of x k] by (simp add: node_ok_def kid)
  qed
  moreover have cust: "custom_at ?h = custom_at h" using assms(6) by (auto simp: custom_at_def fun_eq_iff)
  have "cbs_ok ?h" using repD(4)[OF assms(2)] by (simp add: cbs_ok_def cust)
  ultimately have r: "rep D ?h ?f" unfolding rep_def by blast
  have lm: "live ?f m" unfolding live by simp
  have "card {x. live ?f x} < 2 ^ 63"
    using assms(8) dead forest_okD(5)[OF f] unfolding live ins room_def by simp
  from set_context_rep[OF assms(1) r lm this, of c]
  obtain h' where h': "CFTreeSetContext E m (Some c) ?h = Some h'" "rep D h' ?f"
    "th_calls h' = th_calls ?h @ retain_call c @ release_call E ?h m"
    "payload E h' m = Some (context_info E c, Some (context_callbacks c))" "\<forall>x. x \<noteq> m \<longrightarrow> payload E h' x = payload E ?h x"
    by blast
  have "release_call E ?h m = []"
    by (simp add: release_call_def payload_def data_at_def CFTreeGetCallBacks_def kCFNullTreeCallBacks_def)
  moreover have "payload E ?h x = payload E h x" if "x \<noteq> m" for x
    using that by (simp add: payload_def data_at_def CFTreeGetCallBacks_def cong: cb_type.case_cong)
  moreover have "CFTreeCreate E (Some c) h = Some (m, h')" using assms(3-5) h'(1) by (simp add: CFTreeCreate_def Let_def)
  ultimately show ?thesis using h' by simp
qed

end
