(* ===== verification/CF_Tree_API.thy ===== *)
theory CF_Tree_API
  imports CF_Tree_Spec
begin

text \<open>
  The calls a client makes, what each does to the forest, and the states that can be reached from an empty store.
\<close>

section \<open>Calls\<close>

datatype tree_op =
    TreeCreate CFTreeContext
  | TreeRetain ptr
  | TreeRelease ptr
  | TreePrepend ptr ptr
  | TreeAppend ptr ptr
  | TreeInsertSibling ptr ptr
  | TreeRemove ptr
  | TreeRemoveAll ptr
  | TreeSort ptr "ptr \<Rightarrow> ptr \<Rightarrow> CFComparisonResult"
  | TreeSetContext ptr CFTreeContext

fun tree_do :: "tree_env \<Rightarrow> tree_op \<Rightarrow> tree_heap \<Rightarrow> tree_heap option" where
  "tree_do E (TreeCreate c) h = map_option snd (CFTreeCreate E (Some c) h)"
| "tree_do E (TreeRetain t) h = CFRetain t h"
| "tree_do E (TreeRelease t) h = CFRelease E t h"
| "tree_do E (TreePrepend t c) h = CFTreePrependChild t c h"
| "tree_do E (TreeAppend t c) h = CFTreeAppendChild t c h"
| "tree_do E (TreeInsertSibling x c) h = CFTreeInsertSibling x c h"
| "tree_do E (TreeRemove t) h = CFTreeRemove E t h"
| "tree_do E (TreeRemoveAll t) h = CFTreeRemoveAllChildren E t h"
| "tree_do E (TreeSort t cmp) h = CFTreeSortChildren E t cmp h"
| "tree_do E (TreeSetContext t c) h = CFTreeSetContext E t (Some c) h"

text \<open>What a caller must see to: live nodes, references it holds, and no cycle; and memory must be left.\<close>

fun tree_can :: "tree_op \<Rightarrow> forest \<Rightarrow> bool" where
  "tree_can (TreeCreate c) f \<longleftrightarrow> ctx_version c = 0 \<and> room f"
| "tree_can (TreeRetain t) f \<longleftrightarrow> live f t \<and> refs f t + 2 < 2 ^ 32"
| "tree_can (TreeRelease t) f \<longleftrightarrow> 0 < refs f t"
| "tree_can (TreePrepend t c) f \<longleftrightarrow> can_attach f t c"
| "tree_can (TreeAppend t c) f \<longleftrightarrow> can_attach f t c"
| "tree_can (TreeInsertSibling x c) f \<longleftrightarrow> (\<exists>p. x \<in> set (kids f p) \<and> can_attach f p c)"
| "tree_can (TreeRemove t) f \<longleftrightarrow> live f t"
| "tree_can (TreeRemoveAll t) f \<longleftrightarrow> live f t"
| "tree_can (TreeSort t cmp) f \<longleftrightarrow> live f t \<and> length (kids f t) < 2 ^ 31 \<and> cf_comparator (gt_of cmp)"
| "tree_can (TreeSetContext t c) f \<longleftrightarrow> live f t \<and> room f"

inductive forest_step :: "forest \<Rightarrow> tree_op \<Rightarrow> forest \<Rightarrow> bool" where
  create: "\<not> live f m \<Longrightarrow> m \<noteq> NULL \<Longrightarrow> forest_step f (TreeCreate c) (f\<lparr>refs := (refs f)(m := 1)\<rparr>)"
| no_memory: "forest_step f (TreeCreate c) f"
| retain: "forest_step f (TreeRetain t) (f\<lparr>refs := (refs f)(t := refs f t + 1)\<rparr>)"
| release: "forest_step f (TreeRelease t) (release_spec f t)"
| prepend: "forest_step f (TreePrepend t c) (with_kids f t (c # kids f t))"
| append: "forest_step f (TreeAppend t c) (with_kids f t (kids f t @ [c]))"
| insert: "x \<in> set (kids f p) \<Longrightarrow> forest_step f (TreeInsertSibling x c) (with_kids f p (insert_after x c (kids f p)))"
| remove: "t \<in> set (kids f p) \<Longrightarrow> forest_step f (TreeRemove t) (release_spec (taken f p t) t)"
| remove_root: "\<not> is_kid f t \<Longrightarrow> forest_step f (TreeRemove t) f"
| remove_all: "forest_step f (TreeRemoveAll t) (remove_all_spec f t)"
| sort: "stable_sorted (gt_of cmp) (kids f t) ys \<Longrightarrow> forest_step f (TreeSort t cmp) (with_kids f t ys)"
| set_context: "forest_step f (TreeSetContext t c) f"

inductive_simps forest_step_simps:
  "forest_step f (TreeCreate c) f'" "forest_step f (TreeRetain t) f'" "forest_step f (TreeRelease t) f'"
  "forest_step f (TreePrepend t x) f'" "forest_step f (TreeAppend t x) f'" "forest_step f (TreeInsertSibling t x) f'"
  "forest_step f (TreeRemove t) f'" "forest_step f (TreeRemoveAll t) f'" "forest_step f (TreeSort t cmp) f'"
  "forest_step f (TreeSetContext t c) f'"

text \<open>Allocation gives memory that is not in use; memory for the sort is found.\<close>

definition tree_env_ok :: "tree_env \<Rightarrow> bool" where
  "tree_env_ok E \<longleftrightarrow> callbacks_fresh E \<and> (\<forall>h. te_newTree E h \<noteq> NULL \<longrightarrow> th_tree h (te_newTree E h) = None) \<and> (\<forall>k. te_list E k)"

lemma remove_root_rep:
  assumes "rep {} h f" "live f t" "\<not> is_kid f t"
  shows "CFTreeRemove E t h = Some h"
proof -
  obtain n where n: "th_tree h t = Some n" "node_ok {} f t n" by (rule rep_node[OF assms(1,2)])
  have "tree_parent n = NULL" using node_okD(3)[OF n(2)] assms(3) by (auto simp: is_kid_def)
  then show ?thesis using n(1) by (simp add: CFTreeRemove_def)
qed

text \<open>Every permitted call returns and does what the forest says.\<close>

lemma tree_do_refines:
  assumes E: "tree_env_ok E" and r: "rep {} h f" and can: "tree_can op f"
  shows "\<exists>h' f'. tree_do E op h = Some h' \<and> forest_step f op f' \<and> rep {} h' f'"
proof (cases op)
  case (TreeCreate c)
  show ?thesis
  proof (cases "te_newTree E h = NULL")
    case True
    then show ?thesis using TreeCreate can r by (auto simp: CFTreeCreate_def Let_def intro: forest_step.no_memory)
  next
    case False
    have m: "callbacks_fresh E" "th_tree h (te_newTree E h) = None" using E False by (simp_all add: tree_env_ok_def)
    have "\<not> live f (te_newTree E h)" using repD(2)[OF r] m(2) by blast
    from forest_step.create[OF this False, of c]
    have s: "forest_step f op (f\<lparr>refs := (refs f)(te_newTree E h := 1)\<rparr>)" unfolding TreeCreate .
    obtain h' where h': "CFTreeCreate E (Some c) h = Some (te_newTree E h, h')" "rep {} h' (f\<lparr>refs := (refs f)(te_newTree E h := 1)\<rparr>)"
      using create_rep[OF m(1) r _ refl False m(2), of c] TreeCreate can by auto
    have "tree_do E op h = Some h'" using h'(1) TreeCreate by simp
    then show ?thesis using s h'(2) by blast
  qed
next
  case (TreeRetain t)
  then show ?thesis using retain_rep[OF r, of t] can by (auto simp: forest_step_simps)
next
  case (TreeRelease t)
  then show ?thesis using release_rep[OF r, of t E] can by (auto intro: forest_step.release)
next
  case (TreePrepend t c)
  then show ?thesis using prepend_rep[OF r, of t c] can by (auto intro: forest_step.prepend)
next
  case (TreeAppend t c)
  then show ?thesis using append_rep[OF r, of t c] can by (auto intro: forest_step.append)
next
  case (TreeInsertSibling x c)
  then obtain p where p: "x \<in> set (kids f p)" "can_attach f p c" using can by auto
  then show ?thesis using insert_rep[OF r p(2) _ p(1)] TreeInsertSibling forest_step.insert[OF p(1), of c] by auto
next
  case (TreeRemove t)
  show ?thesis
  proof (cases "is_kid f t")
    case True
    then obtain p where p: "t \<in> set (kids f p)" by (auto simp: is_kid_def)
    then show ?thesis using remove_rep[OF r p, of E] TreeRemove forest_step.remove[OF p] by auto
  next
    case False
    then show ?thesis using remove_root_rep[OF r _ False] TreeRemove can r forest_step.remove_root[OF False] by auto
  qed
next
  case (TreeRemoveAll t)
  then show ?thesis using remove_all_rep[OF r, of t E] can by (auto intro: forest_step.remove_all)
next
  case (TreeSort t cmp)
  have "\<And>k. te_list E k" using E by (simp add: tree_env_ok_def)
  then show ?thesis using sort_rep[OF r, of t E cmp] TreeSort can by (auto intro: forest_step.sort)
next
  case (TreeSetContext t c)
  have "callbacks_fresh E" using E by (simp add: tree_env_ok_def)
  then show ?thesis using set_context_rep[OF _ r, of E t c] TreeSetContext can by (auto simp: room_def intro: forest_step.set_context)
qed

section \<open>Reachable states\<close>

definition empty_heap :: tree_heap where
  "empty_heap = \<lparr>th_tree = Map.empty, th_cbs = Map.empty, th_calls = []\<rparr>"

definition empty_forest :: forest where
  "empty_forest = \<lparr>kids = (\<lambda>_. []), refs = (\<lambda>_. 0)\<rparr>"

text \<open>
  Permitted calls, one after the other. The forest follows the calls; the address of a new node is the only thing it
  takes from the store.
\<close>

inductive tree_reach :: "tree_env \<Rightarrow> tree_heap \<Rightarrow> forest \<Rightarrow> bool" for E where
  start: "tree_reach E empty_heap empty_forest"
| call: "tree_reach E h f \<Longrightarrow> tree_can op f \<Longrightarrow> tree_do E op h = Some h' \<Longrightarrow> forest_step f op f' \<Longrightarrow>
    \<forall>t. live f' t \<longleftrightarrow> th_tree h' t \<noteq> None \<Longrightarrow> tree_reach E h' f'"

lemma empty_rep: "rep {} empty_heap empty_forest"
  by (simp add: rep_def forest_ok_def empty_heap_def empty_forest_def live_def is_kid_def child_rel_def cbs_ok_def custom_at_def acyclic_def)

text \<open>A call and the set of live nodes determine the forest.\<close>

lemma forest_step_unique:
  assumes f: "forest_ok f" and can: "tree_can op f" and s: "forest_step f op f1" "forest_step f op f2" and live: "live f1 = live f2"
  shows "f1 = f2"
proof (cases op)
  case (TreeCreate c)
  let ?u = "\<lambda>m. f\<lparr>refs := (refs f)(m := 1)\<rparr>"
  have new: "live (?u m) x \<longleftrightarrow> x = m \<or> live f x" for m x by (auto simp: live_def)
  have c: "g = f \<or> (\<exists>m. \<not> live f m \<and> g = ?u m)" if "forest_step f op g" for g
    using that unfolding TreeCreate by (auto simp: forest_step_simps)
  show ?thesis using c[OF s(1)] c[OF s(2)]
  proof (elim disjE exE conjE)
    fix m
    assume "\<not> live f m" "f1 = f" "f2 = ?u m"
    then show ?thesis using new[of m m] live by simp
  next
    fix m
    assume "\<not> live f m" "f1 = ?u m" "f2 = f"
    then show ?thesis using new[of m m] live by simp
  next
    fix m k
    assume m: "\<not> live f m" "f1 = ?u m" "\<not> live f k" "f2 = ?u k"
    then have "m = k" using new[of m m] new[of k m] live by simp
    then show ?thesis using m by simp
  qed simp
next
  case (TreeInsertSibling x c)
  then show ?thesis using s forest_okD(4)[OF f] by (auto simp: forest_step_simps)
next
  case (TreeRemove t)
  then show ?thesis using s forest_okD(4)[OF f] by (auto simp: forest_step_simps is_kid_def)
next
  case (TreeSort t cmp)
  then have "cf_comparator (gt_of cmp)" using can by simp
  from cf_comparator.stable_unique[OF this] show ?thesis using s TreeSort by (auto simp: forest_step_simps)
qed (use s in \<open>simp_all add: forest_step_simps\<close>)

lemma tree_reach_rep:
  assumes "tree_env_ok E" "tree_reach E h f"
  shows "rep {} h f"
  using assms(2)
proof induction
  case start
  show ?case by (rule empty_rep)
next
  case (call h f op h' f')
  obtain g where g: "forest_step f op g" "rep {} h' g"
    using tree_do_refines[OF assms(1) call.IH call.hyps(2)] call.hyps(3) by auto
  have "live f' = live g" using repD(2)[OF g(2)] call.hyps(5) by (simp add: fun_eq_iff)
  then have "f' = g" using forest_step_unique[OF repD(1)[OF call.IH] call.hyps(2,4) g(1)] by blast
  then show ?case using g(2) by simp
qed

text \<open>Every node hangs below a root, and roots are held by clients.\<close>

lemma unheld_empty:
  assumes "rep {} h f" "\<forall>t. refs f t = 0"
  shows "th_tree h = Map.empty" "th_cbs h = Map.empty"
proof -
  have "\<not> live f t" for t
  proof
    assume "live f t"
    then obtain r where "live f r" "\<not> is_kid f r" using find_root[OF assms(1)] by blast
    then show False using assms(2) by (simp add: live_def)
  qed
  then show e: "th_tree h = Map.empty" using repD(2)[OF assms(1)] by (auto simp: fun_eq_iff)
  then show "th_cbs h = Map.empty" using repD(4)[OF assms(1)] by (auto simp: cbs_ok_def custom_at_def fun_eq_iff)
qed

text \<open>A release leaves every node that a client or a remaining node holds.\<close>

lemma release_live:
  assumes "forest_ok f" "0 < refs f t"
  shows "live (release_spec f t) x \<longleftrightarrow> live f x \<and> x \<notin> freed f t"
proof (cases "live (dropped f t) t")
  case True
  then have "live (dropped f t) x \<longleftrightarrow> live f x" using assms(2) by (cases "x = t") (auto simp: live_def is_kid_def)
  then show ?thesis using True by (simp add: release_spec_def freed_def)
next
  case False
  let ?g = "dropped f t" and ?O = "owned (dropped f t) {t}"
  have t: "refs ?g t = 0" "\<not> is_kid ?g t" using False by (auto simp: live_def)
  have gone: "\<not> live (without ?g ?O) y" if "y \<in> ?O" for y
    by (rule owned_gone[OF _ _ that]) (use forest_okD(4)[OF assms(1)] t in auto)
  have stay: "live (without ?g ?O) y \<longleftrightarrow> live f y" if y: "y \<notin> ?O" for y
  proof -
    have "y \<noteq> t" using y owned.start[of t "{t}" ?g] by auto
    then have r: "refs ?g y = refs f y" by simp
    have "is_kid (without ?g ?O) y \<or> 0 < refs f y" if k: "is_kid f y"
    proof -
      obtain p where p: "y \<in> set (kids f p)" using k by (auto simp: is_kid_def)
      show ?thesis
      proof (cases "p \<in> ?O")
        case True
        then show ?thesis using owned.child[OF True, of y] y p r by auto
      next
        case False
        then have "y \<in> set (kids (without ?g ?O) p)" using p by simp
        then show ?thesis by (blast intro: is_kidI)
      qed
    qed
    moreover have "is_kid (without ?g ?O) y \<Longrightarrow> is_kid f y" by (auto simp: is_kid_def split: if_splits)
    ultimately show ?thesis using r by (auto simp: live_def)
  qed
  show ?thesis using gone[of x] stay[of x] False by (auto simp: release_spec_def freed_def)
qed

section \<open>An allocator and a tree\<close>

text \<open>The first address that is free, or \<open>NULL\<close> when none is.\<close>

function first_free :: "(ptr \<rightharpoonup> 'a) \<Rightarrow> ptr \<Rightarrow> ptr" where
  "first_free m p = (if p = NULL \<or> m p = None then p else first_free m (p + 1))"
  by pat_completeness auto
termination
proof (relation "measure (\<lambda>(m, p). unat (- p))", goal_cases)
  case (2 m p)
  then have "- p \<noteq> 0" by simp
  then have "unat (- p - 1) < unat (- p)" by (simp add: unat_minus_one unat_gt_0)
  then show ?case by simp
qed simp

declare first_free.simps [simp del]

lemma first_free_or_NULL: "first_free m p = NULL \<or> m (first_free m p) = None"
proof (induction m p rule: first_free.induct)
  case (1 m p)
  then show ?case by (subst (1 2) first_free.simps) auto
qed

lemma first_free_found: "first_free m p = NULL \<Longrightarrow> p \<noteq> NULL \<Longrightarrow> p \<le> q \<Longrightarrow> m q \<noteq> None"
proof (induction m p rule: first_free.induct)
  case (1 m p)
  have p: "m p \<noteq> None" "first_free m (p + 1) = NULL" using 1(2,3) by (subst (asm) first_free.simps; auto split: if_splits)+
  show ?case
  proof (cases "q = p")
    case False
    then have lt: "unat p < unat q" using 1(4) by (simp add: word_le_nat_alt word_unat_eq_iff)
    then have u: "unat (p + 1) = unat p + 1" using unsigned_less[of q, where ?'a = nat] by (simp add: unat_word_ariths)
    have "p + 1 \<noteq> NULL" using u by (auto simp: word_unat_eq_iff)
    moreover have "p + 1 \<le> q" using u lt by (simp add: word_le_nat_alt)
    ultimately have "p + 1 \<le> q" "p + 1 \<noteq> NULL" by blast+
    then show ?thesis using 1(1) p 1(3) by blast
  qed (use p in simp)
qed

definition first_fit :: tree_env where
  "first_fit = \<lparr>te_CFRetain = 900, te_CFRelease = 901, te_CFCopyDescription = 902, te_result = (\<lambda>f i. i),
     te_newTree = (\<lambda>h. first_free (th_tree h) 1), te_newCallBacks = (\<lambda>h. first_free (th_cbs h) 1), te_list = (\<lambda>_. True)\<rparr>"

lemma first_fit_callbacks: "callbacks_fresh first_fit"
proof -
  have "first_free (th_cbs h) 1 \<noteq> NULL" if few: "card (dom (th_cbs h)) < 2 ^ 63" for h
  proof
    assume "first_free (th_cbs h) 1 = NULL"
    then have "th_cbs h q \<noteq> None" if "q \<noteq> NULL" for q
      using first_free_found[of "th_cbs h" 1 q] that by (simp add: word_le_nat_alt unat_gt_0 Suc_leI)
    then have "UNIV - {NULL} \<subseteq> dom (th_cbs h)" by blast
    then have "card (UNIV - {NULL :: ptr}) \<le> card (dom (th_cbs h))" by (intro card_mono) simp_all
    then show False using few by (simp add: card_Diff_singleton card_word)
  qed
  then show ?thesis using first_free_or_NULL by (auto simp: callbacks_fresh_def first_fit_def)
qed

lemma first_fit_ok: "tree_env_ok first_fit"
  using first_fit_callbacks first_free_or_NULL by (auto simp: tree_env_ok_def first_fit_def)

text \<open>
  Node 1 has the children 2 and 3. A client holds 1 and 3. The data of 1 has callbacks of its own and that of 2 is an object.
\<close>

definition sample_forest :: forest where
  "sample_forest = \<lparr>kids = (\<lambda>p. if p = 1 then [2, 3] else []), refs = (\<lambda>t. if t = 1 \<or> t = 3 then 1 else 0)\<rparr>"

definition sample_trees :: tree_heap where
  "sample_trees = \<lparr>th_tree = [
     1 \<mapsto> \<lparr>tree_rc = 1, tree_parent = NULL, tree_sibling = NULL, tree_child = 2, tree_rightmostChild = 3, tree_info = 70,
       tree_cbtype = HasCustomCallBacks, tree_callbacks = 5\<rparr>,
     2 \<mapsto> \<lparr>tree_rc = 1, tree_parent = 1, tree_sibling = 3, tree_child = NULL, tree_rightmostChild = NULL, tree_info = 71,
       tree_cbtype = HasCFTypeCallBacks, tree_callbacks = NULL\<rparr>,
     3 \<mapsto> \<lparr>tree_rc = 2, tree_parent = 1, tree_sibling = NULL, tree_child = NULL, tree_rightmostChild = NULL, tree_info = 72,
       tree_cbtype = HasNullCallBacks, tree_callbacks = NULL\<rparr>],
     th_cbs = [5 \<mapsto> \<lparr>cb_retain = 800, cb_release = 801, cb_copyDescription = NULL\<rparr>], th_calls = []\<rparr>"

lemma sample_kids: "is_kid sample_forest t \<longleftrightarrow> t = 2 \<or> t = 3" "live sample_forest t \<longleftrightarrow> t \<in> {1, 2, 3}"
  "child_rel sample_forest = {(1, 2), (1, 3)}"
  by (auto simp: is_kid_def live_def child_rel_def sample_forest_def split: if_splits)

lemma sample_forest_ok: "forest_ok sample_forest"
proof -
  have "acyclic {(1, 2), (1, 3 :: ptr)}"
    by (rule acyclicI_order[of _ "\<lambda>x. if x = 1 then 1 else 0 :: nat"]) auto
  moreover have "{t. live sample_forest t} = {1, 2, 3}" unfolding sample_kids by auto
  moreover have "kids sample_forest p = (if p = 1 then [2, 3] else [])" for p by (simp add: sample_forest_def)
  ultimately show ?thesis unfolding forest_ok_def sample_kids(3) by (auto simp: sample_kids(2) split: if_splits)
qed

lemma sample_trees_rep: "rep {} sample_trees sample_forest"
proof -
  have "cbs_ok sample_trees" unfolding cbs_ok_def custom_at_def by (auto simp: sample_trees_def split: if_splits)
  moreover have "node_ok {} sample_forest t n" if "th_tree sample_trees t = Some n" for t n
    using that unfolding node_ok_def sample_kids(1) by (auto simp: sample_trees_def sample_forest_def split: if_splits)
  moreover have "th_tree sample_trees t \<noteq> None \<longleftrightarrow> live sample_forest t" for t
    unfolding sample_kids(2) by (simp add: sample_trees_def)
  ultimately show ?thesis using sample_forest_ok unfolding rep_def by blast
qed

lemma tree_reach_step:
  assumes "tree_env_ok E" "tree_reach E h f" "tree_can op f"
  shows "\<exists>h' f'. tree_do E op h = Some h' \<and> forest_step f op f' \<and> tree_reach E h' f' \<and> rep {} h' f'"
proof -
  obtain h' f' where h': "tree_do E op h = Some h'" "forest_step f op f'" "rep {} h' f'"
    using tree_do_refines[OF assms(1) tree_reach_rep[OF assms(1,2)] assms(3)] by blast
  have "\<forall>t. live f' t \<longleftrightarrow> th_tree h' t \<noteq> None" using repD(2)[OF h'(3)] by blast
  then show ?thesis using h' tree_reach.call[OF assms(2,3) h'(1,2)] by blast
qed

text \<open>Applying a function that keeps the forest to the children.\<close>

lemma apply_walk:
  assumes "\<And>x g. rep {} g f \<Longrightarrow> \<exists>g'. applier x g = Some g' \<and> rep {} g' f"
  shows "rep {} h f \<Longrightarrow> kids f p = ys @ xs \<Longrightarrow>
    apply_children applier (hd0 xs) h = foldl (\<lambda>r x. Option.bind r (applier x)) (Some h) xs"
proof (induction xs arbitrary: ys h)
  case Nil
  then show ?case by (simp add: apply_children.simps)
next
  case (Cons x xs)
  obtain g where g: "applier x h = Some g" "rep {} g f" using assms[OF Cons.prems(1)] by blast
  obtain n where n: "th_tree g x = Some n" "tree_sibling n = hd0 xs" "x \<noteq> NULL" by (rule suffix_node[OF g(2) Cons.prems(2)])
  then have "apply_children applier x h = apply_children applier (hd0 xs) g" using g(1) by (subst apply_children.simps) simp
  then show ?case using Cons.IH[OF g(2), of "ys @ [x]"] Cons.prems(2) g(1) by simp
qed

text \<open>The order of the nodes does not matter for the calls that are made.\<close>

lemma mset_concat_map: "mset (concat (map g xs)) = \<Sum>\<^sub># (image_mset (mset \<circ> g) (mset xs))"
  by (induction xs) simp_all

text \<open>A context is determined by the data of the node.\<close>

lemma context_payload: "payload E h' x = payload E h x \<Longrightarrow> CFTreeGetContext E x b h' = CFTreeGetContext E x b h"
  by (cases "th_tree h x"; cases "th_tree h' x") (simp_all add: payload_def data_at_def CFTreeGetContext_def)

section \<open>Properties\<close>

definition sample_context :: CFTreeContext where
  "sample_context = \<lparr>ctx_version = 0, ctx_info = 40, ctx_retain = 800, ctx_release = 801, ctx_copyDescription = NULL\<rparr>"

text \<open>
  C10. Trees implement forests. In every state that permitted calls reach from an empty store, every permitted call of
  \<^verbatim>\<open>CFTree.c\<close>, \<^verbatim>\<open>CFRetain\<close> and \<^verbatim>\<open>CFRelease\<close> returns, changes the forest as its specification says, and leaves a store whose pointers, reference
  counts and allocated nodes are exactly those of the new forest. Sorting gives the stable order of the children.
\<close>

theorem tree_refines_forest:
  assumes "tree_env_ok E" "tree_reach E h f" "tree_can op f"
  shows "\<exists>h' f'. tree_do E op h = Some h' \<and> forest_step f op f' \<and> tree_reach E h' f' \<and> rep {} h' f'"
  by (rule tree_reach_step[OF assms])

lemma empty_room: "room empty_forest"
  by (simp add: room_def empty_forest_def live_def is_kid_def)

theorem tree_refines_forest_witness:
  "\<exists>h' f'. tree_do first_fit (TreeCreate sample_context) empty_heap = Some h' \<and>
     forest_step empty_forest (TreeCreate sample_context) f' \<and> tree_reach first_fit h' f' \<and> rep {} h' f'"
  by (rule tree_refines_forest[OF first_fit_ok tree_reach.start]) (simp add: sample_context_def empty_room)

text \<open>
  C18. Nothing leaks: in a state that permitted calls reach, if clients hold no reference then no node and no memory for
  callbacks is allocated.
\<close>

theorem tree_no_leaks:
  assumes "tree_env_ok E" "tree_reach E h f" "\<forall>t. refs f t = 0"
  shows "th_tree h = Map.empty \<and> th_cbs h = Map.empty"
  using unheld_empty[OF tree_reach_rep[OF assms(1,2)] assms(3)] by blast

text \<open>One node, created and released again.\<close>

lemma create_release:
  "\<exists>h1 h2 f2. tree_do first_fit (TreeCreate sample_context) empty_heap = Some h1 \<and> tree_do first_fit (TreeRelease 1) h1 = Some h2 \<and>
     tree_reach first_fit h2 f2 \<and> (\<forall>t. refs f2 t = 0)"
proof -
  have can: "tree_can (TreeCreate sample_context) empty_forest" by (simp add: sample_context_def empty_room)
  obtain h1 f1 where h1: "tree_do first_fit (TreeCreate sample_context) empty_heap = Some h1"
    "forest_step empty_forest (TreeCreate sample_context) f1" "tree_reach first_fit h1 f1" "rep {} h1 f1"
    using tree_reach_step[OF first_fit_ok tree_reach.start can] by blast
  have new: "te_newTree first_fit empty_heap = 1" by (subst first_fit_def) (simp add: empty_heap_def first_free.simps)
  have e: "th_tree empty_heap 1 = None" by (simp add: empty_heap_def)
  have "ctx_version sample_context = 0" by (simp add: sample_context_def)
  from create_rep[OF first_fit_callbacks empty_rep this new _ e _ empty_room]
  obtain h' where h': "CFTreeCreate first_fit (Some sample_context) empty_heap = Some (1, h')"
    "rep {} h' (empty_forest\<lparr>refs := (refs empty_forest)(1 := 1)\<rparr>)" by auto
  let ?f = "empty_forest\<lparr>refs := (refs empty_forest)(1 := 1)\<rparr>"
  have "h' = h1" using h'(1) h1(1) by simp
  then have r: "rep {} h1 ?f" using h'(2) by simp
  have "forest_step empty_forest (TreeCreate sample_context) ?f"
    by (rule forest_step.create) (simp_all add: live_def is_kid_def empty_forest_def)
  then have "tree_reach first_fit h1 ?f"
    using tree_reach.call[OF tree_reach.start can h1(1)] repD(2)[OF r] by blast
  from tree_reach_step[OF first_fit_ok this, of "TreeRelease 1"]
  obtain h2 f2 where h2: "tree_do first_fit (TreeRelease 1) h1 = Some h2" "forest_step ?f (TreeRelease 1) f2" "tree_reach first_fit h2 f2"
    by auto
  have "refs f2 t = 0" for t using h2(2) by (simp add: forest_step_simps release_spec_def empty_forest_def)
  then show ?thesis using h1(1) h2(1,3) by blast
qed

theorem tree_no_leaks_witness:
  "\<exists>h1 h2. tree_do first_fit (TreeCreate sample_context) empty_heap = Some h1 \<and> tree_do first_fit (TreeRelease 1) h1 = Some h2 \<and>
     th_tree h2 = Map.empty \<and> th_cbs h2 = Map.empty"
  using create_release tree_no_leaks[OF first_fit_ok] by blast

text \<open>
  C13. A client's release of a node gives back exactly the memory that nothing else holds: when it was the last reference, the node
  and every node below it that is reached through nodes no client holds. The data of each of these nodes is
  released exactly once, with its own callbacks; every other node stays, with its data untouched.
\<close>

theorem tree_release_exact:
  assumes "rep {} h f" "0 < refs f t"
  shows "\<exists>h' xs. CFRelease E t h = Some h' \<and> rep {} h' (release_spec f t) \<and>
    (\<forall>x. th_tree h' x \<noteq> None \<longleftrightarrow> th_tree h x \<noteq> None \<and> x \<notin> freed f t) \<and>
    distinct xs \<and> set xs = freed f t \<and> th_calls h' = th_calls h @ concat (map (release_call E h) xs) \<and>
    (\<forall>x b. x \<notin> freed f t \<longrightarrow> CFTreeGetContext E x b h' = CFTreeGetContext E x b h)"
proof -
  obtain h' where h': "CFRelease E t h = Some h'" "rep {} h' (release_spec f t)" "torn E h h' (freed f t)"
    using release_rep[OF assms, of E] by blast
  obtain xs where xs: "distinct xs" "set xs = freed f t" "th_calls h' = th_calls h @ concat (map (release_call E h) xs)"
    using h'(3) unfolding torn_def by blast
  have "th_tree h' x \<noteq> None \<longleftrightarrow> th_tree h x \<noteq> None \<and> x \<notin> freed f t" for x
    using repD(2)[OF h'(2), of x] repD(2)[OF assms(1), of x] release_live[OF repD(1)[OF assms(1)] assms(2), of x] by simp
  moreover have "CFTreeGetContext E x b h' = CFTreeGetContext E x b h" if "x \<notin> freed f t" for x b
    by (rule context_payload) (use h'(3) that in \<open>auto simp: torn_def\<close>)
  ultimately show ?thesis using h'(1,2) xs by blast
qed

lemma sample_freed: "freed sample_forest 1 = {1, 2}"
proof -
  have t: "\<not> live (dropped sample_forest 1) 1" using sample_kids(1)[of 1] by (simp add: live_def is_kid_def sample_forest_def)
  have k: "lone_kids sample_forest 1 = {2}" by (auto simp: sample_forest_def)
  have "owned sample_forest {2} = {2}"
  proof (intro equalityI subsetI)
    fix x
    assume "x \<in> owned sample_forest {2}"
    then show "x \<in> {2}" by induction (auto simp: sample_forest_def)
  qed (auto intro: owned.start)
  then show ?thesis using t owned_root[of sample_forest 1] sample_kids(1)[of 1] by (simp add: freed_def k)
qed

theorem tree_release_exact_witness:
  "\<exists>h'. CFRelease first_fit 1 sample_trees = Some h' \<and> th_tree h' 1 = None \<and> th_tree h' 2 = None \<and> th_tree h' 3 \<noteq> None \<and>
     mset (th_calls h') = {# CallRelease 801 70, CallRelease 901 71 #}"
proof -
  have "0 < refs sample_forest 1" by (simp add: sample_forest_def)
  from tree_release_exact[OF sample_trees_rep this, of first_fit] obtain h' xs where h': "CFRelease first_fit 1 sample_trees = Some h'"
    "\<forall>x. th_tree h' x \<noteq> None \<longleftrightarrow> th_tree sample_trees x \<noteq> None \<and> x \<notin> {1, 2}" "distinct xs" "set xs = {1, 2}"
    "th_calls h' = th_calls sample_trees @ concat (map (release_call first_fit sample_trees) xs)"
    unfolding sample_freed by blast
  have "mset xs = mset [1, 2]" using h'(3,4) by (subst set_eq_iff_mset_eq_distinct[symmetric]) auto
  then have "mset (concat (map (release_call first_fit sample_trees) xs)) = mset (concat (map (release_call first_fit sample_trees) [1, 2]))"
    by (simp only: mset_concat_map)
  moreover have "release_call first_fit sample_trees 1 = [CallRelease 801 70]" "release_call first_fit sample_trees 2 = [CallRelease 901 71]"
    by (simp_all add: release_call_def payload_def data_at_def CFTreeGetCallBacks_def kCFTypeTreeCallBacks_def sample_trees_def first_fit_def)
  moreover have "th_calls sample_trees = []" "th_tree sample_trees 3 \<noteq> None" by (simp_all add: sample_trees_def)
  ultimately show ?thesis using h'(1,2,5) by (intro exI[of _ h']) auto
qed

text \<open>
  The queries return and read the forest: the number of children, the child at an index, the children in an array, the first
  child, the next sibling, the parent and the root. A function that keeps the forest is applied to the children in their order.
\<close>

theorem tree_queries:
  assumes "rep {} h f" "live f t" "length (kids f t) < 2 ^ 31"
  shows "CFTreeGetChildCount t h = Some (length (kids f t)) \<and>
    (\<forall>i. CFTreeGetChildAtIndex t i h = Some (if 0 \<le> i \<and> nat i < length (kids f t) then kids f t ! nat i else NULL)) \<and>
    (\<forall>buf. length (kids f t) \<le> length buf \<longrightarrow>
       CFTreeGetChildren t buf h = Some (map Some (kids f t) @ drop (length (kids f t)) buf)) \<and>
    CFTreeGetFirstChild t h = Some (hd0 (kids f t)) \<and>
    (\<exists>p. CFTreeGetParent t h = Some p \<and> (if p = NULL then \<not> is_kid f t else t \<in> set (kids f p)) \<and>
       CFTreeGetNextSibling t h = Some (next_of (kids f p) t)) \<and>
    (\<exists>r. CFTreeFindRoot h t = Some r \<and> (r, t) \<in> (child_rel f)\<^sup>* \<and> live f r \<and> \<not> is_kid f r) \<and>
    (\<forall>applier. (\<forall>x g. rep {} g f \<longrightarrow> (\<exists>g'. applier x g = Some g' \<and> rep {} g' f)) \<longrightarrow>
       CFTreeApplyFunctionToChildren t applier h = foldl (\<lambda>r x. Option.bind r (applier x)) (Some h) (kids f t))"
proof -
  obtain n where n: "th_tree h t = Some n" "node_ok {} f t n" by (rule rep_node[OF assms(1,2)])
  have c: "tree_child n = hd0 (kids f t)" using node_okD(1)[OF n(2)] by simp
  have "CFTreeGetChildAtIndex t i h = Some (if 0 \<le> i \<and> nat i < length (kids f t) then kids f t ! nat i else NULL)" for i
    using child_at_walk[OF assms(1), of t "[]" "kids f t" i] n(1) c by (simp add: CFTreeGetChildAtIndex_def)
  moreover have "CFTreeGetChildren t buf h = Some (map Some (kids f t) @ drop (length (kids f t)) buf)"
    if "length (kids f t) \<le> length buf" for buf
    using store_walk[OF assms(1), of t "[]" "kids f t" 0 buf] that n(1) c by (simp add: CFTreeGetChildren_def)
  moreover have "\<exists>p. CFTreeGetParent t h = Some p \<and> (if p = NULL then \<not> is_kid f t else t \<in> set (kids f p)) \<and>
       CFTreeGetNextSibling t h = Some (next_of (kids f p) t)"
    using node_okD(3,4)[OF n(2)] n(1) by (simp add: CFTreeGetParent_def CFTreeGetNextSibling_def is_kid_def)
  moreover have "CFTreeApplyFunctionToChildren t applier h = foldl (\<lambda>r x. Option.bind r (applier x)) (Some h) (kids f t)"
    if "\<forall>x g. rep {} g f \<longrightarrow> (\<exists>g'. applier x g = Some g' \<and> rep {} g' f)" for applier
    using apply_walk[OF _ assms(1), of applier t "[]" "kids f t"] that n(1) c by (simp add: CFTreeApplyFunctionToChildren_def)
  ultimately show ?thesis
    using child_count[OF assms(1,2) _ assms(3)] find_root[OF assms(1,2)] n(1) c by (simp add: CFTreeGetFirstChild_def)
qed

theorem tree_queries_witness:
  "CFTreeGetChildCount 1 sample_trees = Some 2 \<and> CFTreeGetChildAtIndex 1 1 sample_trees = Some 3 \<and>
   CFTreeGetChildAtIndex 1 2 sample_trees = Some NULL \<and> CFTreeGetChildren 1 [None, None, None] sample_trees = Some [Some 2, Some 3, None] \<and>
   CFTreeApplyFunctionToChildren 1 (\<lambda>x g. Some g) sample_trees = Some sample_trees"
proof -
  have k: "kids sample_forest 1 = [2, 3]" by (simp add: sample_forest_def)
  have "live sample_forest 1" by (simp add: sample_kids)
  from tree_queries[OF sample_trees_rep this] show ?thesis
    unfolding k by (auto dest!: spec[of _ "[None, None, None]"] spec[of _ "\<lambda>x g. Some g"])
qed

text \<open>
  C26. Giving a node a context and reading it back: the callbacks are those given, the data is what the retain callback
  returned for the data given. The new data is retained before the old data is released, with the old callbacks; the forest and the
  contexts of all other nodes are unchanged.
\<close>

theorem tree_context_roundtrip:
  assumes "callbacks_fresh E" "rep {} h f" "live f t" "card {x. live f x} < 2 ^ 63" "ctx_version b = 0"
  shows "\<exists>h'. CFTreeSetContext E t (Some c) h = Some h' \<and> rep {} h' f \<and>
    CFTreeGetContext E t b h' = Some (c\<lparr>ctx_version := 0, ctx_info := context_info E c\<rparr>) \<and>
    th_calls h' = th_calls h @ retain_call c @ release_call E h t \<and>
    (\<forall>x. x \<noteq> t \<longrightarrow> CFTreeGetContext E x b h' = CFTreeGetContext E x b h)"
proof -
  obtain h' where h': "CFTreeSetContext E t (Some c) h = Some h'" "rep {} h' f"
    "th_calls h' = th_calls h @ retain_call c @ release_call E h t"
    "payload E h' t = Some (context_info E c, Some (context_callbacks c))" "\<forall>x. x \<noteq> t \<longrightarrow> payload E h' x = payload E h x"
    using set_context_rep[OF assms(1-4), of c] by blast
  have "CFTreeGetContext E t b h' = Some (c\<lparr>ctx_version := 0, ctx_info := context_info E c\<rparr>)"
    using h'(4) assms(5) by (cases "th_tree h' t") (simp_all add: payload_def data_at_def CFTreeGetContext_def context_callbacks_def)
  then show ?thesis using h'(1,2,3,5) context_payload by blast
qed

theorem tree_context_roundtrip_witness:
  "\<exists>h'. CFTreeSetContext first_fit 1 (Some (sample_context\<lparr>ctx_retain := NULL\<rparr>)) sample_trees = Some h' \<and>
     CFTreeGetContext first_fit 1 sample_context h' = Some (sample_context\<lparr>ctx_retain := NULL\<rparr>) \<and> th_calls h' = [CallRelease 801 70]"
proof -
  have live: "live sample_forest 1" by (simp add: sample_kids)
  have "{x. live sample_forest x} = {1, 2, 3}" by (auto simp: sample_kids)
  then have "card {x. live sample_forest x} < 2 ^ 63" by simp
  from tree_context_roundtrip[OF first_fit_callbacks sample_trees_rep live this, of sample_context "sample_context\<lparr>ctx_retain := NULL\<rparr>"]
  obtain h' where "CFTreeSetContext first_fit 1 (Some (sample_context\<lparr>ctx_retain := NULL\<rparr>)) sample_trees = Some h'"
    "CFTreeGetContext first_fit 1 sample_context h' = Some (sample_context\<lparr>ctx_retain := NULL, ctx_version := 0,
       ctx_info := context_info first_fit (sample_context\<lparr>ctx_retain := NULL\<rparr>)\<rparr>)"
    "th_calls h' = th_calls sample_trees @ retain_call (sample_context\<lparr>ctx_retain := NULL\<rparr>) @ release_call first_fit sample_trees 1"
    by (auto simp: sample_context_def)
  moreover have "release_call first_fit sample_trees 1 = [CallRelease 801 70]" "th_calls sample_trees = []"
    by (simp_all add: release_call_def payload_def data_at_def CFTreeGetCallBacks_def sample_trees_def)
  ultimately show ?thesis by (intro exI[of _ h']) (simp add: context_info_def retain_call_def sample_context_def)
qed

end
