(* ===== verification/CF_Array.thy ===== *)
theory CF_Array
  imports CF_Sort "HOL-Library.Signed_Division"
begin

text \<open>
  The arrays of \<^verbatim>\<open>CFArray.c\<close>. An immutable array has its values behind its header; a mutable one has them in a separate
  store, somewhere in the middle of its buckets, with free buckets on both sides. Replacing a range of values moves the shorter of
  the two parts beside the range if there is room on its side, and otherwise moves both parts to the middle, in new memory when it has to.

  Indices are \<open>int\<close>, as \<^verbatim>\<open>CFIndex\<close> is signed. A failed assertion, an access outside the memory of a store, and the use of memory that
  could not be allocated are \<open>None\<close>. Calls of the retain and release callbacks are recorded in a trace; what the
  callbacks return and whether memory is available are parameters. Bridging to Objective-C arrays, the collector and fast
  enumeration are left out.
\<close>

section \<open>State\<close>

record CFArrayCallBacks =
  acb_retain :: ptr
  acb_release :: ptr
  acb_copyDescription :: ptr
  acb_equal :: ptr

datatype array_type = ArrayImmutable | ArrayDeque

datatype array_cb_type = ArrayNullCallBacks | ArrayCFTypeCallBacks | ArrayCustomCallBacks

record CFArrayDeque =
  dq_leftIdx :: int
  dq_capacity :: int
  dq_buckets :: "ptr mem"

datatype array_call = ValueRetained ptr ptr | ValueReleased ptr ptr

record CFArray =
  arr_type :: array_type
  arr_cbtype :: array_cb_type
  arr_custom :: CFArrayCallBacks
  arr_count :: int
  arr_mutations :: int
  arr_inline :: "ptr mem"
  arr_store :: "CFArrayDeque option"
  arr_calls :: "array_call list"

record array_env =
  ae_CFType :: CFArrayCallBacks
  ae_retained :: "ptr \<Rightarrow> ptr \<Rightarrow> ptr"
  ae_equal :: "ptr \<Rightarrow> ptr \<Rightarrow> ptr \<Rightarrow> bool"
  ae_alloc :: "int \<Rightarrow> bool"

text \<open>\<^verbatim>\<open>1 << flsl(capacity)\<close> is a shift of a 32-bit \<^verbatim>\<open>int\<close>, as in the binary heap.\<close>

definition CFArrayDequeRoundUpCapacity :: "int \<Rightarrow> int option" where
  "CFArrayDequeRoundUpCapacity capacity =
     (if capacity < 4 then Some 4
      else if flsl (nat capacity) < 31 then Some (2 ^ flsl (nat capacity)) else None)"

section \<open>Buckets\<close>

text \<open>Copying \<open>n\<close> cells, also between overlapping ranges, and setting cells to zero.\<close>

definition mem_move :: "'a mem \<Rightarrow> int \<Rightarrow> 'a mem \<Rightarrow> int \<Rightarrow> int \<Rightarrow> 'a mem option" where
  "mem_move dest d src s n =
     (if 0 \<le> d \<and> 0 \<le> s \<and> 0 \<le> n \<and> d + n \<le> int (length dest) \<and> s + n \<le> int (length src)
      then Some (take (nat d) dest @ take (nat n) (drop (nat s) src) @ drop (nat (d + n)) dest) else None)"

definition mem_zero :: "ptr mem \<Rightarrow> int \<Rightarrow> int \<Rightarrow> ptr mem option" where
  "mem_zero m d n = mem_move m d (replicate (nat n) (Some NULL)) 0 n"

text \<open>The memory that holds the buckets, and the index of the first value in it.\<close>

definition CFArrayGetBucketsPtr :: "CFArray \<Rightarrow> (ptr mem \<times> int) option" where
  "CFArrayGetBucketsPtr array = (case arr_type array of
       ArrayImmutable \<Rightarrow> Some (arr_inline array, 0)
     | ArrayDeque \<Rightarrow> map_option (\<lambda>d. (dq_buckets d, dq_leftIdx d)) (arr_store array))"

definition get_bucket :: "CFArray \<Rightarrow> int \<Rightarrow> ptr option" where
  "get_bucket array idx = do {
     (m, base) \<leftarrow> CFArrayGetBucketsPtr array;
     if base + idx < 0 then None else rd m (nat (base + idx))
   }"

definition set_bucket :: "CFArray \<Rightarrow> int \<Rightarrow> ptr \<Rightarrow> CFArray option" where
  "set_bucket array idx v = do {
     (m, base) \<leftarrow> CFArrayGetBucketsPtr array;
     m1 \<leftarrow> (if base + idx < 0 then None else wr m (nat (base + idx)) v);
     Some (case arr_type array of
         ArrayImmutable \<Rightarrow> array\<lparr>arr_inline := m1\<rparr>
       | ArrayDeque \<Rightarrow> array\<lparr>arr_store := map_option (\<lambda>d. d\<lparr>dq_buckets := m1\<rparr>) (arr_store array)\<rparr>)
   }"

definition kCFNullArrayCallBacks :: CFArrayCallBacks where
  "kCFNullArrayCallBacks = \<lparr>acb_retain = NULL, acb_release = NULL, acb_copyDescription = NULL, acb_equal = NULL\<rparr>"

definition CFArrayGetCallBacks :: "array_env \<Rightarrow> CFArray \<Rightarrow> CFArrayCallBacks" where
  "CFArrayGetCallBacks E array = (case arr_cbtype array of
       ArrayNullCallBacks \<Rightarrow> kCFNullArrayCallBacks
     | ArrayCFTypeCallBacks \<Rightarrow> ae_CFType E
     | ArrayCustomCallBacks \<Rightarrow> arr_custom array)"

definition CFArrayCallBacksMatchNull :: "CFArrayCallBacks option \<Rightarrow> bool" where
  "CFArrayCallBacksMatchNull c = (case c of None \<Rightarrow> True | Some c \<Rightarrow> c = kCFNullArrayCallBacks)"

definition CFArrayCallBacksMatchCFType :: "array_env \<Rightarrow> CFArrayCallBacks option \<Rightarrow> bool" where
  "CFArrayCallBacksMatchCFType E c = (case c of None \<Rightarrow> False | Some c \<Rightarrow> c = ae_CFType E)"

definition log_value :: "array_call \<Rightarrow> CFArray \<Rightarrow> CFArray" where
  "log_value c array = array\<lparr>arr_calls := arr_calls array @ [c]\<rparr>"

section \<open>Releasing values\<close>

fun release_loop :: "ptr \<Rightarrow> int \<Rightarrow> nat \<Rightarrow> CFArray \<Rightarrow> CFArray option" where
  "release_loop release loc 0 array = Some array"
| "release_loop release loc (Suc n) array = do {
     array1 \<leftarrow> (if release \<noteq> NULL then do { v \<leftarrow> get_bucket array loc; Some (log_value (ValueReleased release v) array) }
       else Some array);
     array2 \<leftarrow> set_bucket array1 loc NULL;
     release_loop release (loc + 1) n array2
   }"

definition CFArrayReleaseValues :: "array_env \<Rightarrow> CFArray \<Rightarrow> CFRange \<Rightarrow> bool \<Rightarrow> CFArray option" where
  "CFArrayReleaseValues E array rg releaseStorageIfPossible =
     (let release = acb_release (CFArrayGetCallBacks E array) in
      case arr_type array of
        ArrayImmutable \<Rightarrow>
          if release \<noteq> NULL \<and> 0 < range_length rg then release_loop release (int (range_location rg)) (range_length rg) array
          else Some array
      | ArrayDeque \<Rightarrow> do {
          array1 \<leftarrow> (if 0 < range_length rg \<and> arr_store array \<noteq> None
            then release_loop release (int (range_location rg)) (range_length rg) array else Some array);
          Some (if releaseStorageIfPossible \<and> range_location rg = 0 \<and> arr_count array1 = int (range_length rg)
            then array1\<lparr>arr_count := 0, arr_store := None\<rparr> else array1)
        })"

definition CFArrayDeallocate :: "array_env \<Rightarrow> CFArray \<Rightarrow> CFArray option" where
  "CFArrayDeallocate E array = CFArrayReleaseValues E array (CFRangeMake 0 (nat (arr_count array))) True"

section \<open>Moving the values of a store\<close>

text \<open>
  \<^verbatim>\<open>__CFArrayRepositionDequeRegions\<close>. \<open>L\<close> and \<open>R\<close> are the numbers of free buckets on the left and on the right; \<open>A\<close>, \<open>B\<close> and \<open>C\<close>
  those of the values before, in and after the range. The four ways to make the gap as large as the new values are first.
\<close>

definition recenter_new ::
    "array_env \<Rightarrow> CFArrayDeque \<Rightarrow> int \<Rightarrow> int \<Rightarrow> int \<Rightarrow> int \<Rightarrow> int \<Rightarrow> int \<Rightarrow> CFArrayDeque option" where
  "recenter_new E deque A B C newCount futureCnt wiggle = do {
     capacity \<leftarrow> CFArrayDequeRoundUpCapacity (futureCnt + wiggle);
     if \<not> ae_alloc E (16 + capacity * 8) then None
     else do {
       let oldL = dq_leftIdx deque;
       let newL = (capacity - futureCnt) sdiv 2;
       let oldC0 = oldL + A + B;
       let newC0 = newL + A + newCount;
       m1 \<leftarrow> (if 0 < A then mem_move (mem_alloc (nat capacity)) newL (dq_buckets deque) oldL A
         else Some (mem_alloc (nat capacity)));
       m2 \<leftarrow> (if 0 < C then mem_move m1 newC0 (dq_buckets deque) oldC0 C else Some m1);
       Some \<lparr>dq_leftIdx = newL, dq_capacity = capacity, dq_buckets = m2\<rparr>
     }
   }"

definition move_C :: "CFArrayDeque \<Rightarrow> int \<Rightarrow> int \<Rightarrow> int \<Rightarrow> int \<Rightarrow> CFArrayDeque option" where
  "move_C deque A B C newCount = do {
     let oldC0 = dq_leftIdx deque + A + B;
     let newC0 = dq_leftIdx deque + A + newCount;
     m1 \<leftarrow> (if 0 < C then mem_move (dq_buckets deque) newC0 (dq_buckets deque) oldC0 C else Some (dq_buckets deque));
     m2 \<leftarrow> (if newC0 < oldC0 then mem_zero m1 (newC0 + C) (oldC0 - newC0) else Some m1);
     Some (deque\<lparr>dq_buckets := m2\<rparr>)
   }"

definition move_A :: "CFArrayDeque \<Rightarrow> int \<Rightarrow> int \<Rightarrow> CFArrayDeque option" where
  "move_A deque A numNewElems = do {
     let oldL = dq_leftIdx deque;
     let newL = oldL - numNewElems;
     m1 \<leftarrow> (if 0 < A then mem_move (dq_buckets deque) newL (dq_buckets deque) oldL A else Some (dq_buckets deque));
     m2 \<leftarrow> (if oldL < newL then mem_zero m1 oldL (newL - oldL) else Some m1);
     Some (deque\<lparr>dq_leftIdx := newL, dq_buckets := m2\<rparr>)
   }"

definition recenter :: "CFArrayDeque \<Rightarrow> int \<Rightarrow> int \<Rightarrow> int \<Rightarrow> int \<Rightarrow> int \<Rightarrow> CFArrayDeque option" where
  "recenter deque A B C R newCount = do {
     let oldL = dq_leftIdx deque;
     let half = (oldL + R - (newCount - B)) sdiv 2;
     let newL = half - half sdiv 2;
     let oldC0 = oldL + A + B;
     let newC0 = newL + A + newCount;
     let m = dq_buckets deque;
     if newL < oldL then do {
       m1 \<leftarrow> (if 0 < A then mem_move m newL m oldL A else Some m);
       m2 \<leftarrow> (if 0 < C then mem_move m1 newC0 m1 oldC0 C else Some m1);
       m3 \<leftarrow> (if newC0 < oldC0 then mem_zero m2 (newC0 + C) (oldC0 - newC0) else Some m2);
       Some (deque\<lparr>dq_leftIdx := newL, dq_buckets := m3\<rparr>)
     }
     else do {
       m1 \<leftarrow> (if 0 < C then mem_move m newC0 m oldC0 C else Some m);
       m2 \<leftarrow> (if 0 < A then mem_move m1 newL m1 oldL A else Some m1);
       m3 \<leftarrow> (if oldL < newL then mem_zero m2 oldL (newL - oldL) else Some m2);
       Some (deque\<lparr>dq_leftIdx := newL, dq_buckets := m3\<rparr>)
     }
   }"

text \<open>The count is compared with the capacity after a conversion to 32 bits.\<close>

definition CFArrayRepositionDequeRegions :: "array_env \<Rightarrow> CFArray \<Rightarrow> CFRange \<Rightarrow> int \<Rightarrow> CFArray option" where
  "CFArrayRepositionDequeRegions E array rg newCount = do {
     deque \<leftarrow> arr_store array;
     let cnt = arr_count array;
     let futureCnt = cnt - int (range_length rg) + newCount;
     let L = dq_leftIdx deque;
     let A = int (range_location rg);
     let B = int (range_length rg);
     let C = cnt - B - A;
     let R = dq_capacity deque - cnt - L;
     let numNewElems = newCount - B;
     let wiggle = max 4 (dq_capacity deque div 2 ^ 17);
     deque1 \<leftarrow>
       (if dq_capacity deque < futureCnt mod 2 ^ 32 \<or> cnt < futureCnt \<and> L + R < wiggle
        then recenter_new E deque A B C newCount futureCnt wiggle
        else if numNewElems < 0 \<and> C < A \<or> numNewElems \<le> R \<and> C < A then move_C deque A B C newCount
        else if numNewElems < 0 \<or> numNewElems \<le> L \<and> A \<le> C then move_A deque A numNewElems
        else recenter deque A B C R newCount);
     Some (array\<lparr>arr_store := Some deque1\<rparr>)
   }"

section \<open>Replacing values\<close>

text \<open>
  \<^verbatim>\<open>_CFArrayReplaceValues\<close>, which does not check its arguments. The new values are retained first, in a buffer that is allocated
  when there are more than 256 of them; the memory of a new store is not checked.
\<close>

definition CFArrayReplaceValues_unchecked :: "array_env \<Rightarrow> CFArray \<Rightarrow> CFRange \<Rightarrow> ptr list \<Rightarrow> CFArray option" where
  "CFArrayReplaceValues_unchecked E array rg newValues =
     (let newCount = int (length newValues);
          futureCnt = arr_count array - int (range_length rg) + newCount;
          retain = acb_retain (CFArrayGetCallBacks E array);
          newv = (if retain \<noteq> NULL then map (ae_retained E retain) newValues else newValues);
          array1 = array\<lparr>arr_mutations := arr_mutations array + 1,
            arr_calls := arr_calls array @ (if retain \<noteq> NULL then map (ValueRetained retain) newValues else [])\<rparr> in
      if futureCnt < newCount then None
      else if retain \<noteq> NULL \<and> 256 < newCount \<and> \<not> ae_alloc E (newCount * 8) then None
      else do {
        array2 \<leftarrow> (if 0 < range_length rg then CFArrayReleaseValues E array1 rg False else Some array1);
        array3 \<leftarrow> (case arr_store array2 of
            None \<Rightarrow> do {
              capacity \<leftarrow> CFArrayDequeRoundUpCapacity futureCnt;
              if \<not> ae_alloc E (16 + capacity * 8) then None
              else Some (array2\<lparr>arr_store := Some \<lparr>dq_leftIdx = (capacity - newCount) sdiv 2, dq_capacity = capacity,
                dq_buckets = mem_alloc (nat capacity)\<rparr>\<rparr>)
            }
          | Some _ \<Rightarrow> if int (range_length rg) \<noteq> newCount then CFArrayRepositionDequeRegions E array2 rg newCount else Some array2);
        array4 \<leftarrow> (if 0 < newCount
          then do {
            deque \<leftarrow> arr_store array3;
            m \<leftarrow> mem_move (dq_buckets deque) (dq_leftIdx deque + int (range_location rg)) (map Some newv) 0 newCount;
            Some (array3\<lparr>arr_store := Some (deque\<lparr>dq_buckets := m\<rparr>)\<rparr>)
          }
          else Some array3);
        Some (array4\<lparr>arr_count := futureCnt\<rparr>)
      })"

definition valid_range :: "CFArray \<Rightarrow> CFRange \<Rightarrow> bool" where
  "valid_range array rg \<longleftrightarrow> int (range_location rg + range_length rg) \<le> arr_count array"

definition CFArrayReplaceValues :: "array_env \<Rightarrow> CFArray \<Rightarrow> CFRange \<Rightarrow> ptr list \<Rightarrow> CFArray option" where
  "CFArrayReplaceValues E array rg newValues =
     (if \<not> valid_range array rg \<or> arr_type array = ArrayImmutable then None
      else CFArrayReplaceValues_unchecked E array rg newValues)"

section \<open>Reading\<close>

abbreviation kCFNotFound :: int where
  "kCFNotFound \<equiv> - 1"

definition CFArrayGetCount :: "CFArray \<Rightarrow> int" where
  "CFArrayGetCount array = arr_count array"

definition CFArrayHash :: "CFArray \<Rightarrow> int" where
  "CFArrayHash array = arr_count array"

definition CFArrayGetValueAtIndex :: "CFArray \<Rightarrow> int \<Rightarrow> ptr option" where
  "CFArrayGetValueAtIndex array idx = (if 0 \<le> idx \<and> idx < arr_count array then get_bucket array idx else None)"

definition CFArrayCheckAndGetValueAtIndex :: "CFArray \<Rightarrow> int \<Rightarrow> ptr option" where
  "CFArrayCheckAndGetValueAtIndex array idx =
     (if 0 \<le> idx \<and> idx < arr_count array then get_bucket array idx else Some (- 1))"

definition CFArrayGetValues :: "CFArray \<Rightarrow> CFRange \<Rightarrow> ptr list option" where
  "CFArrayGetValues array rg =
     (if \<not> valid_range array rg then None
      else if range_length rg = 0 then Some []
      else do {
        (m, base) \<leftarrow> CFArrayGetBucketsPtr array;
        cells \<leftarrow> mem_move (mem_alloc (range_length rg)) 0 m (base + int (range_location rg)) (int (range_length rg));
        those cells
      })"

definition value_matches :: "array_env \<Rightarrow> CFArray \<Rightarrow> ptr \<Rightarrow> ptr \<Rightarrow> bool" where
  "value_matches E array value item \<longleftrightarrow> value = item \<or>
     (let equal = acb_equal (CFArrayGetCallBacks E array) in equal \<noteq> NULL \<and> ae_equal E equal value item)"

fun count_loop :: "(ptr \<Rightarrow> bool) \<Rightarrow> CFArray \<Rightarrow> int \<Rightarrow> nat \<Rightarrow> int \<Rightarrow> int option" where
  "count_loop eq array idx 0 found = Some found"
| "count_loop eq array idx (Suc n) found = do {
     item \<leftarrow> CFArrayGetValueAtIndex array idx;
     count_loop eq array (idx + 1) n (if eq item then found + 1 else found)
   }"

definition CFArrayGetCountOfValue :: "array_env \<Rightarrow> CFArray \<Rightarrow> CFRange \<Rightarrow> ptr \<Rightarrow> int option" where
  "CFArrayGetCountOfValue E array rg value =
     (if valid_range array rg
      then count_loop (value_matches E array value) array (int (range_location rg)) (range_length rg) 0 else None)"

fun first_loop :: "(ptr \<Rightarrow> bool) \<Rightarrow> CFArray \<Rightarrow> int \<Rightarrow> nat \<Rightarrow> int option" where
  "first_loop eq array idx 0 = Some kCFNotFound"
| "first_loop eq array idx (Suc n) = do {
     item \<leftarrow> CFArrayGetValueAtIndex array idx;
     if eq item then Some idx else first_loop eq array (idx + 1) n
   }"

definition CFArrayGetFirstIndexOfValue :: "array_env \<Rightarrow> CFArray \<Rightarrow> CFRange \<Rightarrow> ptr \<Rightarrow> int option" where
  "CFArrayGetFirstIndexOfValue E array rg value =
     (if valid_range array rg
      then first_loop (value_matches E array value) array (int (range_location rg)) (range_length rg) else None)"

definition CFArrayContainsValue :: "array_env \<Rightarrow> CFArray \<Rightarrow> CFRange \<Rightarrow> ptr \<Rightarrow> bool option" where
  "CFArrayContainsValue E array rg value =
     (if valid_range array rg
      then map_option (\<lambda>i. i \<noteq> kCFNotFound) (first_loop (value_matches E array value) array (int (range_location rg)) (range_length rg))
      else None)"

fun last_loop :: "(ptr \<Rightarrow> bool) \<Rightarrow> CFArray \<Rightarrow> int \<Rightarrow> nat \<Rightarrow> int option" where
  "last_loop eq array loc 0 = Some kCFNotFound"
| "last_loop eq array loc (Suc idx) = do {
     item \<leftarrow> CFArrayGetValueAtIndex array (loc + int idx);
     if eq item then Some (int idx + loc) else last_loop eq array loc idx
   }"

definition CFArrayGetLastIndexOfValue :: "array_env \<Rightarrow> CFArray \<Rightarrow> CFRange \<Rightarrow> ptr \<Rightarrow> int option" where
  "CFArrayGetLastIndexOfValue E array rg value =
     (if valid_range array rg
      then last_loop (value_matches E array value) array (int (range_location rg)) (range_length rg) else None)"

fun apply_loop :: "(ptr \<Rightarrow> 's \<Rightarrow> 's) \<Rightarrow> CFArray \<Rightarrow> int \<Rightarrow> nat \<Rightarrow> 's \<Rightarrow> 's option" where
  "apply_loop applier array idx 0 s = Some s"
| "apply_loop applier array idx (Suc n) s = do {
     item \<leftarrow> CFArrayGetValueAtIndex array idx;
     apply_loop applier array (idx + 1) n (applier item s)
   }"

definition CFArrayApplyFunction :: "(ptr \<Rightarrow> 's \<Rightarrow> 's) \<Rightarrow> CFArray \<Rightarrow> CFRange \<Rightarrow> 's \<Rightarrow> 's option" where
  "CFArrayApplyFunction applier array rg s =
     (if valid_range array rg then apply_loop applier array (int (range_location rg)) (range_length rg) s else None)"

fun equal_loop :: "(ptr \<Rightarrow> ptr \<Rightarrow> bool) \<Rightarrow> CFArray \<Rightarrow> CFArray \<Rightarrow> int \<Rightarrow> nat \<Rightarrow> bool option" where
  "equal_loop eq array1 array2 idx 0 = Some True"
| "equal_loop eq array1 array2 idx (Suc n) = do {
     val1 \<leftarrow> get_bucket array1 idx;
     val2 \<leftarrow> get_bucket array2 idx;
     if val1 \<noteq> val2 \<and> \<not> eq val1 val2 then Some False else equal_loop eq array1 array2 (idx + 1) n
   }"

definition CFArrayEqual :: "array_env \<Rightarrow> CFArray \<Rightarrow> CFArray \<Rightarrow> bool option" where
  "CFArrayEqual E array1 array2 =
     (let equal = acb_equal (CFArrayGetCallBacks E array1) in
      if arr_count array1 \<noteq> arr_count array2 then Some False
      else if equal \<noteq> acb_equal (CFArrayGetCallBacks E array2) then Some False
      else equal_loop (\<lambda>v1 v2. equal \<noteq> NULL \<and> ae_equal E equal v1 v2) array1 array2 0 (nat (arr_count array1)))"

text \<open>The binary search: \<open>lg\<close> is the binary logarithm of the length, \<open>idx\<close> the probe.\<close>

fun bsearch_loop :: "(ptr \<Rightarrow> bool) \<Rightarrow> CFArray \<Rightarrow> int \<Rightarrow> nat \<Rightarrow> int \<Rightarrow> int option" where
  "bsearch_loop below array loc 0 idx = Some idx"
| "bsearch_loop below array loc (Suc lg) idx = do {
     item \<leftarrow> CFArrayGetValueAtIndex array (loc + idx + 2 ^ lg);
     bsearch_loop below array loc lg (if below item then idx + 2 ^ lg else idx)
   }"

definition CFArrayBSearchValues :: "CFArray \<Rightarrow> CFRange \<Rightarrow> ptr \<Rightarrow> (ptr \<Rightarrow> ptr \<Rightarrow> CFComparisonResult) \<Rightarrow> int option" where
  "CFArrayBSearchValues array rg value comparator =
     (let loc = int (range_location rg); len = int (range_length rg); lg = flsl (range_length rg) - 1;
          below = (\<lambda>item. comparator item value = kCFCompareLessThan) in
      if \<not> valid_range array rg then None
      else if len = 0 then Some loc
      else do {
        item \<leftarrow> CFArrayGetValueAtIndex array (loc + len - 1);
        if below item then Some (loc + len)
        else do {
          item \<leftarrow> CFArrayGetValueAtIndex array loc;
          if comparator value item = kCFCompareLessThan then Some loc
          else if 31 \<le> lg then None
          else do {
            item \<leftarrow> CFArrayGetValueAtIndex array (loc - 1 + 2 ^ lg);
            idx \<leftarrow> bsearch_loop below array loc lg (if below item then len - 2 ^ lg else - 1);
            Some (idx + 1 + loc)
          }
        }
      })"

section \<open>Changing single values\<close>

definition CFArrayAppendValue :: "array_env \<Rightarrow> CFArray \<Rightarrow> ptr \<Rightarrow> CFArray option" where
  "CFArrayAppendValue E array value =
     (if arr_type array = ArrayImmutable then None
      else CFArrayReplaceValues_unchecked E array (CFRangeMake (nat (arr_count array)) 0) [value])"

definition CFArraySetValueAtIndex :: "array_env \<Rightarrow> CFArray \<Rightarrow> int \<Rightarrow> ptr \<Rightarrow> CFArray option" where
  "CFArraySetValueAtIndex E array idx value =
     (if arr_type array = ArrayImmutable \<or> \<not> (0 \<le> idx \<and> idx \<le> arr_count array) then None
      else if idx = arr_count array then CFArrayReplaceValues_unchecked E array (CFRangeMake (nat idx) 0) [value]
      else do {
        let cb = CFArrayGetCallBacks E array;
        let array1 = (if acb_retain cb \<noteq> NULL then log_value (ValueRetained (acb_retain cb) value) array else array);
        old_value \<leftarrow> get_bucket array1 idx;
        array2 \<leftarrow> set_bucket array1 idx (if acb_retain cb \<noteq> NULL then ae_retained E (acb_retain cb) value else value);
        let array3 = (if acb_release cb \<noteq> NULL then log_value (ValueReleased (acb_release cb) old_value) array2 else array2);
        Some (array3\<lparr>arr_mutations := arr_mutations array3 + 1\<rparr>)
      })"

definition CFArrayInsertValueAtIndex :: "array_env \<Rightarrow> CFArray \<Rightarrow> int \<Rightarrow> ptr \<Rightarrow> CFArray option" where
  "CFArrayInsertValueAtIndex E array idx value =
     (if arr_type array = ArrayImmutable \<or> \<not> (0 \<le> idx \<and> idx \<le> arr_count array) then None
      else CFArrayReplaceValues_unchecked E array (CFRangeMake (nat idx) 0) [value])"

definition CFArrayExchangeValuesAtIndices :: "CFArray \<Rightarrow> int \<Rightarrow> int \<Rightarrow> CFArray option" where
  "CFArrayExchangeValuesAtIndices array idx1 idx2 =
     (if \<not> (0 \<le> idx1 \<and> idx1 < arr_count array) \<or> \<not> (0 \<le> idx2 \<and> idx2 < arr_count array) \<or> arr_type array = ArrayImmutable then None
      else do {
        tmp \<leftarrow> get_bucket array idx1;
        v \<leftarrow> get_bucket array idx2;
        array1 \<leftarrow> set_bucket array idx1 v;
        array2 \<leftarrow> set_bucket array1 idx2 tmp;
        Some (array2\<lparr>arr_mutations := arr_mutations array2 + 1\<rparr>)
      })"

definition CFArrayRemoveValueAtIndex :: "array_env \<Rightarrow> CFArray \<Rightarrow> int \<Rightarrow> CFArray option" where
  "CFArrayRemoveValueAtIndex E array idx =
     (if arr_type array = ArrayImmutable \<or> \<not> (0 \<le> idx \<and> idx < arr_count array) then None
      else CFArrayReplaceValues_unchecked E array (CFRangeMake (nat idx) 1) [])"

definition CFArrayRemoveAllValues :: "array_env \<Rightarrow> CFArray \<Rightarrow> CFArray option" where
  "CFArrayRemoveAllValues E array =
     (if arr_type array = ArrayImmutable then None
      else do {
        array1 \<leftarrow> CFArrayReleaseValues E array (CFRangeMake 0 (nat (arr_count array))) True;
        Some (array1\<lparr>arr_count := 0, arr_mutations := arr_mutations array1 + 1\<rparr>)
      })"

text \<open>
  \<^verbatim>\<open>_CFArraySetCapacity\<close>. The new store has the rounded capacity that was asked for, and all buckets of the old store are
  copied into it.
\<close>

definition CFArraySetCapacity :: "array_env \<Rightarrow> CFArray \<Rightarrow> int \<Rightarrow> CFArray option" where
  "CFArraySetCapacity E array cap =
     (if arr_type array = ArrayImmutable \<or> cap < arr_count array then None
      else do {
        capacity \<leftarrow> CFArrayDequeRoundUpCapacity cap;
        if \<not> ae_alloc E (16 + capacity * 8) then None
        else (case arr_store array of
            None \<Rightarrow> Some (array\<lparr>arr_store := Some \<lparr>dq_leftIdx = capacity sdiv 2, dq_capacity = capacity,
              dq_buckets = mem_alloc (nat capacity)\<rparr>\<rparr>)
          | Some olddeque \<Rightarrow> do {
              m \<leftarrow> mem_move (mem_alloc (nat capacity)) 0 (dq_buckets olddeque) 0 (dq_capacity olddeque);
              Some (array\<lparr>arr_store := Some \<lparr>dq_leftIdx = dq_leftIdx olddeque, dq_capacity = capacity, dq_buckets = m\<rparr>\<rparr>)
            })
      })"

section \<open>Sorting and appending\<close>

text \<open>\<^verbatim>\<open>__CFZSort\<close> and \<^verbatim>\<open>CFArraySortValues\<close> on an array; \<open>CFZSort\<close> and \<open>CFArraySortValues\<close> are the same on a list of values.\<close>

fun array_zsort_pass :: "(ptr \<Rightarrow> ptr \<Rightarrow> CFComparisonResult) \<Rightarrow> nat \<Rightarrow> nat \<Rightarrow> CFArray \<Rightarrow> CFArray option" where
  "array_zsort_pass comparator idx 0 array = Some array"
| "array_zsort_pass comparator idx (Suc n) array = do {
     a \<leftarrow> CFArrayGetValueAtIndex array (int idx);
     b \<leftarrow> CFArrayGetValueAtIndex array (int (idx + 1));
     array1 \<leftarrow> (if comparator b a = kCFCompareLessThan
       then CFArrayExchangeValuesAtIndices array (int idx) (int (idx + 1)) else Some array);
     array_zsort_pass comparator (idx + 1) n array1
   }"

fun array_zsort :: "(ptr \<Rightarrow> ptr \<Rightarrow> CFComparisonResult) \<Rightarrow> nat \<Rightarrow> nat \<Rightarrow> CFArray \<Rightarrow> CFArray option" where
  "array_zsort comparator loc 0 array = Some array"
| "array_zsort comparator loc (Suc cnt) array =
     (if cnt = 0 then Some array
      else do { array1 \<leftarrow> array_zsort_pass comparator loc cnt array; array_zsort comparator loc cnt array1 })"

definition array_sort :: "array_env \<Rightarrow> CFArray \<Rightarrow> CFRange \<Rightarrow> (ptr \<Rightarrow> ptr \<Rightarrow> CFComparisonResult) \<Rightarrow> CFArray option" where
  "array_sort E array rg comparator =
     (let immutable = (arr_type array = ArrayImmutable); cb = CFArrayGetCallBacks E array; len = range_length rg in
      if \<not> valid_range array rg then None
      else if \<not> immutable \<and> (acb_retain cb \<noteq> NULL) \<noteq> (acb_release cb \<noteq> NULL)
      then array_zsort comparator (range_location rg) len array
      else if len < 2 then Some array
      else if 256 < len \<and> \<not> ae_alloc E (int len * 8) then None
      else do {
        values \<leftarrow> CFArrayGetValues array rg;
        sorted \<leftarrow> CFQSortArray comparator values;
        if immutable then Some array else CFArrayReplaceValues E array rg sorted
      })"

text \<open>Appending values of another array, or, for \<open>None\<close>, of the array itself.\<close>

fun append_loop :: "array_env \<Rightarrow> CFArray option \<Rightarrow> int \<Rightarrow> nat \<Rightarrow> CFArray \<Rightarrow> CFArray option" where
  "append_loop E otherArray idx 0 array = Some array"
| "append_loop E otherArray idx (Suc n) array = do {
     value \<leftarrow> CFArrayGetValueAtIndex (case otherArray of None \<Rightarrow> array | Some other \<Rightarrow> other) idx;
     array1 \<leftarrow> CFArrayAppendValue E array value;
     append_loop E otherArray (idx + 1) n array1
   }"

definition CFArrayAppendArray :: "array_env \<Rightarrow> CFArray \<Rightarrow> CFArray option \<Rightarrow> CFRange \<Rightarrow> CFArray option" where
  "CFArrayAppendArray E array otherArray otherRange =
     (if valid_range (case otherArray of None \<Rightarrow> array | Some other \<Rightarrow> other) otherRange
      then append_loop E otherArray (int (range_location otherRange)) (range_length otherRange) array else None)"

section \<open>Creation\<close>

text \<open>
  \<^verbatim>\<open>__CFArrayInit\<close>; \<open>None\<close> is the null pointer. The size of the memory behind the runtime's header is a 32-bit number: 32 bytes for the
  fields, 40 for custom callbacks, and the buckets of an immutable array.
\<close>

definition header_size :: "array_cb_type \<Rightarrow> int" where
  "header_size cbtype = (if cbtype = ArrayCustomCallBacks then 72 else 32)"

definition CFArrayInit :: "array_env \<Rightarrow> array_type \<Rightarrow> int \<Rightarrow> CFArrayCallBacks option \<Rightarrow> CFArray option" where
  "CFArrayInit E type capacity callBacks =
     (let cbtype = (if CFArrayCallBacksMatchNull callBacks then ArrayNullCallBacks
            else if CFArrayCallBacksMatchCFType E callBacks then ArrayCFTypeCallBacks else ArrayCustomCallBacks);
          size = (case type of
              ArrayImmutable \<Rightarrow> (header_size cbtype + capacity * 8) mod 2 ^ 32
            | ArrayDeque \<Rightarrow> header_size cbtype) in
      if \<not> ae_alloc E size then None
      else Some \<lparr>arr_type = type, arr_cbtype = cbtype,
        arr_custom = (case callBacks of None \<Rightarrow> kCFNullArrayCallBacks | Some cb \<Rightarrow> cb), arr_count = 0,
        arr_mutations = (case type of ArrayImmutable \<Rightarrow> 0 | ArrayDeque \<Rightarrow> 1),
        arr_inline = mem_alloc (nat ((size - header_size cbtype) div 8)), arr_store = None, arr_calls = []\<rparr>)"

fun fill_loop :: "array_env \<Rightarrow> nat \<Rightarrow> ptr list \<Rightarrow> CFArray \<Rightarrow> CFArray option" where
  "fill_loop E idx [] array = Some array"
| "fill_loop E idx (v # vs) array = do {
     let retain = acb_retain (CFArrayGetCallBacks E array);
     let array1 = (if retain \<noteq> NULL then log_value (ValueRetained retain v) array else array);
     m \<leftarrow> wr (arr_inline array1) idx (if retain \<noteq> NULL then ae_retained E retain v else v);
     fill_loop E (idx + 1) vs (array1\<lparr>arr_inline := m\<rparr>)
   }"

definition CFArrayCreate :: "array_env \<Rightarrow> ptr list \<Rightarrow> CFArrayCallBacks option \<Rightarrow> CFArray option" where
  "CFArrayCreate E values callBacks = do {
     result \<leftarrow> CFArrayInit E ArrayImmutable (int (length values)) callBacks;
     result1 \<leftarrow> fill_loop E 0 values result;
     Some (result1\<lparr>arr_count := int (length values)\<rparr>)
   }"

definition CFArrayCreateMutable :: "array_env \<Rightarrow> int \<Rightarrow> CFArrayCallBacks option \<Rightarrow> CFArray option option" where
  "CFArrayCreateMutable E capacity callBacks =
     (if capacity < 0 \<or> (2 ^ 63 - 1) div 8 < capacity then None else Some (CFArrayInit E ArrayDeque capacity callBacks))"

fun read_values :: "CFArray \<Rightarrow> int \<Rightarrow> nat \<Rightarrow> ptr list option" where
  "read_values array idx 0 = Some []"
| "read_values array idx (Suc n) = do {
     v \<leftarrow> CFArrayGetValueAtIndex array idx;
     vs \<leftarrow> read_values array (idx + 1) n;
     Some (v # vs)
   }"

text \<open>The values of the original are read one by one; the original does not change while they are copied.\<close>

definition CFArrayCreateCopy :: "array_env \<Rightarrow> CFArray \<Rightarrow> CFArray option" where
  "CFArrayCreateCopy E array = do {
     let numValues = arr_count array;
     result \<leftarrow> CFArrayInit E ArrayImmutable numValues (Some (CFArrayGetCallBacks E array));
     values \<leftarrow> read_values array 0 (nat numValues);
     result1 \<leftarrow> fill_loop E 0 values result;
     Some (result1\<lparr>arr_count := numValues\<rparr>)
   }"

definition CFArrayCreateMutableCopy :: "array_env \<Rightarrow> int \<Rightarrow> CFArray \<Rightarrow> CFArray option" where
  "CFArrayCreateMutableCopy E capacity array = do {
     let numValues = arr_count array;
     result \<leftarrow> CFArrayInit E ArrayDeque capacity (Some (CFArrayGetCallBacks E array));
     result1 \<leftarrow> (if capacity = 0 then CFArraySetCapacity E result numValues else Some result);
     append_loop E (Some array) 0 (nat numValues) result1
   }"

end
