(* ===== verification/CF_Array_Deque.thy ===== *)
theory CF_Array_Deque
  imports CF_Array
begin

text \<open>
  What the memory of an array holds, and that the operations on it keep this: moving values inside a store, releasing
  values, and replacing a range, which is the operation that all changes of a mutable array rest on.
\<close>

section \<open>Cells\<close>

definition holds :: "'a mem \<Rightarrow> int \<Rightarrow> 'a list \<Rightarrow> bool" where
  "holds m i xs \<longleftrightarrow> 0 \<le> i \<and> i + int (length xs) \<le> int (length m) \<and> (\<forall>k < length xs. m ! (nat i + k) = Some (xs ! k))"

lemma holdsD:
  assumes "holds m i xs"
  shows "0 \<le> i" "i + int (length xs) \<le> int (length m)" "k < length xs \<Longrightarrow> m ! (nat i + k) = Some (xs ! k)"
  using assms by (simp_all add: holds_def)

lemma holds_Nil [simp]: "holds m i [] \<longleftrightarrow> 0 \<le> i \<and> i \<le> int (length m)"
  by (simp add: holds_def)

lemma holds_append: "holds m i (xs @ ys) \<longleftrightarrow> holds m i xs \<and> holds m (i + int (length xs)) ys"
proof
  assume h: "holds m i (xs @ ys)"
  have "m ! (nat (i + int (length xs)) + k) = Some (ys ! k)" if "k < length ys" for k
    using holdsD(3)[OF h, of "length xs + k"] holdsD(1)[OF h] that by (simp add: nat_add_distrib nth_append add.assoc)
  moreover have "m ! (nat i + k) = Some (xs ! k)" if "k < length xs" for k
    using holdsD(3)[OF h, of k] that by (simp add: nth_append)
  ultimately show "holds m i xs \<and> holds m (i + int (length xs)) ys" using holdsD(1,2)[OF h] by (simp add: holds_def)
next
  assume h: "holds m i xs \<and> holds m (i + int (length xs)) ys"
  have "m ! (nat i + k) = Some ((xs @ ys) ! k)" if "k < length (xs @ ys)" for k
  proof (cases "k < length xs")
    case True
    then show ?thesis using h by (simp add: holds_def nth_append)
  next
    case False
    then have "m ! (nat (i + int (length xs)) + (k - length xs)) = Some (ys ! (k - length xs))"
      using h that holdsD(3)[of m "i + int (length xs)" ys "k - length xs"] by simp
    moreover have "nat (i + int (length xs)) + (k - length xs) = nat i + k" using h False by (simp add: holds_def nat_add_distrib)
    ultimately show ?thesis using False by (simp add: nth_append)
  qed
  then show "holds m i (xs @ ys)" using h by (simp add: holds_def)
qed

lemma holds_map_Some: "holds (map Some xs) 0 xs"
  by (simp add: holds_def)

lemma holds_update: "holds m i xs \<Longrightarrow> k < length xs \<Longrightarrow> holds (m[nat i + k := Some v]) i (xs[k := v])"
  by (auto simp: holds_def nth_list_update)

lemma mem_move_cells:
  assumes "0 \<le> d" "0 \<le> s" "0 \<le> n" "d + n \<le> int (length dest)" "s + n \<le> int (length src)"
  obtains m where "mem_move dest d src s n = Some m" "length m = length dest"
    "\<And>k. k < length dest \<Longrightarrow> m ! k = (if d \<le> int k \<and> int k < d + n then src ! nat (s + (int k - d)) else dest ! k)"
proof
  let ?m = "take (nat d) dest @ take (nat n) (drop (nat s) src) @ drop (nat (d + n)) dest"
  show "mem_move dest d src s n = Some ?m" using assms by (simp add: mem_move_def)
  have l: "length (take (nat d) dest) = nat d" "length (take (nat n) (drop (nat s) src)) = nat n" using assms by auto
  show "length ?m = length dest" using l assms by (simp add: nat_add_distrib)
  show "?m ! k = (if d \<le> int k \<and> int k < d + n then src ! nat (s + (int k - d)) else dest ! k)" if "k < length dest" for k
  proof -
    consider "int k < d" | "d \<le> int k" "int k < d + n" | "d + n \<le> int k" by linarith
    then show ?thesis
    proof cases
      case 1
      then show ?thesis using l by (simp add: nth_append)
    next
      case 2
      then have k: "\<not> k < nat d" "k - nat d < nat n" using assms by auto
      have "nat s + (k - nat d) = nat (s + (int k - d))" using assms 2 by linarith
      moreover have "drop (nat s) src ! (k - nat d) = src ! (nat s + (k - nat d))" by (rule nth_drop) (use assms in auto)
      ultimately show ?thesis using 2 k l by (simp add: nth_append)
    next
      case 3
      then have k: "\<not> k < nat d" "\<not> k - nat d < nat n" using assms by auto
      have "nat (d + n) + (k - nat d - nat n) = k" using assms 3 by linarith
      then show ?thesis using 3 k l assms that by (simp add: nth_append)
    qed
  qed
qed

text \<open>A move of values, which is skipped when there are none, keeps what lies beside its destination.\<close>

lemma move_holds:
  assumes "holds src s xs" "0 \<le> d" "d + int (length xs) \<le> int (length dest)"
  obtains m where "(if 0 < int (length xs) then mem_move dest d src s (int (length xs)) else Some dest) = Some m"
    "length m = length dest" "holds m d xs"
    "\<And>j ys. holds dest j ys \<Longrightarrow> j + int (length ys) \<le> d \<or> d + int (length xs) \<le> j \<Longrightarrow> holds m j ys"
proof (cases "xs = []")
  case True
  then show ?thesis using that[of dest] assms by simp
next
  case False
  obtain m where m: "mem_move dest d src s (int (length xs)) = Some m" "length m = length dest"
    "\<And>k. k < length dest \<Longrightarrow> m ! k = (if d \<le> int k \<and> int k < d + int (length xs) then src ! nat (s + (int k - d)) else dest ! k)"
    by (rule mem_move_cells[of d s "int (length xs)" dest src]) (use assms holdsD(1,2)[OF assms(1)] in auto)
  have "holds m d xs"
    unfolding holds_def
  proof (intro conjI allI impI)
    fix k
    assume k: "k < length xs"
    then have "m ! (nat d + k) = src ! nat (s + int k)" using m(3)[of "nat d + k"] assms(2,3) by simp
    also have "nat (s + int k) = nat s + k" using holdsD(1)[OF assms(1)] by simp
    finally show "m ! (nat d + k) = Some (xs ! k)" using holdsD(3)[OF assms(1) k] by simp
  qed (use assms m(2) in auto)
  moreover have "holds m j ys" if j: "holds dest j ys" "j + int (length ys) \<le> d \<or> d + int (length xs) \<le> j" for j ys
    unfolding holds_def
  proof (intro conjI allI impI)
    fix k
    assume k: "k < length ys"
    then have "nat j + k < length dest" "\<not> (d \<le> int (nat j + k) \<and> int (nat j + k) < d + int (length xs))"
      using holdsD(1,2)[OF j(1)] j(2) by auto
    then have "m ! (nat j + k) = dest ! (nat j + k)" by (subst m(3)) (simp_all only: if_False)
    then show "m ! (nat j + k) = Some (ys ! k)" using holdsD(3)[OF j(1) k] by simp
  qed (use holdsD(1,2)[OF j(1)] m(2) in auto)
  ultimately show ?thesis using that m(1,2) False by simp
qed

lemma zero_keeps:
  assumes "c \<Longrightarrow> 0 \<le> d \<and> 0 \<le> n \<and> d + n \<le> int (length m)"
  obtains m' where "(if c then mem_zero m d n else Some m) = Some m'" "length m' = length m"
    "\<And>j ys. holds m j ys \<Longrightarrow> c \<longrightarrow> j + int (length ys) \<le> d \<or> d + n \<le> j \<Longrightarrow> holds m' j ys"
proof (cases "c \<and> 0 < n")
  case True
  let ?z = "replicate (nat n) NULL"
  have z: "holds (replicate (nat n) (Some NULL)) 0 ?z" by (simp add: holds_def)
  have n: "int (length ?z) = n" using assms True by simp
  have dm: "0 \<le> d" "d + n \<le> int (length m)" using assms True by auto
  from move_holds[OF z, of d m, unfolded n, OF dm] obtain m' where m': "(if 0 < n then mem_move m d (replicate (nat n) (Some NULL)) 0 n else Some m) = Some m'"
    "length m' = length m" "\<And>j ys. holds m j ys \<Longrightarrow> j + int (length ys) \<le> d \<or> d + n \<le> j \<Longrightarrow> holds m' j ys"
    by blast
  show ?thesis by (rule that[of m']) (use m' True in \<open>auto simp: mem_zero_def\<close>)
next
  case False
  have "(if c then mem_zero m d n else Some m) = Some m"
    using False assms by (auto simp: mem_zero_def mem_move_def)
  then show ?thesis using that[of m] by simp
qed

section \<open>A gap in a store\<close>

text \<open>The values \<open>as\<close>, then \<open>g\<close> buckets with anything, then the values \<open>cs\<close>.\<close>

definition gapped :: "CFArrayDeque \<Rightarrow> ptr list \<Rightarrow> int \<Rightarrow> ptr list \<Rightarrow> bool" where
  "gapped d as g cs \<longleftrightarrow> int (length (dq_buckets d)) = dq_capacity d \<and> dq_capacity d \<le> 2 ^ 30 \<and>
     holds (dq_buckets d) (dq_leftIdx d) as \<and> holds (dq_buckets d) (dq_leftIdx d + int (length as) + g) cs"

lemma gappedD:
  assumes "gapped d as g cs"
  shows "int (length (dq_buckets d)) = dq_capacity d" "dq_capacity d \<le> 2 ^ 30" "holds (dq_buckets d) (dq_leftIdx d) as"
    "holds (dq_buckets d) (dq_leftIdx d + int (length as) + g) cs" "0 \<le> dq_leftIdx d"
    "dq_leftIdx d + int (length as) + g + int (length cs) \<le> dq_capacity d"
  using assms by (auto simp: gapped_def dest: holdsD(1,2))

lemma round_up_capacity:
  assumes "0 \<le> n" "n < 2 ^ 30"
  shows "\<exists>c. CFArrayDequeRoundUpCapacity n = Some c \<and> n < c \<and> c \<le> 2 ^ 30"
proof (cases "n < 4")
  case False
  have "nat n < 2 ^ 30" using assms by simp
  then have f: "flsl (nat n) \<le> 30" by (simp add: flsl_le_iff)
  have "int (nat n) < int (2 ^ flsl (nat n))" using flsl_upper[of "nat n"] by (simp only: of_nat_less_iff)
  then have "n < 2 ^ flsl (nat n)" using assms(1) by simp
  moreover have "(2::int) ^ flsl (nat n) \<le> 2 ^ 30" using f by (rule power_increasing) simp
  ultimately show ?thesis using False f by (simp add: CFArrayDequeRoundUpCapacity_def)
qed (simp add: CFArrayDequeRoundUpCapacity_def)

lemma sdiv2: "0 \<le> x \<Longrightarrow> x sdiv 2 = x div (2::int)"
  by (simp add: signed_divide_int_def sgn_if)

lemma recenter_new_gap:
  assumes "gapped d as B cs" "0 \<le> newCount" "0 \<le> B" "futureCnt = int (length as) + newCount + int (length cs)"
    "0 \<le> wiggle" "futureCnt + wiggle < 2 ^ 30" "\<And>k. ae_alloc E k"
  shows "\<exists>d'. recenter_new E d (int (length as)) B (int (length cs)) newCount futureCnt wiggle = Some d' \<and> gapped d' as newCount cs"
proof -
  obtain cap where cap: "CFArrayDequeRoundUpCapacity (futureCnt + wiggle) = Some cap" "futureCnt + wiggle < cap" "cap \<le> 2 ^ 30"
    using round_up_capacity[of "futureCnt + wiggle"] assms by auto
  let ?L = "(cap - futureCnt) sdiv 2"
  have L: "?L = (cap - futureCnt) div 2" using cap assms by (intro sdiv2) simp
  then have b: "0 \<le> ?L" "?L + futureCnt \<le> cap" using cap(2) assms(5) by auto
  have len: "int (length (mem_alloc (nat cap) :: ptr mem)) = cap" using cap assms by simp
  obtain m1 where m1: "(if 0 < int (length as) then mem_move (mem_alloc (nat cap)) ?L (dq_buckets d) (dq_leftIdx d) (int (length as))
      else Some (mem_alloc (nat cap))) = Some m1" "length m1 = length (mem_alloc (nat cap) :: ptr mem)" "holds m1 ?L as"
    by (rule move_holds[OF gappedD(3)[OF assms(1)] b(1), of "mem_alloc (nat cap)"]) (use len b assms in auto)
  obtain m2 where m2: "(if 0 < int (length cs) then mem_move m1 (?L + int (length as) + newCount) (dq_buckets d)
      (dq_leftIdx d + int (length as) + B) (int (length cs)) else Some m1) = Some m2" "length m2 = length m1"
    "holds m2 (?L + int (length as) + newCount) cs"
    "\<And>j ys. holds m1 j ys \<Longrightarrow> j + int (length ys) \<le> ?L + int (length as) + newCount \<or>
       ?L + int (length as) + newCount + int (length cs) \<le> j \<Longrightarrow> holds m2 j ys"
    by (rule move_holds[OF gappedD(4)[OF assms(1)], of "?L + int (length as) + newCount" m1]) (use len b m1(2) assms in auto)
  have "holds m2 ?L as" using m2(4)[OF m1(3)] assms(2) by simp
  then show ?thesis using cap m1(1,2) m2(1-3) len assms(7) by (simp add: recenter_new_def Let_def gapped_def)
qed

lemma move_C_gap:
  assumes "gapped d as B cs" "0 \<le> newCount" "0 \<le> B" "dq_leftIdx d + int (length as) + newCount + int (length cs) \<le> dq_capacity d"
  shows "\<exists>d'. move_C d (int (length as)) B (int (length cs)) newCount = Some d' \<and> gapped d' as newCount cs"
proof -
  note g = gappedD[OF assms(1)]
  let ?old = "dq_leftIdx d + int (length as) + B" and ?new = "dq_leftIdx d + int (length as) + newCount"
  obtain m1 where m1: "(if 0 < int (length cs) then mem_move (dq_buckets d) ?new (dq_buckets d) ?old (int (length cs))
      else Some (dq_buckets d)) = Some m1" "length m1 = length (dq_buckets d)" "holds m1 ?new cs"
    "\<And>j ys. holds (dq_buckets d) j ys \<Longrightarrow> j + int (length ys) \<le> ?new \<or> ?new + int (length cs) \<le> j \<Longrightarrow> holds m1 j ys"
    by (rule move_holds[OF g(4), of ?new "dq_buckets d"]) (use g assms in auto)
  obtain m2 where m2: "(if ?new < ?old then mem_zero m1 (?new + int (length cs)) (?old - ?new) else Some m1) = Some m2"
    "length m2 = length m1" "\<And>j ys. holds m1 j ys \<Longrightarrow> ?new < ?old \<longrightarrow> j + int (length ys) \<le> ?new + int (length cs) \<or>
       ?new + int (length cs) + (?old - ?new) \<le> j \<Longrightarrow> holds m2 j ys"
    by (rule zero_keeps[of "?new < ?old" "?new + int (length cs)" "?old - ?new" m1]) (use g m1(2) assms in auto)
  have "holds m2 (dq_leftIdx d) as" using m2(3)[OF m1(4)[OF g(3)]] assms(2) by simp
  moreover have "holds m2 ?new cs" using m2(3)[OF m1(3)] by simp
  ultimately show ?thesis using m1(1,2) m2(1,2) g(1,2) by (simp add: move_C_def Let_def gapped_def)
qed

lemma move_A_gap:
  assumes "gapped d as B cs" "0 \<le> newCount" "0 \<le> B" "newCount - B \<le> dq_leftIdx d"
  shows "\<exists>d'. move_A d (int (length as)) (newCount - B) = Some d' \<and> gapped d' as newCount cs"
proof -
  note g = gappedD[OF assms(1)]
  let ?old = "dq_leftIdx d" and ?new = "dq_leftIdx d - (newCount - B)"
  obtain m1 where m1: "(if 0 < int (length as) then mem_move (dq_buckets d) ?new (dq_buckets d) ?old (int (length as))
      else Some (dq_buckets d)) = Some m1" "length m1 = length (dq_buckets d)" "holds m1 ?new as"
    "\<And>j ys. holds (dq_buckets d) j ys \<Longrightarrow> j + int (length ys) \<le> ?new \<or> ?new + int (length as) \<le> j \<Longrightarrow> holds m1 j ys"
    by (rule move_holds[OF g(3), of ?new "dq_buckets d"]) (use g assms in auto)
  obtain m2 where m2: "(if ?old < ?new then mem_zero m1 ?old (?new - ?old) else Some m1) = Some m2" "length m2 = length m1"
    "\<And>j ys. holds m1 j ys \<Longrightarrow> ?old < ?new \<longrightarrow> j + int (length ys) \<le> ?old \<or> ?old + (?new - ?old) \<le> j \<Longrightarrow> holds m2 j ys"
    by (rule zero_keeps[of "?old < ?new" ?old "?new - ?old" m1]) (use g m1(2) assms in auto)
  have c: "?new + int (length as) + newCount = ?old + int (length as) + B" by simp
  have "holds m2 ?new as" using m2(3)[OF m1(3)] by simp
  moreover have "holds m2 (?new + int (length as) + newCount) cs" unfolding c using m2(3)[OF m1(4)[OF g(4)]] assms(2,3) by simp
  ultimately show ?thesis using m1(1,2) m2(1,2) g(1,2) by (simp add: move_A_def Let_def gapped_def)
qed

lemma recenter_gap:
  assumes "gapped d as B cs" "0 \<le> newCount" "0 \<le> B" "R = dq_capacity d - dq_leftIdx d - (int (length as) + B + int (length cs))"
    "int (length as) + newCount + int (length cs) \<le> dq_capacity d"
  shows "\<exists>d'. recenter d (int (length as)) B (int (length cs)) R newCount = Some d' \<and> gapped d' as newCount cs"
proof -
  note g = gappedD[OF assms(1)]
  let ?a = "int (length as)" and ?c = "int (length cs)" and ?m = "dq_buckets d" and ?old = "dq_leftIdx d"
  let ?half = "(?old + R - (newCount - B)) sdiv 2"
  define new where "new = ?half - ?half sdiv 2"
  have h: "?half = (?old + R - (newCount - B)) div 2" using assms(4,5) by (intro sdiv2) simp
  then have "0 \<le> ?half" using assms(4,5) by simp
  then have "new = ?half - ?half div 2" by (simp add: new_def sdiv2)
  then have n: "0 \<le> new" "new + ?a + newCount + ?c \<le> int (length ?m)" using h assms(4,5) g(1) by auto
  let ?oldC = "?old + ?a + B" and ?newC = "new + ?a + newCount"
  show ?thesis
  proof (cases "new < ?old")
    case True
    obtain m1 where m1: "(if 0 < ?a then mem_move ?m new ?m ?old ?a else Some ?m) = Some m1" "length m1 = length ?m" "holds m1 new as"
      "\<And>j ys. holds ?m j ys \<Longrightarrow> j + int (length ys) \<le> new \<or> new + ?a \<le> j \<Longrightarrow> holds m1 j ys"
      by (rule move_holds[OF g(3), of new ?m]) (use n assms(2) in auto)
    have c1: "holds m1 ?oldC cs" by (rule m1(4)[OF g(4)]) (use True assms(3) in auto)
    obtain m2 where m2: "(if 0 < ?c then mem_move m1 ?newC m1 ?oldC ?c else Some m1) = Some m2" "length m2 = length m1" "holds m2 ?newC cs"
      "\<And>j ys. holds m1 j ys \<Longrightarrow> j + int (length ys) \<le> ?newC \<or> ?newC + ?c \<le> j \<Longrightarrow> holds m2 j ys"
      by (rule move_holds[OF c1, of ?newC m1]) (use n m1(2) assms(2) in auto)
    obtain m3 where m3: "(if ?newC < ?oldC then mem_zero m2 (?newC + ?c) (?oldC - ?newC) else Some m2) = Some m3" "length m3 = length m2"
      "\<And>j ys. holds m2 j ys \<Longrightarrow> ?newC < ?oldC \<longrightarrow> j + int (length ys) \<le> ?newC + ?c \<or> ?newC + ?c + (?oldC - ?newC) \<le> j \<Longrightarrow> holds m3 j ys"
      by (rule zero_keeps[of "?newC < ?oldC" "?newC + ?c" "?oldC - ?newC" m2]) (use n g m1(2) m2(2) assms(2) in auto)
    have "holds m3 new as" using m3(3)[OF m2(4)[OF m1(3)]] assms(2) by simp
    moreover have "holds m3 ?newC cs" using m3(3)[OF m2(3)] by simp
    ultimately have "gapped (d\<lparr>dq_leftIdx := new, dq_buckets := m3\<rparr>) as newCount cs"
      using m1(2) m2(2) m3(2) g(1,2) by (simp add: gapped_def)
    moreover have "recenter d ?a B ?c R newCount = Some (d\<lparr>dq_leftIdx := new, dq_buckets := m3\<rparr>)"
      unfolding recenter_def Let_def using True by (simp only: new_def[symmetric] if_True m1(1) m2(1) m3(1) Option.bind.simps)
    ultimately show ?thesis by blast
  next
    case False
    obtain m1 where m1: "(if 0 < ?c then mem_move ?m ?newC ?m ?oldC ?c else Some ?m) = Some m1" "length m1 = length ?m" "holds m1 ?newC cs"
      "\<And>j ys. holds ?m j ys \<Longrightarrow> j + int (length ys) \<le> ?newC \<or> ?newC + ?c \<le> j \<Longrightarrow> holds m1 j ys"
      by (rule move_holds[OF g(4), of ?newC ?m]) (use n assms(2) in auto)
    have a1: "holds m1 ?old as" by (rule m1(4)[OF g(3)]) (use False assms(2) in auto)
    obtain m2 where m2: "(if 0 < ?a then mem_move m1 new m1 ?old ?a else Some m1) = Some m2" "length m2 = length m1" "holds m2 new as"
      "\<And>j ys. holds m1 j ys \<Longrightarrow> j + int (length ys) \<le> new \<or> new + ?a \<le> j \<Longrightarrow> holds m2 j ys"
      by (rule move_holds[OF a1, of new m1]) (use n m1(2) assms(2) in auto)
    obtain m3 where m3: "(if ?old < new then mem_zero m2 ?old (new - ?old) else Some m2) = Some m3" "length m3 = length m2"
      "\<And>j ys. holds m2 j ys \<Longrightarrow> ?old < new \<longrightarrow> j + int (length ys) \<le> ?old \<or> ?old + (new - ?old) \<le> j \<Longrightarrow> holds m3 j ys"
      by (rule zero_keeps[of "?old < new" ?old "new - ?old" m2]) (use n g m1(2) m2(2) assms(2) in auto)
    have "holds m3 new as" using m3(3)[OF m2(3)] by simp
    moreover have "holds m3 ?newC cs" using m3(3)[OF m2(4)[OF m1(3)]] assms(2) by simp
    ultimately have "gapped (d\<lparr>dq_leftIdx := new, dq_buckets := m3\<rparr>) as newCount cs"
      using m1(2) m2(2) m3(2) g(1,2) by (simp add: gapped_def)
    moreover have "recenter d ?a B ?c R newCount = Some (d\<lparr>dq_leftIdx := new, dq_buckets := m3\<rparr>)"
      unfolding recenter_def Let_def using False by (simp only: new_def[symmetric] if_False m1(1) m2(1) m3(1) Option.bind.simps)
    ultimately show ?thesis by blast
  qed
qed

text \<open>The capacity is at most \<open>2 ^ 30\<close>, so the spare room that is asked for is at most \<open>2 ^ 13\<close>.\<close>

abbreviation array_limit :: int where
  "array_limit \<equiv> 2 ^ 30 - 2 ^ 13"

lemma reposition_gap:
  assumes "arr_store a = Some d" "gapped d as (int B) cs" "arr_count a = int (length as + B + length cs)" "0 \<le> newCount"
    "int (length as) + newCount + int (length cs) < array_limit" "\<And>k. ae_alloc E k"
  shows "\<exists>d'. CFArrayRepositionDequeRegions E a (CFRangeMake (length as) B) newCount = Some (a\<lparr>arr_store := Some d'\<rparr>) \<and>
    gapped d' as newCount cs"
proof -
  note g = gappedD[OF assms(2)]
  let ?a = "int (length as)" and ?c = "int (length cs)" and ?cap = "dq_capacity d" and ?L = "dq_leftIdx d"
  let ?future = "?a + newCount + ?c" and ?R = "dq_capacity d - dq_leftIdx d - (int (length as) + int B + int (length cs))"
  let ?w = "max 4 (?cap div 2 ^ 17)"
  have cnt: "arr_count a - int B + newCount = ?future" "arr_count a - int B - ?a = ?c" "?cap - arr_count a - ?L = ?R"
    using assms(3) by simp_all
  have "?cap div 2 ^ 17 \<le> 2 ^ 30 div 2 ^ 17" by (rule zdiv_mono1[OF g(2)]) simp
  then have w: "0 \<le> ?w" "?future + ?w < 2 ^ 30" using assms(5) by (simp_all add: max_def)
  have m: "?future mod 2 ^ 32 = ?future" using assms(4,5) by simp
  define step where "step = (if ?cap < ?future \<or> arr_count a < ?future \<and> ?L + ?R < ?w
        then recenter_new E d ?a (int B) ?c newCount ?future ?w
        else if newCount - int B < 0 \<and> ?c < ?a \<or> newCount - int B \<le> ?R \<and> ?c < ?a then move_C d ?a (int B) ?c newCount
        else if newCount - int B < 0 \<or> newCount - int B \<le> ?L \<and> ?a \<le> ?c then move_A d ?a (newCount - int B)
        else recenter d ?a (int B) ?c ?R newCount)"
  have "\<exists>d'. step = Some d' \<and> gapped d' as newCount cs"
  proof -
    consider "?cap < ?future \<or> arr_count a < ?future \<and> ?L + ?R < ?w"
      | "\<not> (?cap < ?future \<or> arr_count a < ?future \<and> ?L + ?R < ?w)"
        "newCount - int B < 0 \<and> ?c < ?a \<or> newCount - int B \<le> ?R \<and> ?c < ?a"
      | "\<not> (?cap < ?future \<or> arr_count a < ?future \<and> ?L + ?R < ?w)"
        "\<not> (newCount - int B < 0 \<and> ?c < ?a \<or> newCount - int B \<le> ?R \<and> ?c < ?a)"
        "newCount - int B < 0 \<or> newCount - int B \<le> ?L \<and> ?a \<le> ?c"
      | "\<not> (?cap < ?future \<or> arr_count a < ?future \<and> ?L + ?R < ?w)"
        "\<not> (newCount - int B < 0 \<and> ?c < ?a \<or> newCount - int B \<le> ?R \<and> ?c < ?a)"
        "\<not> (newCount - int B < 0 \<or> newCount - int B \<le> ?L \<and> ?a \<le> ?c)"
      by blast
    then show ?thesis
    proof cases
      case 1
      then have "step = recenter_new E d ?a (int B) ?c newCount ?future ?w" unfolding step_def by (rule if_P)
      then show ?thesis using recenter_new_gap[OF assms(2,4) _ refl w assms(6)] by simp
    next
      case 2
      then have "step = move_C d ?a (int B) ?c newCount" unfolding step_def by (simp only: if_True if_False)
      moreover have "?L + ?a + newCount + ?c \<le> ?cap" using 2(2) g(6) by linarith
      ultimately show ?thesis using move_C_gap[OF assms(2,4)] by simp
    next
      case 3
      then have "step = move_A d ?a (newCount - int B)" unfolding step_def by (simp only: if_True if_False)
      then show ?thesis using move_A_gap[OF assms(2,4)] 3 g(5) by auto
    next
      case 4
      then have "step = recenter d ?a (int B) ?c ?R newCount" unfolding step_def by (simp only: if_True if_False)
      then show ?thesis using recenter_gap[OF assms(2,4) _ refl] 4 by simp
    qed
  qed
  moreover have "CFArrayRepositionDequeRegions E a (CFRangeMake (length as) B) newCount =
      Option.bind step (\<lambda>d'. Some (a\<lparr>arr_store := Some d'\<rparr>))"
    unfolding CFArrayRepositionDequeRegions_def CFRangeMake_def Let_def CFRange.simps assms(1)
    by (simp only: Option.bind.simps cnt m step_def)
  ultimately show ?thesis by auto
qed

section \<open>Arrays\<close>

text \<open>The buckets of an array hold the values \<open>xs\<close>. A mutable array without a store holds nothing.\<close>

definition array_holds :: "CFArray \<Rightarrow> ptr list \<Rightarrow> bool" where
  "array_holds a xs \<longleftrightarrow> (case arr_type a of
       ArrayImmutable \<Rightarrow> holds (arr_inline a) 0 xs
     | ArrayDeque \<Rightarrow> \<exists>d. arr_store a = Some d \<and> gapped d xs 0 [])"

definition array_rep :: "CFArray \<Rightarrow> ptr list \<Rightarrow> bool" where
  "array_rep a xs \<longleftrightarrow> arr_count a = int (length xs) \<and>
     (array_holds a xs \<or> arr_type a = ArrayDeque \<and> arr_store a = None \<and> xs = [])"

text \<open>What no operation changes, and what only the length of the array may change.\<close>

definition same_kind :: "CFArray \<Rightarrow> CFArray \<Rightarrow> bool" where
  "same_kind a b \<longleftrightarrow> arr_type b = arr_type a \<and> arr_cbtype b = arr_cbtype a \<and> arr_custom b = arr_custom a"

definition array_frame :: "CFArray \<Rightarrow> CFArray \<Rightarrow> bool" where
  "array_frame a b \<longleftrightarrow> same_kind a b \<and> arr_count b = arr_count a"

lemma same_kind_refl [simp]: "same_kind a a"
  by (simp add: same_kind_def)

lemma same_kind_trans: "same_kind a b \<Longrightarrow> same_kind b c \<Longrightarrow> same_kind a c"
  by (simp add: same_kind_def)

lemma array_frame_refl [simp]: "array_frame a a"
  by (simp add: array_frame_def)

lemma array_frame_trans: "array_frame a b \<Longrightarrow> array_frame b c \<Longrightarrow> array_frame a c"
  by (auto simp: array_frame_def intro: same_kind_trans)

lemma same_kind_callbacks: "same_kind a b \<Longrightarrow> CFArrayGetCallBacks E b = CFArrayGetCallBacks E a"
  by (simp add: same_kind_def CFArrayGetCallBacks_def cong: array_cb_type.case_cong)

lemma buckets_hold:
  assumes "array_holds a xs"
  obtains m i where "CFArrayGetBucketsPtr a = Some (m, i)" "holds m i xs"
  using assms by (cases "arr_type a") (auto simp: array_holds_def CFArrayGetBucketsPtr_def gapped_def)

lemma get_bucket_holds:
  assumes "array_holds a xs" "k < length xs"
  shows "get_bucket a (int k) = Some (xs ! k)"
proof -
  obtain m i where m: "CFArrayGetBucketsPtr a = Some (m, i)" "holds m i xs" by (rule buckets_hold[OF assms(1)])
  have "nat (i + int k) = nat i + k" "nat i + k < length m" using holdsD(1,2)[OF m(2)] assms(2) by auto
  then show ?thesis using m(1) holdsD(1)[OF m(2)] holdsD(3)[OF m(2) assms(2)] by (simp add: get_bucket_def rd_in)
qed

lemma set_bucket_holds:
  assumes "array_holds a xs" "k < length xs"
  shows "\<exists>b. set_bucket a (int k) v = Some b \<and> array_holds b (xs[k := v]) \<and> array_frame a b \<and> arr_calls b = arr_calls a"
proof -
  obtain m i where m: "CFArrayGetBucketsPtr a = Some (m, i)" "holds m i xs" by (rule buckets_hold[OF assms(1)])
  have i: "nat (i + int k) = nat i + k" "nat i + k < length m" "0 \<le> i" using holdsD(1,2)[OF m(2)] assms(2) by auto
  note h = holds_update[OF m(2) assms(2), of v]
  show ?thesis
  proof (cases "arr_type a")
    case ArrayImmutable
    then show ?thesis using m(1) i h by (auto simp: set_bucket_def wr_in array_holds_def array_frame_def same_kind_def CFArrayGetBucketsPtr_def)
  next
    case ArrayDeque
    then obtain d where d: "arr_store a = Some d" "gapped d xs 0 []" using assms(1) by (auto simp: array_holds_def)
    then have "m = dq_buckets d" "i = dq_leftIdx d" using m(1) ArrayDeque by (simp_all add: CFArrayGetBucketsPtr_def)
    then show ?thesis using ArrayDeque m(1) i h d by (simp add: set_bucket_def wr_in array_holds_def array_frame_def same_kind_def gapped_def)
  qed
qed

text \<open>The calls of the callbacks for a list of values.\<close>

definition releases :: "ptr \<Rightarrow> ptr list \<Rightarrow> array_call list" where
  "releases release vs = (if release \<noteq> NULL then map (ValueReleased release) vs else [])"

definition retains :: "ptr \<Rightarrow> ptr list \<Rightarrow> array_call list" where
  "retains retain vs = (if retain \<noteq> NULL then map (ValueRetained retain) vs else [])"

lemma calls_Nil [simp]: "releases r [] = []" "retains r [] = []"
  by (simp_all add: releases_def retains_def)

lemma releases_Cons: "releases r (v # vs) = releases r [v] @ releases r vs"
  by (simp add: releases_def)

lemma array_holds_calls [simp]: "array_holds (log_value c a) xs \<longleftrightarrow> array_holds a xs"
  by (simp add: array_holds_def log_value_def cong: array_type.case_cong)

lemma log_value_frame [simp]: "array_frame (log_value c a) b \<longleftrightarrow> array_frame a b" "arr_calls (log_value c a) = arr_calls a @ [c]"
  by (simp_all add: array_frame_def same_kind_def log_value_def)

lemma release_loop_holds:
  "array_holds a (as @ bs @ cs) \<Longrightarrow> \<exists>b. release_loop rel (int (length as)) (length bs) a = Some b \<and>
     array_holds b (as @ replicate (length bs) NULL @ cs) \<and> array_frame a b \<and> arr_calls b = arr_calls a @ releases rel bs"
proof (induction bs arbitrary: as a)
  case Nil
  then show ?case by simp
next
  case (Cons v bs)
  have v: "get_bucket a (int (length as)) = Some v" using get_bucket_holds[OF Cons.prems, of "length as"] by simp
  define a1 where "a1 = (if rel \<noteq> NULL then log_value (ValueReleased rel v) a else a)"
  have a1: "array_holds a1 (as @ (v # bs) @ cs)" "arr_calls a1 = arr_calls a @ releases rel [v]" "\<And>b. array_frame a1 b \<longleftrightarrow> array_frame a b"
    using Cons.prems by (simp_all add: a1_def releases_def)
  obtain a2 where a2: "set_bucket a1 (int (length as)) NULL = Some a2" "array_holds a2 ((as @ [NULL]) @ bs @ cs)"
    "array_frame a1 a2" "arr_calls a2 = arr_calls a1"
    using set_bucket_holds[OF a1(1), of "length as" NULL] by auto
  obtain b where b: "release_loop rel (int (length (as @ [NULL]))) (length bs) a2 = Some b"
    "array_holds b ((as @ [NULL]) @ replicate (length bs) NULL @ cs)" "array_frame a2 b" "arr_calls b = arr_calls a2 @ releases rel bs"
    using Cons.IH[OF a2(2)] by blast
  have "release_loop rel (int (length as)) (length (v # bs)) a = Some b"
    using v a2(1) b(1) by (cases "rel = NULL") (simp_all add: a1_def add.commute)
  then show ?case using b(2-4) a1(2,3) a2(3,4) array_frame_trans[OF _ b(3)] by (auto simp: releases_Cons[of rel v bs])
qed

section \<open>Replacing a range\<close>

lemma gapped_split: "gapped d (as @ bs @ cs) 0 [] \<Longrightarrow> gapped d as (int (length bs)) cs"
  by (simp add: gapped_def holds_append)

lemma array_holds_upd [simp]:
  "array_holds (a\<lparr>arr_mutations := n\<rparr>) xs \<longleftrightarrow> array_holds a xs" "array_holds (a\<lparr>arr_calls := cs\<rparr>) xs \<longleftrightarrow> array_holds a xs"
  "array_holds (a\<lparr>arr_count := k\<rparr>) xs \<longleftrightarrow> array_holds a xs"
  by (simp_all add: array_holds_def cong: array_type.case_cong)

lemma fill_gap:
  assumes "gapped d as (int (length vs)) cs"
  shows "\<exists>m. (if 0 < int (length vs) then mem_move (dq_buckets d) (dq_leftIdx d + int (length as)) (map Some vs) 0 (int (length vs))
      else Some (dq_buckets d)) = Some m \<and> gapped (d\<lparr>dq_buckets := m\<rparr>) (as @ vs @ cs) 0 []"
proof -
  note g = gappedD[OF assms]
  obtain m where m: "(if 0 < int (length vs) then mem_move (dq_buckets d) (dq_leftIdx d + int (length as)) (map Some vs) 0 (int (length vs))
      else Some (dq_buckets d)) = Some m" "length m = length (dq_buckets d)" "holds m (dq_leftIdx d + int (length as)) vs"
    "\<And>j ys. holds (dq_buckets d) j ys \<Longrightarrow> j + int (length ys) \<le> dq_leftIdx d + int (length as) \<or>
       dq_leftIdx d + int (length as) + int (length vs) \<le> j \<Longrightarrow> holds m j ys"
    by (rule move_holds[OF holds_map_Some[of vs], of "dq_leftIdx d + int (length as)" "dq_buckets d"]) (use g in auto)
  have "holds m (dq_leftIdx d) as" "holds m (dq_leftIdx d + int (length as) + int (length vs)) cs"
    using m(4)[OF g(3)] m(4)[OF g(4)] by simp_all
  then have "gapped (d\<lparr>dq_buckets := m\<rparr>) (as @ vs @ cs) 0 []"
    using m(2,3) g by (simp add: gapped_def holds_append)
  then show ?thesis using m(1) by blast
qed

lemma range_fields [simp]: "range_location (CFRangeMake i n) = i" "range_length (CFRangeMake i n) = n"
  by (simp_all add: CFRangeMake_def)

lemma release_range:
  assumes "array_rep a (as @ bs @ cs)" "arr_type a = ArrayDeque"
  shows "\<exists>b. (if 0 < length bs then CFArrayReleaseValues E a (CFRangeMake (length as) (length bs)) False else Some a) = Some b \<and>
    array_frame a b \<and> arr_calls b = arr_calls a @ releases (acb_release (CFArrayGetCallBacks E a)) bs \<and>
    (case arr_store b of None \<Rightarrow> as = [] \<and> bs = [] \<and> cs = [] | Some d \<Rightarrow> gapped d as (int (length bs)) cs)"
proof (cases "bs = []")
  case True
  then show ?thesis using assms gapped_split[of _ as "[]" cs] by (auto simp: array_rep_def array_holds_def split: option.split)
next
  case False
  then have h: "array_holds a (as @ bs @ cs)" "arr_store a \<noteq> None" using assms by (auto simp: array_rep_def array_holds_def)
  let ?rel = "acb_release (CFArrayGetCallBacks E a)"
  obtain b where b: "release_loop ?rel (int (length as)) (length bs) a = Some b"
    "array_holds b (as @ replicate (length bs) NULL @ cs)" "array_frame a b" "arr_calls b = arr_calls a @ releases ?rel bs"
    using release_loop_holds[OF h(1)] by blast
  obtain d where "arr_store b = Some d" "gapped d as (int (length bs)) cs"
    using b(2,3) assms(2) gapped_split[of _ as "replicate (length bs) NULL" cs] by (auto simp: array_holds_def array_frame_def same_kind_def)
  then show ?thesis using b False h(2) assms(2) by (simp add: CFArrayReleaseValues_def CFRangeMake_def Let_def)
qed

lemma new_store_gap:
  assumes "n < array_limit" "0 \<le> n" "\<And>k. ae_alloc E k"
  shows "\<exists>c. CFArrayDequeRoundUpCapacity n = Some c \<and>
    gapped \<lparr>dq_leftIdx = (c - n) sdiv 2, dq_capacity = c, dq_buckets = mem_alloc (nat c)\<rparr> [] n []"
proof -
  obtain c where c: "CFArrayDequeRoundUpCapacity n = Some c" "n < c" "c \<le> 2 ^ 30" using round_up_capacity[of n] assms by auto
  then show ?thesis using assms(2) by (simp add: gapped_def sdiv2) linarith
qed

text \<open>What an array stores for a value: the result of the retain callback, if there is one.\<close>

definition new_value :: "array_env \<Rightarrow> CFArray \<Rightarrow> ptr \<Rightarrow> ptr" where
  "new_value E a v = (let retain = acb_retain (CFArrayGetCallBacks E a) in if retain \<noteq> NULL then ae_retained E retain v else v)"

abbreviation new_values :: "array_env \<Rightarrow> CFArray \<Rightarrow> ptr list \<Rightarrow> ptr list" where
  "new_values E a vs \<equiv> map (new_value E a) vs"

lemma new_values_if:
  "(if acb_retain (CFArrayGetCallBacks E a) \<noteq> NULL then map (ae_retained E (acb_retain (CFArrayGetCallBacks E a))) vs else vs) = new_values E a vs"
  by (induction vs) (auto simp: new_value_def Let_def)

lemma replace_rep:
  assumes "array_rep a (as @ bs @ cs)" "arr_type a = ArrayDeque" "int (length as + length vs + length cs) < array_limit" "\<And>k. ae_alloc E k"
  shows "\<exists>b. CFArrayReplaceValues_unchecked E a (CFRangeMake (length as) (length bs)) vs = Some b \<and>
    array_rep b (as @ new_values E a vs @ cs) \<and> same_kind a b \<and>
    arr_calls b = arr_calls a @ retains (acb_retain (CFArrayGetCallBacks E a)) vs @ releases (acb_release (CFArrayGetCallBacks E a)) bs"
proof -
  let ?cb = "CFArrayGetCallBacks E a"
  define a1 where "a1 = a\<lparr>arr_mutations := arr_mutations a + 1, arr_calls := arr_calls a @ retains (acb_retain ?cb) vs\<rparr>"
  note a1_raw = a1_def[unfolded retains_def, symmetric]
  have a1: "array_rep a1 (as @ bs @ cs)" "arr_type a1 = ArrayDeque" "same_kind a a1"
    using assms(1,2) by (simp_all add: a1_def array_rep_def same_kind_def)
  have cb: "CFArrayGetCallBacks E a1 = ?cb" by (rule same_kind_callbacks[OF a1(3)])
  obtain a2 where a2: "(if 0 < length bs then CFArrayReleaseValues E a1 (CFRangeMake (length as) (length bs)) False else Some a1) = Some a2"
    "array_frame a1 a2" "arr_calls a2 = arr_calls a1 @ releases (acb_release ?cb) bs"
    "case arr_store a2 of None \<Rightarrow> as = [] \<and> bs = [] \<and> cs = [] | Some d \<Rightarrow> gapped d as (int (length bs)) cs"
    using release_range[OF a1(1,2), of E] unfolding cb by blast
  have cnt: "arr_count a = int (length as + length bs + length cs)" "arr_count a2 = arr_count a"
    using assms(1) a2(2) by (simp_all add: array_rep_def a1_def array_frame_def)
  let ?future = "int (length as + length vs + length cs)"
  have future: "arr_count a - int (length bs) + int (length vs) = ?future" using cnt(1) by simp
  define a3 where "a3 = (case arr_store a2 of
      None \<Rightarrow> Option.bind (CFArrayDequeRoundUpCapacity ?future) (\<lambda>capacity.
        if \<not> ae_alloc E (16 + capacity * 8) then None
        else Some (a2\<lparr>arr_store := Some \<lparr>dq_leftIdx = (capacity - int (length vs)) sdiv 2, dq_capacity = capacity,
          dq_buckets = mem_alloc (nat capacity)\<rparr>\<rparr>))
    | Some _ \<Rightarrow> if int (length bs) \<noteq> int (length vs) then
        CFArrayRepositionDequeRegions E a2 (CFRangeMake (length as) (length bs)) (int (length vs)) else Some a2)"
  have "\<exists>d. a3 = Some (a2\<lparr>arr_store := Some d\<rparr>) \<and> gapped d as (int (length vs)) cs"
  proof (cases "arr_store a2")
    case None
    then have nil: "as = []" "bs = []" "cs = []" using a2(4) by simp_all
    then show ?thesis using None new_store_gap[of "int (length vs)" E] assms(3,4) by (auto simp: a3_def)
  next
    case (Some d)
    then have g: "gapped d as (int (length bs)) cs" using a2(4) by simp
    have count: "arr_count a2 = int (length as + length bs + length cs)" using cnt by simp
    have "\<exists>d'. CFArrayRepositionDequeRegions E a2 (CFRangeMake (length as) (length bs)) (int (length vs)) = Some (a2\<lparr>arr_store := Some d'\<rparr>) \<and>
        gapped d' as (int (length vs)) cs"
      by (rule reposition_gap[OF Some g count]) (use assms(3,4) in auto)
    moreover have "a2\<lparr>arr_store := Some d\<rparr> = a2" using Some by (intro CFArray.equality) simp_all
    ultimately show ?thesis using Some g by (cases "length bs = length vs") (auto simp: a3_def intro!: exI[of _ d])
  qed
  then obtain d3 where d3: "a3 = Some (a2\<lparr>arr_store := Some d3\<rparr>)" "gapped d3 as (int (length (new_values E a vs))) cs" by auto
  obtain m where m: "(if 0 < int (length vs) then mem_move (dq_buckets d3) (dq_leftIdx d3 + int (length as)) (map Some (new_values E a vs)) 0 (int (length vs))
      else Some (dq_buckets d3)) = Some m" "gapped (d3\<lparr>dq_buckets := m\<rparr>) (as @ new_values E a vs @ cs) 0 []"
    using fill_gap[OF d3(2)] unfolding length_map by blast
  define b where "b = a2\<lparr>arr_store := Some (d3\<lparr>dq_buckets := m\<rparr>), arr_count := ?future\<rparr>"
  have "CFArrayReplaceValues_unchecked E a (CFRangeMake (length as) (length bs)) vs = Some b"
  proof -
    have guards: "(?future < int (length vs)) = False"
      "(acb_retain ?cb \<noteq> NULL \<and> 256 < int (length vs) \<and> \<not> ae_alloc E (int (length vs) * 8)) = False" using assms(4) by auto
    show ?thesis
      unfolding CFArrayReplaceValues_unchecked_def Let_def
      by (simp only: range_fields future guards if_False a1_raw new_values_if a2(1) Option.bind.simps a3_def[symmetric] d3(1))
        (use m(1) in \<open>cases "vs = []"; simp add: b_def\<close>)
  qed
  moreover have "array_rep b (as @ new_values E a vs @ cs)"
    using m(2) a1(2) a2(2) by (simp add: b_def array_rep_def array_holds_def array_frame_def same_kind_def)
  moreover have "same_kind a b" using a1(3) a2(2) by (simp add: b_def array_frame_def same_kind_def)
  moreover have "arr_calls b = arr_calls a @ retains (acb_retain ?cb) vs @ releases (acb_release ?cb) bs"
    using a2(3) by (simp add: b_def a1_def)
  ultimately show ?thesis by blast
qed

end
