(* ===== verification/CF_Array_Spec.thy ===== *)
theory CF_Array_Spec
  imports CF_Array_Deque
begin

text \<open>
  Each operation of arrays as an operation on the list of their values: reading, searching, single changes with
  the calls of the callbacks, and creation.
\<close>

section \<open>Reading\<close>

lemma get_value:
  assumes "array_rep a xs" "k < length xs"
  shows "CFArrayGetValueAtIndex a (int k) = Some (xs ! k)"
  using assms get_bucket_holds[of a xs k] by (auto simp: array_rep_def CFArrayGetValueAtIndex_def)

lemma segment_Cons: "i < length xs \<Longrightarrow> take (Suc n) (drop i xs) = xs ! i # take n (drop (Suc i) xs)"
  by (simp add: Cons_nth_drop_Suc[symmetric])

lemma count_loop_rep:
  assumes "array_rep a xs"
  shows "i + n \<le> length xs \<Longrightarrow> count_loop eq a (int i) n c = Some (c + int (length (filter eq (take n (drop i xs)))))"
proof (induction n arbitrary: i c)
  case (Suc n)
  then show ?case using Suc.IH[of "Suc i"] get_value[OF assms, of i] by (simp add: segment_Cons add.commute)
qed simp

text \<open>The places of the first and of the last value of a list that satisfy a predicate.\<close>

definition first_place :: "('a \<Rightarrow> bool) \<Rightarrow> 'a list \<Rightarrow> int" where
  "first_place eq xs = (if \<exists>x \<in> set xs. eq x then int (length (takeWhile (\<lambda>x. \<not> eq x) xs)) else kCFNotFound)"

definition last_place :: "('a \<Rightarrow> bool) \<Rightarrow> 'a list \<Rightarrow> int" where
  "last_place eq xs = (if \<exists>x \<in> set xs. eq x then int (length xs) - 1 - int (length (takeWhile (\<lambda>x. \<not> eq x) (rev xs))) else kCFNotFound)"

definition shift_place :: "nat \<Rightarrow> int \<Rightarrow> int" where
  "shift_place loc i = (if i = kCFNotFound then i else int loc + i)"

lemma first_loop_rep:
  assumes "array_rep a xs"
  shows "i + n \<le> length xs \<Longrightarrow> first_loop eq a (int i) n = Some (shift_place i (first_place eq (take n (drop i xs))))"
proof (induction n arbitrary: i)
  case 0
  then show ?case by (simp add: first_place_def shift_place_def)
next
  case (Suc n)
  then show ?case using Suc.IH[of "Suc i"] get_value[OF assms, of i]
    by (auto simp: first_place_def shift_place_def segment_Cons add.commute)
qed

lemma last_loop_rep:
  assumes "array_rep a xs"
  shows "i + n \<le> length xs \<Longrightarrow> last_loop eq a (int i) n = Some (shift_place i (last_place eq (take n (drop i xs))))"
proof (induction n)
  case 0
  then show ?case by (simp add: last_place_def shift_place_def)
next
  case (Suc n)
  have s: "take (Suc n) (drop i xs) = take n (drop i xs) @ [xs ! (i + n)]" using Suc.prems by (simp add: take_Suc_conv_app_nth)
  have l: "length (take n (drop i xs)) = n" using Suc.prems by simp
  show ?case unfolding s using Suc l get_value[OF assms, of "i + n"]
    by (auto simp: last_place_def shift_place_def)
qed

lemma apply_loop_rep:
  assumes "array_rep a xs"
  shows "i + n \<le> length xs \<Longrightarrow> apply_loop f a (int i) n s = Some (fold f (take n (drop i xs)) s)"
proof (induction n arbitrary: i s)
  case (Suc n)
  then show ?case using Suc.IH[of "Suc i"] get_value[OF assms, of i] by (simp add: segment_Cons add.commute)
qed simp

lemma read_values_rep:
  assumes "array_rep a xs"
  shows "i + n \<le> length xs \<Longrightarrow> read_values a (int i) n = Some (take n (drop i xs))"
proof (induction n arbitrary: i)
  case (Suc n)
  then show ?case using Suc.IH[of "Suc i"] get_value[OF assms, of i] by (simp add: segment_Cons add.commute)
qed simp

lemma valid_range_rep: "array_rep a xs \<Longrightarrow> valid_range a (CFRangeMake i n) \<longleftrightarrow> i + n \<le> length xs"
  by (simp add: array_rep_def valid_range_def flip: of_nat_add)

section \<open>Binary search\<close>

lemma bsearch_loop_rep:
  assumes "array_rep a xs" "i + n \<le> length xs" "\<And>k. k < n \<Longrightarrow> below (xs ! (i + k)) \<longleftrightarrow> k < p"
  shows "- 1 \<le> idx \<Longrightarrow> idx < int p \<Longrightarrow> int p \<le> idx + 2 ^ lg \<Longrightarrow> idx + 2 ^ lg \<le> int n \<Longrightarrow>
    bsearch_loop below a (int i) lg idx = Some (int p - 1)"
proof (induction lg arbitrary: idx)
  case 0
  then show ?case by simp
next
  case (Suc lg)
  let ?k = "nat (idx + 2 ^ lg)"
  have one: "(1::int) \<le> 2 ^ lg" by simp
  have k: "int ?k = idx + 2 ^ lg" "?k < n" using Suc.prems one by auto
  have g: "CFArrayGetValueAtIndex a (int i + idx + 2 ^ lg) = Some (xs ! (i + ?k))"
    using get_value[OF assms(1), of "i + ?k"] k assms(2) by (simp add: add.assoc)
  have b: "below (xs ! (i + ?k)) \<longleftrightarrow> idx + 2 ^ lg < int p" using assms(3)[OF k(2)] k(1) by linarith
  show ?case
  proof (cases "below (xs ! (i + ?k))")
    case True
    then show ?thesis using Suc.IH[of "idx + 2 ^ lg"] Suc.prems g b one by simp
  next
    case False
    then show ?thesis using Suc.IH[of idx] Suc.prems g b one by simp
  qed
qed

lemma bsearch_rep:
  assumes "array_rep a xs" "i + n \<le> length xs" "n < 2 ^ 31" "\<And>k. k < n \<Longrightarrow> c (xs ! (i + k)) v = kCFCompareLessThan \<longleftrightarrow> k < p" "p \<le> n"
    "\<And>x. c v x = kCFCompareLessThan \<Longrightarrow> c x v \<noteq> kCFCompareLessThan"
  shows "CFArrayBSearchValues a (CFRangeMake i n) v c = Some (int (i + p))"
proof (cases "n = 0")
  case True
  then show ?thesis using assms(2,5) valid_range_rep[OF assms(1)] by (simp add: CFArrayBSearchValues_def)
next
  case False
  let ?lg = "flsl n - 1"
  have f: "flsl n = Suc ?lg" using flsl_pos[of n] False by simp
  have lg: "2 ^ ?lg \<le> n" "n < 2 * 2 ^ ?lg" using flsl_lower[of n] flsl_upper[of n] False f by (simp_all, metis power_Suc)
  have i2: "(2::int) ^ ?lg \<le> int n" using lg(1) by (metis of_nat_le_iff of_nat_numeral of_nat_power)
  have "flsl n \<le> 31" using assms(3) by (simp add: flsl_le_iff)
  then have lg31: "\<not> 31 \<le> ?lg" using f by simp
  have get: "CFArrayGetValueAtIndex a (int i + int k) = Some (xs ! (i + k))" if "k < n" for k
    using get_value[OF assms(1), of "i + k"] that assms(2) by simp
  have last: "CFArrayGetValueAtIndex a (int i + int n - 1) = Some (xs ! (i + (n - 1)))" using get[of "n - 1"] False by (simp add: of_nat_diff add_diff_eq)
  have mid: "CFArrayGetValueAtIndex a (int i - 1 + 2 ^ ?lg) = Some (xs ! (i + (2 ^ ?lg - 1)))"
  proof -
    have e: "int i - 1 + 2 ^ ?lg = int i + int (2 ^ ?lg - 1)" by (simp add: of_nat_diff)
    have "0 < (2::nat) ^ ?lg" by simp
    then have "2 ^ ?lg - 1 < n" using lg(1) by linarith
    then show ?thesis unfolding e by (rule get)
  qed
  have first: "CFArrayGetValueAtIndex a (int i) = Some (xs ! i)" using get[of 0] False by simp
  note b = bsearch_loop_rep[OF assms(1,2), of "\<lambda>x. c x v = kCFCompareLessThan" p _ ?lg, OF assms(4)]
  have p0: "c v (xs ! i) = kCFCompareLessThan \<Longrightarrow> p = 0" using assms(4)[of 0] assms(6) False by auto
  have pn: "c (xs ! (i + (n - 1))) v = kCFCompareLessThan \<longleftrightarrow> p = n" using assms(4)[of "n - 1"] assms(5) False by auto
  have pm: "c (xs ! (i + (2 ^ ?lg - 1))) v = kCFCompareLessThan \<longleftrightarrow> 2 ^ ?lg - 1 < p" using assms(4)[of "2 ^ ?lg - 1"] lg(1) False by simp
  have "bsearch_loop (\<lambda>x. c x v = kCFCompareLessThan) a (int i) ?lg
      (if c (xs ! (i + (2 ^ ?lg - 1))) v = kCFCompareLessThan then int n - 2 ^ ?lg else - 1) = Some (int p - 1)"
  proof (cases "2 ^ ?lg - 1 < p")
    case True
    have "int n - int (2 ^ ?lg) < int p" using lg True by linarith
    moreover have "- 1 \<le> int n - 2 ^ ?lg" using i2 by linarith
    ultimately show ?thesis using b[of "int n - 2 ^ ?lg"] True pm assms(5) by simp
  next
    case False
    have "0 < (2::nat) ^ ?lg" by simp
    then have "p < 2 ^ ?lg" using False by linarith
    then have "int p \<le> - 1 + int (2 ^ ?lg)" by linarith
    moreover have "- 1 + 2 ^ ?lg \<le> int n" using i2 by linarith
    ultimately show ?thesis using b[of "- 1"] False pm by simp
  qed
  then show ?thesis
    using False assms(2) valid_range_rep[OF assms(1)] last first mid lg31 p0 pn
    by (cases "c (xs ! (i + (2 ^ ?lg - 1))) v = kCFCompareLessThan") (simp_all add: CFArrayBSearchValues_def Let_def)
qed

section \<open>Changes\<close>

datatype array_op = ArrayAppend ptr | ArrayInsert nat ptr | ArraySet nat ptr | ArrayRemove nat | ArrayReplace nat nat "ptr list"
  | ArrayExchange nat nat | ArrayRemoveAll | ArrayReserve int

fun array_do :: "array_env \<Rightarrow> array_op \<Rightarrow> CFArray \<Rightarrow> CFArray option" where
  "array_do E (ArrayAppend v) a = CFArrayAppendValue E a v"
| "array_do E (ArrayInsert i v) a = CFArrayInsertValueAtIndex E a (int i) v"
| "array_do E (ArraySet i v) a = CFArraySetValueAtIndex E a (int i) v"
| "array_do E (ArrayRemove i) a = CFArrayRemoveValueAtIndex E a (int i)"
| "array_do E (ArrayReplace i n vs) a = CFArrayReplaceValues E a (CFRangeMake i n) vs"
| "array_do E (ArrayExchange i j) a = CFArrayExchangeValuesAtIndices a (int i) (int j)"
| "array_do E ArrayRemoveAll a = CFArrayRemoveAllValues E a"
| "array_do E (ArrayReserve cap) a = CFArraySetCapacity E a cap"

text \<open>The list afterwards, where \<open>f\<close> is what the array stores for a value, and the values that are retained and released.\<close>

fun array_spec :: "(ptr \<Rightarrow> ptr) \<Rightarrow> array_op \<Rightarrow> ptr list \<Rightarrow> ptr list" where
  "array_spec f (ArrayAppend v) xs = xs @ [f v]"
| "array_spec f (ArrayInsert i v) xs = take i xs @ f v # drop i xs"
| "array_spec f (ArraySet i v) xs = (if i = length xs then xs @ [f v] else xs[i := f v])"
| "array_spec f (ArrayRemove i) xs = take i xs @ drop (Suc i) xs"
| "array_spec f (ArrayReplace i n vs) xs = take i xs @ map f vs @ drop (i + n) xs"
| "array_spec f (ArrayExchange i j) xs = xs[i := xs ! j, j := xs ! i]"
| "array_spec f ArrayRemoveAll xs = []"
| "array_spec f (ArrayReserve cap) xs = xs"

fun array_in :: "array_op \<Rightarrow> ptr list" where
  "array_in (ArrayAppend v) = [v]"
| "array_in (ArrayInsert i v) = [v]"
| "array_in (ArraySet i v) = [v]"
| "array_in (ArrayReplace i n vs) = vs"
| "array_in op = []"

fun array_out :: "array_op \<Rightarrow> ptr list \<Rightarrow> ptr list" where
  "array_out (ArraySet i v) xs = take 1 (drop i xs)"
| "array_out (ArrayRemove i) xs = [xs ! i]"
| "array_out (ArrayReplace i n vs) xs = take n (drop i xs)"
| "array_out ArrayRemoveAll xs = xs"
| "array_out op xs = []"

text \<open>Indices inside the array; no shrinking of the store; and no arrays that come near the limit of the rounded capacity.\<close>

fun array_can :: "array_op \<Rightarrow> CFArray \<Rightarrow> ptr list \<Rightarrow> bool" where
  "array_can (ArrayAppend v) a xs \<longleftrightarrow> int (length xs) + 1 < array_limit"
| "array_can (ArrayInsert i v) a xs \<longleftrightarrow> i \<le> length xs \<and> int (length xs) + 1 < array_limit"
| "array_can (ArraySet i v) a xs \<longleftrightarrow> i \<le> length xs \<and> int (length xs) + 1 < array_limit"
| "array_can (ArrayRemove i) a xs \<longleftrightarrow> i < length xs \<and> int (length xs) < array_limit"
| "array_can (ArrayReplace i n vs) a xs \<longleftrightarrow> i + n \<le> length xs \<and> int (length xs + length vs) < array_limit"
| "array_can (ArrayExchange i j) a xs \<longleftrightarrow> i < length xs \<and> j < length xs"
| "array_can ArrayRemoveAll a xs \<longleftrightarrow> True"
| "array_can (ArrayReserve cap) a xs \<longleftrightarrow> int (length xs) \<le> cap \<and> cap < array_limit \<and>
     (case arr_store a of None \<Rightarrow> True | Some d \<Rightarrow> dq_capacity d \<le> cap)"

lemma replace_list:
  assumes "array_rep a xs" "arr_type a = ArrayDeque" "i + n \<le> length xs" "int (length xs + length vs) < array_limit" "\<And>k. ae_alloc E k"
  shows "\<exists>b. CFArrayReplaceValues_unchecked E a (CFRangeMake i n) vs = Some b \<and>
    array_rep b (take i xs @ new_values E a vs @ drop (i + n) xs) \<and> same_kind a b \<and>
    arr_calls b = arr_calls a @ retains (acb_retain (CFArrayGetCallBacks E a)) vs @
      releases (acb_release (CFArrayGetCallBacks E a)) (take n (drop i xs))"
proof -
  have xs: "xs = take i xs @ take n (drop i xs) @ drop (i + n) xs" using assms(3) by (metis append_take_drop_id drop_drop add.commute)
  have l: "length (take i xs) = i" "length (take n (drop i xs)) = n" using assms(3) by auto
  have rep: "array_rep a (take i xs @ take n (drop i xs) @ drop (i + n) xs)" using assms(1) by (subst xs[symmetric])
  have "int (length (take i xs) + length vs + length (drop (i + n) xs)) < array_limit" using assms(3,4) by simp
  from replace_rep[OF rep assms(2) this assms(5)] show ?thesis unfolding l .
qed

lemma release_all_rep:
  assumes "array_rep a xs" "arr_type a = ArrayDeque"
  shows "\<exists>b. CFArrayReleaseValues E a (CFRangeMake 0 (nat (arr_count a))) True = Some b \<and> arr_store b = None \<and> arr_count b = 0 \<and>
    same_kind a b \<and> arr_calls b = arr_calls a @ releases (acb_release (CFArrayGetCallBacks E a)) xs"
proof (cases "xs = []")
  case True
  then show ?thesis using assms by (simp add: CFArrayReleaseValues_def array_rep_def same_kind_def)
next
  case False
  then have h: "array_holds a ([] @ xs @ [])" "arr_store a \<noteq> None" using assms by (auto simp: array_rep_def array_holds_def)
  have cnt: "arr_count a = int (length xs)" using assms(1) by (simp add: array_rep_def)
  let ?rel = "acb_release (CFArrayGetCallBacks E a)"
  obtain b where b: "release_loop ?rel 0 (length xs) a = Some b" "array_frame a b" "arr_calls b = arr_calls a @ releases ?rel xs"
    using release_loop_holds[OF h(1), of ?rel] by auto
  then show ?thesis using False h(2) assms(2) cnt
    by (auto simp: CFArrayReleaseValues_def Let_def array_frame_def same_kind_def)
qed

lemma exchange_rep:
  assumes "array_rep a xs" "arr_type a = ArrayDeque" "i < length xs" "j < length xs"
  shows "\<exists>b. CFArrayExchangeValuesAtIndices a (int i) (int j) = Some b \<and> array_rep b (xs[i := xs ! j, j := xs ! i]) \<and> same_kind a b \<and>
    arr_calls b = arr_calls a"
proof -
  have h: "array_holds a xs" "arr_count a = int (length xs)" using assms by (auto simp: array_rep_def)
  obtain b where b: "set_bucket a (int i) (xs ! j) = Some b" "array_holds b (xs[i := xs ! j])" "array_frame a b" "arr_calls b = arr_calls a"
    using set_bucket_holds[OF h(1) assms(3)] by blast
  obtain c where c: "set_bucket b (int j) (xs ! i) = Some c" "array_holds c (xs[i := xs ! j, j := xs ! i])" "array_frame b c" "arr_calls c = arr_calls b"
    using set_bucket_holds[OF b(2), of j "xs ! i"] assms(4) by auto
  have "array_frame a c" by (rule array_frame_trans[OF b(3) c(3)])
  then show ?thesis using assms h get_bucket_holds[OF h(1)] b(1,4) c
    by (auto simp: CFArrayExchangeValuesAtIndices_def array_rep_def array_frame_def same_kind_def)
qed

lemma set_value_rep:
  assumes "array_rep a xs" "arr_type a = ArrayDeque" "i < length xs"
  shows "\<exists>b. CFArraySetValueAtIndex E a (int i) v = Some b \<and> array_rep b (xs[i := new_value E a v]) \<and> same_kind a b \<and>
    arr_calls b = arr_calls a @ retains (acb_retain (CFArrayGetCallBacks E a)) [v] @ releases (acb_release (CFArrayGetCallBacks E a)) [xs ! i]"
proof -
  let ?cb = "CFArrayGetCallBacks E a"
  have h: "array_holds a xs" "arr_count a = int (length xs)" using assms by (auto simp: array_rep_def)
  define a1 where "a1 = (if acb_retain ?cb \<noteq> NULL then log_value (ValueRetained (acb_retain ?cb) v) a else a)"
  have a1: "array_holds a1 xs" "arr_calls a1 = arr_calls a @ retains (acb_retain ?cb) [v]" "\<And>b. array_frame a1 b \<longleftrightarrow> array_frame a b"
    using h(1) by (simp_all add: a1_def retains_def)
  obtain b where b: "set_bucket a1 (int i) (new_value E a v) = Some b" "array_holds b (xs[i := new_value E a v])" "array_frame a b" "arr_calls b = arr_calls a1"
    using set_bucket_holds[OF a1(1) assms(3)] unfolding a1(3) by blast
  have nv: "(if acb_retain ?cb \<noteq> NULL then ae_retained E (acb_retain ?cb) v else v) = new_value E a v" by (simp add: new_value_def Let_def)
  have "CFArraySetValueAtIndex E a (int i) v = Some ((if acb_release ?cb \<noteq> NULL then log_value (ValueReleased (acb_release ?cb) (xs ! i)) b else b)
      \<lparr>arr_mutations := arr_mutations (if acb_release ?cb \<noteq> NULL then log_value (ValueReleased (acb_release ?cb) (xs ! i)) b else b) + 1\<rparr>)"
    using assms(2,3) h(2) get_bucket_holds[OF a1(1) assms(3)] b(1)
    unfolding CFArraySetValueAtIndex_def Let_def nv a1_def[symmetric] by simp
  then show ?thesis using b(2-4) a1(2) h(2) by (auto simp: array_rep_def array_frame_def same_kind_def log_value_def releases_def)
qed

lemma set_capacity_rep:
  assumes "array_rep a xs" "arr_type a = ArrayDeque" "array_can (ArrayReserve cap) a xs" "\<And>k. ae_alloc E k"
  shows "\<exists>b. CFArraySetCapacity E a cap = Some b \<and> array_rep b xs \<and> same_kind a b \<and> arr_calls b = arr_calls a"
proof -
  obtain c where c: "CFArrayDequeRoundUpCapacity cap = Some c" "cap < c" "c \<le> 2 ^ 30"
    using round_up_capacity[of cap] assms(3) by auto
  have cnt: "arr_count a = int (length xs)" using assms(1) by (simp add: array_rep_def)
  show ?thesis
  proof (cases "arr_store a")
    case None
    then have "xs = []" using assms(1,2) by (auto simp: array_rep_def array_holds_def)
    moreover have "gapped \<lparr>dq_leftIdx = c sdiv 2, dq_capacity = c, dq_buckets = mem_alloc (nat c)\<rparr> [] 0 []"
      using c assms(3) by (simp add: gapped_def sdiv2) linarith
    ultimately show ?thesis using None assms c cnt by (simp add: CFArraySetCapacity_def array_rep_def array_holds_def same_kind_def)
  next
    case (Some d)
    then have g: "gapped d xs 0 []" using assms(1,2) by (auto simp: array_rep_def array_holds_def)
    note d = gappedD[OF g]
    have room: "dq_capacity d \<le> c" using assms(3) Some c(2) by simp
    have cap0: "0 \<le> dq_capacity d" using d(1) by linarith
    obtain m where m: "mem_move (mem_alloc (nat c)) 0 (dq_buckets d) 0 (dq_capacity d) = Some m" "length m = nat c"
      "\<And>k. k < nat c \<Longrightarrow> int k < dq_capacity d \<Longrightarrow> m ! k = dq_buckets d ! k"
      by (rule mem_move_cells[of 0 0 "dq_capacity d" "mem_alloc (nat c)" "dq_buckets d"]) (use d(1) room cap0 in auto)
    have "m ! (nat (dq_leftIdx d) + k) = Some (xs ! k)" if "k < length xs" for k
      using m(3)[of "nat (dq_leftIdx d) + k"] holdsD(3)[OF d(3) that] d(5,6) room that by simp
    then have "gapped \<lparr>dq_leftIdx = dq_leftIdx d, dq_capacity = c, dq_buckets = m\<rparr> xs 0 []"
      using d(5,6) room c m(2) by (simp add: gapped_def holds_def)
    then show ?thesis using Some assms c(1) cnt m(1) by (simp add: CFArraySetCapacity_def array_rep_def array_holds_def same_kind_def)
  qed
qed

lemma array_do_refines:
  assumes "array_rep a xs" "arr_type a = ArrayDeque" "array_can op a xs" "\<And>k. ae_alloc E k"
  shows "\<exists>b. array_do E op a = Some b \<and> array_rep b (array_spec (new_value E a) op xs) \<and> same_kind a b \<and>
    arr_calls b = arr_calls a @ retains (acb_retain (CFArrayGetCallBacks E a)) (array_in op) @
      releases (acb_release (CFArrayGetCallBacks E a)) (array_out op xs)"
proof -
  have cnt: "arr_count a = int (length xs)" using assms(1) by (simp add: array_rep_def)
  note replace = replace_list[OF assms(1,2) _ _ assms(4)]
  show ?thesis
  proof (cases op)
    case (ArrayAppend v)
    then show ?thesis using replace[of "length xs" 0 "[v]"] assms(2,3) cnt by (auto simp: CFArrayAppendValue_def)
  next
    case (ArrayInsert i v)
    then show ?thesis using replace[of i 0 "[v]"] assms(2,3) cnt by (simp add: CFArrayInsertValueAtIndex_def)
  next
    case (ArraySet i v)
    show ?thesis
    proof (cases "i = length xs")
      case True
      then show ?thesis using ArraySet replace[of "length xs" 0 "[v]"] assms(2,3) cnt by (simp add: CFArraySetValueAtIndex_def)
    next
      case False
      then have "i < length xs" using ArraySet assms(3) by simp
      then show ?thesis using ArraySet set_value_rep[OF assms(1,2), of i E v] by (simp add: segment_Cons[of i xs 0, simplified])
    qed
  next
    case (ArrayRemove i)
    then show ?thesis using replace[of i 1 "[]"] assms(2,3) cnt
      by (simp add: CFArrayRemoveValueAtIndex_def segment_Cons[of i xs 0, simplified])
  next
    case (ArrayReplace i n vs)
    then show ?thesis using replace[of i n vs] assms(2,3) valid_range_rep[OF assms(1)] by (simp add: CFArrayReplaceValues_def)
  next
    case (ArrayExchange i j)
    then show ?thesis using exchange_rep[OF assms(1,2)] assms(3) by simp
  next
    case ArrayRemoveAll
    then show ?thesis using release_all_rep[OF assms(1,2), of E] assms(2)
      by (auto simp: CFArrayRemoveAllValues_def array_rep_def same_kind_def)
  next
    case (ArrayReserve cap)
    then show ?thesis using set_capacity_rep[OF assms(1,2) _ assms(4), of cap] assms(3) by simp
  qed
qed

section \<open>References\<close>

fun values_retained :: "array_call list \<Rightarrow> ptr list" where
  "values_retained [] = []"
| "values_retained (ValueRetained r v # cs) = v # values_retained cs"
| "values_retained (ValueReleased r v # cs) = values_retained cs"

fun values_released :: "array_call list \<Rightarrow> ptr list" where
  "values_released [] = []"
| "values_released (ValueReleased r v # cs) = v # values_released cs"
| "values_released (ValueRetained r v # cs) = values_released cs"

lemma values_retained_append [simp]: "values_retained (as @ bs) = values_retained as @ values_retained bs"
  by (induction as rule: values_retained.induct) simp_all

lemma values_released_append [simp]: "values_released (as @ bs) = values_released as @ values_released bs"
  by (induction as rule: values_released.induct) simp_all

lemma values_map [simp]:
  "values_retained (map (ValueRetained r) vs) = vs" "values_retained (map (ValueReleased r) vs) = []"
  "values_released (map (ValueReleased r) vs) = vs" "values_released (map (ValueRetained r) vs) = []"
  by (induction vs) simp_all

lemma values_calls [simp]:
  "values_retained (retains r vs) = (if r \<noteq> NULL then vs else [])" "values_retained (releases r vs) = []"
  "values_released (releases r vs) = (if r \<noteq> NULL then vs else [])" "values_released (retains r vs) = []"
  by (simp_all add: retains_def releases_def)

lemma spec_balance:
  assumes "array_can op a xs"
  shows "mset xs + mset (map f (array_in op)) = mset (array_spec f op xs) + mset (array_out op xs)"
proof (cases op)
  case (ArrayInsert i v)
  have "mset xs = mset (take i xs) + mset (drop i xs)" by (metis append_take_drop_id mset_append)
  then show ?thesis using ArrayInsert by simp
next
  case (ArraySet i v)
  then show ?thesis using assms by (cases "i = length xs") (simp_all add: mset_update segment_Cons[of i xs 0, simplified])
next
  case (ArrayRemove i)
  then show ?thesis using assms id_take_nth_drop[of i xs] by simp (metis mset_append mset.simps(2) union_mset_add_mset_right)
next
  case (ArrayReplace i n vs)
  have "xs = take i xs @ take n (drop i xs) @ drop (i + n) xs" by (metis append_take_drop_id drop_drop add.commute)
  then have "mset xs = mset (take i xs) + (mset (take n (drop i xs)) + mset (drop (i + n) xs))" by (metis mset_append)
  then show ?thesis using ArrayReplace by simp
next
  case (ArrayExchange i j)
  then show ?thesis using assms mset_swap[of j xs i] by (simp add: list_update_swap)
qed simp_all

section \<open>Creation\<close>

definition given_callbacks :: "CFArrayCallBacks option \<Rightarrow> CFArrayCallBacks" where
  "given_callbacks cbs = (case cbs of None \<Rightarrow> kCFNullArrayCallBacks | Some cb \<Rightarrow> cb)"

lemma init_fields:
  assumes "CFArrayInit E ty capacity cbs = Some a"
  shows "arr_type a = ty" "arr_count a = 0" "arr_store a = None" "arr_calls a = []" "CFArrayGetCallBacks E a = given_callbacks cbs"
  using assms
  by (auto simp: CFArrayInit_def Let_def CFArrayGetCallBacks_def CFArrayCallBacksMatchNull_def CFArrayCallBacksMatchCFType_def
      given_callbacks_def split: if_splits option.splits)

text \<open>The cells that the size of an immutable array leaves for its values.\<close>

lemma init_inline:
  assumes "CFArrayInit E ArrayImmutable (int n) cbs = Some a"
  shows "n < 2 ^ 29 - 9 \<Longrightarrow> length (arr_inline a) = n" "2 ^ 29 - 4 \<le> n \<Longrightarrow> length (arr_inline a) < n"
proof -
  obtain ct where a: "length (arr_inline a) = nat (((header_size ct + int n * 8) mod 2 ^ 32 - header_size ct) div 8)"
    using assms by (auto simp: CFArrayInit_def Let_def split: if_splits)
  have h: "header_size ct \<in> {32, 72}" by (simp add: header_size_def)
  show "length (arr_inline a) = n" if "n < 2 ^ 29 - 9"
  proof -
    have "(header_size ct + int n * 8) mod 2 ^ 32 = header_size ct + int n * 8" using h that by auto
    then show ?thesis using a by simp
  qed
  show "length (arr_inline a) < n" if "2 ^ 29 - 4 \<le> n"
  proof -
    have "(header_size ct + int n * 8) mod 2 ^ 32 \<le> header_size ct + int n * 8 - 2 ^ 32"
    proof -
      have "(header_size ct + int n * 8) mod 2 ^ 32 = (header_size ct + int n * 8 - 2 ^ 32) mod 2 ^ 32" by simp
      also have "\<dots> \<le> header_size ct + int n * 8 - 2 ^ 32" using h that by (intro zmod_le_nonneg_dividend) auto
      finally show ?thesis .
    qed
    then have "((header_size ct + int n * 8) mod 2 ^ 32 - header_size ct) div 8 \<le> (int n * 8 - 2 ^ 32) div 8" by (intro zdiv_mono1) auto
    also have "\<dots> < int n" by simp
    finally show ?thesis using a that by simp
  qed
qed

lemma same_kind_new_value: "same_kind a b \<Longrightarrow> new_value E b = new_value E a"
  by (simp add: new_value_def same_kind_callbacks fun_eq_iff)

lemma fill_loop_rep:
  "holds (arr_inline a) 0 us \<Longrightarrow> length us + length vs \<le> length (arr_inline a) \<Longrightarrow>
   \<exists>b. fill_loop E (length us) vs a = Some b \<and> holds (arr_inline b) 0 (us @ new_values E a vs) \<and> same_kind a b \<and>
     arr_calls b = arr_calls a @ retains (acb_retain (CFArrayGetCallBacks E a)) vs"
proof (induction vs arbitrary: a us)
  case Nil
  then show ?case by simp
next
  case (Cons v vs)
  let ?r = "acb_retain (CFArrayGetCallBacks E a)"
  define a1 where "a1 = (if ?r \<noteq> NULL then log_value (ValueRetained ?r v) a else a)\<lparr>arr_inline := (arr_inline a)[length us := Some (new_value E a v)]\<rparr>"
  have k: "same_kind a a1" "arr_calls a1 = arr_calls a @ retains ?r [v]" by (simp_all add: a1_def same_kind_def log_value_def retains_def)
  have l: "length us < length (arr_inline a)" using Cons.prems(2) by simp
  have h: "holds (arr_inline a1) 0 (us @ [new_value E a v])"
    using Cons.prems(1) l unfolding holds_append by (simp add: a1_def holds_def nth_list_update)
  obtain b where b: "fill_loop E (length (us @ [new_value E a v])) vs a1 = Some b" "holds (arr_inline b) 0 ((us @ [new_value E a v]) @ new_values E a1 vs)"
    "same_kind a1 b" "arr_calls b = arr_calls a1 @ retains ?r vs"
    using Cons.IH[OF h] Cons.prems(2) same_kind_callbacks[OF k(1), of E] by (auto simp: a1_def)
  have "fill_loop E (length us) (v # vs) a = fill_loop E (length (us @ [new_value E a v])) vs a1"
    using l by (simp add: a1_def wr_in new_value_def Let_def log_value_def)
  then show ?case using b k same_kind_trans[OF k(1) b(3)] same_kind_new_value[OF k(1)] by (simp add: retains_def)
qed

lemma fill_loop_outside: "length (arr_inline a) < i + length vs \<Longrightarrow> i \<le> length (arr_inline a) \<Longrightarrow> fill_loop E i vs a = None"
proof (induction vs arbitrary: i a)
  case (Cons v vs)
  then show ?case by (cases "i < length (arr_inline a)") (auto simp: wr_def Let_def log_value_def intro!: Cons.IH)
qed simp

lemma array_create_rep:
  assumes "length vs < 2 ^ 29 - 9" "\<And>k. ae_alloc E k"
  shows "\<exists>a. CFArrayCreate E vs cbs = Some a \<and> array_rep a (new_values E a vs) \<and> arr_type a = ArrayImmutable \<and>
    CFArrayGetCallBacks E a = given_callbacks cbs \<and> arr_calls a = retains (acb_retain (given_callbacks cbs)) vs"
proof -
  obtain a where a: "CFArrayInit E ArrayImmutable (int (length vs)) cbs = Some a" using assms(2) by (simp add: CFArrayInit_def Let_def)
  note f = init_fields[OF a]
  obtain b where b: "fill_loop E 0 vs a = Some b" "holds (arr_inline b) 0 (new_values E a vs)" "same_kind a b"
    "arr_calls b = retains (acb_retain (given_callbacks cbs)) vs"
    using fill_loop_rep[of a "[]" vs E] init_inline(1)[OF a assms(1)] f by auto
  have k: "same_kind a (b\<lparr>arr_count := int (length vs)\<rparr>)" using b(3) by (simp add: same_kind_def)
  show ?thesis using a b f(1,5) k same_kind_callbacks[OF k, of E]
    by (simp add: CFArrayCreate_def array_rep_def array_holds_def same_kind_new_value[OF k] same_kind_def)
qed

end
