(* ===== verification/CF_Array_API.thy ===== *)
theory CF_Array_API
  imports CF_Array_Spec "HOL-Library.Sublist"
begin

text \<open>
  Arrays as their clients see them: copies and comparison, sorting, sequences of changes from creation to deallocation with the
  references that are taken and given back, and two places where the code leaves its memory.
\<close>

section \<open>Copies\<close>

lemma append_value_rep:
  assumes "array_rep a xs" "arr_type a = ArrayDeque" "int (length xs) + 1 < array_limit" "\<And>k. ae_alloc E k"
  shows "\<exists>b. CFArrayAppendValue E a v = Some b \<and> array_rep b (xs @ [new_value E a v]) \<and> same_kind a b \<and>
    arr_calls b = arr_calls a @ retains (acb_retain (CFArrayGetCallBacks E a)) [v]"
  using array_do_refines[OF assms(1,2), of "ArrayAppend v", OF _ assms(4)] assms(3) by simp

lemma retains_append: "retains r (us @ vs) = retains r us @ retains r vs"
  by (simp add: retains_def)

text \<open>The other array may be the array itself: what is appended does not change what is still to be read.\<close>

lemma append_loop_rep:
  assumes "\<And>k. ae_alloc E k"
  shows "array_rep a xs \<Longrightarrow> arr_type a = ArrayDeque \<Longrightarrow> int (length xs + n) < array_limit \<Longrightarrow>
    (case other of None \<Rightarrow> prefix ys xs | Some b \<Rightarrow> array_rep b ys) \<Longrightarrow> i + n \<le> length ys \<Longrightarrow>
    \<exists>b. append_loop E other (int i) n a = Some b \<and> array_rep b (xs @ new_values E a (take n (drop i ys))) \<and> same_kind a b \<and>
      arr_calls b = arr_calls a @ retains (acb_retain (CFArrayGetCallBacks E a)) (take n (drop i ys))"
proof (induction n arbitrary: a xs i)
  case 0
  then show ?case by simp
next
  case (Suc n)
  have i: "i < length ys" using Suc.prems(5) by simp
  have v: "CFArrayGetValueAtIndex (case other of None \<Rightarrow> a | Some other \<Rightarrow> other) (int i) = Some (ys ! i)"
  proof (cases other)
    case None
    then have "i < length xs" "xs ! i = ys ! i" using Suc.prems(4) i by (auto simp: prefix_def nth_append)
    then show ?thesis using None get_value[OF Suc.prems(1), of i] by simp
  next
    case (Some b)
    then show ?thesis using Suc.prems(4) get_value[of b ys i] i by simp
  qed
  obtain a1 where a1: "CFArrayAppendValue E a (ys ! i) = Some a1" "array_rep a1 (xs @ [new_value E a (ys ! i)])" "same_kind a a1"
    "arr_calls a1 = arr_calls a @ retains (acb_retain (CFArrayGetCallBacks E a)) [ys ! i]"
    using append_value_rep[OF Suc.prems(1,2) _ assms, of "ys ! i"] Suc.prems(3) by auto
  have t: "arr_type a1 = ArrayDeque" using a1(3) Suc.prems(2) by (simp add: same_kind_def)
  have "case other of None \<Rightarrow> prefix ys (xs @ [new_value E a (ys ! i)]) | Some b \<Rightarrow> array_rep b ys"
    using Suc.prems(4) by (auto split: option.splits)
  from Suc.IH[OF a1(2) t _ this, of "Suc i"] Suc.prems(3,5)
  obtain b where b: "append_loop E other (int (Suc i)) n a1 = Some b"
    "array_rep b ((xs @ [new_value E a (ys ! i)]) @ new_values E a1 (take n (drop (Suc i) ys)))" "same_kind a1 b"
    "arr_calls b = arr_calls a1 @ retains (acb_retain (CFArrayGetCallBacks E a1)) (take n (drop (Suc i) ys))"
    by auto
  have "append_loop E other (int i) (Suc n) a = Some b" using v a1(1) b(1) by (simp add: add.commute)
  then show ?case using b(2-4) a1(4) same_kind_trans[OF a1(3) b(3)] retains_append[of _ "[ys ! i]" "take n (drop (Suc i) ys)"]
    by (simp add: segment_Cons[OF i] same_kind_new_value[OF a1(3)] same_kind_callbacks[OF a1(3)])
qed

lemma fresh_mutable:
  assumes "CFArrayInit E ArrayDeque capacity cbs = Some a"
  shows "array_rep a []" "arr_type a = ArrayDeque"
  using init_fields[OF assms] by (simp_all add: array_rep_def)

lemma copy_rep:
  assumes "array_rep a xs" "length xs < 2 ^ 29 - 9" "\<And>k. ae_alloc E k"
  shows "\<exists>b. CFArrayCreateCopy E a = Some b \<and> array_rep b (new_values E a xs) \<and> arr_type b = ArrayImmutable \<and>
    CFArrayGetCallBacks E b = CFArrayGetCallBacks E a \<and> arr_calls b = retains (acb_retain (CFArrayGetCallBacks E a)) xs"
proof -
  have cnt: "arr_count a = int (length xs)" using assms(1) by (simp add: array_rep_def)
  have "read_values a 0 (length xs) = Some xs" using read_values_rep[OF assms(1), of 0 "length xs"] by simp
  then have "CFArrayCreateCopy E a = CFArrayCreate E xs (Some (CFArrayGetCallBacks E a))"
    by (cases "CFArrayInit E ArrayImmutable (int (length xs)) (Some (CFArrayGetCallBacks E a))")
      (simp_all add: CFArrayCreateCopy_def CFArrayCreate_def cnt Let_def)
  moreover obtain b where b: "CFArrayCreate E xs (Some (CFArrayGetCallBacks E a)) = Some b" "array_rep b (new_values E b xs)" "arr_type b = ArrayImmutable"
    "CFArrayGetCallBacks E b = CFArrayGetCallBacks E a" "arr_calls b = retains (acb_retain (CFArrayGetCallBacks E a)) xs"
    using array_create_rep[OF assms(2,3), of "Some (CFArrayGetCallBacks E a)"] by (auto simp: given_callbacks_def)
  moreover have "new_value E b = new_value E a" using b(4) by (simp add: new_value_def fun_eq_iff)
  ultimately show ?thesis by auto
qed

lemma mutable_copy_rep:
  assumes "array_rep a xs" "int (length xs) < array_limit" "\<And>k. ae_alloc E k"
  shows "\<exists>b. CFArrayCreateMutableCopy E capacity a = Some b \<and> array_rep b (new_values E a xs) \<and> arr_type b = ArrayDeque \<and>
    CFArrayGetCallBacks E b = CFArrayGetCallBacks E a \<and> arr_calls b = retains (acb_retain (CFArrayGetCallBacks E a)) xs"
proof -
  have cnt: "arr_count a = int (length xs)" using assms(1) by (simp add: array_rep_def)
  let ?cb = "Some (CFArrayGetCallBacks E a)"
  obtain r where r: "CFArrayInit E ArrayDeque capacity ?cb = Some r" using assms(3) by (simp add: CFArrayInit_def Let_def)
  note f = init_fields[OF r] and m = fresh_mutable[OF r]
  obtain r1 where r1: "(if capacity = 0 then CFArraySetCapacity E r (int (length xs)) else Some r) = Some r1" "array_rep r1 []" "same_kind r r1"
    "arr_calls r1 = []"
    using set_capacity_rep[OF m, of "int (length xs)" E] assms(2,3) f(3,4) m(1) by (cases "capacity = 0") auto
  have t: "arr_type r1 = ArrayDeque" using r1(3) m(2) by (simp add: same_kind_def)
  have cb: "CFArrayGetCallBacks E r1 = CFArrayGetCallBacks E a"
    using same_kind_callbacks[OF r1(3), of E] f(5) by (simp add: given_callbacks_def)
  then have nv: "new_value E r1 = new_value E a" by (simp add: new_value_def fun_eq_iff)
  obtain b where b: "append_loop E (Some a) 0 (length xs) r1 = Some b" "array_rep b (new_values E a xs)" "same_kind r1 b"
    "arr_calls b = retains (acb_retain (CFArrayGetCallBacks E a)) xs"
    using append_loop_rep[OF assms(3) r1(2) t, where n = "length xs" and other = "Some a" and ys = xs and i = 0] assms(1,2) r1(4) by (auto simp: cb nv)
  have "CFArrayCreateMutableCopy E capacity a = Some b"
    using r r1(1) b(1) by (simp add: CFArrayCreateMutableCopy_def cnt Let_def del: if_split split del: if_split)
  then show ?thesis using b(2-4) t same_kind_callbacks[OF b(3), of E] cb by (auto simp: same_kind_def)
qed

lemma equal_loop_same:
  assumes "array_rep a xs" "array_rep b xs"
  shows "i + n \<le> length xs \<Longrightarrow> equal_loop eq a b (int i) n = Some True"
proof (induction n arbitrary: i)
  case (Suc n)
  then have "xs \<noteq> []" by auto
  then have h: "array_holds a xs" "array_holds b xs" using assms by (auto simp: array_rep_def)
  then show ?case using Suc.IH[of "Suc i"] Suc.prems get_bucket_holds[OF h(1), of i] get_bucket_holds[OF h(2), of i] by (simp add: add.commute)
qed simp

lemma append_array_rep:
  assumes "array_rep a xs" "arr_type a = ArrayDeque" "case other of None \<Rightarrow> ys = xs | Some b \<Rightarrow> array_rep b ys" "i + n \<le> length ys"
    "int (length xs + n) < array_limit" "\<And>k. ae_alloc E k"
  shows "\<exists>b. CFArrayAppendArray E a other (CFRangeMake i n) = Some b \<and> array_rep b (xs @ new_values E a (take n (drop i ys)))"
proof -
  have "case other of None \<Rightarrow> prefix ys xs | Some b \<Rightarrow> array_rep b ys" using assms(3) by (auto split: option.splits)
  from append_loop_rep[OF assms(6,1,2,5) this assms(4)] show ?thesis
    using assms(1,3,4) valid_range_rep by (auto simp: CFArrayAppendArray_def split: option.splits)
qed

text \<open>Searching for a value and visiting the values of a range; equal arrays have equal hashes.\<close>

theorem array_searches:
  assumes "array_rep a xs" "i + n \<le> length xs" "seg = take n (drop i xs)"
  shows "CFArrayGetCountOfValue E a (CFRangeMake i n) v = Some (int (length (filter (value_matches E a v) seg))) \<and>
    CFArrayGetFirstIndexOfValue E a (CFRangeMake i n) v = Some (shift_place i (first_place (value_matches E a v) seg)) \<and>
    CFArrayGetLastIndexOfValue E a (CFRangeMake i n) v = Some (shift_place i (last_place (value_matches E a v) seg)) \<and>
    CFArrayContainsValue E a (CFRangeMake i n) v = Some (\<exists>x \<in> set seg. value_matches E a v x) \<and>
    CFArrayApplyFunction f a (CFRangeMake i n) s = Some (fold f seg s)"
  using assms valid_range_rep[OF assms(1)] count_loop_rep[OF assms(1)] first_loop_rep[OF assms(1)] last_loop_rep[OF assms(1)] apply_loop_rep[OF assms(1)]
  by (auto simp: CFArrayGetCountOfValue_def CFArrayGetFirstIndexOfValue_def CFArrayGetLastIndexOfValue_def CFArrayContainsValue_def
      CFArrayApplyFunction_def shift_place_def first_place_def)

lemma equal_hash: "CFArrayEqual E a b = Some True \<Longrightarrow> CFArrayHash a = CFArrayHash b"
  by (auto simp: CFArrayEqual_def CFArrayHash_def Let_def split: if_splits)

section \<open>Sorting\<close>

text \<open>The bubble sort of an array does what it does on the list of the values.\<close>

lemma zsort_pass_rep:
  "array_rep a xs \<Longrightarrow> arr_type a = ArrayDeque \<Longrightarrow> zsort_pass c i n xs = Some ys \<Longrightarrow>
   \<exists>b. array_zsort_pass c i n a = Some b \<and> array_rep b ys \<and> same_kind a b \<and> arr_calls b = arr_calls a"
proof (induction n arbitrary: i a xs)
  case 0
  then show ?case by simp
next
  case (Suc n)
  have i: "i < length xs" "Suc i < length xs" using Suc.prems(3) by (auto simp: aget_def split: if_splits bind_splits)
  let ?swap = "c (xs ! Suc i) (xs ! i) = kCFCompareLessThan"
  define xs1 where "xs1 = (if ?swap then xs[i := xs ! Suc i, Suc i := xs ! i] else xs)"
  have z: "zsort_pass c (Suc i) n xs1 = Some ys" using Suc.prems(3) i by (simp add: aget_in aset_in xs1_def split: if_splits)
  obtain a1 where a1: "(if ?swap then CFArrayExchangeValuesAtIndices a (int i) (int (i + 1)) else Some a) = Some a1"
    "array_rep a1 xs1" "same_kind a a1" "arr_calls a1 = arr_calls a"
    using exchange_rep[OF Suc.prems(1,2) i] Suc.prems(1) by (cases ?swap) (auto simp: xs1_def)
  have t: "arr_type a1 = ArrayDeque" using a1(3) Suc.prems(2) by (simp add: same_kind_def)
  obtain b where b: "array_zsort_pass c (Suc i) n a1 = Some b" "array_rep b ys" "same_kind a1 b" "arr_calls b = arr_calls a1"
    using Suc.IH[OF a1(2) t z] by blast
  have "array_zsort_pass c i (Suc n) a = Some b"
    using get_value[OF Suc.prems(1) i(1)] get_value[OF Suc.prems(1) i(2)] a1(1) b(1) by (simp split del: if_split)
  then show ?case using b a1(3,4) same_kind_trans[OF a1(3) b(3)] by simp
qed

lemma zsort_rep:
  "array_rep a xs \<Longrightarrow> arr_type a = ArrayDeque \<Longrightarrow> CFZSort c loc n xs = Some ys \<Longrightarrow>
   \<exists>b. array_zsort c loc n a = Some b \<and> array_rep b ys \<and> same_kind a b \<and> arr_calls b = arr_calls a"
proof (induction n arbitrary: a xs)
  case 0
  then show ?case by simp
next
  case (Suc n)
  show ?case
  proof (cases "n = 0")
    case True
    then show ?thesis using Suc.prems by simp
  next
    case False
    obtain xs1 where xs1: "zsort_pass c loc n xs = Some xs1" "CFZSort c loc n xs1 = Some ys"
      using Suc.prems(3) False by (auto split: bind_splits)
    obtain a1 where a1: "array_zsort_pass c loc n a = Some a1" "array_rep a1 xs1" "same_kind a a1" "arr_calls a1 = arr_calls a"
      using zsort_pass_rep[OF Suc.prems(1,2) xs1(1)] by blast
    have t: "arr_type a1 = ArrayDeque" using a1(3) Suc.prems(2) by (simp add: same_kind_def)
    obtain b where "array_zsort c loc n a1 = Some b" "array_rep b ys" "same_kind a1 b" "arr_calls b = arr_calls a1"
      using Suc.IH[OF a1(2) t xs1(2)] by blast
    then show ?thesis using a1 False same_kind_trans[OF a1(3)] by auto
  qed
qed

lemma get_values_rep:
  assumes "array_rep a xs" "i + n \<le> length xs"
  shows "CFArrayGetValues a (CFRangeMake i n) = Some (take n (drop i xs))"
proof (cases "n = 0")
  case True
  then show ?thesis using assms valid_range_rep[OF assms(1)] by (simp add: CFArrayGetValues_def)
next
  case False
  then have h: "array_holds a xs" using assms by (auto simp: array_rep_def)
  obtain m k where m: "CFArrayGetBucketsPtr a = Some (m, k)" "holds m k xs" by (rule buckets_hold[OF h])
  let ?seg = "take n (drop i xs)"
  have l: "length ?seg = n" "int (length (take i xs)) = int i" using assms(2) by simp_all
  have xs: "take i xs @ ?seg @ drop (i + n) xs = xs" by (metis append_take_drop_id drop_drop add.commute)
  have "holds m k (take i xs @ ?seg @ drop (i + n) xs)" unfolding xs by (rule m(2))
  then have s: "holds m (k + int i) ?seg" unfolding holds_append l(2) by blast
  obtain cells where c: "(if 0 < int (length ?seg) then mem_move (mem_alloc n) 0 m (k + int i) (int (length ?seg)) else Some (mem_alloc n)) = Some cells"
    "length cells = length (mem_alloc n :: ptr mem)" "holds cells 0 ?seg"
    by (rule move_holds[OF s, of 0 "mem_alloc n"]) (use l in auto)
  have "cells = map Some ?seg"
    by (rule nth_equalityI) (use c(2) l holdsD(3)[OF c(3)] in auto)
  moreover have "those (map Some ys) = Some ys" for ys :: "ptr list" by (induction ys) simp_all
  ultimately show ?thesis using c(1) False assms(2) valid_range_rep[OF assms(1)] m(1) l(1) by (simp add: CFArrayGetValues_def)
qed

lemma array_sort_rep:
  assumes "array_rep a xs" "arr_type a = ArrayDeque" "loc + len \<le> length xs" "int (length xs + len) < array_limit" "\<And>k. ae_alloc E k"
    "\<And>v. new_value E a v = v" "cf_comparator (gt_of c)" "\<And>a b. c b a = kCFCompareLessThan \<longleftrightarrow> c a b = kCFCompareGreaterThan"
  shows "\<exists>b ys. array_sort E a (CFRangeMake loc len) c = Some b \<and> array_rep b ys \<and> same_kind a b \<and>
    (\<forall>unpaired. CFArraySortValues False unpaired c (CFRangeMake loc len) xs = Some ys)"
proof -
  have lim: "len \<le> 2 ^ 60 - 1" using assms(4) by simp
  obtain vs where vs: "\<forall>unpaired. CFArraySortValues False unpaired c (CFRangeMake loc len) xs = Some (take loc xs @ vs @ drop (loc + len) xs)"
    "stable_sorted (gt_of c) (take len (drop loc xs)) vs"
    using array_sort_values[of c loc len xs] assms(3,7,8) lim by auto
  let ?ys = "take loc xs @ vs @ drop (loc + len) xs" and ?cb = "CFArrayGetCallBacks E a"
  have "\<exists>b. array_sort E a (CFRangeMake loc len) c = Some b \<and> array_rep b ?ys \<and> same_kind a b"
  proof (cases "(acb_retain ?cb \<noteq> NULL) \<noteq> (acb_release ?cb \<noteq> NULL)")
    case True
    have "CFZSort c loc len xs = Some ?ys" using spec[OF vs(1), of True] assms(3) by (simp add: CFArraySortValues_def Let_def)
    from zsort_rep[OF assms(1,2) this] show ?thesis using True assms(2,3) valid_range_rep[OF assms(1)] by (auto simp: array_sort_def Let_def)
  next
    case False
    show ?thesis
    proof (cases "len < 2")
      case True
      then have "?ys = xs" using spec[OF vs(1), of False] assms(3) by (simp add: CFArraySortValues_def Let_def)
      then show ?thesis using True False assms(1,2,3) valid_range_rep[OF assms(1)] by (auto simp: array_sort_def Let_def)
    next
      case len: False
      then have q: "CFQSortArray c (take len (drop loc xs)) = Some vs"
        using spec[OF vs(1), of False] assms(3) by (auto simp: CFArraySortValues_def Let_def split: bind_splits)
      have l: "length vs = len" using vs(2) rearr_length[of _ "take len (drop loc xs)" vs] assms(3) by (auto simp: stable_sorted_def)
      have "array_can (ArrayReplace loc len vs) a xs" using assms(3,4) l by simp
      from array_do_refines[OF assms(1,2) this assms(5)] obtain b where
        "CFArrayReplaceValues E a (CFRangeMake loc len) vs = Some b" "array_rep b ?ys" "same_kind a b"
        using assms(6) by (auto simp: map_idI)
      then show ?thesis using False len q assms(2,3,5) get_values_rep[OF assms(1,3)] valid_range_rep[OF assms(1)]
        by (auto simp: array_sort_def Let_def)
    qed
  qed
  then show ?thesis using vs(1) by blast
qed

section \<open>Sequences of changes\<close>

text \<open>The states of a mutable array with given callbacks, with the list of its values as the specification has it.\<close>

inductive array_reach :: "array_env \<Rightarrow> CFArrayCallBacks option \<Rightarrow> CFArray \<Rightarrow> ptr list \<Rightarrow> bool" for E cbs where
  create: "CFArrayCreateMutable E capacity cbs = Some (Some a) \<Longrightarrow> array_reach E cbs a []"
| change: "array_reach E cbs a xs \<Longrightarrow> array_can op a xs \<Longrightarrow> array_do E op a = Some b \<Longrightarrow>
    array_reach E cbs b (array_spec (new_value E a) op xs)"

inductive_cases array_reachE: "array_reach E cbs a xs"

text \<open>Every reference that was taken has been given back or is for a value of the array.\<close>

definition balanced :: "array_env \<Rightarrow> CFArray \<Rightarrow> ptr list \<Rightarrow> bool" where
  "balanced E a xs \<longleftrightarrow> mset (new_values E a (values_retained (arr_calls a))) = mset (values_released (arr_calls a)) + mset xs"

definition paired :: "CFArrayCallBacks \<Rightarrow> bool" where
  "paired cb \<longleftrightarrow> acb_retain cb \<noteq> NULL \<and> acb_release cb \<noteq> NULL"

lemma array_reach_rep:
  assumes "\<And>k. ae_alloc E k" "array_reach E cbs a xs"
  shows "array_rep a xs \<and> arr_type a = ArrayDeque \<and> CFArrayGetCallBacks E a = given_callbacks cbs \<and>
    (paired (given_callbacks cbs) \<longrightarrow> balanced E a xs)"
  using assms(2)
proof induction
  case (create capacity a)
  then have a: "CFArrayInit E ArrayDeque capacity cbs = Some a" by (simp add: CFArrayCreateMutable_def split: if_splits)
  show ?case using fresh_mutable[OF a] init_fields[OF a] by (simp add: balanced_def)
next
  case (change a xs op b)
  then have IH: "array_rep a xs" "arr_type a = ArrayDeque" "CFArrayGetCallBacks E a = given_callbacks cbs"
    "paired (given_callbacks cbs) \<Longrightarrow> balanced E a xs" by auto
  have b: "array_rep b (array_spec (new_value E a) op xs)" "same_kind a b"
    "arr_calls b = arr_calls a @ retains (acb_retain (given_callbacks cbs)) (array_in op) @ releases (acb_release (given_callbacks cbs)) (array_out op xs)"
    using array_do_refines[OF IH(1,2) change.hyps(2) assms(1)] change.hyps(3) IH(3) by auto
  have "balanced E b (array_spec (new_value E a) op xs)" if p: "paired (given_callbacks cbs)"
    using IH(4)[OF p] b(3) spec_balance[OF change.hyps(2), of "new_value E a"] p same_kind_new_value[OF b(2), of E]
    by (simp add: balanced_def paired_def)
  then show ?case using b(1,2) IH(2,3) same_kind_callbacks[OF b(2), of E] by (simp add: same_kind_def)
qed

lemma deallocate_rep:
  assumes "array_rep a xs" "arr_type a = ArrayDeque"
  shows "\<exists>b. CFArrayDeallocate E a = Some b \<and> arr_store b = None \<and> same_kind a b \<and>
    arr_calls b = arr_calls a @ releases (acb_release (CFArrayGetCallBacks E a)) xs"
  using release_all_rep[OF assms, of E] by (auto simp: CFArrayDeallocate_def)

section \<open>Sorted ranges\<close>

lemma takeWhile_sorted:
  assumes "\<And>x y. R x y \<Longrightarrow> B y \<Longrightarrow> B x"
  shows "sorted_wrt R xs \<Longrightarrow> k < length xs \<Longrightarrow> B (xs ! k) \<longleftrightarrow> k < length (takeWhile B xs)"
proof (induction xs arbitrary: k)
  case (Cons x xs)
  show ?case
  proof (cases k)
    case 0
    then show ?thesis by simp
  next
    case (Suc j)
    then have "B (xs ! j) \<Longrightarrow> B x" using Cons.prems assms[of x "xs ! j"] by simp
    then show ?thesis using Suc Cons by auto
  qed
qed simp

lemma insert_sorted_place:
  assumes "sorted_wrt R xs" "\<And>x y. R x y \<Longrightarrow> B y \<Longrightarrow> B x" "\<And>x. B x \<Longrightarrow> R x v" "\<And>x. \<not> B x \<Longrightarrow> R v x" "p = length (takeWhile B xs)"
  shows "sorted_wrt R (take p xs @ v # drop p xs)"
proof -
  have t: "\<forall>x \<in> set (take p xs). B x" unfolding assms(5) takeWhile_eq_take[symmetric] by (auto dest: set_takeWhileD)
  have d: "\<forall>x \<in> set (drop p xs). \<not> B x"
  proof
    fix x
    assume "x \<in> set (drop p xs)"
    then obtain j where "j < length xs - p" "x = xs ! (p + j)" by (auto simp: in_set_conv_nth)
    then show "\<not> B x" using takeWhile_sorted[of R B, OF assms(2,1), where k = "p + j"] assms(5) by simp
  qed
  have "sorted_wrt R (take p xs @ drop p xs)" using assms(1) by simp
  then show ?thesis using t d assms(3,4) unfolding sorted_wrt_append by auto
qed

section \<open>Properties\<close>

definition array_sample_env :: array_env where
  "array_sample_env = \<lparr>ae_CFType = \<lparr>acb_retain = 900, acb_release = 901, acb_copyDescription = 902, acb_equal = 903\<rparr>,
     ae_retained = (\<lambda>f v. v), ae_equal = (\<lambda>f v w. v = w), ae_alloc = (\<lambda>n. True)\<rparr>"

abbreviation array_sample_callbacks :: "CFArrayCallBacks option" where
  "array_sample_callbacks \<equiv> Some (ae_CFType array_sample_env)"

lemma array_sample_alloc: "ae_alloc array_sample_env k"
  by (simp add: array_sample_env_def)

definition array_sample :: "ptr mem \<Rightarrow> int \<Rightarrow> int \<Rightarrow> CFArray" where
  "array_sample m left n = \<lparr>arr_type = ArrayDeque, arr_cbtype = ArrayCFTypeCallBacks, arr_custom = ae_CFType array_sample_env, arr_count = n,
     arr_mutations = 1, arr_inline = [], arr_store = Some \<lparr>dq_leftIdx = left, dq_capacity = int (length m), dq_buckets = m\<rparr>, arr_calls = []\<rparr>"

lemma array_sample_rep:
  "int (length m) \<le> 2 ^ 30 \<Longrightarrow> holds m left xs \<Longrightarrow> n = int (length xs) \<Longrightarrow> array_rep (array_sample m left n) xs"
  using holdsD(1,2)[of m left xs] by (simp add: array_sample_def array_rep_def array_holds_def gapped_def)

text \<open>
  C11. Mutable arrays implement lists. In every state that permitted calls reach from the creation of a mutable array, every permitted
  call returns, stays inside the memory of the store, and changes the values as the operation on lists says; the
  values can be read back at every index.
\<close>

theorem array_refines_list:
  assumes "\<forall>k. ae_alloc E k" "array_reach E cbs a xs" "array_can op a xs"
  shows "\<exists>b ys. array_do E op a = Some b \<and> ys = array_spec (new_value E a) op xs \<and> array_reach E cbs b ys \<and>
    arr_count b = int (length ys) \<and> (\<forall>i < length ys. CFArrayGetValueAtIndex b (int i) = Some (ys ! i))"
proof -
  have a: "array_rep a xs" "arr_type a = ArrayDeque" using array_reach_rep[OF _ assms(2)] assms(1) by auto
  obtain b where b: "array_do E op a = Some b" "array_rep b (array_spec (new_value E a) op xs)"
    using array_do_refines[OF a assms(3), of E] assms(1) by blast
  then show ?thesis using array_reach.change[OF assms(2,3) b(1)] get_value[OF b(2)] by (auto simp: array_rep_def)
qed

theorem array_refines_list_witness:
  "\<exists>a b. CFArrayCreateMutable array_sample_env 0 array_sample_callbacks = Some (Some a) \<and>
     array_do array_sample_env (ArrayAppend 5) a = Some b \<and> arr_count b = 1 \<and> CFArrayGetValueAtIndex b 0 = Some 5"
proof -
  obtain a where a: "CFArrayCreateMutable array_sample_env 0 array_sample_callbacks = Some (Some a)"
    by (simp add: CFArrayCreateMutable_def CFArrayInit_def Let_def array_sample_alloc)
  from array_refines_list[OF _ array_reach.create[OF a], of "ArrayAppend 5"]
  obtain b ys where b: "array_do array_sample_env (ArrayAppend 5) a = Some b" "ys = [new_value array_sample_env a 5]"
    "arr_count b = int (length ys)" "\<forall>i < length ys. CFArrayGetValueAtIndex b (int i) = Some (ys ! i)"
    by (auto simp: array_sample_alloc)
  moreover have "new_value array_sample_env a 5 = 5" by (simp add: new_value_def Let_def array_sample_env_def)
  ultimately show ?thesis using a by auto
qed

text \<open>
  C21. References of arrays are balanced: over every sequence of permitted changes of an array with both a \<^verbatim>\<open>retain\<close>
  and a \<^verbatim>\<open>release\<close> callback, the references taken are those given back and one for each place of the array, and deallocation gives back the rest and frees the store.
\<close>

theorem array_references_balanced:
  assumes "\<forall>k. ae_alloc E k" "array_reach E cbs a xs" "paired (given_callbacks cbs)"
  shows "mset (new_values E a (values_retained (arr_calls a))) = mset (values_released (arr_calls a)) + mset xs \<and>
    (\<exists>b. CFArrayDeallocate E a = Some b \<and> arr_store b = None \<and>
      mset (new_values E a (values_retained (arr_calls b))) = mset (values_released (arr_calls b)))"
proof -
  have a: "array_rep a xs" "arr_type a = ArrayDeque" "CFArrayGetCallBacks E a = given_callbacks cbs" "balanced E a xs"
    using array_reach_rep[OF _ assms(2)] assms(1,3) by auto
  obtain b where "CFArrayDeallocate E a = Some b" "arr_store b = None"
    "arr_calls b = arr_calls a @ releases (acb_release (given_callbacks cbs)) xs"
    using deallocate_rep[OF a(1,2), of E] a(3) by auto
  then show ?thesis using a(4) assms(3) by (simp add: balanced_def paired_def)
qed

theorem array_references_balanced_witness:
  "\<exists>a b c. CFArrayCreateMutable array_sample_env 0 array_sample_callbacks = Some (Some a) \<and>
     array_do array_sample_env (ArrayAppend 5) a = Some b \<and> CFArrayDeallocate array_sample_env b = Some c \<and> arr_store c = None \<and>
     mset (values_retained (arr_calls c)) = mset (values_released (arr_calls c))"
proof -
  obtain a where a: "CFArrayCreateMutable array_sample_env 0 array_sample_callbacks = Some (Some a)"
    by (simp add: CFArrayCreateMutable_def CFArrayInit_def Let_def array_sample_alloc)
  note r = array_reach.create[OF a]
  have rep: "array_rep a []" "arr_type a = ArrayDeque" using array_reach_rep[OF array_sample_alloc r] by auto
  obtain b where b: "array_do array_sample_env (ArrayAppend 5) a = Some b"
    using array_do_refines[OF rep, of "ArrayAppend 5"] array_sample_alloc by auto
  have rb: "array_reach array_sample_env array_sample_callbacks b [new_value array_sample_env a 5]"
    using array_reach.change[OF r _ b] by simp
  have p: "paired (given_callbacks array_sample_callbacks)" by (simp add: paired_def given_callbacks_def array_sample_env_def)
  have "new_value array_sample_env b = (\<lambda>v. v)" by (simp add: new_value_def Let_def array_sample_env_def fun_eq_iff)
  then show ?thesis using array_references_balanced[OF _ rb p] a b array_sample_alloc by auto
qed

text \<open>
  C29. Sorting an array. On a mutable array \<^verbatim>\<open>CFArraySortValues\<close> returns and leaves the values in the one stable order, with the bubble sort
  by exchanges as well as with the merge sort of a copy that replaces the range. The \<^verbatim>\<open>retain\<close> callback, if there is one, answers its argument:
  the copy is put back with \<^verbatim>\<open>CFArrayReplaceValues\<close>, which retains the values again.
\<close>

theorem array_sort_refines:
  assumes "array_rep a xs" "arr_type a = ArrayDeque" "loc + len \<le> length xs" "int (length xs + len) < array_limit" "\<forall>k. ae_alloc E k"
    "\<forall>v. new_value E a v = v" "cf_comparator (gt_of c)" "\<forall>a b. c b a = kCFCompareLessThan \<longleftrightarrow> c a b = kCFCompareGreaterThan"
  shows "\<exists>b ys vs. array_sort E a (CFRangeMake loc len) c = Some b \<and> array_rep b ys \<and> ys = take loc xs @ vs @ drop (loc + len) xs \<and>
    stable_sorted (gt_of c) (take len (drop loc xs)) vs \<and>
    (\<forall>unpaired. CFArraySortValues False unpaired c (CFRangeMake loc len) xs = Some ys)"
proof -
  obtain b ys where b: "array_sort E a (CFRangeMake loc len) c = Some b" "array_rep b ys"
    "\<forall>unpaired. CFArraySortValues False unpaired c (CFRangeMake loc len) xs = Some ys"
    using array_sort_rep[OF assms(1-4) _ _ assms(7)] assms(5,6,8) by blast
  have "len \<le> 2 ^ 60 - 1" using assms(4) by simp
  then obtain vs where "stable_sorted (gt_of c) (take len (drop loc xs)) vs"
    "CFArraySortValues False False c (CFRangeMake loc len) xs = Some (take loc xs @ vs @ drop (loc + len) xs)"
    using array_sort_values[OF assms(7,8,3)] by blast
  then show ?thesis using b by auto
qed

definition by_tens :: "ptr \<Rightarrow> ptr \<Rightarrow> CFComparisonResult" where
  "by_tens a b = tens (unat a) (unat b)"

lemma by_tens_ok: "cf_comparator (gt_of by_tens)" "\<forall>a b. by_tens b a = kCFCompareLessThan \<longleftrightarrow> by_tens a b = kCFCompareGreaterThan"
  by (unfold_locales, auto simp: by_tens_def tens_def split: if_splits)

definition sample_cells :: "ptr mem" where
  "sample_cells = [None, Some 31, Some 12, Some 30, None]"

lemma sample_cells_rep: "array_rep (array_sample sample_cells 1 3) [31, 12, 30]"
proof -
  have "holds sample_cells 1 [31, 12, 30]" by (auto simp: holds_def sample_cells_def less_Suc_eq numeral_3_eq_3)
  then show ?thesis by (intro array_sample_rep) (simp_all add: sample_cells_def)
qed

theorem array_sort_refines_witness:
  "\<exists>b. array_sort array_sample_env (array_sample sample_cells 1 3) (CFRangeMake 0 3) by_tens = Some b \<and> array_rep b [12, 31, 30]"
proof -
  have t: "arr_type (array_sample sample_cells 1 3) = ArrayDeque" by (simp add: array_sample_def)
  have nv: "\<forall>v. new_value array_sample_env (array_sample sample_cells 1 3) v = v" by (simp add: new_value_def Let_def array_sample_env_def)
  from array_sort_refines[OF sample_cells_rep t _ _ _ nv by_tens_ok, of 0 3] obtain b ys where
    "array_sort array_sample_env (array_sample sample_cells 1 3) (CFRangeMake 0 3) by_tens = Some b" "array_rep b ys"
    "CFArraySortValues False True by_tens (CFRangeMake 0 3) [31, 12, 30] = Some ys"
    using array_sample_alloc by auto
  moreover have "CFArraySortValues False True by_tens (CFRangeMake 0 3) [31, 12, 30] = Some [12, 31, 30]"
  proof -
    have three: "3 = Suc (Suc (Suc 0))" by simp
    show ?thesis unfolding three by (simp add: CFArraySortValues_def aget_def aset_def by_tens_def tens_def)
  qed
  ultimately show ?thesis by auto
qed

text \<open>
  C30. The binary search. In a sorted range \<^verbatim>\<open>CFArrayBSearchValues\<close> returns the number of values less than the given one, counted from the
  start of the array; inserting the value there keeps the range sorted.
\<close>

theorem array_bsearch:
  assumes "array_rep a xs" "i + n \<le> length xs" "n < 2 ^ 31" "seg = take n (drop i xs)" "cf_comparator (gt_of c)"
    "\<forall>a b. c b a = kCFCompareLessThan \<longleftrightarrow> c a b = kCFCompareGreaterThan" "sorted_wrt (\<lambda>a b. c a b \<noteq> kCFCompareGreaterThan) seg"
  shows "\<exists>p. CFArrayBSearchValues a (CFRangeMake i n) v c = Some (int (i + p)) \<and>
    p = length (takeWhile (\<lambda>x. c x v = kCFCompareLessThan) seg) \<and>
    sorted_wrt (\<lambda>a b. c a b \<noteq> kCFCompareGreaterThan) (take p seg @ v # drop p seg)"
proof -
  let ?B = "\<lambda>x. c x v = kCFCompareLessThan" and ?R = "\<lambda>a b. c a b \<noteq> kCFCompareGreaterThan"
  define p where "p = length (takeWhile ?B seg)"
  have mono: "?R x y \<Longrightarrow> ?B y \<Longrightarrow> ?B x" for x y using cf_comparator.le_trans[OF assms(5), of v x y] assms(6) by auto
  have anti: "c v x = kCFCompareLessThan \<Longrightarrow> c x v \<noteq> kCFCompareLessThan" for x using assms(6) cf_comparator.gt_asym[OF assms(5)] by metis
  have len: "length seg = n" using assms(2,4) by simp
  have "?B (xs ! (i + k)) \<longleftrightarrow> k < p" if "k < n" for k
    using takeWhile_sorted[of ?R ?B, OF mono assms(7), where k = k] that len assms(2,4) by (simp add: p_def)
  moreover have "p \<le> n" using length_takeWhile_le[of ?B seg] len by (simp add: p_def)
  ultimately have "CFArrayBSearchValues a (CFRangeMake i n) v c = Some (int (i + p))"
    by (intro bsearch_rep[OF assms(1-3)]) (use anti in auto)
  moreover have "sorted_wrt ?R (take p seg @ v # drop p seg)"
    by (rule insert_sorted_place[OF assms(7) mono _ _ p_def]) (use assms(6) cf_comparator.gt_asym[OF assms(5)] in auto)
  ultimately show ?thesis using p_def by blast
qed

theorem array_bsearch_witness:
  "CFArrayBSearchValues (array_sample [Some 10, Some 11, Some 30, Some 50] 0 4) (CFRangeMake 0 4) 25 by_tens = Some 2"
proof -
  have "holds [Some 10, Some 11, Some 30, Some 50] 0 [10, 11, 30, 50 :: ptr]" using holds_map_Some[of "[10, 11, 30, 50 :: ptr]"] by simp
  then have "array_rep (array_sample [Some 10, Some 11, Some 30, Some 50] 0 4) [10, 11, 30, 50]" by (intro array_sample_rep) simp_all
  moreover have "sorted_wrt (\<lambda>a b. by_tens a b \<noteq> kCFCompareGreaterThan) (take 4 (drop 0 [10, 11, 30, 50]))"
    by (simp add: by_tens_def tens_def)
  ultimately obtain p where p: "CFArrayBSearchValues (array_sample [Some 10, Some 11, Some 30, Some 50] 0 4) (CFRangeMake 0 4) 25 by_tens = Some (int (0 + p))"
    "p = length (takeWhile (\<lambda>x. by_tens x 25 = kCFCompareLessThan) (take 4 (drop 0 [10, 11, 30, 50])))"
    using array_bsearch[OF _ _ _ refl by_tens_ok, of "array_sample [Some 10, Some 11, Some 30, Some 50] 0 4" "[10, 11, 30, 50]" 0 4 25] by auto
  have "p = 2" unfolding p(2) by (simp add: by_tens_def tens_def)
  then show ?thesis using p(1) by simp
qed

text \<open>
  C31. Copies. Immutable and mutable copies of an array hold its values, retain each of them once, and compare equal to it,
  provided that the \<^verbatim>\<open>retain\<close> callback, if there is one, answers its argument.
\<close>

theorem array_copies:
  assumes "array_rep a xs" "length xs < 2 ^ 29 - 9" "\<forall>k. ae_alloc E k" "\<forall>v. new_value E a v = v"
  shows "\<exists>b m. CFArrayCreateCopy E a = Some b \<and> CFArrayCreateMutableCopy E capacity a = Some m \<and> array_rep b xs \<and> array_rep m xs \<and>
    arr_type b = ArrayImmutable \<and> arr_type m = ArrayDeque \<and> CFArrayEqual E a b = Some True \<and> CFArrayEqual E a m = Some True \<and>
    arr_calls b = retains (acb_retain (CFArrayGetCallBacks E a)) xs \<and> arr_calls m = arr_calls b"
proof -
  have nv: "new_values E a xs = xs" using assms(4) by (simp add: map_idI)
  obtain b where b: "CFArrayCreateCopy E a = Some b" "array_rep b xs" "arr_type b = ArrayImmutable"
    "CFArrayGetCallBacks E b = CFArrayGetCallBacks E a" "arr_calls b = retains (acb_retain (CFArrayGetCallBacks E a)) xs"
    using copy_rep[OF assms(1,2), of E] assms(3) nv by auto
  obtain m where m: "CFArrayCreateMutableCopy E capacity a = Some m" "array_rep m xs" "arr_type m = ArrayDeque"
    "CFArrayGetCallBacks E m = CFArrayGetCallBacks E a" "arr_calls m = retains (acb_retain (CFArrayGetCallBacks E a)) xs"
    using mutable_copy_rep[OF assms(1), of E capacity] assms(2,3) nv by auto
  have "CFArrayEqual E a x = Some True" if x: "array_rep x xs" "CFArrayGetCallBacks E x = CFArrayGetCallBacks E a" for x
    using equal_loop_same[OF assms(1) x(1), of 0 "length xs"] assms(1) x by (simp add: CFArrayEqual_def array_rep_def)
  then show ?thesis using b m by auto
qed

theorem array_copies_witness:
  "\<exists>b m. CFArrayCreateCopy array_sample_env (array_sample sample_cells 1 3) = Some b \<and>
     CFArrayCreateMutableCopy array_sample_env 0 (array_sample sample_cells 1 3) = Some m \<and> array_rep b [31, 12, 30] \<and> array_rep m [31, 12, 30]"
proof -
  have nv: "\<forall>v. new_value array_sample_env (array_sample sample_cells 1 3) v = v" by (simp add: new_value_def Let_def array_sample_env_def)
  show ?thesis using array_copies[OF sample_cells_rep _ _ nv, of 0] array_sample_alloc by auto
qed

text \<open>
  C38. Shrinking a store leaves its memory: when \<^verbatim>\<open>_CFArraySetCapacity\<close> is asked for a capacity that holds the values but is less than half of
  the present one, it copies all buckets of the old store into the smaller new one.
\<close>

theorem array_shrink_overflow:
  assumes "array_rep a xs" "arr_store a = Some d" "int (length xs) \<le> cap" "4 < dq_capacity d" "2 * cap < dq_capacity d" "arr_type a = ArrayDeque"
  shows "CFArraySetCapacity E a cap = None"
proof -
  have g: "gapped d xs 0 []" using assms(1,2,6) by (auto simp: array_rep_def array_holds_def)
  have "c < dq_capacity d" if c: "CFArrayDequeRoundUpCapacity cap = Some c" for c
  proof (cases "cap < 4")
    case False
    then have "c = 2 ^ flsl (nat cap)" using c by (simp add: CFArrayDequeRoundUpCapacity_def split: if_splits)
    moreover have "int (2 ^ flsl (nat cap)) \<le> int (2 * nat cap)" using flsl_lower[of "nat cap"] flsl_pos[of "nat cap"] False
      by (simp only: of_nat_le_iff) simp
    ultimately show ?thesis using assms(5) False by simp
  qed (use c assms(4) in \<open>simp add: CFArrayDequeRoundUpCapacity_def\<close>)
  then have "mem_move (mem_alloc (nat c)) 0 (dq_buckets d) 0 (dq_capacity d) = None" if "CFArrayDequeRoundUpCapacity cap = Some c" for c
    using that assms(4) by (fastforce simp: mem_move_def)
  then show ?thesis using assms(2,6) by (auto simp: CFArraySetCapacity_def split: bind_splits)
qed

theorem array_shrink_overflow_witness:
  "CFArraySetCapacity array_sample_env (array_sample (Some 7 # replicate 15 None) 0 1) 1 = None"
proof -
  have "array_rep (array_sample (Some 7 # replicate 15 None) 0 1) [7]" by (intro array_sample_rep) (simp_all add: holds_def)
  moreover have "arr_store (array_sample (Some 7 # replicate 15 None) 0 1) =
      Some \<lparr>dq_leftIdx = 0, dq_capacity = 16, dq_buckets = Some 7 # replicate 15 None\<rparr>" by (simp add: array_sample_def)
  ultimately show ?thesis by (rule array_shrink_overflow) (simp_all add: array_sample_def)
qed

text \<open>
  C39. The size of an immutable array is a 32-bit number: creating an array of \<open>2 ^ 29\<close> or a few less values, or more, writes past the memory
  that was asked for, whatever the callbacks are.
\<close>

theorem array_create_overflow:
  assumes "2 ^ 29 - 4 \<le> length vs"
  shows "CFArrayCreate E vs cbs = None"
proof (cases "CFArrayInit E ArrayImmutable (int (length vs)) cbs")
  case (Some a)
  have "length (arr_inline a) < length vs" by (rule init_inline(2)[OF Some assms])
  then show ?thesis using Some fill_loop_outside[of a 0 vs E] by (simp add: CFArrayCreate_def)
qed (simp add: CFArrayCreate_def)

theorem array_create_overflow_witness:
  "CFArrayCreate array_sample_env (replicate (2 ^ 29) 7) None = None"
  by (rule array_create_overflow) simp

end
