(* ===== verification/Spec2Isabelle.thy ===== *)
theory Spec2Isabelle
  imports CF_Prelude CF_Binary_Heap CF_Bit_Vector Blocks_Refcount Blocks_Runtime
    CF_Sort CF_RunLoop_State CF_RunLoop_Timers CF_RunLoop_Items CF_RunLoop_API
    CF_RunLoop_Run CF_RunLoop_Blocks CF_RunLoop_Service CF_RunLoop_Firing CF_RunLoop_Safety
    CF_RunLoop_Dealloc CF_RunLoop_Lifetime
    CF_Tree CF_Tree_Forest CF_Tree_Release CF_Tree_Spec CF_Tree_API
    CF_Array CF_Array_Deque CF_Array_Spec CF_Array_API
begin

text \<open>
  A verification library for the C code of this repository: the run loop and five smaller components of
  CoreFoundation (\<^verbatim>\<open>RunLoopSouceCode/CF-1153.18\<close>), and the blocks runtime that libdispatch carries
  (\<^verbatim>\<open>libdispatch-1008.220.2/src/BlocksRuntime\<close>). The repository collects these sources to explain how iOS
  works; the demo application around them is Objective-C.

  \<^bold>\<open>Conventions.\<close> A C function becomes a HOL function of the same name (leading underscores dropped) that passes its state
  explicitly. Undefined behaviour, a null dereference, a failed assertion and \<^verbatim>\<open>HALT\<close> are the value \<open>None\<close>;
  raw memory is a list of cells whose reads and writes are checked, so that a theorem that an operation returns
  \<open>Some\<close> also says that it stays inside its buffers. Words that wrap around are \<open>64 word\<close> or \<open>32 word\<close>, pointers are
  \<open>64 word\<close> with \<open>NULL = 0\<close>, counts and indices are \<open>nat\<close> or \<open>int\<close> with the overflow written out where
  C has it, \<^verbatim>\<open>double\<close> seconds are rationals. Calls of client code are recorded in a trace.

  \<^bold>\<open>Parts and theories.\<close>

  \<^item> \<open>CF_Prelude\<close>: checked memory, \<^verbatim>\<open>flsl\<close>, ranges, the comparator interface as the locale \<open>cf_comparator\<close>, which the heap's
    order of pointers and the order of run loop sources interpret.

  \<^item> \<open>CF_Binary_Heap\<close> (\<^verbatim>\<open>CFBinaryHeap.c\<close>): the record \<open>CFBinaryHeap\<close> with its bucket array; every operation of
    the file. The heap order is kept, adding and removing the minimum change the stored multiset by exactly
    one value, reading all values gives them sorted, retains and releases balance over every sequence of calls. The theorems about adding
    and about references are for a \<^verbatim>\<open>retain\<close> callback that answers its argument.

  \<^item> \<open>CF_Bit_Vector\<close> (\<^verbatim>\<open>CFBitVector.c\<close>): bits packed into bytes, most significant first, and the map over the buckets of
    a range that all operations share. Setting, flipping, counting, searching, extracting and resizing are
    characterised bit by bit.

  \<^item> \<open>Blocks_Refcount\<close>, \<open>Blocks_Runtime\<close> (\<^verbatim>\<open>runtime.c\<close>): the latching counters as turns of compare-and-swap loops,
    their interleavings as the step relation \<open>cas_step\<close>, which implement the abstract saturating counter \<open>count_op\<close> one
    operation after another, and copying and
    releasing blocks and \<^verbatim>\<open>__block\<close> variables on a store of objects: everything is freed exactly once, by the last
    release.

  \<^item> \<open>CF_Sort\<close> (\<^verbatim>\<open>CFSortFunctions.c\<close>, \<^verbatim>\<open>CFArraySortValues\<close>): the in-place merge sort on index arrays, its buffers and
    the bubble sort for unpaired callbacks. Both give the stable sorted arrangement, which is unique.

  \<^item> \<open>CF_Array\<close> (\<^verbatim>\<open>CFArray.c\<close>): the record \<open>CFArray\<close> with its header and, for mutable arrays, the store \<open>CFArrayDeque\<close>, whose values lie
    somewhere in the middle of its buckets. \<open>CF_Array_Deque\<close> defines which values an array holds (\<open>array_rep\<close>) and treats
    \<^verbatim>\<open>__CFArrayRepositionDequeRegions\<close>, which makes room in four ways (\<open>recenter_new\<close>, \<open>move_C\<close>, \<open>move_A\<close>, \<open>recenter\<close>), and \<^verbatim>\<open>_CFArrayReplaceValues\<close>,
    which all changes use. \<open>CF_Array_Spec\<close> gives every operation as one on lists (\<open>array_spec\<close>), with the references taken and
    given back. \<open>CF_Array_API\<close> has copies, searching, sorting in the store, and the states that calls reach (\<open>array_reach\<close>).

  \<^item> \<open>CF_Tree\<close> (\<^verbatim>\<open>CFTree.c\<close>, with \<^verbatim>\<open>CFRetain\<close> and \<^verbatim>\<open>CFRelease\<close> of \<^verbatim>\<open>CFRuntime.c\<close>): nodes with pointers to parent, next sibling, first and
    last child, and a reference count, in the store \<open>tree_heap\<close>. The specification is the record \<open>forest\<close>: the children of
    each node as a list, and the references clients hold. \<open>CF_Tree_Forest\<close> defines when a store represents a forest
    (\<open>rep\<close>) and shows it for attaching and detaching; \<open>CF_Tree_Release\<close> for the recursion in which the last release of a
    node releases its children; \<open>CF_Tree_Spec\<close> for the whole operations, the walks, sorting and contexts. \<open>CF_Tree_API\<close> puts
    the calls together as \<open>forest_step\<close>, and shows that they implement it, that nothing leaks and that data is released once.

  \<^item> \<open>CF_RunLoop_State\<close> (\<^verbatim>\<open>CFRunLoop.c\<close>): the record \<open>world\<close> holds all run loops, sources, observers and timers by address, the
    items of the block queues, the trace and the clock; modes are an association list in their run loop. Sources are members
    of sets that compare them with \<open>CFRunLoopSourceEqual\<close> (\<open>set_find\<close>, \<open>set_insert\<close>, \<open>set_remove\<close>), as \<^verbatim>\<open>CFSet\<close> does with \<^verbatim>\<open>CFEqual\<close>. The record
    \<open>env\<close> holds what the code calls but does not contain: callouts, the enumeration order of hash sets, allocation,
    waiting for a message, draining a dispatch queue, the timeout timer.

  \<^item> \<open>CF_RunLoop_Timers\<close>: clock conversions, the halving search for the place of a timer, arming the kernel timers, the
    next date of a repeating timer. The locale \<open>ordered_array\<close> is the contract of the sorted arrays of timers and
    of observers, interpreted for both.

  \<^item> \<open>CF_RunLoop_Items\<close>, \<open>CF_RunLoop_API\<close>: adding, removing, invalidating, common modes, dates; the invariant \<open>rl_inv\<close>
    (sorted arrays without duplicates, complete masks, exact counts, back references), which every call of \<open>api_step\<close>
    keeps. A source holds its run loop exactly once for every mode it is in (\<open>source_refs_exact\<close>) as long as no two different sources
    compare equal (\<open>sources_apart\<close>); without this the code loses references (\<open>equal_source_orphaned\<close>). Invalidating an
    observer is given as the whole state that results (\<open>without_observer\<close>).

  \<^item> \<open>CF_RunLoop_Run\<close>: running. \<^verbatim>\<open>__CFRunLoopDoBlocks\<close>, \<^verbatim>\<open>DoObservers\<close>, \<^verbatim>\<open>DoSources0\<close>, \<^verbatim>\<open>DoSource1\<close>, \<^verbatim>\<open>DoTimer\<close>, \<^verbatim>\<open>DoTimers\<close>,
    \<^verbatim>\<open>ServiceMachPort\<close>, and \<^verbatim>\<open>__CFRunLoopRun\<close> (\<open>CFRunLoopRunMode\<close>) split into the parts of a turn: \<open>run_sources\<close>, \<open>run_wait\<close>,
    \<open>handle_port\<close>, \<open>turn_result\<close>; then \<^verbatim>\<open>CFRunLoopRunSpecific\<close>, \<^verbatim>\<open>CFRunLoopRunInMode\<close> and \<^verbatim>\<open>CFRunLoopRun\<close>.
    \<open>CF_RunLoop_Blocks\<close> shows that the linked queue of blocks implements an abstract queue, in which the blocks that did not
    run are followed by exactly those that the blocks that ran have queued.
    \<open>CF_RunLoop_Service\<close> gives the calls of a turn and their order, and that a run that polls returns.
    \<open>CF_RunLoop_Firing\<close> treats repeating timers. \<open>CF_RunLoop_Safety\<close> shows that running keeps \<open>rl_inv\<close> whatever the
    callouts do through the interface, and what an activation restores.

  \<^item> \<open>CF_RunLoop_Dealloc\<close>: \<^verbatim>\<open>__CFRunLoopDeallocate\<close> and its four passes over the modes. Nothing keeps a reference to the run
    loop, every other run loop is as before, \<open>rl_inv\<close> still holds, and the queued blocks are released once each.

  \<^item> \<open>CF_RunLoop_Lifetime\<close>: the step relation \<open>loop_step\<close> of all that happens to run loops and their items, from the creation
    of each through the calls of \<open>api_step\<close>, queueing blocks and running to deallocation. \<open>rl_inv\<close> holds in every state reached.

  \<^bold>\<open>How the parts interact.\<close> \<^verbatim>\<open>DoSources0\<close> sorts with \<open>CFArraySortValues\<close>, so the order of sources rests on the
  stability of the sort; \<^verbatim>\<open>CFTreeSortChildren\<close> uses \<open>CFQSortArray\<close>, and its result is the stable order for the same reason; sorting an array in
  its store does what \<open>CFArraySortValues\<close> does on the list of its values. Adding an observer and removing it use the contract of the ordered arrays. The invariant
  makes the mask test of \<^verbatim>\<open>__CFRunLoopRun\<close> agree with the observers of the mode, which the trace of a run needs.

  \<^bold>\<open>Assumptions.\<close> \<open>env_ok\<close> and \<open>wait_ok\<close>: client code, and other threads while the locks are released, use the run
  loop through its functions only, so that each keeps the invariant. \<open>calm\<close>: callbacks let time pass and leave the run
  loop alone. \<open>appends_only E rl new\<close>: each callback queues the further blocks that \<open>new\<close> gives for the history of
  calls up to it, and leaves the rest of the queue alone. \<open>unused_source\<close> and its like: a new object gets memory that no run loop refers to. The \<^verbatim>\<open>hash\<close> callback of a source agrees
  with its equality, and its \<^verbatim>\<open>equal\<close> callback has no effects. \<open>lists_once\<close>: the
  enumeration of a set lists every member once. \<open>tree_env_ok\<close>: memory that an allocator returns is not in use, and there is
  some as long as less than half of the addresses are taken. \<open>tree_can\<close>: a client uses nodes it can reach, releases references it
  holds, and does not attach a node that has a parent or would close a cycle. \<open>array_can\<close>: indices lie inside
  the array, arrays stay below \<open>array_limit\<close>, and a store is not asked to shrink. Each is shown to hold of concrete surroundings.

  \<^bold>\<open>Fuel and termination.\<close> The mutual recursion of adding to and removing from the common modes has a depth
  parameter: two is enough unless the name of the common modes is itself a common mode, and then no depth is
  (\<open>common_modes_recursion\<close>). Loops that may run for ever (\<open>run_loop\<close>, \<open>wait_loop\<close>, \<open>CFRunLoopRun\<close>, the search for the next
  date, the walks over trees) are partial functions; where a theorem says that they return, it is proved. The limit of arrays is
  \<open>2 ^ 30 - 2 ^ 13\<close>: the capacity is rounded up by a shift of a 32-bit \<^verbatim>\<open>int\<close>, after spare room of at most \<open>2 ^ 13\<close> has been added.

  \<^bold>\<open>Flaws found in the code.\<close> \<^verbatim>\<open>__CFBinaryHeapEqual\<close> is inverted; \<^verbatim>\<open>CFBitVectorGetBits\<close> writes only the first byte of an
  unaligned range; \<^verbatim>\<open>__CFBitVectorEqual\<close> compares bits past the end; a negative tolerance of a repeating timer
  is stored and then converted to an unsigned number; the common modes can be made to contain themselves; \<^verbatim>\<open>CFRunLoopRemoveSource\<close>
  takes an equal source out of the mode and then works on the one it was given; \<^verbatim>\<open>_CFArraySetCapacity\<close>
  overflows the new store when it is asked to shrink the old one; the size of an immutable array is computed with 32 bits. Read off the code:
  \<^verbatim>\<open>__CFTreeDeallocate\<close> takes the children off only on macOS, so that elsewhere they leak; \<^verbatim>\<open>CFTreeSetContext\<close> treats a null
  context as one without callbacks and then dereferences it; \<^verbatim>\<open>_Block_byref_assign_copy\<close> does not check its allocation.

  \<^bold>\<open>Not modelled.\<close> Of the run loop: reference counts and the end of its memory, descriptions, the table from threads to run loops, the statistics of the
  time slept, vouchers, message buffers and replies, and the Windows and Linux branches (the model follows the macOS
  configuration, with dispatch sources for timers and the kernel's timer port too). Locks are not modelled as such: what
  other threads do while they are released is part of the callouts and waits. Rounding of \<^verbatim>\<open>double\<close> is not
  modelled. Mode names are compared by content. Of the sort: the concurrent variant, which nothing in
  CoreFoundation asks for. Of the trees: descriptions, the collector, and callbacks that change the tree they are called from.
  Of the arrays: bridging to Objective-C, the collector, fast enumeration and descriptions. Hash tables, strings, property lists, bundles, streams and the rest of CoreFoundation, the queues of
  libdispatch (lock-free code on shared memory with kernel calls), the Objective-C runtime (Objective-C++ and
  assembly), GNUstep and the demo application (Objective-C) and the \<^verbatim>\<open>*-arm64.cpp\<close> files, which a compiler generated, are
  outside the library.
\<close>

end
